(* ===== verification/Prelude.thy ===== *)
theory Prelude
  imports Main "HOL-Library.Word" "HOL-Library.Monad_Syntax" "HOL-Library.Sublist"
    "HOL-Library.Signed_Division"
begin

text \<open>
  Shared vocabulary of the development: the types that stand for the C types of the program,
  the theorem collections, the failure monad and the generic lemmas on lists and options that
  several components use.

  A C function that may read or write memory out of bounds, dereference a pointer that is not
  valid, divide by zero or run for ever is a function into \<open>'a option\<close>: \<open>None\<close> is undefined
  behaviour (or no return), so a theorem that says a call yields \<open>Some\<close> says that the call is
  memory safe and returns.
\<close>

section \<open>Types\<close>

text \<open>Addresses of objects. \<open>NULL\<close> is the null pointer.\<close>

type_synonym addr = nat

definition NULL :: addr where
  "NULL = 0"

type_synonym u8 = "8 word"
type_synonym u16 = "16 word"
type_synonym u32 = "32 word"
type_synonym bytes = "8 word list"

text \<open>The range of the C type \<open>int\<close> (32 bits on the targets of the program).\<close>

definition INT_MAX :: int where
  "INT_MAX = 2147483647"

definition INT_MIN :: int where
  "INT_MIN = - 2147483648"

definition int_range :: "int \<Rightarrow> bool" where
  "int_range i \<longleftrightarrow> INT_MIN \<le> i \<and> i \<le> INT_MAX"

section \<open>Collections\<close>

named_theorems heap_simps \<open>effect of the list primitives on the link functions\<close>
named_theorems layout \<open>unfolding of the invariants of the components\<close>

text \<open>The bytes of a string literal.\<close>

definition text_of :: "string \<Rightarrow> bytes" where
  "text_of s = map of_char s"

section \<open>Lists\<close>

lemma list_snoc_cases:
  obtains "xs = []" | ys y where "xs = ys @ [y]"
  by (cases xs rule: rev_cases) auto

lemma subseq_Cons_left: "subseq (x # xs) ys \<Longrightarrow> subseq xs ys"
  by (rule subseq_Cons')

lemma subseq_set_le: "subseq xs ys \<Longrightarrow> set xs \<subseteq> set ys"
  by (induction xs ys rule: list_emb.induct) auto

lemma subseq_distinct: "subseq xs ys \<Longrightarrow> distinct ys \<Longrightarrow> distinct xs"
  by (induction xs ys rule: list_emb.induct) (auto dest: subseq_set_le)

lemma subseq_remove1: "subseq (remove1 x xs) xs"
  by (induction xs) auto

lemma subseq_same_set: "subseq xs ys \<Longrightarrow> distinct xs \<Longrightarrow> distinct ys \<Longrightarrow> set ys \<subseteq> set xs \<Longrightarrow> xs = ys"
  using subseq_same_length[of xs ys] subseq_set_le[of xs ys]
  by (metis distinct_card subset_antisym)

lemma remove1_middle: "x \<notin> set us \<Longrightarrow> remove1 x (us @ x # vs) = us @ vs"
  by (simp add: remove1_append)

lemma take_drop_take:
  "m \<le> n \<Longrightarrow> take m xs @ take (n - m) (drop m xs) = take n xs"
  by (metis le_add_diff_inverse take_add)

section \<open>Arithmetic on \<open>int\<close> as C defines it\<close>

text \<open>Overflow of signed arithmetic and division by zero are undefined.\<close>

definition c_add :: "int \<Rightarrow> int \<Rightarrow> int option" where
  "c_add a b = (if int_range (a + b) then Some (a + b) else None)"

definition c_sub :: "int \<Rightarrow> int \<Rightarrow> int option" where
  "c_sub a b = (if int_range (a - b) then Some (a - b) else None)"

definition c_mul :: "int \<Rightarrow> int \<Rightarrow> int option" where
  "c_mul a b = (if int_range (a * b) then Some (a * b) else None)"

definition c_div :: "int \<Rightarrow> int \<Rightarrow> int option" where
  "c_div a b = (if b = 0 \<or> \<not> int_range (a sdiv b) then None else Some (a sdiv b))"

definition c_mod :: "int \<Rightarrow> int \<Rightarrow> int option" where
  "c_mod a b = (if b = 0 \<or> \<not> int_range (a sdiv b) then None else Some (a smod b))"

section \<open>Memory blocks\<close>

text \<open>
  \<open>memcpy(&dst[di], &src[si], n)\<close>: a negative \<open>n\<close> converts to a huge \<open>size_t\<close>; any access
  outside the two blocks is undefined.
\<close>

definition memcpy :: "'a list \<Rightarrow> int \<Rightarrow> 'a list \<Rightarrow> int \<Rightarrow> int \<Rightarrow> 'a list option" where
  "memcpy dst di src si n =
     (if 0 \<le> n \<and> 0 \<le> di \<and> di + n \<le> int (length dst) \<and> 0 \<le> si \<and> si + n \<le> int (length src)
      then Some (take (nat di) dst @ take (nat n) (drop (nat si) src) @ drop (nat (di + n)) dst)
      else None)"

lemma memcpy_nat:
  "di + n \<le> length dst \<Longrightarrow> si + n \<le> length src \<Longrightarrow>
   memcpy dst (int di) src (int si) (int n)
     = Some (take di dst @ take n (drop si src) @ drop (di + n) dst)"
  by (simp add: memcpy_def nat_int_add)

lemmas memcpy_from0 = memcpy_nat[where si = 0, simplified]
lemmas memcpy_to0 = memcpy_nat[where di = 0, simplified]

lemma smod_nonneg: "0 \<le> a \<Longrightarrow> 0 < b \<Longrightarrow> a smod b = a mod b" for a b :: int
  by (simp add: signed_modulo_int_def signed_divide_int_def sgn_if minus_mult_div_eq_mod)

lemma sdiv_nonneg: "0 \<le> a \<Longrightarrow> 0 < b \<Longrightarrow> a sdiv b = a div b" for a b :: int
  by (simp add: signed_divide_int_def sgn_if)

lemma div_int_range: "0 \<le> a \<Longrightarrow> a \<le> INT_MAX \<Longrightarrow> 0 < b \<Longrightarrow> int_range (a div b)" for a b :: int
proof -
  assume a: "0 \<le> a" "a \<le> INT_MAX" "0 < b"
  then have "a div b \<le> a" using zdiv_mono2[of a 1 b] by simp
  with a show ?thesis
    using pos_imp_zdiv_nonneg_iff[of b a] by (simp add: int_range_def INT_MIN_def INT_MAX_def)
qed

lemma c_mod_nonneg: "0 \<le> a \<Longrightarrow> a \<le> INT_MAX \<Longrightarrow> 0 < b \<Longrightarrow> c_mod a b = Some (a mod b)"
  by (simp add: c_mod_def smod_nonneg sdiv_nonneg div_int_range)

lemma c_div_nonneg: "0 \<le> a \<Longrightarrow> a \<le> INT_MAX \<Longrightarrow> 0 < b \<Longrightarrow> c_div a b = Some (a div b)"
  by (simp add: c_div_def sdiv_nonneg div_int_range)

section \<open>Total correctness of a call\<close>

text \<open>\<open>returns m P\<close>: the call \<open>m\<close> does not run into undefined behaviour, returns, and its result is in \<open>P\<close>.\<close>

definition returns :: "'a option \<Rightarrow> ('a \<Rightarrow> bool) \<Rightarrow> bool" where
  "returns m P \<longleftrightarrow> (\<exists>x. m = Some x \<and> P x)"

lemma returns_simps [simp]:
  "returns (Some x) P = P x" "returns None P = False"
  "returns (m \<bind> f) P = returns m (\<lambda>x. returns (f x) P)"
  by (auto simp: returns_def split: bind_splits)

lemma returns_mono: "returns m P \<Longrightarrow> (\<And>x. P x \<Longrightarrow> Q x) \<Longrightarrow> returns m Q"
  by (auto simp: returns_def)

lemma returnsE: "returns m P \<Longrightarrow> (\<And>x. m = Some x \<Longrightarrow> P x \<Longrightarrow> R) \<Longrightarrow> R"
  by (auto simp: returns_def)

end
