(* ===== verification/Circ_Buffer.thy ===== *)
theory Circ_Buffer
  imports Prelude
begin

text \<open>
  The circular byte buffer of \<open>src/src/circ_buffer.h\<close> and \<open>src/src/circ_buffer.c\<close>.

  The buffer memory is a byte list, \<open>None\<close> for the null pointer. An operation returns \<open>None\<close>
  where the C code would touch memory it must not, overflow an \<open>int\<close> or divide by zero, and
  otherwise the C return value with the new state. The abstract view is the list of bytes held,
  oldest first; a locale states the contract of a bounded byte queue, and the circular buffer
  is shown to provide it.
\<close>

section \<open>State and operations\<close>

record circ_buffer =
  cb_buffer :: "bytes option"
  cb_size :: int
  cb_data_size :: int
  cb_begin :: int
  cb_end :: int

text \<open>\<open>mem\<close> is what \<open>malloc\<close> returned: a block of \<open>size\<close> bytes, or \<open>None\<close>.\<close>

definition circ_buffer_init :: "bytes option \<Rightarrow> int \<Rightarrow> int \<times> circ_buffer" where
  "circ_buffer_init mem sz =
     (let cb = \<lparr>cb_buffer = mem, cb_size = 0, cb_data_size = 0, cb_begin = 0, cb_end = 0\<rparr>
      in if cb_buffer cb = None then (-1, cb) else (0, cb\<lparr>cb_size := sz\<rparr>))"

definition circ_buffer_init_with_mem :: "bytes \<Rightarrow> int \<Rightarrow> circ_buffer" where
  "circ_buffer_init_with_mem buf sz =
     \<lparr>cb_buffer = Some buf, cb_size = sz, cb_data_size = 0, cb_begin = 0, cb_end = 0\<rparr>"

definition circ_buffer_deinit :: "circ_buffer \<Rightarrow> circ_buffer" where
  "circ_buffer_deinit cb = (if cb_buffer cb \<noteq> None then cb\<lparr>cb_buffer := None\<rparr> else cb)"

definition circ_buffer_reset :: "circ_buffer \<Rightarrow> circ_buffer" where
  "circ_buffer_reset cb = cb\<lparr>cb_begin := 0, cb_end := 0, cb_data_size := 0\<rparr>"

definition circ_buffer_get_data_size :: "circ_buffer \<Rightarrow> int" where
  "circ_buffer_get_data_size cb = cb_data_size cb"

definition circ_buffer_get_size :: "circ_buffer \<Rightarrow> int" where
  "circ_buffer_get_size cb = cb_size cb"

definition circ_buffer_is_full :: "circ_buffer \<Rightarrow> bool" where
  "circ_buffer_is_full cb \<longleftrightarrow> cb_data_size cb = cb_size cb"

definition circ_buffer_is_empty :: "circ_buffer \<Rightarrow> bool" where
  "circ_buffer_is_empty cb \<longleftrightarrow> cb_data_size cb = 0"

definition circ_buffer_put :: "circ_buffer \<Rightarrow> bytes \<Rightarrow> int \<Rightarrow> (int \<times> circ_buffer) option" where
  "circ_buffer_put cb buf sz = do {
     t \<leftarrow> c_add (cb_data_size cb) sz;
     if t > cb_size cb then Some (-1, cb)
     else do {
       b \<leftarrow> cb_buffer cb;
       u \<leftarrow> c_add (cb_end cb) sz;
       b \<leftarrow> (if u > cb_size cb then do {
           begin_len \<leftarrow> c_sub (cb_size cb) (cb_end cb);
           b \<leftarrow> memcpy b (cb_end cb) buf 0 begin_len;
           memcpy b 0 buf begin_len (sz - begin_len)
         } else memcpy b (cb_end cb) buf 0 sz);
       e \<leftarrow> c_mod u (cb_size cb);
       Some (0, cb\<lparr>cb_buffer := Some b, cb_end := e, cb_data_size := t\<rparr>)
     }
   }"

text \<open>The copy out of the buffer that \<open>get\<close> and \<open>peek\<close> both write out.\<close>

definition circ_buffer_copy_out :: "circ_buffer \<Rightarrow> bytes \<Rightarrow> int \<Rightarrow> bytes option" where
  "circ_buffer_copy_out cb buf sz = do {
     b \<leftarrow> cb_buffer cb;
     u \<leftarrow> c_add (cb_begin cb) sz;
     if u \<le> cb_size cb then memcpy buf 0 b (cb_begin cb) sz
     else do {
       begin_len \<leftarrow> c_sub (cb_size cb) (cb_begin cb);
       buf \<leftarrow> memcpy buf 0 b (cb_begin cb) begin_len;
       memcpy buf begin_len b 0 (sz - begin_len)
     }
   }"

definition circ_buffer_get ::
  "circ_buffer \<Rightarrow> bytes \<Rightarrow> int \<Rightarrow> (int \<times> circ_buffer \<times> bytes) option" where
  "circ_buffer_get cb buf sz = do {
     d \<leftarrow> c_sub (cb_data_size cb) sz;
     if d < 0 then Some (-1, cb, buf)
     else do {
       buf \<leftarrow> circ_buffer_copy_out cb buf sz;
       u \<leftarrow> c_add (cb_begin cb) sz;
       e \<leftarrow> c_mod u (cb_size cb);
       Some (0, cb\<lparr>cb_begin := e, cb_data_size := d\<rparr>, buf)
     }
   }"

definition circ_buffer_advance :: "circ_buffer \<Rightarrow> int \<Rightarrow> (int \<times> circ_buffer) option" where
  "circ_buffer_advance cb sz = do {
     d \<leftarrow> c_sub (cb_data_size cb) sz;
     if d < 0 then Some (-1, cb)
     else do {
       u \<leftarrow> c_add (cb_begin cb) sz;
       e \<leftarrow> c_mod u (cb_size cb);
       Some (0, cb\<lparr>cb_begin := e, cb_data_size := d\<rparr>)
     }
   }"

definition circ_buffer_peek :: "circ_buffer \<Rightarrow> bytes \<Rightarrow> int \<Rightarrow> (int \<times> bytes) option" where
  "circ_buffer_peek cb buf sz = do {
     d \<leftarrow> c_sub (cb_data_size cb) sz;
     if d < 0 then Some (-1, buf)
     else do {
       buf \<leftarrow> circ_buffer_copy_out cb buf sz;
       Some (0, buf)
     }
   }"

section \<open>Invariant and abstract view\<close>

text \<open>\<open>end\<close> is where \<open>data_size\<close> bytes from \<open>begin\<close> lead; index sums must fit an \<open>int\<close>.\<close>

definition circ_ok :: "circ_buffer \<Rightarrow> bool" where
  "circ_ok cb \<longleftrightarrow> (\<exists>b. cb_buffer cb = Some b \<and> int (length b) = cb_size cb)
     \<and> 0 < cb_size cb \<and> 2 * cb_size cb \<le> INT_MAX
     \<and> 0 \<le> cb_begin cb \<and> cb_begin cb < cb_size cb
     \<and> 0 \<le> cb_data_size cb \<and> cb_data_size cb \<le> cb_size cb
     \<and> cb_end cb = (cb_begin cb + cb_data_size cb) mod cb_size cb"

definition contents :: "circ_buffer \<Rightarrow> bytes" where
  "contents cb = take (nat (cb_data_size cb))
     (rotate (nat (cb_begin cb)) (case cb_buffer cb of None \<Rightarrow> [] | Some b \<Rightarrow> b))"

section \<open>Rotation lemmas\<close>

lemma rotate_le: "n \<le> length xs \<Longrightarrow> rotate n xs = drop n xs @ take n xs"
  by (cases "n = length xs") (simp_all add: rotate_drop_take)

lemma take_rotate_drop:
  "m + n \<le> length xs \<Longrightarrow> take m (rotate n xs) = drop n (take (m + n) xs)"
  by (simp add: rotate_le drop_take)

text \<open>Writing \<open>src\<close> from index \<open>e\<close> on, around the end of the block.\<close>

definition wrap_write :: "bytes \<Rightarrow> nat \<Rightarrow> bytes \<Rightarrow> bytes" where
  "wrap_write b e src =
     (if e + length src \<le> length b then take e b @ src @ drop (e + length src) b
      else let k = length b - e in drop k src @ drop (length src - k) (take e b) @ take k src)"

lemma length_wrap_write:
  "e \<le> length b \<Longrightarrow> length src \<le> length b \<Longrightarrow> length (wrap_write b e src) = length b"
  by (auto simp: wrap_write_def Let_def)

lemma rotate_wrap_write:
  assumes "e \<le> length b" "length src \<le> length b"
  shows "rotate e (wrap_write b e src) = src @ drop (length src) (rotate e b)"
proof (cases "e + length src \<le> length b")
  case True
  then show ?thesis using assms by (simp add: wrap_write_def rotate_le add.commute)
next
  case False
  let ?k = "length b - e"
  have "length (drop ?k src @ drop (length src - ?k) (take e b)) = e" using False assms by auto
  then show ?thesis
    using False assms length_wrap_write[OF assms] by (simp add: wrap_write_def Let_def rotate_le)
qed

lemma take_wrap_write:
  assumes "ds + length src \<le> length b" "k < length b"
  shows "take (ds + length src) (rotate k (wrap_write b ((k + ds) mod length b) src))
    = take ds (rotate k b) @ src"
proof -
  let ?e = "(k + ds) mod length b" and ?n = "length src"
  let ?b = "wrap_write b ?e src"
  have e: "?e \<le> length b" "?n \<le> length b"
    using assms mod_less_divisor[of "length b" "k + ds"] by linarith+
  then have len: "length ?b = length b" by (rule length_wrap_write)
  have rot: "rotate ds (rotate k x) = rotate ?e x" if "length x = length b" for x :: bytes
    using that rotate_conv_mod[of "k + ds" x] by (simp add: rotate_rotate add.commute)
  have "drop ds (rotate k ?b) @ take ds (rotate k ?b) = rotate ?e ?b"
    using rot[OF len] len assms rotate_le[of ds "rotate k ?b"] by simp
  also have "\<dots> = src @ drop ?n (rotate ?e b)" by (rule rotate_wrap_write[OF e])
  also have "rotate ?e b = drop ds (rotate k b) @ take ds (rotate k b)"
    using rot[OF refl] assms rotate_le[of ds "rotate k b"] by simp
  also have "drop ?n (drop ds (rotate k b) @ take ds (rotate k b))
    = drop ?n (drop ds (rotate k b)) @ take ds (rotate k b)"
    using assms by simp
  finally have "drop ds (rotate k ?b) @ take ds (rotate k ?b)
    = (src @ drop ?n (drop ds (rotate k b))) @ take ds (rotate k b)" by simp
  moreover have "length (take ds (rotate k ?b)) = length (take ds (rotate k b))" using len by simp
  ultimately have "drop ds (rotate k ?b) = src @ drop ?n (drop ds (rotate k b))
    \<and> take ds (rotate k ?b) = take ds (rotate k b)"
    by (metis append_eq_append_conv)
  then show ?thesis by (simp add: take_add)
qed

section \<open>Behaviour of the operations\<close>

lemma circ_okE:
  assumes "circ_ok cb"
  obtains b ds k where "cb = \<lparr>cb_buffer = Some b, cb_size = int (length b), cb_data_size = int ds,
      cb_begin = int k, cb_end = int ((k + ds) mod length b)\<rparr>"
    and "k < length b" "ds \<le> length b" "2 * int (length b) \<le> INT_MAX"
proof -
  obtain b where b: "cb_buffer cb = Some b" "cb_size cb = int (length b)"
    using assms by (auto simp: circ_ok_def)
  obtain ds k where k: "cb_data_size cb = int ds" "cb_begin cb = int k"
    using assms nonneg_int_cases unfolding circ_ok_def by metis
  have "cb = \<lparr>cb_buffer = Some b, cb_size = int (length b), cb_data_size = int ds,
      cb_begin = int k, cb_end = int ((k + ds) mod length b)\<rparr>"
    using assms b k by (cases cb) (simp add: circ_ok_def zmod_int)
  then show ?thesis using that assms b k by (simp add: circ_ok_def)
qed

lemma circ_ok_intro:
  "k < length b \<Longrightarrow> ds \<le> length b \<Longrightarrow> 2 * int (length b) \<le> INT_MAX \<Longrightarrow> e = (k + ds) mod length b \<Longrightarrow>
   circ_ok \<lparr>cb_buffer = Some b, cb_size = int (length b), cb_data_size = int ds,
      cb_begin = int k, cb_end = int e\<rparr>"
  by (auto simp: circ_ok_def zmod_int)

lemma length_contents: "circ_ok cb \<Longrightarrow> length (contents cb) = nat (cb_data_size cb)"
  by (erule circ_okE) (simp add: contents_def)

text \<open>Sums of non-negative values below the bound do not overflow.\<close>

lemma c_add_nat: "int m + int n \<le> INT_MAX \<Longrightarrow> c_add (int m) (int n) = Some (int m + int n)"
  by (simp add: c_add_def int_range_def INT_MIN_def)

lemma c_sub_nat: "int m \<le> INT_MAX \<Longrightarrow> int n \<le> INT_MAX \<Longrightarrow> c_sub (int m) (int n) = Some (int m - int n)"
  by (simp add: c_sub_def int_range_def INT_MIN_def INT_MAX_def)

lemma circ_buffer_put_fits:
  assumes ok: "circ_ok cb" and n: "n \<le> length buf" and fits: "cb_data_size cb + int n \<le> cb_size cb"
  shows "\<exists>cb'. circ_buffer_put cb buf (int n) = Some (0, cb') \<and> circ_ok cb'
    \<and> contents cb' = contents cb @ take n buf \<and> cb_size cb' = cb_size cb"
  using ok
proof (rule circ_okE)
  fix b ds k
  assume cb: "cb = \<lparr>cb_buffer = Some b, cb_size = int (length b), cb_data_size = int ds,
      cb_begin = int k, cb_end = int ((k + ds) mod length b)\<rparr>"
    and le: "k < length b" "ds \<le> length b" "2 * int (length b) \<le> INT_MAX"
  obtain e where ed: "e = (k + ds) mod length b" by blast
  with cb have cb_e: "cb = \<lparr>cb_buffer = Some b, cb_size = int (length b), cb_data_size = int ds,
      cb_begin = int k, cb_end = int e\<rparr>" by simp
  let ?src = "take n buf"
  let ?b = "wrap_write b e ?src" and ?cb = "\<lambda>b'. \<lparr>cb_buffer = Some b', cb_size = int (length b),
      cb_data_size = int (ds + n), cb_begin = int k, cb_end = int ((k + (ds + n)) mod length b)\<rparr>"
  have e: "e < length b" unfolding ed using le by (intro mod_less_divisor) auto
  have fit: "ds + n \<le> length b" using fits cb by simp
  have adds: "c_add (int ds) (int n) = Some (int (ds + n))" "c_add (int e) (int n) = Some (int (e + n))"
    "c_sub (int (length b)) (int e) = Some (int (length b - e))"
    using e le fit by (simp_all add: c_add_nat c_sub_nat of_nat_diff)
  have md: "c_mod (int (e + n)) (int (length b)) = Some (int ((k + (ds + n)) mod length b))"
  proof -
    have "c_mod (int (x + n)) (int (length b)) = Some (int ((x + n) mod length b))"
      if "x < length b" for x
      using that le fit by (subst c_mod_nonneg) (auto simp: zmod_int)
    from this[OF e] show ?thesis by (simp add: ed mod_simps add.assoc)
  qed
  have "circ_buffer_put cb buf (int n) = Some (0, ?cb ?b)"
  proof (cases "e + n \<le> length b")
    case True
    then have "memcpy b (int e) buf 0 (int n) = Some ?b"
      using n e by (simp add: memcpy_from0 wrap_write_def)
    with True show ?thesis using fit
      by (simp add: circ_buffer_put_def cb_e adds md del: of_nat_add)
  next
    case False
    obtain m where m: "length b = e + m" "length b - e = m" using e by (metis diff_add_inverse le_Suc_ex less_imp_le)
    with False have mn: "m \<le> n" by simp
    have "memcpy b (int e) buf 0 (int m) = Some (take e b @ take m buf)"
      using m mn n by (simp add: memcpy_from0)
    moreover have "memcpy (take e b @ take m buf) 0 buf (int m) (int (n - m)) = Some ?b"
    proof -
      have "n - m \<le> e" "e + m \<le> length b" using fit m by auto
      then have "memcpy (take e b @ take m buf) 0 buf (int m) (int (n - m))
        = Some (take (n - m) (drop m buf) @ drop (n - m) (take e b @ take m buf))"
        using mn n m by (subst memcpy_to0) auto
      then show ?thesis using False n m mn \<open>n - m \<le> e\<close>
        by (simp add: wrap_write_def drop_take)
    qed
    moreover have "int n - int m = int (n - m)" using mn by simp
    ultimately show ?thesis using fit False adds[unfolded m(2)]
      by (simp add: circ_buffer_put_def cb_e md del: of_nat_add of_nat_diff)
  qed
  moreover have "length ?b = length b" using e n fit by (intro length_wrap_write) auto
  then have "circ_ok (?cb ?b)" using circ_ok_intro[of k ?b "ds + n"] le fit by simp
  moreover have "contents (?cb ?b) = contents cb @ ?src"
    using take_wrap_write[of ds ?src b k] n fit le(1) by (simp add: contents_def cb ed nat_int_add)
  ultimately show ?thesis by (auto simp: cb)
qed

lemma circ_buffer_put_full:
  assumes "circ_ok cb" "cb_data_size cb + n > cb_size cb" "cb_size cb + n \<le> INT_MAX"
  shows "circ_buffer_put cb buf n = Some (-1, cb)"
  using assms by (simp add: circ_buffer_put_def circ_ok_def c_add_def int_range_def INT_MIN_def)

lemma circ_buffer_copy_out_ok:
  assumes ok: "circ_ok cb" and n: "n \<le> length buf" and fits: "int n \<le> cb_data_size cb"
  shows "circ_buffer_copy_out cb buf (int n) = Some (take n (contents cb) @ drop n buf)"
  using ok
proof (rule circ_okE)
  fix b ds k
  assume cb: "cb = \<lparr>cb_buffer = Some b, cb_size = int (length b), cb_data_size = int ds,
      cb_begin = int k, cb_end = int ((k + ds) mod length b)\<rparr>"
    and le: "k < length b" "ds \<le> length b" "2 * int (length b) \<le> INT_MAX"
  have fit: "n \<le> ds" using fits cb by simp
  have c: "take n (contents cb) = take n (drop k b @ take k b)"
    using le fit by (simp add: contents_def cb rotate_le min_def)
  have adds: "c_add (int k) (int n) = Some (int (k + n))"
    "c_sub (int (length b)) (int k) = Some (int (length b - k))"
    using le fit by (simp_all add: c_add_nat c_sub_nat of_nat_diff)
  show ?thesis
  proof (cases "k + n \<le> length b")
    case True
    then show ?thesis using n c fit le
      by (simp add: circ_buffer_copy_out_def cb adds memcpy_to0 del: of_nat_add)
  next
    case False
    obtain m where m: "length b = k + m" "length b - k = m" using le(1) by (metis diff_add_inverse le_Suc_ex less_imp_le)
    with False have mn: "m \<le> n" by simp
    have "memcpy buf 0 b (int k) (int m) = Some (drop k b @ drop m buf)"
      using m mn n by (simp add: memcpy_to0)
    moreover have "memcpy (drop k b @ drop m buf) (int m) b 0 (int (n - m))
      = Some (drop k b @ take (n - m) b @ drop n buf)"
      using m mn n fit le by (subst memcpy_from0) auto
    moreover have "n - m \<le> k" using le fit m by simp
    then have "take (n - m) b = take (n - m) (take k b)" by (simp add: min_def)
    moreover have "int n - int m = int (n - m)" using mn by simp
    ultimately show ?thesis using False c le m(2) adds[unfolded m(2)]
      by (simp add: circ_buffer_copy_out_def cb del: of_nat_add of_nat_diff)
  qed
qed

lemma circ_buffer_advance_ok:
  assumes ok: "circ_ok cb" and fits: "int n \<le> cb_data_size cb"
  shows "\<exists>cb'. circ_buffer_advance cb (int n) = Some (0, cb') \<and> circ_ok cb'
    \<and> contents cb' = drop n (contents cb) \<and> cb_size cb' = cb_size cb
    \<and> c_sub (cb_data_size cb) (int n) = Some (cb_data_size cb')
    \<and> c_add (cb_begin cb) (int n) \<bind> (\<lambda>u. c_mod u (cb_size cb)) = Some (cb_begin cb')
    \<and> cb' = cb\<lparr>cb_begin := cb_begin cb', cb_data_size := cb_data_size cb'\<rparr>
    \<and> 0 \<le> cb_data_size cb'"
  using ok
proof (rule circ_okE)
  fix b ds k
  assume cb: "cb = \<lparr>cb_buffer = Some b, cb_size = int (length b), cb_data_size = int ds,
      cb_begin = int k, cb_end = int ((k + ds) mod length b)\<rparr>"
    and le: "k < length b" "ds \<le> length b" "2 * int (length b) \<le> INT_MAX"
  have fit: "n \<le> ds" using fits cb by simp
  let ?k = "(k + n) mod length b"
  let ?cb = "\<lparr>cb_buffer = Some b, cb_size = int (length b), cb_data_size = int (ds - n),
      cb_begin = int ?k, cb_end = int ((k + ds) mod length b)\<rparr>"
  have k: "?k < length b" using le by (intro mod_less_divisor) auto
  have ops: "c_sub (int ds) (int n) = Some (int (ds - n))" "c_add (int k) (int n) = Some (int (k + n))"
    using le fit by (simp_all add: c_add_nat c_sub_nat of_nat_diff)
  have md: "c_mod (int (k + n)) (int (length b)) = Some (int ?k)"
    using le fit by (subst c_mod_nonneg) (auto simp: zmod_int)
  have "(?k + (ds - n)) mod length b = (k + ds) mod length b"
    using fit by (metis mod_add_left_eq add.assoc le_add_diff_inverse)
  then have "circ_ok ?cb" using circ_ok_intro[of ?k b "ds - n"] k le by simp
  moreover have "contents ?cb = drop n (contents cb)"
  proof -
    have "rotate ?k b = rotate n (rotate k b)"
      using rotate_conv_mod[of "k + n" b] by (simp add: rotate_rotate add.commute)
    then show ?thesis using le fit take_rotate_drop[of "ds - n" n "rotate k b"]
      by (simp add: contents_def cb del: of_nat_diff)
  qed
  moreover have "circ_buffer_advance cb (int n) = Some (0, ?cb)"
    by (simp add: circ_buffer_advance_def cb ops md del: of_nat_add of_nat_diff)
  ultimately show ?thesis
    by (intro exI[of _ ?cb]) (simp add: cb ops md del: of_nat_add of_nat_diff)
qed

lemma circ_buffer_peek_ok:
  assumes "circ_ok cb" "n \<le> length buf" "int n \<le> cb_data_size cb"
  shows "circ_buffer_peek cb buf (int n) = Some (0, take n (contents cb) @ drop n buf)"
proof -
  obtain d where "c_sub (cb_data_size cb) (int n) = Some d" "0 \<le> d"
    using circ_buffer_advance_ok[OF assms(1,3)] by blast
  then show ?thesis using circ_buffer_copy_out_ok[OF assms] by (simp add: circ_buffer_peek_def)
qed

lemma circ_buffer_get_ok:
  assumes "circ_ok cb" "n \<le> length buf" "int n \<le> cb_data_size cb"
  shows "\<exists>cb'. circ_buffer_get cb buf (int n) = Some (0, cb', take n (contents cb) @ drop n buf)
    \<and> circ_ok cb' \<and> contents cb' = drop n (contents cb) \<and> cb_size cb' = cb_size cb"
proof -
  obtain cb' where cb': "circ_ok cb'" "contents cb' = drop n (contents cb)" "cb_size cb' = cb_size cb"
    "c_sub (cb_data_size cb) (int n) = Some (cb_data_size cb')"
    "c_add (cb_begin cb) (int n) \<bind> (\<lambda>u. c_mod u (cb_size cb)) = Some (cb_begin cb')"
    "cb' = cb\<lparr>cb_begin := cb_begin cb', cb_data_size := cb_data_size cb'\<rparr>" "0 \<le> cb_data_size cb'"
    using circ_buffer_advance_ok[OF assms(1,3)] by blast
  then obtain u where "c_add (cb_begin cb) (int n) = Some u" "c_mod u (cb_size cb) = Some (cb_begin cb')"
    by (auto simp: bind_eq_Some_conv)
  then have "circ_buffer_get cb buf (int n) = Some (0, cb', take n (contents cb) @ drop n buf)"
    using circ_buffer_copy_out_ok[OF assms] cb'(4,6,7) by (simp add: circ_buffer_get_def)
  with cb' show ?thesis by blast
qed

text \<open>Asking for more than is held: the error return, and nothing changes.\<close>

lemma circ_buffer_short:
  assumes "circ_ok cb" "cb_data_size cb < n" "n \<le> INT_MAX"
  shows "circ_buffer_get cb buf n = Some (-1, cb, buf)" "circ_buffer_peek cb buf n = Some (-1, buf)"
    "circ_buffer_advance cb n = Some (-1, cb)"
  using assms by (simp_all add: circ_buffer_get_def circ_buffer_peek_def circ_buffer_advance_def
      circ_ok_def c_sub_def int_range_def INT_MIN_def INT_MAX_def)

section \<open>The contract: a bounded queue of bytes\<close>

text \<open>One call of a client, and the specification of its answer: return code and bytes read.\<close>

datatype queue_op = Q_put bytes | Q_get nat | Q_peek nat | Q_advance nat

fun op_size :: "queue_op \<Rightarrow> nat" where
  "op_size (Q_put bs) = length bs"
| "op_size (Q_get n) = n"
| "op_size (Q_peek n) = n"
| "op_size (Q_advance n) = n"

fun fifo_step :: "int \<Rightarrow> queue_op \<Rightarrow> bytes \<Rightarrow> (int \<times> bytes) \<times> bytes" where
  "fifo_step cap (Q_put bs) q =
     (if int (length q) + int (length bs) \<le> cap then ((0, []), q @ bs) else ((-1, []), q))"
| "fifo_step cap (Q_get n) q =
     (if n \<le> length q then ((0, take n q), drop n q) else ((-1, replicate n 0), q))"
| "fifo_step cap (Q_peek n) q =
     (if n \<le> length q then ((0, take n q), q) else ((-1, replicate n 0), q))"
| "fifo_step cap (Q_advance n) q =
     (if n \<le> length q then ((0, []), drop n q) else ((-1, []), q))"

fun fifo_run :: "int \<Rightarrow> queue_op list \<Rightarrow> bytes \<Rightarrow> (int \<times> bytes) list \<times> bytes" where
  "fifo_run cap [] q = ([], q)"
| "fifo_run cap (x # xs) q =
     (let (r, q') = fifo_step cap x q; (rs, q'') = fifo_run cap xs q' in (r # rs, q''))"

text \<open>The same calls made on an implementation; \<open>get\<close> and \<open>peek\<close> read into a zeroed block.\<close>

fun queue_step ::
  "('q \<Rightarrow> bytes \<Rightarrow> int \<Rightarrow> (int \<times> 'q) option) \<Rightarrow> ('q \<Rightarrow> bytes \<Rightarrow> int \<Rightarrow> (int \<times> 'q \<times> bytes) option) \<Rightarrow>
   ('q \<Rightarrow> bytes \<Rightarrow> int \<Rightarrow> (int \<times> bytes) option) \<Rightarrow> ('q \<Rightarrow> int \<Rightarrow> (int \<times> 'q) option) \<Rightarrow>
   queue_op \<Rightarrow> 'q \<Rightarrow> ((int \<times> bytes) \<times> 'q) option" where
  "queue_step put get peek advance (Q_put bs) q = do {
     (r, q) \<leftarrow> put q bs (int (length bs)); Some ((r, []), q) }"
| "queue_step put get peek advance (Q_get n) q = do {
     (r, q, out) \<leftarrow> get q (replicate n 0) (int n); Some ((r, out), q) }"
| "queue_step put get peek advance (Q_peek n) q = do {
     (r, out) \<leftarrow> peek q (replicate n 0) (int n); Some ((r, out), q) }"
| "queue_step put get peek advance (Q_advance n) q = do {
     (r, q) \<leftarrow> advance q (int n); Some ((r, []), q) }"

fun queue_run ::
  "(queue_op \<Rightarrow> 'q \<Rightarrow> ((int \<times> bytes) \<times> 'q) option) \<Rightarrow> queue_op list \<Rightarrow> 'q \<Rightarrow>
   ((int \<times> bytes) list \<times> 'q) option" where
  "queue_run step [] q = Some ([], q)"
| "queue_run step (x # xs) q = do {
     (r, q) \<leftarrow> step x q; (rs, q) \<leftarrow> queue_run step xs q; Some (r # rs, q) }"

locale byte_queue =
  fixes ok :: "'q \<Rightarrow> bool" and held :: "'q \<Rightarrow> bytes" and capacity :: "'q \<Rightarrow> int"
    and put :: "'q \<Rightarrow> bytes \<Rightarrow> int \<Rightarrow> (int \<times> 'q) option"
    and get :: "'q \<Rightarrow> bytes \<Rightarrow> int \<Rightarrow> (int \<times> 'q \<times> bytes) option"
    and peek :: "'q \<Rightarrow> bytes \<Rightarrow> int \<Rightarrow> (int \<times> bytes) option"
    and advance :: "'q \<Rightarrow> int \<Rightarrow> (int \<times> 'q) option"
  assumes put_fits: "ok q \<Longrightarrow> n \<le> length buf \<Longrightarrow> int (length (held q)) + int n \<le> capacity q \<Longrightarrow>
      \<exists>q'. put q buf (int n) = Some (0, q') \<and> ok q' \<and> held q' = held q @ take n buf \<and> capacity q' = capacity q"
    and put_full: "ok q \<Longrightarrow> int (length (held q)) + i > capacity q \<Longrightarrow> capacity q + i \<le> INT_MAX \<Longrightarrow>
      put q buf i = Some (-1, q)"
    and get_ok: "ok q \<Longrightarrow> n \<le> length buf \<Longrightarrow> n \<le> length (held q) \<Longrightarrow>
      \<exists>q'. get q buf (int n) = Some (0, q', take n (held q) @ drop n buf) \<and> ok q'
        \<and> held q' = drop n (held q) \<and> capacity q' = capacity q"
    and peek_ok: "ok q \<Longrightarrow> n \<le> length buf \<Longrightarrow> n \<le> length (held q) \<Longrightarrow>
      peek q buf (int n) = Some (0, take n (held q) @ drop n buf)"
    and advance_ok: "ok q \<Longrightarrow> n \<le> length (held q) \<Longrightarrow>
      \<exists>q'. advance q (int n) = Some (0, q') \<and> ok q' \<and> held q' = drop n (held q) \<and> capacity q' = capacity q"
    and short: "ok q \<Longrightarrow> int (length (held q)) < i \<Longrightarrow> i \<le> INT_MAX \<Longrightarrow>
      get q buf i = Some (-1, q, buf) \<and> peek q buf i = Some (-1, buf) \<and> advance q i = Some (-1, q)"
begin

lemma step_refines:
  assumes "ok q" "int (op_size x) + capacity q \<le> INT_MAX" "int (op_size x) \<le> INT_MAX"
  shows "\<exists>r q'. queue_step put get peek advance x q = Some (r, q') \<and> ok q' \<and> capacity q' = capacity q
    \<and> fifo_step (capacity q) x (held q) = (r, held q')"
proof (cases x)
  case (Q_put bs)
  then show ?thesis
    using assms put_fits[of q "length bs" bs] put_full[of q "int (length bs)" bs]
    by (cases "int (length (held q)) + int (length bs) \<le> capacity q") (auto simp: algebra_simps)
next
  case (Q_get n)
  then show ?thesis using assms get_ok[of q n "replicate n 0"] short[of q "int n" "replicate n 0"]
    by (cases "n \<le> length (held q)") auto
next
  case (Q_peek n)
  then show ?thesis using assms peek_ok[of q n "replicate n 0"] short[of q "int n" "replicate n 0"]
    by (cases "n \<le> length (held q)") auto
next
  case (Q_advance n)
  then show ?thesis using assms advance_ok[of q n] short[of q "int n" "[]"]
    by (cases "n \<le> length (held q)") auto
qed

lemma run_refines:
  "ok q \<Longrightarrow> \<forall>x\<in>set xs. int (op_size x) + capacity q \<le> INT_MAX \<and> int (op_size x) \<le> INT_MAX \<Longrightarrow>
   \<exists>rs q'. queue_run (queue_step put get peek advance) xs q = Some (rs, q') \<and> ok q'
     \<and> capacity q' = capacity q \<and> fifo_run (capacity q) xs (held q) = (rs, held q')"
proof (induction xs arbitrary: q)
  case Nil
  then show ?case by simp
next
  case (Cons x xs)
  obtain r q1 where q1: "queue_step put get peek advance x q = Some (r, q1)" "ok q1"
    "capacity q1 = capacity q" "fifo_step (capacity q) x (held q) = (r, held q1)"
    using step_refines[of q x] Cons.prems by auto
  obtain rs q2 where "queue_run (queue_step put get peek advance) xs q1 = Some (rs, q2)" "ok q2"
    "capacity q2 = capacity q1" "fifo_run (capacity q1) xs (held q1) = (rs, held q2)"
    using Cons.IH[OF q1(2)] Cons.prems(2) q1(3) by auto
  with q1 show ?case by simp
qed

end

text \<open>The circular buffer provides the contract.\<close>

lemma nat_data_size: "circ_ok cb \<Longrightarrow> int (length (contents cb)) = cb_data_size cb"
  by (simp add: length_contents circ_ok_def)

interpretation circ: byte_queue circ_ok contents cb_size circ_buffer_put circ_buffer_get
    circ_buffer_peek circ_buffer_advance
proof
  fix q :: circ_buffer and buf :: bytes and n :: nat and i :: int
  show "circ_ok q \<Longrightarrow> n \<le> length buf \<Longrightarrow> int (length (contents q)) + int n \<le> cb_size q \<Longrightarrow>
      \<exists>q'. circ_buffer_put q buf (int n) = Some (0, q') \<and> circ_ok q'
        \<and> contents q' = contents q @ take n buf \<and> cb_size q' = cb_size q"
    using circ_buffer_put_fits[of q n buf] by (simp add: nat_data_size)
  show "circ_ok q \<Longrightarrow> int (length (contents q)) + i > cb_size q \<Longrightarrow> cb_size q + i \<le> INT_MAX \<Longrightarrow>
      circ_buffer_put q buf i = Some (-1, q)"
    using circ_buffer_put_full[of q i buf] by (simp add: nat_data_size)
  show "circ_ok q \<Longrightarrow> n \<le> length buf \<Longrightarrow> n \<le> length (contents q) \<Longrightarrow>
      \<exists>q'. circ_buffer_get q buf (int n) = Some (0, q', take n (contents q) @ drop n buf) \<and> circ_ok q'
        \<and> contents q' = drop n (contents q) \<and> cb_size q' = cb_size q"
    using circ_buffer_get_ok[of q n buf] nat_data_size[of q] by simp
  show "circ_ok q \<Longrightarrow> n \<le> length buf \<Longrightarrow> n \<le> length (contents q) \<Longrightarrow>
      circ_buffer_peek q buf (int n) = Some (0, take n (contents q) @ drop n buf)"
    using circ_buffer_peek_ok[of q n buf] nat_data_size[of q] by simp
  show "circ_ok q \<Longrightarrow> n \<le> length (contents q) \<Longrightarrow>
      \<exists>q'. circ_buffer_advance q (int n) = Some (0, q') \<and> circ_ok q'
        \<and> contents q' = drop n (contents q) \<and> cb_size q' = cb_size q"
    using circ_buffer_advance_ok[of q n] nat_data_size[of q] by auto
  show "circ_ok q \<Longrightarrow> int (length (contents q)) < i \<Longrightarrow> i \<le> INT_MAX \<Longrightarrow>
      circ_buffer_get q buf i = Some (-1, q, buf) \<and> circ_buffer_peek q buf i = Some (-1, buf)
        \<and> circ_buffer_advance q i = Some (-1, q)"
    using circ_buffer_short[of q i] by (simp add: nat_data_size)
qed

lemma circ_buffer_init_ok:
  assumes "length mem = n" "0 < n" "2 * int n \<le> INT_MAX"
  shows "fst (circ_buffer_init (Some mem) (int n)) = 0"
    and "circ_ok (snd (circ_buffer_init (Some mem) (int n)))"
    and "contents (snd (circ_buffer_init (Some mem) (int n))) = []"
    and "cb_size (snd (circ_buffer_init (Some mem) (int n))) = int n"
  using assms by (simp_all add: circ_buffer_init_def circ_ok_def contents_def)

lemma circ_buffer_reset_ok:
  "circ_ok cb \<Longrightarrow> circ_ok (circ_buffer_reset cb) \<and> contents (circ_buffer_reset cb) = []"
  by (auto simp: circ_buffer_reset_def circ_ok_def contents_def)

lemma circ_buffer_tests:
  "circ_ok cb \<Longrightarrow> circ_buffer_is_empty cb = (contents cb = [])"
  "circ_ok cb \<Longrightarrow> circ_buffer_is_full cb = (int (length (contents cb)) = cb_size cb)"
  "circ_ok cb \<Longrightarrow> circ_buffer_get_data_size cb = int (length (contents cb))"
  using nat_data_size[of cb]
  by (auto simp: circ_buffer_is_empty_def circ_buffer_is_full_def circ_buffer_get_data_size_def)

section \<open>Properties\<close>

text \<open>C5: Every sequence of calls with sizes that are not negative, on a freshly initialised buffer, is
  answered as a bounded first-in first-out queue of bytes answers it: same return codes, same
  bytes read, errors included, and no bad memory access. The capacity is at most half of \<open>INT_MAX\<close> and a size together with the
  capacity at most \<open>INT_MAX\<close>, so that the code's sums do not overflow; a negative size is not covered, the code does not
  refuse it (see \<open>ssl_tx_resume_corrupts\<close> for what it then does).\<close>

theorem circ_buffer_is_fifo:
  assumes "length mem = n" "0 < n" "2 * int n \<le> INT_MAX" "\<forall>x\<in>set xs. int (op_size x) + int n \<le> INT_MAX"
  shows "\<exists>rs cb. queue_run (queue_step circ_buffer_put circ_buffer_get circ_buffer_peek circ_buffer_advance) xs
      (snd (circ_buffer_init (Some mem) (int n))) = Some (rs, cb)
    \<and> fifo_run (int n) xs [] = (rs, contents cb) \<and> circ_ok cb"
  using circ.run_refines[OF circ_buffer_init_ok(2)[OF assms(1-3)], of xs] assms(4)
    circ_buffer_init_ok(3,4)[OF assms(1-3)] by fastforce

text \<open>\<open>circ_buffer_put\<close> appends the bytes if they fit, and otherwise returns -1 and changes
  nothing.\<close>

theorem circ_buffer_put_correct:
  assumes "circ_ok cb" "n \<le> length buf" "int n + cb_size cb \<le> INT_MAX"
  shows "\<exists>cb'. circ_ok cb' \<and> cb_size cb' = cb_size cb \<and>
    (if int (length (contents cb)) + int n \<le> cb_size cb
     then circ_buffer_put cb buf (int n) = Some (0, cb') \<and> contents cb' = contents cb @ take n buf
     else circ_buffer_put cb buf (int n) = Some (-1, cb) \<and> cb' = cb)"
proof (cases "int (length (contents cb)) + int n \<le> cb_size cb")
  case True
  then show ?thesis using circ.put_fits[OF assms(1,2)] by auto
next
  case False
  then show ?thesis using circ.put_full[OF assms(1), of "int n" buf] assms by auto
qed

text \<open>\<open>circ_buffer_get\<close> removes and returns the oldest bytes, or returns -1 and changes
  nothing if there are fewer.\<close>

theorem circ_buffer_get_correct:
  assumes "circ_ok cb" "n \<le> length buf" "int n \<le> INT_MAX"
  shows "\<exists>cb'. circ_ok cb' \<and>
    (if n \<le> length (contents cb)
     then circ_buffer_get cb buf (int n) = Some (0, cb', take n (contents cb) @ drop n buf)
       \<and> contents cb' = drop n (contents cb)
     else circ_buffer_get cb buf (int n) = Some (-1, cb, buf) \<and> cb' = cb)"
proof (cases "n \<le> length (contents cb)")
  case True
  then show ?thesis using circ.get_ok[OF assms(1,2)] by auto
next
  case False
  then show ?thesis using circ.short[OF assms(1), of "int n" buf] assms by auto
qed

text \<open>\<open>circ_buffer_get\<close> is \<open>circ_buffer_peek\<close> followed by \<open>circ_buffer_advance\<close>, on every
  state and size, errors and undefined behaviour included.\<close>

theorem circ_buffer_get_is_peek_advance:
  "circ_buffer_get cb buf n = do {
     (r, out) \<leftarrow> circ_buffer_peek cb buf n;
     (r', cb') \<leftarrow> circ_buffer_advance cb n;
     Some (r', cb', out) }"
  by (cases "c_sub (cb_data_size cb) n"; cases "circ_buffer_copy_out cb buf n"; cases "c_add (cb_begin cb) n")
    (auto simp: circ_buffer_get_def circ_buffer_peek_def circ_buffer_advance_def)

section \<open>Concrete instances\<close>

theorem circ_buffer_is_fifo_witness:
  "\<exists>rs cb. queue_run (queue_step circ_buffer_put circ_buffer_get circ_buffer_peek circ_buffer_advance)
      [Q_put [1, 2, 3], Q_get 2, Q_put [4, 5, 6], Q_put [7], Q_peek 4, Q_get 5]
      (snd (circ_buffer_init (Some [0, 0, 0, 0]) (int 4))) = Some (rs, cb)
    \<and> rs = [(0, []), (0, [1, 2]), (0, []), (-1, []), (0, [3, 4, 5, 6]), (-1, [0, 0, 0, 0, 0])]
    \<and> contents cb = [3, 4, 5, 6]"
proof -
  let ?xs = "[Q_put [1, 2, 3], Q_get 2, Q_put [4, 5, 6], Q_put [7], Q_peek 4, Q_get 5]"
  have "fifo_run (int 4) ?xs []
      = ([(0, []), (0, [1, 2]), (0, []), (-1, []), (0, [3, 4, 5, 6]), (-1, [0, 0, 0, 0, 0])], [3, 4, 5, 6])"
    by (simp add: eval_nat_numeral)
  moreover obtain rs cb where *: "queue_run (queue_step circ_buffer_put circ_buffer_get circ_buffer_peek circ_buffer_advance)
      ?xs (snd (circ_buffer_init (Some [0, 0, 0, 0]) (int 4))) = Some (rs, cb)"
    "fifo_run (int 4) ?xs [] = (rs, contents cb)"
    using circ_buffer_is_fifo[of "[0, 0, 0, 0]" 4 ?xs] by (auto simp: INT_MAX_def)
  ultimately have "rs = [(0, []), (0, [1, 2]), (0, []), (-1, []), (0, [3, 4, 5, 6]), (-1, [0, 0, 0, 0, 0])]
      \<and> contents cb = [3, 4, 5, 6]" by (metis Pair_inject)
  with * show ?thesis by blast
qed

lemma demo_circ_ok: "circ_ok \<lparr>cb_buffer = Some [9, 8, 7], cb_size = 3, cb_data_size = 2, cb_begin = 2, cb_end = 1\<rparr>"
  "contents \<lparr>cb_buffer = Some [9, 8, 7], cb_size = 3, cb_data_size = 2, cb_begin = 2, cb_end = 1\<rparr> = [7, 9]"
  by (simp_all add: circ_ok_def contents_def INT_MAX_def eval_nat_numeral)

theorem circ_buffer_put_correct_witness:
  "\<exists>cb'. circ_buffer_put \<lparr>cb_buffer = Some [9, 8, 7], cb_size = 3, cb_data_size = 2, cb_begin = 2, cb_end = 1\<rparr>
     [1, 2] (int 1) = Some (0, cb') \<and> contents cb' = [7, 9, 1]"
  using circ_buffer_put_correct[OF demo_circ_ok(1), of 1 "[1, 2]"] unfolding demo_circ_ok(2)
  by (auto simp: INT_MAX_def)

theorem circ_buffer_get_correct_witness:
  "\<exists>cb'. circ_buffer_get \<lparr>cb_buffer = Some [9, 8, 7], cb_size = 3, cb_data_size = 2, cb_begin = 2, cb_end = 1\<rparr>
     [0, 0, 0] (int 2) = Some (0, cb', [7, 9, 0]) \<and> contents cb' = []"
  using circ_buffer_get_correct[OF demo_circ_ok(1), of 2 "[0, 0, 0]"] unfolding demo_circ_ok(2)
  by (auto simp: INT_MAX_def eval_nat_numeral)

end
