(* ===== verification/Generic_List.thy ===== *)
theory Generic_List
  imports Prelude
begin

text \<open>
  The intrusive doubly linked lists of \<open>src/src/generic_list.h\<close>.

  A \<open>struct list_head\<close> is a cell of a heap from addresses to cells; an object that embeds a
  \<open>list_head\<close> is named by the address of that member, which makes \<open>container_of\<close> the identity.
  Every operation is a heap transformer into \<open>option\<close>: reading or writing through an address
  that holds no cell yields \<open>None\<close>.

  The abstract view is a family \<open>L\<close> of lists: \<open>L c = Some xs\<close> says that the list whose head
  is the cell \<open>c\<close> has the elements \<open>xs\<close> in order. A detached, initialised cell is the head of
  an empty list. \<open>heap_lists h L\<close> says that the heap \<open>h\<close> represents the family \<open>L\<close>; each operation
  is shown to refine an update of the family.
\<close>

section \<open>Cells and heaps\<close>

record list_head =
  le_next :: addr
  le_prev :: addr

type_synonym list_heap = "addr \<rightharpoonup> list_head"

definition read_next :: "addr \<Rightarrow> list_heap \<Rightarrow> addr option" where
  "read_next a h = map_option le_next (h a)"

definition read_prev :: "addr \<Rightarrow> list_heap \<Rightarrow> addr option" where
  "read_prev a h = map_option le_prev (h a)"

definition write_next :: "addr \<Rightarrow> addr \<Rightarrow> list_heap \<Rightarrow> list_heap option" where
  "write_next a v h = (case h a of None \<Rightarrow> None | Some n \<Rightarrow> Some (h(a \<mapsto> n\<lparr>le_next := v\<rparr>)))"

definition write_prev :: "addr \<Rightarrow> addr \<Rightarrow> list_heap \<Rightarrow> list_heap option" where
  "write_prev a v h = (case h a of None \<Rightarrow> None | Some n \<Rightarrow> Some (h(a \<mapsto> n\<lparr>le_prev := v\<rparr>)))"

section \<open>The operations\<close>

text \<open>The functions whose C name starts with two underscores are called \<open>internal_...\<close> here.\<close>

definition INIT_LIST_HEAD :: "addr \<Rightarrow> list_heap \<Rightarrow> list_heap option" where
  "INIT_LIST_HEAD list h = do {
     h \<leftarrow> write_next list list h;
     write_prev list list h
   }"

definition internal_list_add :: "addr \<Rightarrow> addr \<Rightarrow> addr \<Rightarrow> list_heap \<Rightarrow> list_heap option" where
  "internal_list_add new prev nxt h = do {
     h \<leftarrow> write_prev nxt new h;
     h \<leftarrow> write_next new nxt h;
     h \<leftarrow> write_prev new prev h;
     write_next prev new h
   }"

definition list_add :: "addr \<Rightarrow> addr \<Rightarrow> list_heap \<Rightarrow> list_heap option" where
  "list_add new head h = do {
     n \<leftarrow> read_next head h;
     internal_list_add new head n h
   }"

definition list_add_tail :: "addr \<Rightarrow> addr \<Rightarrow> list_heap \<Rightarrow> list_heap option" where
  "list_add_tail new head h = do {
     p \<leftarrow> read_prev head h;
     internal_list_add new p head h
   }"

definition internal_list_del :: "addr \<Rightarrow> addr \<Rightarrow> list_heap \<Rightarrow> list_heap option" where
  "internal_list_del prev nxt h = do {
     h \<leftarrow> write_prev nxt prev h;
     write_next prev nxt h
   }"

definition internal_list_del_entry :: "addr \<Rightarrow> list_heap \<Rightarrow> list_heap option" where
  "internal_list_del_entry entry h = do {
     p \<leftarrow> read_prev entry h;
     n \<leftarrow> read_next entry h;
     internal_list_del p n h
   }"

definition list_del :: "addr \<Rightarrow> list_heap \<Rightarrow> list_heap option" where
  "list_del entry h = do {
     p \<leftarrow> read_prev entry h;
     n \<leftarrow> read_next entry h;
     h \<leftarrow> internal_list_del p n h;
     h \<leftarrow> write_next entry NULL h;
     write_prev entry NULL h
   }"

definition list_replace :: "addr \<Rightarrow> addr \<Rightarrow> list_heap \<Rightarrow> list_heap option" where
  "list_replace old new h = do {
     n \<leftarrow> read_next old h;
     h \<leftarrow> write_next new n h;
     n \<leftarrow> read_next new h;
     h \<leftarrow> write_prev n new h;
     p \<leftarrow> read_prev old h;
     h \<leftarrow> write_prev new p h;
     p \<leftarrow> read_prev new h;
     write_next p new h
   }"

definition list_replace_init :: "addr \<Rightarrow> addr \<Rightarrow> list_heap \<Rightarrow> list_heap option" where
  "list_replace_init old new h = do {
     h \<leftarrow> list_replace old new h;
     INIT_LIST_HEAD old h
   }"

definition list_del_init :: "addr \<Rightarrow> list_heap \<Rightarrow> list_heap option" where
  "list_del_init entry h = do {
     h \<leftarrow> internal_list_del_entry entry h;
     INIT_LIST_HEAD entry h
   }"

definition list_move :: "addr \<Rightarrow> addr \<Rightarrow> list_heap \<Rightarrow> list_heap option" where
  "list_move list head h = do {
     h \<leftarrow> internal_list_del_entry list h;
     list_add list head h
   }"

definition list_move_tail :: "addr \<Rightarrow> addr \<Rightarrow> list_heap \<Rightarrow> list_heap option" where
  "list_move_tail list head h = do {
     h \<leftarrow> internal_list_del_entry list h;
     list_add_tail list head h
   }"

definition list_is_last :: "addr \<Rightarrow> addr \<Rightarrow> list_heap \<Rightarrow> bool option" where
  "list_is_last list head h = do {
     n \<leftarrow> read_next list h;
     Some (n = head)
   }"

definition list_empty :: "addr \<Rightarrow> list_heap \<Rightarrow> bool option" where
  "list_empty head h = do {
     n \<leftarrow> read_next head h;
     Some (n = head)
   }"

definition list_empty_careful :: "addr \<Rightarrow> list_heap \<Rightarrow> bool option" where
  "list_empty_careful head h = do {
     n \<leftarrow> read_next head h;
     p \<leftarrow> read_prev head h;
     Some (n = head \<and> n = p)
   }"

definition list_rotate_left :: "addr \<Rightarrow> list_heap \<Rightarrow> list_heap option" where
  "list_rotate_left head h = do {
     e \<leftarrow> list_empty head h;
     if \<not> e then do {
       first \<leftarrow> read_next head h;
       list_move_tail first head h
     } else Some h
   }"

definition list_is_singular :: "addr \<Rightarrow> list_heap \<Rightarrow> bool option" where
  "list_is_singular head h = do {
     e \<leftarrow> list_empty head h;
     n \<leftarrow> read_next head h;
     p \<leftarrow> read_prev head h;
     Some (\<not> e \<and> n = p)
   }"

definition internal_list_cut_position ::
  "addr \<Rightarrow> addr \<Rightarrow> addr \<Rightarrow> list_heap \<Rightarrow> list_heap option" where
  "internal_list_cut_position list head entry h = do {
     new_first \<leftarrow> read_next entry h;
     n \<leftarrow> read_next head h;
     h \<leftarrow> write_next list n h;
     n \<leftarrow> read_next list h;
     h \<leftarrow> write_prev n list h;
     h \<leftarrow> write_prev list entry h;
     h \<leftarrow> write_next entry list h;
     h \<leftarrow> write_next head new_first h;
     write_prev new_first head h
   }"

definition list_cut_position :: "addr \<Rightarrow> addr \<Rightarrow> addr \<Rightarrow> list_heap \<Rightarrow> list_heap option" where
  "list_cut_position list head entry h = do {
     e \<leftarrow> list_empty head h;
     if e then Some h
     else do {
       s \<leftarrow> list_is_singular head h;
       n \<leftarrow> read_next head h;
       if s \<and> (n \<noteq> entry \<and> head \<noteq> entry) then Some h
       else if entry = head then INIT_LIST_HEAD list h
       else internal_list_cut_position list head entry h
     }
   }"

definition internal_list_splice :: "addr \<Rightarrow> addr \<Rightarrow> addr \<Rightarrow> list_heap \<Rightarrow> list_heap option" where
  "internal_list_splice list prev nxt h = do {
     first \<leftarrow> read_next list h;
     last \<leftarrow> read_prev list h;
     h \<leftarrow> write_prev first prev h;
     h \<leftarrow> write_next prev first h;
     h \<leftarrow> write_next last nxt h;
     write_prev nxt last h
   }"

definition list_splice :: "addr \<Rightarrow> addr \<Rightarrow> list_heap \<Rightarrow> list_heap option" where
  "list_splice list head h = do {
     e \<leftarrow> list_empty list h;
     if \<not> e then do {
       n \<leftarrow> read_next head h;
       internal_list_splice list head n h
     } else Some h
   }"

definition list_splice_tail :: "addr \<Rightarrow> addr \<Rightarrow> list_heap \<Rightarrow> list_heap option" where
  "list_splice_tail list head h = do {
     e \<leftarrow> list_empty list h;
     if \<not> e then do {
       p \<leftarrow> read_prev head h;
       internal_list_splice list p head h
     } else Some h
   }"

definition list_splice_init :: "addr \<Rightarrow> addr \<Rightarrow> list_heap \<Rightarrow> list_heap option" where
  "list_splice_init list head h = do {
     e \<leftarrow> list_empty list h;
     if \<not> e then do {
       n \<leftarrow> read_next head h;
       h \<leftarrow> internal_list_splice list head n h;
       INIT_LIST_HEAD list h
     } else Some h
   }"

definition list_splice_tail_init :: "addr \<Rightarrow> addr \<Rightarrow> list_heap \<Rightarrow> list_heap option" where
  "list_splice_tail_init list head h = do {
     e \<leftarrow> list_empty list h;
     if \<not> e then do {
       p \<leftarrow> read_prev head h;
       h \<leftarrow> internal_list_splice list p head h;
       INIT_LIST_HEAD list h
     } else Some h
   }"

section \<open>Link functions\<close>

text \<open>The links of a heap as two total functions, and the effect of the writes on them.\<close>

definition nxt :: "list_heap \<Rightarrow> addr \<Rightarrow> addr" where
  "nxt h a = (case h a of None \<Rightarrow> NULL | Some n \<Rightarrow> le_next n)"

definition prv :: "list_heap \<Rightarrow> addr \<Rightarrow> addr" where
  "prv h a = (case h a of None \<Rightarrow> NULL | Some n \<Rightarrow> le_prev n)"

definition put_next :: "addr \<Rightarrow> addr \<Rightarrow> list_heap \<Rightarrow> list_heap" where
  "put_next a v h = h(a \<mapsto> \<lparr>le_next = v, le_prev = prv h a\<rparr>)"

definition put_prev :: "addr \<Rightarrow> addr \<Rightarrow> list_heap \<Rightarrow> list_heap" where
  "put_prev a v h = h(a \<mapsto> \<lparr>le_next = nxt h a, le_prev = v\<rparr>)"

lemma read_nxt [heap_simps]: "a \<in> dom h \<Longrightarrow> read_next a h = Some (nxt h a)"
  by (auto simp: read_next_def nxt_def)

lemma read_prv [heap_simps]: "a \<in> dom h \<Longrightarrow> read_prev a h = Some (prv h a)"
  by (auto simp: read_prev_def prv_def)

lemma write_put_next [heap_simps]: "a \<in> dom h \<Longrightarrow> write_next a v h = Some (put_next a v h)"
  by (auto simp: write_next_def put_next_def prv_def split: option.splits)

lemma write_put_prev [heap_simps]: "a \<in> dom h \<Longrightarrow> write_prev a v h = Some (put_prev a v h)"
  by (auto simp: write_prev_def put_prev_def nxt_def split: option.splits)

lemma dom_put [heap_simps]:
  "dom (put_next a v h) = insert a (dom h)" "dom (put_prev a v h) = insert a (dom h)"
  by (auto simp: put_next_def put_prev_def)

lemma nxt_put [heap_simps]:
  "nxt (put_next a v h) = (nxt h)(a := v)" "nxt (put_prev a v h) = nxt h"
  by (auto simp: put_next_def put_prev_def nxt_def)

lemma prv_put [heap_simps]:
  "prv (put_next a v h) = prv h" "prv (put_prev a v h) = (prv h)(a := v)"
  by (auto simp: put_next_def put_prev_def prv_def)

section \<open>Chains and rings\<close>

text \<open>
  \<open>chain n p xs\<close>: neighbours in \<open>xs\<close> are linked both ways. A circular list with head \<open>c\<close> and
  elements \<open>xs\<close> is the chain \<open>c, xs, c\<close>.
\<close>

fun chain :: "(addr \<Rightarrow> addr) \<Rightarrow> (addr \<Rightarrow> addr) \<Rightarrow> addr list \<Rightarrow> bool" where
  "chain n p (a # b # xs) = (n a = b \<and> p b = a \<and> chain n p (b # xs))"
| "chain n p xs = True"

definition ring :: "list_heap \<Rightarrow> addr \<Rightarrow> addr list \<Rightarrow> bool" where
  "ring h c xs \<longleftrightarrow> distinct (c # xs) \<and> set (c # xs) \<subseteq> dom h
     \<and> chain (nxt h) (prv h) (c # xs @ [c])"

lemma chain_append: "chain n p (xs @ a # ys) \<longleftrightarrow> chain n p (xs @ [a]) \<and> chain n p (a # ys)"
proof (induction xs)
  case (Cons x xs)
  then show ?case by (cases xs) auto
qed simp

lemma chain_cong:
  assumes "\<And>a. a \<in> set (butlast xs) \<Longrightarrow> n' a = n a"
    and "\<And>b. b \<in> set (tl xs) \<Longrightarrow> p' b = p b"
  shows "chain n' p' xs = chain n p xs"
  using assms
proof (induction xs rule: induct_list012)
  case (3 a b xs)
  have "chain n' p' (b # xs) = chain n p (b # xs)"
  proof (rule "3.IH"(2))
    show "n' x = n x" if "x \<in> set (butlast (b # xs))" for x
      using that by (intro "3.prems"(1)) simp
    show "p' x = p x" if "x \<in> set (tl (b # xs))" for x
      using that by (intro "3.prems"(2)) simp
  qed
  moreover have "n' a = n a" "p' b = p b" using "3.prems" by auto
  ultimately show ?case by simp
qed simp_all

lemma chain_split:
  "chain n p (xs @ a # b # ys) \<longleftrightarrow> chain n p (xs @ [a]) \<and> n a = b \<and> p b = a \<and> chain n p (b # ys)"
  by (subst chain_append) simp

lemma chain_next: "chain n p (xs @ a # b # ys) \<Longrightarrow> n a = b"
  by (simp add: chain_split)

lemma chain_prev: "chain n p (xs @ a # b # ys) \<Longrightarrow> p b = a"
  by (simp add: chain_split)

lemma ring_distinct: "ring h c xs \<Longrightarrow> distinct (c # xs)"
  by (simp add: ring_def)

lemma ring_dom: "ring h c xs \<Longrightarrow> a \<in> set (c # xs) \<Longrightarrow> a \<in> dom h"
  by (auto simp: ring_def)

lemma ring_nxt_head: "ring h c xs \<Longrightarrow> nxt h c = hd (xs @ [c])"
  by (cases xs) (auto simp: ring_def)

lemma ring_prv_head: "ring h c xs \<Longrightarrow> prv h c = last (c # xs)"
  using chain_prev[of "nxt h" "prv h" "butlast (c # xs)" "last (c # xs)" c "[]"]
  by (cases xs rule: rev_cases) (auto simp: ring_def)

text \<open>The neighbours of an element that splits the list.\<close>

lemma ring_nxt: "ring h c (us @ x # vs) \<Longrightarrow> nxt h x = hd (vs @ [c])"
  using chain_next[of "nxt h" "prv h" "c # us" x "hd (vs @ [c])" "tl (vs @ [c])"]
  by (cases vs) (auto simp: ring_def)

lemma ring_prv: "ring h c (us @ x # vs) \<Longrightarrow> prv h x = last (c # us)"
proof -
  assume r: "ring h c (us @ x # vs)"
  have "c # us @ x # vs @ [c] = butlast (c # us) @ last (c # us) # x # vs @ [c]"
    using append_butlast_last_id[of "c # us"]
    by (metis append.assoc append_Cons append_Nil list.distinct(1))
  with r have "chain (nxt h) (prv h) (butlast (c # us) @ last (c # us) # x # vs @ [c])"
    by (simp add: ring_def del: last.simps butlast.simps)
  then show ?thesis by (rule chain_prev)
qed

text \<open>Frame: a ring depends on its own cells only.\<close>

lemma ring_frame:
  assumes "ring h c xs" and "\<And>a. a \<in> set (c # xs) \<Longrightarrow> a \<in> dom h'"
    and "\<And>a. a \<in> set (c # xs) \<Longrightarrow> nxt h' a = nxt h a"
    and "\<And>a. a \<in> set (c # xs) \<Longrightarrow> prv h' a = prv h a"
  shows "ring h' c xs"
proof -
  have "chain (nxt h') (prv h') (c # xs @ [c]) = chain (nxt h) (prv h) (c # xs @ [c])"
    using assms(3,4) by (intro chain_cong) (auto dest: in_set_butlastD simp: butlast_append)
  then show ?thesis using assms(1,2) by (auto simp: ring_def)
qed

lemma ring_same:
  assumes "ring h c xs" and "\<And>a. a \<in> set (c # xs) \<Longrightarrow> h' a = h a"
  shows "ring h' c xs"
  using assms(1)
proof (rule ring_frame)
  fix a assume a: "a \<in> set (c # xs)"
  show "a \<in> dom h'" using ring_dom[OF assms(1) a] assms(2)[OF a] by (simp add: domIff)
  show "nxt h' a = nxt h a" "prv h' a = prv h a" using assms(2)[OF a] by (simp_all add: nxt_def prv_def)
qed

section \<open>Families of lists\<close>

type_synonym family = "addr \<rightharpoonup> addr list"

definition heap_lists :: "list_heap \<Rightarrow> family \<Rightarrow> bool" where
  "heap_lists h L \<longleftrightarrow> h NULL = None \<and> (\<forall>c xs. L c = Some xs \<longrightarrow> ring h c xs)
     \<and> (\<forall>c d xs ys. L c = Some xs \<longrightarrow> L d = Some ys \<longrightarrow> c \<noteq> d
          \<longrightarrow> set (c # xs) \<inter> set (d # ys) = {})"

text \<open>All cells that belong to the family.\<close>

definition cells :: "family \<Rightarrow> addr set" where
  "cells L = {a. \<exists>c xs. L c = Some xs \<and> a \<in> set (c # xs)}"

lemma listsD:
  assumes "heap_lists h L"
  shows "h NULL = None"
    and "L c = Some xs \<Longrightarrow> ring h c xs"
    and "L c = Some xs \<Longrightarrow> L d = Some ys \<Longrightarrow> c \<noteq> d \<Longrightarrow> set (c # xs) \<inter> set (d # ys) = {}"
  using assms by (auto simp: heap_lists_def)

lemma cellsI: "L c = Some xs \<Longrightarrow> a \<in> set (c # xs) \<Longrightarrow> a \<in> cells L"
  by (auto simp: cells_def)

lemma lists_cells_dom: "heap_lists h L \<Longrightarrow> a \<in> cells L \<Longrightarrow> a \<in> dom h"
  unfolding cells_def by (blast dest: listsD(2) ring_dom)

lemma lists_not_NULL: "heap_lists h L \<Longrightarrow> a \<in> cells L \<Longrightarrow> a \<noteq> NULL"
  using lists_cells_dom by (auto dest: listsD(1))

lemma lists_head_dom: "heap_lists h L \<Longrightarrow> L c = Some xs \<Longrightarrow> c \<in> dom h"
  by (rule lists_cells_dom) (auto simp: cells_def)

lemma lists_elem_dom: "heap_lists h L \<Longrightarrow> L c = Some xs \<Longrightarrow> x \<in> set xs \<Longrightarrow> x \<in> dom h"
  by (rule lists_cells_dom) (auto simp: cells_def)

lemma lists_elem_not_head:
  "heap_lists h L \<Longrightarrow> L c = Some xs \<Longrightarrow> x \<in> set xs \<Longrightarrow> L x = None"
proof (rule ccontr)
  assume a: "heap_lists h L" "L c = Some xs" "x \<in> set xs" "L x \<noteq> None"
  then obtain ys where "L x = Some ys" by auto
  moreover have "x \<noteq> c" using ring_distinct[OF listsD(2)[OF a(1,2)]] a(3) by auto
  ultimately show False using listsD(3)[OF a(1,2), of x ys] a(3) by auto
qed

lemma lists_elem_unique:
  "heap_lists h L \<Longrightarrow> L c = Some xs \<Longrightarrow> L d = Some ys \<Longrightarrow> x \<in> set xs \<Longrightarrow> x \<in> set ys \<Longrightarrow> c = d"
  using listsD(3)[of h L c xs d ys] by auto

text \<open>Forgetting a list of the family.\<close>

lemma lists_forget: "heap_lists h L \<Longrightarrow> heap_lists h (L(c := None))"
  by (auto simp: heap_lists_def split: if_splits)

lemma cells_forget: "heap_lists h L \<Longrightarrow> L c = Some xs \<Longrightarrow> cells (L(c := None)) = cells L - set (c # xs)"
proof -
  assume a: "heap_lists h L" "L c = Some xs"
  have "x \<notin> set (c # xs)" if "x \<in> cells (L(c := None))" for x
    using that listsD(3)[OF a] unfolding cells_def by (clarsimp split: if_splits) blast
  moreover have "cells L = cells (L(c := None)) \<union> set (c # xs)"
    using a(2) unfolding cells_def by (fastforce split: if_splits)
  ultimately show ?thesis by blast
qed

text \<open>Changing or adding one list: the writes stay inside \<open>X\<close>, away from the other lists.\<close>

lemma lists_upd:
  assumes L: "heap_lists h L" and r: "ring h' c xs'"
    and X: "X \<subseteq> dom h" "set (c # xs') \<subseteq> X" "X \<inter> cells (L(c := None)) = {}"
    and fr: "\<And>a. a \<notin> X \<Longrightarrow> h' a = h a"
  shows "heap_lists h' (L(c \<mapsto> xs'))"
proof -
  have other: "ring h' d ys" if d: "L d = Some ys" "d \<noteq> c" for d ys
  proof (rule ring_frame)
    show rd: "ring h d ys" using listsD(2)[OF L d(1)] .
    have "set (d # ys) \<subseteq> cells (L(c := None))"
      using d by (auto intro!: cellsI[of _ d ys])
    with X(3) have "h' a = h a" if "a \<in> set (d # ys)" for a
      using that by (intro fr) auto
    then show "a \<in> dom h'" "nxt h' a = nxt h a" "prv h' a = prv h a" if "a \<in> set (d # ys)" for a
      using that ring_dom[OF rd that] by (simp_all add: nxt_def prv_def domIff)
  qed
  have disj: "set (c # xs') \<inter> set (d # ys) = {}" if "L d = Some ys" "d \<noteq> c" for d ys
  proof -
    have "set (d # ys) \<subseteq> cells (L(c := None))"
      using that by (auto intro!: cellsI[of _ d ys])
    with X(2,3) show ?thesis by blast
  qed
  have "h' NULL = None" using fr[of NULL] X(1) listsD(1)[OF L] by auto
  then show ?thesis
    using r other disj listsD(3)[OF L] unfolding heap_lists_def
    by (simp split: if_splits) (metis Int_commute)
qed

lemma put_other [heap_simps]:
  "a \<noteq> b \<Longrightarrow> put_next b v h a = h a" "a \<noteq> b \<Longrightarrow> put_prev b v h a = h a"
  by (auto simp: put_next_def put_prev_def)

section \<open>Rings under insertion and removal\<close>

text \<open>
  \<open>c # us\<close> and \<open>vs @ [c]\<close> are the two halves of a ring around a gap; the gap's neighbours are
  \<open>last (c # us)\<close> and \<open>hd (vs @ [c])\<close>.
\<close>

lemma chain_halves:
  assumes "distinct (c # us @ vs)"
    and "\<And>a. a \<in> set (c # us @ vs) \<Longrightarrow> a \<noteq> last (c # us) \<Longrightarrow> n' a = n a"
    and "\<And>b. b \<in> set (c # us @ vs) \<Longrightarrow> b \<noteq> hd (vs @ [c]) \<Longrightarrow> p' b = p b"
  shows "chain n' p' (c # us) = chain n p (c # us)"
    and "chain n' p' (vs @ [c]) = chain n p (vs @ [c])"
proof -
  show "chain n' p' (c # us) = chain n p (c # us)"
  proof (rule chain_cong)
    fix a assume a: "a \<in> set (butlast (c # us))"
    have "distinct (butlast (c # us) @ [last (c # us)])"
      using assms(1) by (subst append_butlast_last_id) auto
    with a have "a \<noteq> last (c # us)" by auto
    moreover have "a \<in> set (c # us @ vs)" using in_set_butlastD[OF a] by auto
    ultimately show "n' a = n a" by (rule assms(2)[rotated])
  next
    fix b assume b: "b \<in> set (tl (c # us))"
    then have "b \<noteq> hd (vs @ [c])" using assms(1) by (cases vs) auto
    with b show "p' b = p b" by (intro assms(3)) auto
  qed
  show "chain n' p' (vs @ [c]) = chain n p (vs @ [c])"
  proof (rule chain_cong)
    fix a assume a: "a \<in> set (butlast (vs @ [c]))"
    then have "a \<in> set vs" by simp
    moreover from this have "a \<noteq> last (c # us)" using assms(1) last_in_set[of "c # us"]
      by (auto simp del: last_in_set)
    ultimately show "n' a = n a" by (intro assms(2)) auto
  next
    fix b assume b: "b \<in> set (tl (vs @ [c]))"
    then have "b \<noteq> hd (vs @ [c])" using assms(1) by (cases vs) auto
    with b show "p' b = p b" by (intro assms(3)) (auto dest: list.set_sel(2)[rotated])
  qed
qed

lemma chain_join:
  "ys \<noteq> [] \<Longrightarrow> chain n p (x # xs @ ys) \<longleftrightarrow>
     chain n p (x # xs) \<and> n (last (x # xs)) = hd ys \<and> p (hd ys) = last (x # xs) \<and> chain n p ys"
proof (induction xs arbitrary: x)
  case Nil
  then show ?case by (cases ys) auto
next
  case (Cons y xs)
  then show ?case by auto
qed

lemma chain_Cons:
  "xs \<noteq> [] \<Longrightarrow> chain n p (x # xs) \<longleftrightarrow> n x = hd xs \<and> p (hd xs) = x \<and> chain n p xs"
  by (cases xs) auto

lemma ring_gap:
  "ring h c (us @ vs) \<longleftrightarrow> distinct (c # us @ vs) \<and> set (c # us @ vs) \<subseteq> dom h
     \<and> chain (nxt h) (prv h) (c # us) \<and> nxt h (last (c # us)) = hd (vs @ [c])
     \<and> prv h (hd (vs @ [c])) = last (c # us) \<and> chain (nxt h) (prv h) (vs @ [c])"
  using chain_join[of "vs @ [c]" "nxt h" "prv h" c us]
  by (auto simp add: ring_def simp del: last.simps)

lemma ring_insert:
  assumes r: "ring h c (us @ vs)" and new: "new \<notin> set (c # us @ vs)"
    and d: "set (c # us @ new # vs) \<subseteq> dom h'"
    and n: "nxt h' = (nxt h)(new := hd (vs @ [c]), last (c # us) := new)"
    and p: "prv h' = (prv h)(hd (vs @ [c]) := new, new := last (c # us))"
  shows "ring h' c (us @ new # vs)"
proof -
  let ?a = "last (c # us)" and ?b = "hd (vs @ [c])"
  have "?a \<in> set (c # us)" by (rule last_in_set) simp
  then have a: "?a \<noteq> new" using new by (auto simp del: last.simps)
  have "?b \<in> set (vs @ [c])" by (rule hd_in_set) simp
  then have b: "?b \<noteq> new" using new by auto
  have dist: "distinct (c # us @ vs)" using r ring_distinct by blast
  have "nxt h' x = nxt h x" if "x \<in> set (c # us @ vs)" "x \<noteq> ?a" for x
    using that new by (auto simp add: n simp del: last.simps)
  moreover have "prv h' x = prv h x" if "x \<in> set (c # us @ vs)" "x \<noteq> ?b" for x
    using that new by (auto simp add: p simp del: last.simps)
  ultimately have "chain (nxt h') (prv h') (c # us)" "chain (nxt h') (prv h') (vs @ [c])"
    using r chain_halves[OF dist, of "nxt h'" "nxt h" "prv h'" "prv h"]
    unfolding ring_gap by metis+
  moreover have "distinct (c # us @ new # vs)" using dist new by auto
  ultimately show ?thesis
    using d a b unfolding ring_gap[of h' c us "new # vs"]
    by (cases vs) (auto simp add: n p simp del: last.simps)
qed

lemma ring_remove:
  assumes r: "ring h c (us @ x # vs)" and d: "set (c # us @ vs) \<subseteq> dom h'"
    and n: "nxt h' = (nxt h)(last (c # us) := hd (vs @ [c]))"
    and p: "prv h' = (prv h)(hd (vs @ [c]) := last (c # us))"
  shows "ring h' c (us @ vs)"
proof -
  let ?a = "last (c # us)" and ?b = "hd (vs @ [c])"
  have dist: "distinct (c # us @ vs)" using ring_distinct[OF r] by auto
  have "nxt h' y = nxt h y" if "y \<in> set (c # us @ vs)" "y \<noteq> ?a" for y
    using that by (auto simp add: n simp del: last.simps)
  moreover have "prv h' y = prv h y" if "y \<in> set (c # us @ vs)" "y \<noteq> ?b" for y
    using that by (auto simp add: p simp del: last.simps)
  ultimately have h: "chain (nxt h') (prv h') (c # us) = chain (nxt h) (prv h) (c # us)"
    "chain (nxt h') (prv h') (vs @ [c]) = chain (nxt h) (prv h) (vs @ [c])"
    using chain_halves[OF dist, of "nxt h'" "nxt h" "prv h'" "prv h"] by metis+
  have "chain (nxt h) (prv h) (vs @ [c])"
    using r unfolding ring_gap[of h c us "x # vs"] by (cases vs) auto
  then show ?thesis using r dist d h unfolding ring_gap by (simp add: n p)
qed

section \<open>Refinement of the operations\<close>

text \<open>
  \<open>loose h L a\<close>: the cell \<open>a\<close> exists and is in no list of the family. An initialised detached
  cell becomes loose once the family forgets its empty list.
\<close>

definition loose :: "list_heap \<Rightarrow> family \<Rightarrow> addr \<Rightarrow> bool" where
  "loose h L a \<longleftrightarrow> a \<in> dom h \<and> a \<notin> cells L"

lemma loose_forget: "heap_lists h L \<Longrightarrow> L a = Some [] \<Longrightarrow> loose h (L(a := None)) a"
  by (simp add: loose_def cells_forget lists_head_dom)

lemma cells_upd: "cells (L(c \<mapsto> xs)) = cells (L(c := None)) \<union> set (c # xs)"
  by (fastforce simp: cells_def split: if_splits)

lemma lists_upd_ring:
  assumes L: "heap_lists h L" and c: "L c = Some xs"
    and r: "ring h' c xs'" and fr: "\<And>a. a \<notin> set ys \<Longrightarrow> h' a = h a"
    and ys: "set (c # xs') \<subseteq> set ys" "set ys \<subseteq> dom h" "set ys \<inter> cells L \<subseteq> set (c # xs)"
  shows "heap_lists h' (L(c \<mapsto> xs'))"
  using L r ys(2,1) _ fr by (rule lists_upd) (use ys(3) cells_forget[OF L c] in auto)

lemma internal_list_add_family:
  assumes L: "heap_lists h L" and c: "L c = Some (us @ vs)" and new: "loose h L new"
  shows "\<exists>h'. internal_list_add new (last (c # us)) (hd (vs @ [c])) h = Some h'
    \<and> heap_lists h' (L(c \<mapsto> us @ new # vs)) \<and> dom h' = dom h"
proof -
  let ?a = "last (c # us)" and ?b = "hd (vs @ [c])"
  let ?h = "put_next ?a new (put_prev new ?a (put_next new ?b (put_prev ?b new h)))"
  have r: "ring h c (us @ vs)" using listsD(2)[OF L c] .
  have ab: "?a \<in> set (c # us @ vs)" "?b \<in> set (c # us @ vs)"
    using last_in_set[of "c # us"] hd_in_set[of "vs @ [c]"] by auto
  have dom: "set (c # us @ vs) \<subseteq> dom h" using r by (auto simp: ring_def)
  have new': "new \<in> dom h" "new \<notin> set (c # us @ vs)"
    using new cellsI[of L c "us @ vs" new] c by (auto simp: loose_def)
  from ab dom have abd: "?a \<in> dom h" "?b \<in> dom h" by blast+
  have eq: "internal_list_add new ?a ?b h = Some ?h"
    using abd new'(1) by (simp add: internal_list_add_def heap_simps del: last.simps)
  have domh: "dom ?h = dom h"
    using abd new'(1) by (simp add: heap_simps insert_absorb del: last.simps)
  have rn: "ring ?h c (us @ new # vs)"
    using r new'(2) by (rule ring_insert) (use dom domh new'(1) in \<open>auto simp: heap_simps\<close>)
  have "heap_lists ?h (L(c \<mapsto> us @ new # vs))"
  proof (rule lists_upd_ring[OF L c rn, of "new # c # us @ vs"])
    show "?h a = h a" if a: "a \<notin> set (new # c # us @ vs)" for a
    proof -
      have "a \<noteq> new" "a \<notin> set (c # us @ vs)" using a by auto
      moreover from this(2) ab have "a \<noteq> ?a" "a \<noteq> ?b" by blast+
      ultimately show ?thesis by (simp add: heap_simps del: last.simps)
    qed
  qed (use dom new new' in \<open>auto simp: loose_def\<close>)
  then show ?thesis using eq domh by blast
qed

lemma internal_list_del_family:
  assumes L: "heap_lists h L" and c: "L c = Some (us @ x # vs)"
  shows "\<exists>h'. internal_list_del (last (c # us)) (hd (vs @ [c])) h = Some h'
    \<and> heap_lists h' (L(c \<mapsto> us @ vs)) \<and> dom h' = dom h \<and> loose h' (L(c \<mapsto> us @ vs)) x"
proof -
  let ?a = "last (c # us)" and ?b = "hd (vs @ [c])"
  let ?h = "put_next ?a ?b (put_prev ?b ?a h)"
  have r: "ring h c (us @ x # vs)" using listsD(2)[OF L c] .
  have ab: "?a \<in> set (c # us @ vs)" "?b \<in> set (c # us @ vs)"
    using last_in_set[of "c # us"] hd_in_set[of "vs @ [c]"] by auto
  have dom: "set (c # us @ x # vs) \<subseteq> dom h" using r by (auto simp: ring_def)
  with ab have abd: "?a \<in> dom h" "?b \<in> dom h" by auto
  have eq: "internal_list_del ?a ?b h = Some ?h"
    using abd by (simp add: internal_list_del_def heap_simps del: last.simps)
  have domh: "dom ?h = dom h" using abd by (simp add: heap_simps insert_absorb del: last.simps)
  have rn: "ring ?h c (us @ vs)"
    using r by (rule ring_remove) (use dom domh in \<open>auto simp: heap_simps\<close>)
  have "heap_lists ?h (L(c \<mapsto> us @ vs))"
  proof (rule lists_upd_ring[OF L c rn, of "c # us @ vs"])
    show "?h a = h a" if a: "a \<notin> set (c # us @ vs)" for a
    proof -
      from a ab have "a \<noteq> ?a" "a \<noteq> ?b" by blast+
      then show ?thesis by (simp add: heap_simps del: last.simps)
    qed
  qed (use dom in auto)
  moreover have "loose ?h (L(c \<mapsto> us @ vs)) x"
    using ring_distinct[OF r] dom domh cells_forget[OF L c]
    by (auto simp: loose_def cells_upd)
  ultimately show ?thesis using eq domh by blast
qed

lemma INIT_LIST_HEAD_family:
  assumes L: "heap_lists h L" and a: "loose h (L(a := None)) a"
  shows "\<exists>h'. INIT_LIST_HEAD a h = Some h' \<and> heap_lists h' (L(a \<mapsto> [])) \<and> dom h' = dom h"
proof -
  let ?h = "put_prev a a (put_next a a h)"
  have a': "a \<in> dom h" "a \<notin> cells (L(a := None))" using a by (auto simp: loose_def)
  have "ring ?h a []" by (simp add: ring_def heap_simps)
  moreover have "?h b = h b" if "b \<notin> {a}" for b using that by (simp add: heap_simps)
  ultimately have "heap_lists ?h (L(a \<mapsto> []))"
    using a' by (intro lists_upd[OF L, of _ _ _ "{a}"]) auto
  then show ?thesis
    using a'(1) by (simp add: INIT_LIST_HEAD_def heap_simps insert_absorb)
qed

lemma list_add_tail_family:
  assumes "heap_lists h L" "L c = Some xs" "loose h L new"
  shows "\<exists>h'. list_add_tail new c h = Some h' \<and> heap_lists h' (L(c \<mapsto> xs @ [new])) \<and> dom h' = dom h"
  using internal_list_add_family[of h L c xs "[]" new] assms
    ring_prv_head[OF listsD(2)[OF assms(1,2)]] lists_head_dom[OF assms(1,2)]
  by (simp add: list_add_tail_def heap_simps del: last.simps)

lemma list_add_family:
  assumes "heap_lists h L" "L c = Some xs" "loose h L new"
  shows "\<exists>h'. list_add new c h = Some h' \<and> heap_lists h' (L(c \<mapsto> new # xs)) \<and> dom h' = dom h"
  using internal_list_add_family[of h L c "[]" xs new] assms
    ring_nxt_head[OF listsD(2)[OF assms(1,2)]] lists_head_dom[OF assms(1,2)]
  by (simp add: list_add_def heap_simps)

text \<open>Removal of an element, given where it stands or by \<open>remove1\<close>.\<close>

lemma list_neighbours:
  assumes "heap_lists h L" "L c = Some (us @ x # vs)"
  shows "read_prev x h = Some (last (c # us))" "read_next x h = Some (hd (vs @ [c]))"
  using ring_prv[of h c us x vs] ring_nxt[of h c us x vs] listsD(2)[OF assms]
    lists_elem_dom[OF assms, of x] by (simp_all add: heap_simps del: last.simps)

lemma list_split_remove1:
  assumes "heap_lists h L" "L c = Some xs" "x \<in> set xs"
  obtains us vs where "xs = us @ x # vs" "remove1 x xs = us @ vs"
proof -
  obtain us vs where "xs = us @ x # vs" "x \<notin> set us" using split_list_first[OF assms(3)] by blast
  then show ?thesis using that by (simp add: remove1_append)
qed

lemma internal_list_del_entry_family:
  assumes "heap_lists h L" "L c = Some xs" "x \<in> set xs"
  shows "\<exists>h'. internal_list_del_entry x h = Some h' \<and> heap_lists h' (L(c \<mapsto> remove1 x xs))
    \<and> dom h' = dom h \<and> loose h' (L(c \<mapsto> remove1 x xs)) x"
proof -
  obtain us vs where "xs = us @ x # vs" "remove1 x xs = us @ vs"
    using list_split_remove1[OF assms] .
  then show ?thesis
    using internal_list_del_family[of h L c us x vs] list_neighbours[of h L c us x vs] assms(1,2)
    by (simp add: internal_list_del_entry_def del: last.simps)
qed

lemma list_del_init_family:
  assumes "heap_lists h L" "L c = Some xs" "x \<in> set xs"
  shows "\<exists>h'. list_del_init x h = Some h' \<and> heap_lists h' (L(c \<mapsto> remove1 x xs, x \<mapsto> []))
    \<and> dom h' = dom h"
proof -
  obtain h1 where h1: "internal_list_del_entry x h = Some h1"
    "heap_lists h1 (L(c \<mapsto> remove1 x xs))" "dom h1 = dom h" "loose h1 (L(c \<mapsto> remove1 x xs)) x"
    using internal_list_del_entry_family[OF assms] by blast
  then have "(L(c \<mapsto> remove1 x xs)) x = None"
    using cellsI[of "L(c \<mapsto> remove1 x xs)" x _ x] by (fastforce simp: loose_def)
  then have "loose h1 ((L(c \<mapsto> remove1 x xs))(x := None)) x"
    using h1(4) by (metis fun_upd_triv)
  from INIT_LIST_HEAD_family[OF h1(2) this] h1 show ?thesis
    by (auto simp: list_del_init_def)
qed

lemma list_del_family:
  assumes "heap_lists h L" "L c = Some xs" "x \<in> set xs"
  shows "\<exists>h'. list_del x h = Some h' \<and> heap_lists h' (L(c \<mapsto> remove1 x xs)) \<and> dom h' = dom h
    \<and> loose h' (L(c \<mapsto> remove1 x xs)) x"
proof -
  let ?L = "L(c \<mapsto> remove1 x xs)"
  obtain us vs where sp: "xs = us @ x # vs" "remove1 x xs = us @ vs"
    using list_split_remove1[OF assms] .
  then obtain h1 where h1: "internal_list_del (last (c # us)) (hd (vs @ [c])) h = Some h1"
    "heap_lists h1 ?L" "dom h1 = dom h" "loose h1 ?L x"
    using internal_list_del_family[of h L c us x vs] assms(1,2) by auto
  let ?h = "put_prev x NULL (put_next x NULL h1)"
  have x: "x \<in> dom h1" "x \<notin> cells ?L" using h1(4) by (auto simp: loose_def)
  have ring: "ring h1 c (remove1 x xs)" using listsD(2)[OF h1(2), of c] by simp
  have xc: "x \<notin> set (c # remove1 x xs)" using x(2) cellsI[of ?L c "remove1 x xs" x] by auto
  have same: "?h a = h1 a" if "a \<noteq> x" for a using that by (simp add: heap_simps)
  have "ring ?h c (remove1 x xs)"
    using ring by (rule ring_frame) (use xc x(1) ring_dom[OF ring] in \<open>auto simp: heap_simps\<close>)
  then have "heap_lists ?h (?L(c \<mapsto> remove1 x xs))"
  proof (rule lists_upd[OF h1(2), of _ _ _ "insert x (set (c # remove1 x xs))"])
    show "insert x (set (c # remove1 x xs)) \<inter> cells (?L(c := None)) = {}"
      using x(2) cells_forget[OF h1(2), of c "remove1 x xs"] by auto
    show "insert x (set (c # remove1 x xs)) \<subseteq> dom h1" using x(1) ring by (auto simp: ring_def)
  qed (auto intro!: same)
  then have "heap_lists ?h ?L" by simp
  moreover have "list_del x h = Some ?h"
    using list_neighbours[of h L c us x vs] assms(1,2) sp h1(1) x(1)
    by (simp add: list_del_def heap_simps del: last.simps)
  moreover have "dom ?h = dom h" using h1(3) x(1) by (auto simp: heap_simps)
  ultimately show ?thesis using x h1(3) by (auto simp: loose_def)
qed

text \<open>Queries.\<close>

lemma list_empty_family:
  "heap_lists h L \<Longrightarrow> L c = Some xs \<Longrightarrow> list_empty c h = Some (xs = [])"
  using ring_nxt_head[of h c xs] ring_distinct[of h c xs] listsD(2)[of h L c xs] lists_head_dom[of h L c]
  by (cases xs) (auto simp: list_empty_def heap_simps)

lemma list_first_family:
  "heap_lists h L \<Longrightarrow> L c = Some xs \<Longrightarrow> read_next c h = Some (hd (xs @ [c]))"
  using ring_nxt_head[of h c xs] listsD(2)[of h L c xs] lists_head_dom[of h L c]
  by (auto simp: heap_simps)

lemma list_last_family:
  "heap_lists h L \<Longrightarrow> L c = Some xs \<Longrightarrow> read_prev c h = Some (last (c # xs))"
  using ring_prv_head[of h c xs] listsD(2)[of h L c xs] lists_head_dom[of h L c]
  by (auto simp add: heap_simps simp del: last.simps)

text \<open>Moving an element, possibly within its list.\<close>

lemma list_move_family:
  assumes "heap_lists h L" "L c = Some xs" "x \<in> set xs" "(L(c \<mapsto> remove1 x xs)) d = Some ys"
  shows "\<exists>h'. list_move x d h = Some h' \<and> heap_lists h' (L(c \<mapsto> remove1 x xs, d \<mapsto> x # ys))
    \<and> dom h' = dom h"
proof -
  obtain h1 where "internal_list_del_entry x h = Some h1" "heap_lists h1 (L(c \<mapsto> remove1 x xs))"
    "dom h1 = dom h" "loose h1 (L(c \<mapsto> remove1 x xs)) x"
    using internal_list_del_entry_family[OF assms(1-3)] by blast
  then show ?thesis using list_add_family[of h1 "L(c \<mapsto> remove1 x xs)" d ys x] assms(4) by (fastforce simp: list_move_def)
qed

lemma list_move_tail_family:
  assumes "heap_lists h L" "L c = Some xs" "x \<in> set xs" "(L(c \<mapsto> remove1 x xs)) d = Some ys"
  shows "\<exists>h'. list_move_tail x d h = Some h' \<and> heap_lists h' (L(c \<mapsto> remove1 x xs, d \<mapsto> ys @ [x]))
    \<and> dom h' = dom h"
proof -
  obtain h1 where "internal_list_del_entry x h = Some h1" "heap_lists h1 (L(c \<mapsto> remove1 x xs))"
    "dom h1 = dom h" "loose h1 (L(c \<mapsto> remove1 x xs)) x"
    using internal_list_del_entry_family[OF assms(1-3)] by blast
  then show ?thesis using list_add_tail_family[of h1 "L(c \<mapsto> remove1 x xs)" d ys x] assms(4) by (fastforce simp: list_move_tail_def)
qed

lemma list_rotate_left_family:
  assumes "heap_lists h L" "L c = Some xs"
  shows "\<exists>h'. list_rotate_left c h = Some h' \<and> heap_lists h' (L(c \<mapsto> rotate1 xs)) \<and> dom h' = dom h"
proof (cases xs)
  case Nil
  then show ?thesis using list_empty_family[OF assms] assms
    by (auto simp: list_rotate_left_def fun_upd_idem)
next
  case (Cons x xs')
  have "\<exists>h'. list_move_tail x c h = Some h' \<and> heap_lists h' (L(c \<mapsto> xs', c \<mapsto> xs' @ [x]))
    \<and> dom h' = dom h"
    using list_move_tail_family[OF assms, of x c xs'] Cons by simp
  then show ?thesis
    using list_empty_family[OF assms] list_first_family[OF assms] Cons
    by (auto simp: list_rotate_left_def)
qed

text \<open>Splicing.\<close>

lemma internal_list_splice_family:
  assumes L: "heap_lists h L" and c: "L c = Some (us @ vs)" and l: "L l = Some ys" "l \<noteq> c" "ys \<noteq> []"
  shows "\<exists>h'. internal_list_splice l (last (c # us)) (hd (vs @ [c])) h = Some h'
    \<and> heap_lists h' (L(l := None, c \<mapsto> us @ ys @ vs)) \<and> dom h' = dom h
    \<and> loose h' (L(l := None, c \<mapsto> us @ ys @ vs)) l"
proof -
  let ?a = "last (c # us)" and ?b = "hd (vs @ [c])" and ?f = "hd ys" and ?e = "last ys"
  let ?h = "put_prev ?b ?e (put_next ?e ?b (put_next ?a ?f (put_prev ?f ?a h)))"
  let ?L = "L(l := None)"
  have rc: "ring h c (us @ vs)" and rl: "ring h l ys" using listsD(2)[OF L] c l by auto
  have dis: "set (c # us @ vs) \<inter> set (l # ys) = {}" using listsD(3)[OF L c l(1)] l(2) by blast
  have ab: "?a \<in> set (c # us @ vs)" "?b \<in> set (c # us @ vs)"
    using last_in_set[of "c # us"] hd_in_set[of "vs @ [c]"] by auto
  have fe: "?f \<in> set ys" "?e \<in> set ys" using l(3) by auto
  have dom: "set (c # us @ vs) \<subseteq> dom h" "set (l # ys) \<subseteq> dom h"
    using rc rl by (auto simp: ring_def)
  with ab fe have d: "?a \<in> dom h" "?b \<in> dom h" "?f \<in> dom h" "?e \<in> dom h" by auto
  have ne: "x \<noteq> y" if "x \<in> set (c # us @ vs)" "y \<in> set ys" for x y using that dis by auto
  have domh: "dom ?h = dom h" using d by (simp add: heap_simps insert_absorb del: last.simps)
  have n: "nxt ?h = (nxt h)(?a := ?f, ?e := ?b)" and p: "prv ?h = (prv h)(?f := ?a, ?b := ?e)"
    by (simp_all add: heap_simps del: last.simps)
  have eq: "internal_list_splice l ?a ?b h = Some ?h"
    using d dom list_first_family[OF L l(1)] list_last_family[OF L l(1)] l(3)
    by (simp add: internal_list_splice_def heap_simps)
  have "nxt ?h x = nxt h x" if "x \<in> set (c # us @ vs)" "x \<noteq> ?a" for x
    using that(2) ne[OF that(1) fe(2)] unfolding n by simp
  moreover have "prv ?h x = prv h x" if "x \<in> set (c # us @ vs)" "x \<noteq> ?b" for x
    using that(2) ne[OF that(1) fe(1)] unfolding p by simp
  ultimately have "chain (nxt ?h) (prv ?h) (c # us) = chain (nxt h) (prv h) (c # us)"
    "chain (nxt ?h) (prv ?h) (vs @ [c]) = chain (nxt h) (prv h) (vs @ [c])"
    using chain_halves[OF ring_distinct[OF rc], of "nxt ?h" "nxt h" "prv ?h" "prv h"] by blast+
  then have halves: "chain (nxt ?h) (prv ?h) (c # us)" "chain (nxt ?h) (prv ?h) (vs @ [c])"
    using rc unfolding ring_gap by simp_all
  have dys: "distinct (butlast ys @ [last ys])" "distinct (hd ys # tl ys)"
    using ring_distinct[OF rl] l(3) by auto
  have "chain (nxt ?h) (prv ?h) ys = chain (nxt h) (prv h) ys"
  proof (rule chain_cong)
    show "nxt ?h x = nxt h x" if "x \<in> set (butlast ys)" for x
      using that dys(1) ne[OF ab(1) in_set_butlastD[OF that]] unfolding n by auto
    show "prv ?h x = prv h x" if "x \<in> set (tl ys)" for x
      using that dys(2) ne[OF ab(2) list.set_sel(2)[OF l(3) that]] unfolding p by auto
  qed
  moreover have "chain (nxt h) (prv h) ys"
    using rl l(3) unfolding ring_gap[of h l "[]" ys, simplified]
    by (cases ys) (auto simp: chain_join simp del: last.simps)
  ultimately have cys: "chain (nxt ?h) (prv ?h) ys" by simp
  have "chain (nxt ?h) (prv ?h) (hd ys # tl ys @ vs @ [c])"
    using chain_join[of "vs @ [c]" "nxt ?h" "prv ?h" "hd ys" "tl ys"] cys halves(2) l(3) ne[OF ab(1) fe(2)]
      ne[OF ab(2) fe(1)] by (simp add: n p del: last.simps)
  then have "chain (nxt ?h) (prv ?h) ((ys @ vs) @ [c])" using l(3) by (cases ys) auto
  moreover have "nxt ?h ?a = hd ys" "prv ?h (hd ys) = ?a"
    using ne[OF ab(1) fe(2)] ne[OF ab(2) fe(1)] by (simp_all add: n p del: last.simps)
  ultimately have rn: "ring ?h c (us @ (ys @ vs))"
    using halves(1) l(3) dom ring_distinct[OF rc] ring_distinct[OF rl] dis domh
    unfolding ring_gap[of ?h c us "ys @ vs"] by (auto simp del: last.simps)
  have "heap_lists ?h (?L(c \<mapsto> us @ (ys @ vs)))"
  proof (rule lists_upd[OF lists_forget[OF L] rn])
    show "set (c # us @ vs) \<union> set ys \<subseteq> dom h" "set (c # us @ ys @ vs) \<subseteq> set (c # us @ vs) \<union> set ys"
      using dom by auto
    show "(set (c # us @ vs) \<union> set ys) \<inter> cells (?L(c := None)) = {}"
      using cells_forget[OF L l(1)] cells_forget[OF lists_forget[OF L, of l], of c "us @ vs"] c l(2) by auto
    show "?h x = h x" if "x \<notin> set (c # us @ vs) \<union> set ys" for x
    proof -
      from that ab fe have "x \<noteq> ?a" "x \<noteq> ?b" "x \<noteq> ?f" "x \<noteq> ?e" by blast+
      then show ?thesis by (simp add: heap_simps del: last.simps)
    qed
  qed
  moreover have "loose ?h (?L(c \<mapsto> us @ (ys @ vs))) l"
    using domh dom dis ring_distinct[OF rl] cells_forget[OF L l(1)]
      cells_forget[OF lists_forget[OF L, of l], of c "us @ vs"] c l(2)
    by (auto simp: loose_def cells_upd)
  ultimately show ?thesis using eq domh by auto
qed

lemma list_splice_family:
  assumes L: "heap_lists h L" and c: "L c = Some xs" and l: "L l = Some ys" "l \<noteq> c"
  shows "\<exists>h'. list_splice l c h = Some h' \<and> dom h' = dom h \<and>
    (if ys = [] then h' = h
     else heap_lists h' (L(l := None, c \<mapsto> ys @ xs)) \<and> loose h' (L(l := None, c \<mapsto> ys @ xs)) l)"
  using internal_list_splice_family[OF L, of c "[]" xs l ys] c l
    list_empty_family[OF L l(1)] list_first_family[OF L c]
  by (auto simp: list_splice_def)

lemma list_splice_tail_family:
  assumes L: "heap_lists h L" and c: "L c = Some xs" and l: "L l = Some ys" "l \<noteq> c"
  shows "\<exists>h'. list_splice_tail l c h = Some h' \<and> dom h' = dom h \<and>
    (if ys = [] then h' = h
     else heap_lists h' (L(l := None, c \<mapsto> xs @ ys)) \<and> loose h' (L(l := None, c \<mapsto> xs @ ys)) l)"
  using internal_list_splice_family[OF L, of c xs "[]" l ys] c l
    list_empty_family[OF L l(1)] list_last_family[OF L c]
  by (auto simp add: list_splice_tail_def simp del: last.simps)

lemma list_splice_init_family:
  assumes L: "heap_lists h L" and c: "L c = Some xs" and l: "L l = Some ys" "l \<noteq> c"
  shows "\<exists>h'. list_splice_init l c h = Some h' \<and> heap_lists h' (L(c \<mapsto> ys @ xs, l \<mapsto> []))
    \<and> dom h' = dom h"
proof (cases "ys = []")
  case True
  then have "L(c \<mapsto> ys @ xs, l \<mapsto> []) = L" using c l by auto
  then show ?thesis using True L list_empty_family[OF L l(1)] by (auto simp: list_splice_init_def)
next
  case False
  let ?L = "L(l := None, c \<mapsto> ys @ xs)"
  obtain h1 where h1: "internal_list_splice l c (hd (xs @ [c])) h = Some h1" "heap_lists h1 ?L"
    "dom h1 = dom h" "loose h1 ?L l"
    using internal_list_splice_family[OF L, of c "[]" xs l ys] c l False by auto
  have "?L(l := None) = ?L" "?L(l \<mapsto> []) = L(c \<mapsto> ys @ xs, l \<mapsto> [])" using l(2) by auto
  then show ?thesis
    using INIT_LIST_HEAD_family[OF h1(2), of l] h1 False
      list_empty_family[OF L l(1)] list_first_family[OF L c]
    by (auto simp: list_splice_init_def)
qed

lemma list_splice_tail_init_family:
  assumes L: "heap_lists h L" and c: "L c = Some xs" and l: "L l = Some ys" "l \<noteq> c"
  shows "\<exists>h'. list_splice_tail_init l c h = Some h' \<and> heap_lists h' (L(c \<mapsto> xs @ ys, l \<mapsto> []))
    \<and> dom h' = dom h"
proof (cases "ys = []")
  case True
  then have "L(c \<mapsto> xs @ ys, l \<mapsto> []) = L" using c l by auto
  then show ?thesis using True L list_empty_family[OF L l(1)] by (auto simp: list_splice_tail_init_def)
next
  case False
  let ?L = "L(l := None, c \<mapsto> xs @ ys)"
  obtain h1 where h1: "internal_list_splice l (last (c # xs)) c h = Some h1" "heap_lists h1 ?L"
    "dom h1 = dom h" "loose h1 ?L l"
    using internal_list_splice_family[OF L, of c xs "[]" l ys] c l False by auto
  have "?L(l := None) = ?L" "?L(l \<mapsto> []) = L(c \<mapsto> xs @ ys, l \<mapsto> [])" using l(2) by auto
  then show ?thesis
    using INIT_LIST_HEAD_family[OF h1(2), of l] h1 False
      list_empty_family[OF L l(1)] list_last_family[OF L c]
    by (auto simp add: list_splice_tail_init_def simp del: last.simps)
qed

text \<open>Cutting a list in two after one of its entries.\<close>

lemma internal_list_cut_position_family:
  assumes L: "heap_lists h L" and c: "L c = Some ((us @ [e]) @ vs)" and l: "loose h L l"
  shows "\<exists>h'. internal_list_cut_position l c e h = Some h'
    \<and> heap_lists h' (L(c \<mapsto> vs, l \<mapsto> us @ [e])) \<and> dom h' = dom h"
proof -
  let ?f = "hd (us @ [e])" and ?g = "hd (vs @ [c])"
  let ?h = "put_prev ?g c (put_next c ?g (put_next e l (put_prev l e (put_prev ?f l (put_next l ?f h)))))"
  let ?X = "insert l (set (c # us @ e # vs))"
  have r: "ring h c ((us @ [e]) @ vs)" using listsD(2)[OF L c] .
  have dist: "distinct (c # us @ e # vs)" using ring_distinct[OF r] by simp
  have X: "?X \<subseteq> dom h" using r l by (auto simp: ring_def loose_def)
  have lX: "l \<notin> set (c # us @ e # vs)"
    using l cellsI[of L c "(us @ [e]) @ vs" l] c by (auto simp: loose_def)
  have fg: "?f \<in> set (us @ [e])" "?g \<in> set (vs @ [c])" by (rule hd_in_set, simp)+
  then have in_X: "?f \<in> ?X" "?g \<in> ?X" by auto
  have d: "?f \<in> dom h" "?g \<in> dom h" "l \<in> dom h" "c \<in> dom h" "e \<in> dom h" using in_X X by auto
  have sep: "?f \<noteq> l" "?g \<noteq> l" "?f \<noteq> ?g" "?f \<noteq> c" "c \<noteq> e" "l \<noteq> e" "l \<noteq> c" "?g \<noteq> e"
    using fg lX dist by auto
  have domh: "dom ?h = dom h" using d by (simp add: heap_simps insert_absorb)
  have n: "nxt ?h = (nxt h)(l := ?f, e := l, c := ?g)"
    and p: "prv ?h = (prv h)(?f := l, l := e, ?g := c)"
    using sep by (auto simp: heap_simps fun_eq_iff)
  have nb: "read_next e h = Some ?g" "read_next c h = Some ?f"
    using list_neighbours(2)[OF L, of c us e vs] list_first_family[OF L c] c by (simp_all add: hd_append)
  have eq: "internal_list_cut_position l c e h = Some ?h"
    using nb d sep(7) by (simp add: internal_list_cut_position_def heap_simps)
  have old: "chain (nxt h) (prv h) (us @ [e])" "chain (nxt h) (prv h) (vs @ [c])"
    using r unfolding ring_gap by (cases "us @ [e]"; auto)+
  have "chain (nxt ?h) (prv ?h) (us @ [e]) = chain (nxt h) (prv h) (us @ [e])"
  proof (rule chain_cong)
    show "nxt ?h x = nxt h x" if "x \<in> set (butlast (us @ [e]))" for x
      using that dist lX unfolding n by auto
    show "prv ?h x = prv h x" if x: "x \<in> set (tl (us @ [e]))" for x
    proof -
      have "distinct (us @ [e])" using dist by simp
      then have "x \<noteq> ?f" using x by (cases "us @ [e]") auto
      moreover have "x \<noteq> l" "x \<noteq> ?g" using list.set_sel(2)[OF _ x] fg(2) dist lX by auto
      ultimately show ?thesis unfolding p by simp
    qed
  qed
  moreover have "chain (nxt ?h) (prv ?h) (vs @ [c]) = chain (nxt h) (prv h) (vs @ [c])"
  proof (rule chain_cong)
    show "nxt ?h x = nxt h x" if "x \<in> set (butlast (vs @ [c]))" for x
      using that dist lX unfolding n by auto
    show "prv ?h x = prv h x" if x: "x \<in> set (tl (vs @ [c]))" for x
    proof -
      have "x \<noteq> ?g" using x dist by (cases vs) auto
      moreover have "x \<noteq> l" "x \<noteq> ?f" using list.set_sel(2)[OF _ x] fg(1) dist lX by auto
      ultimately show ?thesis unfolding p by simp
    qed
  qed
  ultimately have new: "chain (nxt ?h) (prv ?h) (us @ [e])" "chain (nxt ?h) (prv ?h) (vs @ [c])"
    using old by simp_all
  have "nxt ?h c = ?g" "prv ?h ?g = c" unfolding n p by simp_all
  then have rc: "ring ?h c vs"
    using new(2) dist domh X ring_gap[of ?h c "[]" vs] by auto
  have "nxt ?h l = ?f" "prv ?h ?f = l" "nxt ?h e = l" "prv ?h l = e" unfolding n p using sep by simp_all
  with new(1) have "chain (nxt ?h) (prv ?h) (l # us @ [e])" by (simp add: chain_Cons)
  with \<open>nxt ?h e = l\<close> \<open>prv ?h l = e\<close> have rl: "ring ?h l (us @ [e])"
    using dist lX domh X ring_gap[of ?h l "us @ [e]" "[]"] by auto
  have h1: "heap_lists ?h (L(c \<mapsto> vs))"
  proof (rule lists_upd[OF L rc, of ?X])
    show "?X \<inter> cells (L(c := None)) = {}"
      using cells_forget[OF L c] l lX by (auto simp: loose_def)
    show "?h x = h x" if "x \<notin> ?X" for x
    proof -
      from that in_X have "x \<noteq> ?f" "x \<noteq> ?g" "x \<noteq> l" "x \<noteq> c" "x \<noteq> e" by auto
      then show ?thesis by (simp add: heap_simps)
    qed
  qed (use X in auto)
  have "cells (L(c \<mapsto> vs)) = cells L - set (c # us @ e # vs) \<union> set (c # vs)"
    using cells_forget[OF L c] by (auto simp: cells_upd)
  then have "set (l # us @ [e]) \<inter> cells (L(c \<mapsto> vs)) = {}"
    using dist lX l by (auto simp: loose_def)
  moreover from this have "(L(c \<mapsto> vs)) l = None"
    using cellsI[of "L(c \<mapsto> vs)" l _ l] by fastforce
  ultimately have "heap_lists ?h (L(c \<mapsto> vs, l \<mapsto> us @ [e]))"
    using lists_upd[OF h1 rl, of "set (l # us @ [e])"] rl by (simp add: ring_def fun_upd_idem)
  then show ?thesis using eq domh by blast
qed

text \<open>More queries.\<close>

lemma list_is_last_family:
  assumes "heap_lists h L" "L c = Some xs" "x \<in> set xs"
  shows "list_is_last x c h = Some (x = last xs)"
proof -
  obtain us vs where sp: "xs = us @ x # vs" using split_list[OF assms(3)] by blast
  have "distinct (c # us @ x # vs)" using ring_distinct[OF listsD(2)[OF assms(1,2)]] sp by simp
  then have "hd (vs @ [c]) = c \<longleftrightarrow> x = last xs" using sp by (cases vs rule: rev_cases) (auto simp: hd_append)
  then show ?thesis using list_neighbours(2)[of h L c us x vs] assms(1,2) sp
    by (auto simp: list_is_last_def)
qed

lemma list_is_singular_family:
  assumes "heap_lists h L" "L c = Some xs"
  shows "list_is_singular c h = Some (length xs = 1)"
proof -
  have "distinct (c # xs)" using ring_distinct[OF listsD(2)[OF assms]] .
  then have "(xs \<noteq> [] \<and> hd (xs @ [c]) = last (c # xs)) = (length xs = 1)"
    by (cases xs; cases "tl xs" rule: rev_cases) (auto simp: neq_Nil_conv)
  then show ?thesis
    using list_empty_family[OF assms] list_first_family[OF assms] list_last_family[OF assms]
    by (simp add: list_is_singular_def del: last.simps)
qed

lemma list_empty_careful_family:
  assumes "heap_lists h L" "L c = Some xs"
  shows "list_empty_careful c h = Some (xs = [])"
proof -
  have "distinct (c # xs)" using ring_distinct[OF listsD(2)[OF assms]] .
  then have "(hd (xs @ [c]) = c \<and> hd (xs @ [c]) = last (c # xs)) = (xs = [])"
    by (cases xs) auto
  then show ?thesis using list_first_family[OF assms] list_last_family[OF assms]
    by (simp add: list_empty_careful_def del: last.simps)
qed

lemma list_cut_position_family:
  assumes L: "heap_lists h L" and c: "L c = Some xs" and l: "loose h L l" and e: "e \<in> set (c # xs)"
  shows "\<exists>h'. list_cut_position l c e h = Some h' \<and> dom h' = dom h \<and>
    (if xs = [] then h' = h
     else if e = c then heap_lists h' (L(l \<mapsto> []))
     else \<exists>us vs. xs = us @ e # vs \<and> heap_lists h' (L(c \<mapsto> vs, l \<mapsto> us @ [e])))"
proof -
  have q: "list_empty c h = Some (xs = [])" "list_is_singular c h = Some (length xs = 1)"
    "read_next c h = Some (hd (xs @ [c]))"
    using list_empty_family[OF L c] list_is_singular_family[OF L c] list_first_family[OF L c] by auto
  have one: "\<not> (length xs = 1 \<and> hd (xs @ [c]) \<noteq> e \<and> c \<noteq> e)" using e by (cases xs) auto
  consider "xs = []" | "xs \<noteq> []" "e = c" | "xs \<noteq> []" "e \<noteq> c" by blast
  then show ?thesis
  proof cases
    case 1
    then show ?thesis using q by (auto simp: list_cut_position_def)
  next
    case 2
    have "L l = None" using l cellsI[of L l _ l] by (fastforce simp: loose_def)
    then have "L(l := None) = L" by auto
    then show ?thesis using 2 q INIT_LIST_HEAD_family[OF L, of l] l
      by (auto simp: list_cut_position_def)
  next
    case 3
    then obtain us vs where "xs = us @ e # vs" using e split_list[of e xs] by auto
    then show ?thesis
      using 3 q one internal_list_cut_position_family[OF L, of c us e vs l] c l
      by (auto simp: list_cut_position_def)
  qed
qed

text \<open>Replacing an element by a loose cell.\<close>

lemma list_replace_family:
  assumes L: "heap_lists h L" and c: "L c = Some (us @ old # vs)" and new: "loose h L new"
  shows "\<exists>h'. list_replace old new h = Some h' \<and> heap_lists h' (L(c \<mapsto> us @ new # vs))
    \<and> dom h' = dom h \<and> loose h' (L(c \<mapsto> us @ new # vs)) old"
proof -
  let ?a = "last (c # us)" and ?b = "hd (vs @ [c])"
  let ?mid = "put_next ?a ?b (put_prev ?b ?a h)"
  let ?h = "put_next ?a new (put_prev new ?a (put_prev ?b new (put_next new ?b h)))"
  let ?L = "L(c \<mapsto> us @ new # vs)" and ?X = "insert new (set (c # us @ vs))"
  have r: "ring h c (us @ old # vs)" using listsD(2)[OF L c] .
  have dom: "set (c # us @ old # vs) \<subseteq> dom h" using r by (auto simp: ring_def)
  have ab: "?a \<in> set (c # us @ vs)" "?b \<in> set (c # us @ vs)"
    using last_in_set[of "c # us"] hd_in_set[of "vs @ [c]"] by auto
  have nw: "new \<in> dom h" "new \<notin> set (c # us @ old # vs)"
    using new cellsI[of L c "us @ old # vs" new] c by (auto simp: loose_def)
  with ab dom have d: "?a \<in> dom h" "?b \<in> dom h" "old \<in> dom h" and ne: "?a \<noteq> new" "?b \<noteq> new" by auto
  have dist: "distinct (c # us @ old # vs)" using ring_distinct[OF r] .
  have "old \<noteq> ?a" using dist last_in_set[of "c # us"] by (auto simp del: last_in_set)
  moreover have "old \<noteq> ?b" using dist hd_in_set[of "vs @ [c]"] by auto
  ultimately have eq: "list_replace old new h = Some ?h"
    using d nw ne list_neighbours[OF L c]
    by (auto simp add: list_replace_def heap_simps simp del: last.simps)
  have domh: "dom ?h = dom h" using d nw(1) by (simp add: heap_simps insert_absorb del: last.simps)
  have "ring ?mid c (us @ vs)"
    using r by (rule ring_remove) (use dom d in \<open>auto simp add: heap_simps simp del: last.simps\<close>)
  then have rn: "ring ?h c (us @ new # vs)"
    by (rule ring_insert)
      (use nw dom domh ne in \<open>auto simp add: heap_simps fun_eq_iff simp del: last.simps\<close>)
  have "heap_lists ?h ?L"
  proof (rule lists_upd[OF L rn, of ?X])
    show "?X \<inter> cells (L(c := None)) = {}"
      using cells_forget[OF L c] new by (auto simp: loose_def)
    show "?h x = h x" if "x \<notin> ?X" for x
    proof -
      from that ab have "x \<noteq> ?a" "x \<noteq> ?b" "x \<noteq> new" by blast+
      then show ?thesis by (simp add: heap_simps del: last.simps)
    qed
  qed (use dom nw in auto)
  moreover have "loose ?h ?L old"
    using domh d dist nw cells_forget[OF L c] by (auto simp: loose_def cells_upd)
  ultimately show ?thesis using eq domh by blast
qed

lemma list_replace_init_family:
  assumes L: "heap_lists h L" and c: "L c = Some (us @ old # vs)" and new: "loose h L new"
  shows "\<exists>h'. list_replace_init old new h = Some h'
    \<and> heap_lists h' (L(c \<mapsto> us @ new # vs, old \<mapsto> [])) \<and> dom h' = dom h"
proof -
  let ?L = "L(c \<mapsto> us @ new # vs)"
  obtain h1 where h1: "list_replace old new h = Some h1" "heap_lists h1 ?L" "dom h1 = dom h"
    "loose h1 ?L old" using list_replace_family[OF assms] by blast
  then have "?L old = None" using cellsI[of ?L old _ old] by (fastforce simp: loose_def)
  then have "loose h1 (?L(old := None)) old" using h1(4) by (metis fun_upd_triv)
  from INIT_LIST_HEAD_family[OF h1(2) this] h1 show ?thesis
    by (auto simp: list_replace_init_def)
qed

section \<open>Sequences of operations\<close>

text \<open>The operations a client may call, and what they promise on the lists of the family.\<close>

datatype list_call = L_add addr addr | L_add_tail addr addr | L_del_init addr | L_move addr addr
  | L_move_tail addr addr | L_rotate_left addr | L_splice_init addr addr | L_splice_tail_init addr addr
  | L_cut addr addr addr | L_replace_init addr addr

fun do_list_call :: "list_call \<Rightarrow> list_heap \<Rightarrow> list_heap option" where
  "do_list_call (L_add new head) h = list_add new head h"
| "do_list_call (L_add_tail new head) h = list_add_tail new head h"
| "do_list_call (L_del_init e) h = list_del_init e h"
| "do_list_call (L_move e head) h = list_move e head h"
| "do_list_call (L_move_tail e head) h = list_move_tail e head h"
| "do_list_call (L_rotate_left head) h = list_rotate_left head h"
| "do_list_call (L_splice_init l head) h = list_splice_init l head h"
| "do_list_call (L_splice_tail_init l head) h = list_splice_tail_init l head h"
| "do_list_call (L_cut l head e) h = list_cut_position l head e h"
| "do_list_call (L_replace_init old new) h = list_replace_init old new h"

fun do_list_calls :: "list_call list \<Rightarrow> list_heap \<Rightarrow> list_heap option" where
  "do_list_calls [] h = Some h"
| "do_list_calls (c # cs) h = do { h \<leftarrow> do_list_call c h; do_list_calls cs h }"

inductive list_spec :: "list_call \<Rightarrow> family \<Rightarrow> family \<Rightarrow> bool" where
  add: "L n = Some [] \<Longrightarrow> n \<noteq> c \<Longrightarrow> L c = Some xs \<Longrightarrow> list_spec (L_add n c) L (L(n := None, c \<mapsto> n # xs))"
| add_tail: "L n = Some [] \<Longrightarrow> n \<noteq> c \<Longrightarrow> L c = Some xs \<Longrightarrow>
    list_spec (L_add_tail n c) L (L(n := None, c \<mapsto> xs @ [n]))"
| del_init: "L c = Some xs \<Longrightarrow> e \<in> set xs \<Longrightarrow> list_spec (L_del_init e) L (L(c \<mapsto> remove1 e xs, e \<mapsto> []))"
| move: "L c = Some xs \<Longrightarrow> e \<in> set xs \<Longrightarrow> (L(c \<mapsto> remove1 e xs)) d = Some ys \<Longrightarrow>
    list_spec (L_move e d) L (L(c \<mapsto> remove1 e xs, d \<mapsto> e # ys))"
| move_tail: "L c = Some xs \<Longrightarrow> e \<in> set xs \<Longrightarrow> (L(c \<mapsto> remove1 e xs)) d = Some ys \<Longrightarrow>
    list_spec (L_move_tail e d) L (L(c \<mapsto> remove1 e xs, d \<mapsto> ys @ [e]))"
| rotate_left: "L c = Some xs \<Longrightarrow> list_spec (L_rotate_left c) L (L(c \<mapsto> rotate1 xs))"
| splice_init: "L c = Some xs \<Longrightarrow> L l = Some ys \<Longrightarrow> l \<noteq> c \<Longrightarrow>
    list_spec (L_splice_init l c) L (L(c \<mapsto> ys @ xs, l \<mapsto> []))"
| splice_tail_init: "L c = Some xs \<Longrightarrow> L l = Some ys \<Longrightarrow> l \<noteq> c \<Longrightarrow>
    list_spec (L_splice_tail_init l c) L (L(c \<mapsto> xs @ ys, l \<mapsto> []))"
| cut: "L l = Some [] \<Longrightarrow> l \<noteq> c \<Longrightarrow> L c = Some (us @ e # vs) \<Longrightarrow>
    list_spec (L_cut l c e) L (L(c \<mapsto> vs, l \<mapsto> us @ [e]))"
| replace_init: "L n = Some [] \<Longrightarrow> n \<noteq> c \<Longrightarrow> L c = Some (us @ e # vs) \<Longrightarrow>
    list_spec (L_replace_init e n) L (L(n := None, c \<mapsto> us @ n # vs, e \<mapsto> []))"

inductive list_specs :: "list_call list \<Rightarrow> family \<Rightarrow> family \<Rightarrow> bool" where
  none: "list_specs [] L L"
| one_more: "list_spec c L L' \<Longrightarrow> list_specs cs L' L'' \<Longrightarrow> list_specs (c # cs) L L''"

lemma list_cut_middle:
  assumes L: "heap_lists h L" and l: "L l = Some []" "l \<noteq> c" and c: "L c = Some (us @ e # vs)"
  shows "\<exists>h'. list_cut_position l c e h = Some h' \<and> heap_lists h' (L(c \<mapsto> vs, l \<mapsto> us @ [e])) \<and> dom h' = dom h"
proof -
  have L': "heap_lists h (L(l := None))" "(L(l := None)) c = Some (us @ e # vs)" "loose h (L(l := None)) l"
    using lists_forget[OF L] c l(2) loose_forget[OF L l(1)] by simp_all
  have d: "distinct (c # us @ e # vs)" by (rule ring_distinct[OF listsD(2)[OF L c]])
  then have ec: "e \<noteq> c" by auto
  obtain h' us' vs' where h': "list_cut_position l c e h = Some h'" "dom h' = dom h"
    "us @ e # vs = us' @ e # vs'" "heap_lists h' (L(l := None, c \<mapsto> vs', l \<mapsto> us' @ [e]))"
    using list_cut_position_family[OF L'(1,2,3), of e] ec by auto
  have "us = us' \<and> vs = vs'" using h'(3) d by (auto simp: append_eq_append_conv2 append_eq_Cons_conv Cons_eq_append_conv)
  then show ?thesis using h' l(2) by (simp add: fun_upd_twist)
qed

lemma list_spec_refines:
  assumes "list_spec c L L'" "heap_lists h L"
  shows "\<exists>h'. do_list_call c h = Some h' \<and> heap_lists h' L' \<and> dom h' = dom h"
  using assms
proof (induction rule: list_spec.induct)
  case (add L n c xs)
  then show ?case
    using list_add_family[OF lists_forget[OF add.prems] _ loose_forget[OF add.prems add.hyps(1)], of c xs]
      add.hyps(2,3) by (simp only: do_list_call.simps fun_upd_other not_sym simp_thms)
next
  case (add_tail L n c xs)
  then show ?case
    using list_add_tail_family[OF lists_forget[OF add_tail.prems] _ loose_forget[OF add_tail.prems add_tail.hyps(1)], of c xs]
      add_tail.hyps(2,3) by (simp only: do_list_call.simps fun_upd_other not_sym simp_thms)
next
  case (replace_init L n c us e vs)
  then show ?case
    using list_replace_init_family[OF lists_forget[OF replace_init.prems] _
        loose_forget[OF replace_init.prems replace_init.hyps(1)], of c us e vs]
      replace_init.hyps(2,3) by (simp only: do_list_call.simps fun_upd_other not_sym simp_thms)
next
  case (del_init L c xs e)
  from list_del_init_family[OF del_init.prems del_init.hyps] show ?case by (simp only: do_list_call.simps)
next
  case (move L c xs e d ys)
  from list_move_family[OF move.prems move.hyps] show ?case by (simp only: do_list_call.simps)
next
  case (move_tail L c xs e d ys)
  from list_move_tail_family[OF move_tail.prems move_tail.hyps] show ?case by (simp only: do_list_call.simps)
next
  case (rotate_left L c xs)
  from list_rotate_left_family[OF rotate_left.prems rotate_left.hyps] show ?case by (simp only: do_list_call.simps)
next
  case (splice_init L c xs l ys)
  from list_splice_init_family[OF splice_init.prems splice_init.hyps] show ?case by (simp only: do_list_call.simps)
next
  case (splice_tail_init L c xs l ys)
  from list_splice_tail_init_family[OF splice_tail_init.prems splice_tail_init.hyps] show ?case by (simp only: do_list_call.simps)
next
  case (cut L l c us e vs)
  from list_cut_middle[OF cut.prems cut.hyps] show ?case by (simp only: do_list_call.simps)
qed

section \<open>Properties\<close>

text \<open>C6: Every sequence of list operations whose preconditions hold runs without a bad memory
  access, and the pointers represent the lists the specification gives: insertion at either end,
  deletion, moves, rotation, splices, the cut and the replacement all act on the sequences of
  elements as intended, and the other lists of the heap are untouched.\<close>

theorem list_operations_refine:
  assumes "list_specs cs L L'" "heap_lists h L"
  shows "\<exists>h'. do_list_calls cs h = Some h' \<and> heap_lists h' L' \<and> dom h' = dom h"
  using assms
proof (induction arbitrary: h rule: list_specs.induct)
  case (one_more c L L' cs L'')
  from list_spec_refines[OF one_more.hyps(1) one_more.prems] obtain h1 where
    h1: "do_list_call c h = Some h1" "heap_lists h1 L'" "dom h1 = dom h" by blast
  from one_more.IH[OF h1(2)] h1 show ?case by auto
qed simp

text \<open>The tests agree with the list: empty, the first and the last element, being the last, having
  exactly one element.\<close>

theorem list_tests_correct:
  assumes "heap_lists h L" "L c = Some xs"
  shows "list_empty c h = Some (xs = []) \<and> list_is_singular c h = Some (length xs = 1)
    \<and> read_next c h = Some (hd (xs @ [c])) \<and> list_empty_careful c h = Some (xs = [])
    \<and> (\<forall>x\<in>set xs. list_is_last x c h = Some (x = last xs))"
  using list_empty_family[OF assms] list_is_singular_family[OF assms] list_first_family[OF assms]
    list_empty_careful_family[OF assms] list_is_last_family[OF assms] by blast

section \<open>Concrete instances\<close>

text \<open>A heap with the three initialised cells 1, 2 and 3.\<close>

definition three_cells :: list_heap where
  "three_cells = (\<lambda>a. if a \<in> {1, 2, 3} then Some \<lparr>le_next = a, le_prev = a\<rparr> else None)"

definition three_lists :: family where
  "three_lists = (\<lambda>a. if a \<in> {1, 2, 3} then Some [] else None)"

lemma three_cells_lists: "heap_lists three_cells three_lists"
  by (auto simp: heap_lists_def three_cells_def three_lists_def ring_def nxt_def prv_def NULL_def split: if_splits)

theorem list_operations_refine_witness:
  "\<exists>h'. do_list_calls [L_add_tail 2 1, L_add_tail 3 1, L_rotate_left 1, L_del_init 2] three_cells = Some h'
    \<and> heap_lists h' ((Map.empty)(1 \<mapsto> [3], 2 \<mapsto> []))"
proof -
  have "list_specs [L_add_tail 2 1, L_add_tail 3 1, L_rotate_left 1, L_del_init 2] three_lists
      (three_lists(2 := None, 1 \<mapsto> [] @ [2], 3 := None, 1 \<mapsto> ([] @ [2]) @ [3], 1 \<mapsto> rotate1 (([] @ [2]) @ [3]),
        1 \<mapsto> remove1 2 (rotate1 (([] @ [2]) @ [3])), 2 \<mapsto> []))"
    by (rule list_specs.one_more[OF list_spec.add_tail list_specs.one_more[OF list_spec.add_tail
          list_specs.one_more[OF list_spec.rotate_left list_specs.one_more[OF list_spec.del_init list_specs.none]]]])
      (simp_all add: three_lists_def)
  from list_operations_refine[OF this three_cells_lists] obtain h' where h':
    "do_list_calls [L_add_tail 2 1, L_add_tail 3 1, L_rotate_left 1, L_del_init 2] three_cells = Some h'"
    "heap_lists h' (three_lists(2 := None, 1 \<mapsto> [] @ [2], 3 := None, 1 \<mapsto> ([] @ [2]) @ [3],
      1 \<mapsto> rotate1 (([] @ [2]) @ [3]), 1 \<mapsto> remove1 2 (rotate1 (([] @ [2]) @ [3])), 2 \<mapsto> []))" by blast
  have "three_lists(2 := None, 1 \<mapsto> [] @ [2], 3 := None, 1 \<mapsto> ([] @ [2]) @ [3], 1 \<mapsto> rotate1 (([] @ [2]) @ [3]),
        1 \<mapsto> remove1 2 (rotate1 (([] @ [2]) @ [3])), 2 \<mapsto> []) = (Map.empty)(1 \<mapsto> [3], 2 \<mapsto> [])"
    by (rule ext) (simp add: three_lists_def)
  with h' show ?thesis by auto
qed

theorem list_tests_correct_witness:
  "list_empty 1 three_cells = Some True \<and> list_is_singular 1 three_cells = Some False
    \<and> list_empty_careful 1 three_cells = Some True"
  using list_tests_correct[OF three_cells_lists, of 1 "[]"] by (simp add: three_lists_def)

end
