(* ===== verification/List_Loops.thy ===== *)
theory List_Loops
  imports Generic_List
begin

text \<open>
  The loops of \<open>src/src/generic_list.h\<close> and of its clients: the traversal macros
  \<open>list_for_each_entry\<close> and \<open>list_for_each_entry_safe\<close>, and the work-list loop
  \<open>while(!list_empty(l)) { x = list_first_entry(l); ... }\<close> that both the timer and the driver
  run. They follow the pointers of the heap, so they are partial functions: \<open>None\<close> is a bad
  access or a loop that never ends. Two locales state what a loop body has to keep, and prove
  once that the loop then ends and what it leaves.

  \<open>mem\<close> is the root of the records of the components: the heap of list cells, which they share.
\<close>

section \<open>The shared memory\<close>

record mem =
  lheap :: list_heap

definition on_heap ::
  "(list_heap \<Rightarrow> list_heap option) \<Rightarrow> 'a mem_scheme \<Rightarrow> 'a mem_scheme option" where
  "on_heap f w = do { h \<leftarrow> f (lheap w); Some (w\<lparr>lheap := h\<rparr>) }"

lemma on_heap_Some: "f (lheap w) = Some h \<Longrightarrow> on_heap f w = Some (w\<lparr>lheap := h\<rparr>)"
  by (simp add: on_heap_def)

text \<open>
  A local variable \<open>struct list_head c = LIST_HEAD_INIT(c)\<close>: its cell comes into being,
  initialised, on entry and is gone on return.
\<close>

definition enter_scope :: "addr \<Rightarrow> 'a mem_scheme \<Rightarrow> 'a mem_scheme" where
  "enter_scope c w = w\<lparr>lheap := (lheap w)(c \<mapsto> \<lparr>le_next = c, le_prev = c\<rparr>)\<rparr>"

definition leave_scope :: "addr \<Rightarrow> 'a mem_scheme \<Rightarrow> 'a mem_scheme" where
  "leave_scope c w = w\<lparr>lheap := (lheap w)(c := None)\<rparr>"

lemma enter_scope_family:
  assumes "heap_lists (lheap w) L" "lheap w c = None" "c \<noteq> NULL"
  shows "heap_lists (lheap (enter_scope c w)) (L(c \<mapsto> []))"
proof -
  let ?h = "(lheap w)(c \<mapsto> \<lparr>le_next = c, le_prev = c\<rparr>)"
  have out: "c \<notin> set (d # xs)" if "L d = Some xs" for d xs
    using that ring_dom[OF listsD(2)[OF assms(1) that], of c] assms(2) by (auto simp: domIff)
  have "ring ?h d xs" if "L d = Some xs" for d xs
    using out[OF that] by (intro ring_same[OF listsD(2)[OF assms(1) that]]) auto
  moreover have "ring ?h c []" by (simp add: ring_def nxt_def prv_def)
  ultimately show ?thesis
    using out listsD(1,3)[OF assms(1)] assms(3) unfolding heap_lists_def enter_scope_def
    by (simp split: if_splits)
qed

lemma leave_scope_family:
  assumes L: "heap_lists (lheap w) L" and c: "L c = Some []"
  shows "heap_lists (lheap (leave_scope c w)) (L(c := None))"
proof -
  have "ring ((lheap w)(c := None)) d xs" if "L d = Some xs" "d \<noteq> c" for d xs
    using listsD(3)[OF L c that(1)] that
    by (intro ring_same[OF listsD(2)[OF L that(1)]]) auto
  then show ?thesis
    using listsD(1)[OF L] listsD(3)[OF L] unfolding heap_lists_def leave_scope_def
    by auto
qed

text \<open>A heap whose cells \<open>A\<close> are all initialised and in no list.\<close>

definition idle_heap :: "addr set \<Rightarrow> list_heap" where
  "idle_heap A = (\<lambda>a. if a \<in> A then Some \<lparr>le_next = a, le_prev = a\<rparr> else None)"

definition idle_lists :: "addr set \<Rightarrow> family" where
  "idle_lists A = (\<lambda>a. if a \<in> A then Some [] else None)"

lemma idle_heap_lists: "NULL \<notin> A \<Longrightarrow> heap_lists (idle_heap A) (idle_lists A)"
  by (auto simp: heap_lists_def idle_heap_def idle_lists_def ring_def nxt_def prv_def split: if_splits)

section \<open>The loops\<close>

text \<open>
  \<open>hp\<close> reads the heap of list cells out of the loop's state. The \<open>prefetch\<close> of the plain macro
  assigns the link of \<open>pos\<close> to itself: an access, and no change.
\<close>

partial_function (option) list_for_each ::
  "('s \<Rightarrow> list_heap) \<Rightarrow> (addr \<Rightarrow> 's \<Rightarrow> 's option) \<Rightarrow> addr \<Rightarrow> addr \<Rightarrow> 's \<Rightarrow> 's option" where
  "list_for_each hp body head pos s = do {
     prefetched \<leftarrow> read_next pos (hp s);
     if pos = head then Some s
     else do {
       s \<leftarrow> body pos s;
       pos \<leftarrow> read_next pos (hp s);
       list_for_each hp body head pos s
     }
   }"

definition list_for_each_entry ::
  "('s \<Rightarrow> list_heap) \<Rightarrow> addr \<Rightarrow> (addr \<Rightarrow> 's \<Rightarrow> 's option) \<Rightarrow> 's \<Rightarrow> 's option" where
  "list_for_each_entry hp head body s = do {
     pos \<leftarrow> read_next head (hp s);
     list_for_each hp body head pos s
   }"

partial_function (option) list_for_each_safe ::
  "('s \<Rightarrow> list_heap) \<Rightarrow> (addr \<Rightarrow> 's \<Rightarrow> 's option) \<Rightarrow> addr \<Rightarrow> addr \<Rightarrow> addr \<Rightarrow> 's \<Rightarrow> 's option" where
  "list_for_each_safe hp body head pos n s =
     (if pos = head then Some s
      else do {
        s \<leftarrow> body pos s;
        n' \<leftarrow> read_next n (hp s);
        list_for_each_safe hp body head n n' s
      })"

definition list_for_each_entry_safe ::
  "('s \<Rightarrow> list_heap) \<Rightarrow> addr \<Rightarrow> (addr \<Rightarrow> 's \<Rightarrow> 's option) \<Rightarrow> 's \<Rightarrow> 's option" where
  "list_for_each_entry_safe hp head body s = do {
     pos \<leftarrow> read_next head (hp s);
     n \<leftarrow> read_next pos (hp s);
     list_for_each_safe hp body head pos n s
   }"

partial_function (option) while_not_empty ::
  "('s \<Rightarrow> list_heap) \<Rightarrow> addr \<Rightarrow> (addr \<Rightarrow> 's \<Rightarrow> 's option) \<Rightarrow> 's \<Rightarrow> 's option" where
  "while_not_empty hp head body s = do {
     e \<leftarrow> list_empty head (hp s);
     if e then Some s
     else do {
       p \<leftarrow> read_next head (hp s);
       s \<leftarrow> body p s;
       while_not_empty hp head body s
     }
   }"

section \<open>Traversals\<close>

text \<open>
  \<open>inv done rest s\<close>: the elements \<open>done\<close> have been visited and \<open>rest\<close> are still to come. While
  the traversal runs, \<open>rest\<close> must stay the tail of the list; the safe variant allows the body
  to take the visited element out.
\<close>

locale safe_traversal =
  fixes hp :: "'s \<Rightarrow> list_heap" and head :: addr and body :: "addr \<Rightarrow> 's \<Rightarrow> 's option"
    and inv :: "addr list \<Rightarrow> addr list \<Rightarrow> 's \<Rightarrow> bool"
  assumes tail: "inv done rest s \<Longrightarrow> \<exists>L us. heap_lists (hp s) L \<and> L head = Some (us @ rest)"
    and step: "inv done (x # rest) s \<Longrightarrow> \<exists>s'. body x s = Some s' \<and> inv (done @ [x]) rest s'"
begin

lemma next_of: "inv done rest s \<Longrightarrow> x = hd (rest @ [head]) \<Longrightarrow>
  \<exists>n. read_next x (hp s) = Some n \<and> (rest \<noteq> [] \<longrightarrow> n = hd (tl rest @ [head]))"
proof -
  assume i: "inv done rest s" and x: "x = hd (rest @ [head])"
  obtain L us where L: "heap_lists (hp s) L" "L head = Some (us @ rest)" using tail[OF i] by blast
  then show ?thesis
    using x list_first_family[OF L] list_neighbours(2)[of "hp s" L head us x "tl rest"]
    by (cases rest) auto
qed

lemma not_head: "inv done (x # rest) s \<Longrightarrow> x \<noteq> head"
  using tail[of "done" "x # rest" s] by (auto dest!: listsD(2) ring_distinct)

lemma loop:
  "inv done rest s \<Longrightarrow> read_next (hd (rest @ [head])) (hp s) = Some n \<Longrightarrow>
   \<exists>s'. list_for_each_safe hp body head (hd (rest @ [head])) n s = Some s'
     \<and> inv (done @ rest) [] s'"
proof (induction rest arbitrary: "done" s n)
  case Nil
  then show ?case by (simp add: list_for_each_safe.simps)
next
  case (Cons x rest)
  obtain s1 where s1: "body x s = Some s1" "inv (done @ [x]) rest s1" using step[OF Cons.prems(1)] by blast
  have n: "n = hd (rest @ [head])" using next_of[OF Cons.prems(1)] Cons.prems(2) by auto
  obtain n1 where "read_next n (hp s1) = Some n1" using next_of[OF s1(2) n] by blast
  with Cons.IH[OF s1(2), of n1] n s1(1) not_head[OF Cons.prems(1)] show ?case
    by (subst list_for_each_safe.simps) simp
qed

theorem traversal:
  "inv [] xs s \<Longrightarrow> heap_lists (hp s) L \<Longrightarrow> L head = Some xs \<Longrightarrow>
   \<exists>s'. list_for_each_entry_safe hp head body s = Some s' \<and> inv xs [] s'"
  using next_of[of "[]" xs s "hd (xs @ [head])"] loop[of "[]" xs s] list_first_family[of "hp s" L head xs]
  by (fastforce simp: list_for_each_entry_safe_def)

end

text \<open>The plain macro reads the successor after the body: the visited element must stay.\<close>

locale plain_traversal =
  fixes hp :: "'s \<Rightarrow> list_heap" and head :: addr and body :: "addr \<Rightarrow> 's \<Rightarrow> 's option"
    and inv :: "addr list \<Rightarrow> addr list \<Rightarrow> 's \<Rightarrow> bool"
  assumes whole: "inv done rest s \<Longrightarrow> \<exists>L. heap_lists (hp s) L \<and> L head = Some (done @ rest)"
    and step: "inv done (x # rest) s \<Longrightarrow> \<exists>s'. body x s = Some s' \<and> inv (done @ [x]) rest s'"
begin

lemma loop:
  "inv done rest s \<Longrightarrow>
   \<exists>s'. list_for_each hp body head (hd (rest @ [head])) s = Some s' \<and> inv (done @ rest) [] s'"
proof (induction rest arbitrary: "done" s)
  case Nil
  obtain L where "heap_lists (hp s) L" "L head = Some (done @ [])" using whole[OF Nil] by blast
  then show ?case using Nil list_first_family by (subst list_for_each.simps) auto
next
  case (Cons x rest)
  obtain s1 where s1: "body x s = Some s1" "inv (done @ [x]) rest s1" using step[OF Cons.prems] by blast
  obtain L where L: "heap_lists (hp s1) L" "L head = Some (done @ x # rest)" using whole[OF s1(2)] by auto
  then have "read_next x (hp s1) = Some (hd (rest @ [head]))" by (rule list_neighbours(2))
  moreover have "x \<noteq> head" using L by (auto dest!: listsD(2) ring_distinct)
  moreover obtain L0 where "heap_lists (hp s) L0" "L0 head = Some (done @ x # rest)"
    using whole[OF Cons.prems] by blast
  then have "read_next x (hp s) = Some (hd (rest @ [head]))" by (rule list_neighbours(2))
  ultimately show ?case using Cons.IH[OF s1(2)] s1(1) by (subst list_for_each.simps) simp
qed

theorem traversal:
  assumes "inv [] xs s"
  shows "\<exists>s'. list_for_each_entry hp head body s = Some s' \<and> inv xs [] s'"
proof -
  obtain L where "heap_lists (hp s) L" "L head = Some xs" using whole[OF assms] by auto
  then have "read_next head (hp s) = Some (hd (xs @ [head]))" by (rule list_first_family)
  with loop[OF assms] show ?thesis by (simp add: list_for_each_entry_def)
qed

end

section \<open>Work lists\<close>

text \<open>
  \<open>inv s q\<close>: the list of \<open>head\<close> holds \<open>q\<close>. A body may take any elements out of the list, its
  argument among them, but must not put new ones in: the loop then ends.
\<close>

locale work_list =
  fixes hp :: "'s \<Rightarrow> list_heap" and head :: addr and body :: "addr \<Rightarrow> 's \<Rightarrow> 's option"
    and inv :: "'s \<Rightarrow> addr list \<Rightarrow> bool"
  assumes held: "inv s q \<Longrightarrow> \<exists>L. heap_lists (hp s) L \<and> L head = Some q"
    and step: "inv s (x # q) \<Longrightarrow> \<exists>s' q'. body x s = Some s' \<and> inv s' q' \<and> subseq q' q"
begin

theorem drains: "inv s q \<Longrightarrow> \<exists>s'. while_not_empty hp head body s = Some s' \<and> inv s' []"
proof (induction q arbitrary: s rule: length_induct)
  case (1 q)
  obtain L where L: "heap_lists (hp s) L" "L head = Some q" using held[OF "1.prems"] by blast
  show ?case
  proof (cases q)
    case Nil
    then show ?thesis using "1.prems" list_empty_family[OF L]
      by (subst while_not_empty.simps) simp
  next
    case (Cons x xs)
    obtain s1 q1 where s1: "body x s = Some s1" "inv s1 q1" "subseq q1 xs"
      using step "1.prems" Cons by blast
    then have "length q1 < length q" using Cons list_emb_length[of "(=)" q1 xs] by simp
    with "1.IH" s1(2) obtain s' where "while_not_empty hp head body s1 = Some s'" "inv s' []" by blast
    then show ?thesis using Cons s1(1) list_empty_family[OF L] list_first_family[OF L]
      by (subst while_not_empty.simps) simp
  qed
qed

end

section \<open>A loop that empties a list\<close>

text \<open>
  What \<open>list_for_each_entry_safe\<close> is for: the body deletes the element it is given. The state
  is the log of the elements seen and the heap.
\<close>

definition log_and_del :: "addr \<Rightarrow> addr list \<times> list_heap \<Rightarrow> (addr list \<times> list_heap) option" where
  "log_and_del p s = do { h \<leftarrow> list_del_init p (snd s); Some (fst s @ [p], h) }"

definition log_only :: "addr \<Rightarrow> addr list \<times> list_heap \<Rightarrow> (addr list \<times> list_heap) option" where
  "log_only p s = Some (fst s @ [p], snd s)"

definition emptying :: "list_heap \<Rightarrow> family \<Rightarrow> addr \<Rightarrow> addr list \<Rightarrow> addr list \<Rightarrow> addr list \<times> list_heap \<Rightarrow> bool" where
  "emptying h0 L0 c don rest s \<longleftrightarrow> fst s = don \<and> dom (snd s) = dom h0
     \<and> heap_lists (snd s) (\<lambda>a. if a = c then Some rest else if a \<in> set don then Some [] else L0 a)"

interpretation emptying: safe_traversal snd c log_and_del "emptying h0 L0 c" for c h0 L0
proof
  fix don x rest and s :: "addr list \<times> list_heap"
  let ?L = "\<lambda>d y r a. if a = c then Some r else if a \<in> set d then Some [] else L0 a"
  assume e: "emptying h0 L0 c don (x # rest) s"
  then have L: "heap_lists (snd s) (?L don x (x # rest))" by (simp add: emptying_def)
  have c: "?L don x (x # rest) c = Some (x # rest)" by simp
  have xc: "x \<noteq> c" using ring_distinct[OF listsD(2)[OF L c]] by auto
  obtain h where h: "list_del_init x (snd s) = Some h" "heap_lists h ((?L don x (x # rest))(c \<mapsto> rest, x \<mapsto> []))"
    "dom h = dom (snd s)"
    using list_del_init_family[OF L c, of x] by auto
  have "(?L don x (x # rest))(c \<mapsto> rest, x \<mapsto> []) = ?L (don @ [x]) x rest"
    using xc by (intro ext) simp
  then have "emptying h0 L0 c (don @ [x]) rest (don @ [x], h)"
    using h e unfolding emptying_def by simp
  moreover have "log_and_del x s = Some (don @ [x], h)" using h(1) e by (simp add: log_and_del_def emptying_def)
  ultimately show "\<exists>s'. log_and_del x s = Some s' \<and> emptying h0 L0 c (don @ [x]) rest s'" by blast
qed (auto simp: emptying_def intro!: exI)

interpretation reading: plain_traversal snd c log_only
    "\<lambda>don rest s. s = (don, h0) \<and> heap_lists h0 L0 \<and> L0 c = Some (don @ rest)" for c h0 L0
  by unfold_locales (auto simp: log_only_def)

section \<open>Properties\<close>

text \<open>\<open>list_for_each_entry\<close> visits every element once, in order;
  \<open>list_for_each_entry_safe\<close> does so too when the body deletes each element it is given, and
  leaves an empty list and detached elements.\<close>

theorem list_traversals_visit_all:
  assumes L: "heap_lists h L" and c: "L c = Some xs"
  shows "list_for_each_entry snd c log_only ([], h) = Some (xs, h)
    \<and> (\<exists>h'. list_for_each_entry_safe snd c log_and_del ([], h) = Some (xs, h') \<and> dom h' = dom h
      \<and> heap_lists h' (\<lambda>a. if a = c \<or> a \<in> set xs then Some [] else L a))"
proof -
  have "(\<lambda>a. if a = c then Some xs else if a \<in> set [] then Some [] else L a) = L" using c by auto
  then have "emptying h L c [] xs ([], h)" using L by (simp add: emptying_def)
  from emptying.traversal[where L = L, OF this] L c obtain s where
    s: "list_for_each_entry_safe snd c log_and_del ([], h) = Some s" "emptying h L c xs [] s" by auto
  then have "fst s = xs" "dom (snd s) = dom h" 
    "heap_lists (snd s) (\<lambda>a. if a = c then Some [] else if a \<in> set xs then Some [] else L a)"
    by (simp_all add: emptying_def)
  moreover have "(\<lambda>a. if a = c then Some [] else if a \<in> set xs then Some [] else L a)
    = (\<lambda>a. if a = c \<or> a \<in> set xs then Some [] else L a)" by auto
  ultimately show ?thesis using s(1) reading.traversal[where xs = xs and s = "([], h)" and ?h0.0 = h and ?L0.0 = L and c = c] L c by (cases s) auto
qed

text \<open>A list of two elements, made by the operations.\<close>

lemma two_listed:
  obtains h L where "do_list_calls [L_add_tail 2 1, L_add_tail 3 1] three_cells = Some h" "heap_lists h L" "L 1 = Some [2, 3]"
proof -
  have "list_spec (L_add_tail 2 1) three_lists (three_lists(2 := None, 1 \<mapsto> [] @ [2]))"
    by (rule list_spec.add_tail) (simp_all add: three_lists_def)
  from list_spec_refines[OF this three_cells_lists] obtain h1 where
    h1: "list_add_tail 2 1 three_cells = Some h1" "heap_lists h1 (three_lists(2 := None, 1 \<mapsto> [] @ [2]))" by auto
  have "list_spec (L_add_tail 3 1) (three_lists(2 := None, 1 \<mapsto> [] @ [2]))
      (three_lists(2 := None, 1 \<mapsto> [] @ [2], 3 := None, 1 \<mapsto> ([] @ [2]) @ [3]))"
    by (rule list_spec.add_tail) (simp_all add: three_lists_def)
  from list_spec_refines[OF this h1(2)] obtain h2 where h2: "list_add_tail 3 1 h1 = Some h2"
    "heap_lists h2 (three_lists(2 := None, 1 \<mapsto> [] @ [2], 3 := None, 1 \<mapsto> ([] @ [2]) @ [3]))" by auto
  show ?thesis by (rule that[OF _ h2(2)]) (use h1(1) h2(1) in simp_all)
qed

theorem list_traversals_visit_all_witness:
  "\<exists>h'. do { h \<leftarrow> do_list_calls [L_add_tail 2 1, L_add_tail 3 1] three_cells;
             list_for_each_entry_safe snd 1 log_and_del ([], h) } = Some ([2, 3], h')"
proof -
  obtain h L where h: "do_list_calls [L_add_tail 2 1, L_add_tail 3 1] three_cells = Some h" "heap_lists h L" "L 1 = Some [2, 3]"
    by (rule two_listed)
  then show ?thesis using list_traversals_visit_all[OF h(2,3)] by auto
qed

end
