(* ===== verification/Soft_Timer.thy ===== *)
theory Soft_Timer
  imports List_Loops
begin

text \<open>
  The timer wheel of \<open>src/src/soft_timer.h\<close> and \<open>src/src/soft_timer.c\<close>, at the level of its
  pointers. The state adds to the shared memory the timer manager \<open>st\<close>, the \<open>tick\<close> member of
  every timer element, named by the address of its list cell, and \<open>fired\<close>, a ghost record of
  the callbacks run so far with the tick at which they ran, which no operation reads.

  A callback is a function of the element and the state. The locale \<open>timer_callback\<close> states
  what a callback may do to the wheel while it runs; \<open>script_cb\<close> is the callback of a client
  that makes any calls it likes of the timer's interface, and satisfies the contract.
\<close>

section \<open>State and operations\<close>

definition SOFT_TIMER_NUM_BUCKETS :: nat where
  "SOFT_TIMER_NUM_BUCKETS = 8"

record soft_timer =
  tick_rate :: int
  tick :: u32
  buckets :: "addr list"

record timer_mem = mem +
  st :: soft_timer
  elem_tick :: "addr \<Rightarrow> u32"
  fired :: "(addr \<times> u32) list"

text \<open>The array element \<open>timer->buckets[i]\<close>, by address.\<close>

definition bucket :: "soft_timer \<Rightarrow> nat \<Rightarrow> addr option" where
  "bucket t i = (if i < length (buckets t) then Some (buckets t ! i) else None)"

definition soft_timer_is_running :: "addr \<Rightarrow> 'a timer_mem_scheme \<Rightarrow> bool option" where
  "soft_timer_is_running e w = do {
     n \<leftarrow> read_next e (lheap w);
     p \<leftarrow> read_prev e (lheap w);
     Some (\<not> (n = e \<and> p = e))
   }"

definition get_soft_tick_from_milsec :: "soft_timer \<Rightarrow> int \<Rightarrow> u32 option" where
  "get_soft_tick_from_milsec t milsec = do {
     q \<leftarrow> c_div milsec (tick_rate t);
     m \<leftarrow> c_mod milsec (tick_rate t);
     let k = word_of_int q;
     let r = (word_of_int m :: u32);
     Some (if r \<noteq> 0 then k + 1 else k)
   }"

definition soft_timer_get_tick_time :: "soft_timer \<Rightarrow> 64 word" where
  "soft_timer_get_tick_time t = ucast (tick t * word_of_int (tick_rate t))"

fun init_buckets :: "addr list \<Rightarrow> list_heap \<Rightarrow> list_heap option" where
  "init_buckets [] h = Some h"
| "init_buckets (b # bs) h = do { h \<leftarrow> INIT_LIST_HEAD b h; init_buckets bs h }"

definition soft_timer_init :: "int \<Rightarrow> 'a timer_mem_scheme \<Rightarrow> (int \<times> 'a timer_mem_scheme) option" where
  "soft_timer_init rate w = do {
     let w = w\<lparr>st := (st w)\<lparr>tick_rate := rate, tick := 0\<rparr>\<rparr>;
     w \<leftarrow> on_heap (init_buckets (buckets (st w))) w;
     Some (0, w)
   }"

definition soft_timer_deinit :: "'a timer_mem_scheme \<Rightarrow> 'a timer_mem_scheme" where
  "soft_timer_deinit w = w"

definition soft_timer_init_elem :: "addr \<Rightarrow> 'a timer_mem_scheme \<Rightarrow> 'a timer_mem_scheme option" where
  "soft_timer_init_elem e w = on_heap (INIT_LIST_HEAD e) w"

definition soft_timer_add :: "addr \<Rightarrow> int \<Rightarrow> 'a timer_mem_scheme \<Rightarrow> 'a timer_mem_scheme option" where
  "soft_timer_add e expires w = do {
     running \<leftarrow> soft_timer_is_running e w;
     if running then Some w
     else do {
       w \<leftarrow> on_heap (INIT_LIST_HEAD e) w;
       k \<leftarrow> get_soft_tick_from_milsec (st w) expires;
       let w = w\<lparr>elem_tick := (elem_tick w)(e := tick (st w) + k)\<rparr>;
       let target = unat (elem_tick w e mod of_nat SOFT_TIMER_NUM_BUCKETS);
       b \<leftarrow> bucket (st w) target;
       on_heap (list_add_tail e b) w
     }
   }"

definition soft_timer_del :: "addr \<Rightarrow> 'a timer_mem_scheme \<Rightarrow> 'a timer_mem_scheme option" where
  "soft_timer_del e w = do {
     running \<leftarrow> soft_timer_is_running e w;
     if \<not> running then Some w
     else on_heap (list_del_init e) w
   }"

text \<open>The body of the loop over the current bucket: due timers go to the list \<open>tlist\<close>.\<close>

definition collect_due :: "addr \<Rightarrow> addr \<Rightarrow> 'a timer_mem_scheme \<Rightarrow> 'a timer_mem_scheme option" where
  "collect_due tlist p w =
     (if elem_tick w p = tick (st w) then do {
        w \<leftarrow> on_heap (list_del p) w;
        on_heap (list_add_tail p tlist) w
      } else Some w)"

text \<open>The body of the loop over the due timers.\<close>

definition fire ::
  "(addr \<Rightarrow> 'a timer_mem_scheme \<Rightarrow> 'a timer_mem_scheme option) \<Rightarrow> addr \<Rightarrow>
   'a timer_mem_scheme \<Rightarrow> 'a timer_mem_scheme option" where
  "fire cb p w = do {
     w \<leftarrow> on_heap (list_del_init p) w;
     cb p (w\<lparr>fired := fired w @ [(p, tick (st w))]\<rparr>)
   }"

text \<open>\<open>tlist\<close> is the address of the local variable \<open>timeout_list\<close>.\<close>

definition timer_tick ::
  "(addr \<Rightarrow> 'a timer_mem_scheme \<Rightarrow> 'a timer_mem_scheme option) \<Rightarrow> addr \<Rightarrow>
   'a timer_mem_scheme \<Rightarrow> 'a timer_mem_scheme option" where
  "timer_tick cb tlist w = do {
     let w = enter_scope tlist w;
     let w = w\<lparr>st := (st w)\<lparr>tick := tick (st w) + 1\<rparr>\<rparr>;
     let current = unat (tick (st w) mod of_nat SOFT_TIMER_NUM_BUCKETS);
     b \<leftarrow> bucket (st w) current;
     w \<leftarrow> list_for_each_entry_safe lheap b (collect_due tlist) w;
     w \<leftarrow> while_not_empty lheap tlist (fire cb) w;
     Some (leave_scope tlist w)
   }"

definition soft_timer_drive ::
  "(addr \<Rightarrow> 'a timer_mem_scheme \<Rightarrow> 'a timer_mem_scheme option) \<Rightarrow> addr \<Rightarrow>
   'a timer_mem_scheme \<Rightarrow> 'a timer_mem_scheme option" where
  "soft_timer_drive cb tlist w = timer_tick cb tlist w"

section \<open>Tick counts\<close>

lemma sdiv_range: "int_range a \<Longrightarrow> 0 < b \<Longrightarrow> int_range (a sdiv b)" for a b :: int
proof -
  assume a: "int_range a" "0 < b"
  have le: "\<bar>a\<bar> div b \<le> \<bar>a\<bar>" "0 \<le> \<bar>a\<bar> div b"
    using a(2) zdiv_mono2[of "\<bar>a\<bar>" 1 b] by (auto simp: pos_imp_zdiv_nonneg_iff)
  have "a sdiv b = sgn a * (\<bar>a\<bar> div b)" using a(2) by (simp add: signed_divide_int_def)
  with le a(1) show ?thesis by (auto simp: int_range_def INT_MIN_def INT_MAX_def sgn_if)
qed

text \<open>The tick count for a number of milliseconds: the quotient rounded up.\<close>

definition ticks_of :: "int \<Rightarrow> int \<Rightarrow> u32" where
  "ticks_of rate ms = word_of_int (ms sdiv rate) + (if ms smod rate \<noteq> 0 then 1 else 0)"

lemma word_of_int_smod_zero:
  assumes "int_range a" "0 < b" "int_range b"
  shows "(word_of_int (a smod b) :: u32) = 0 \<longleftrightarrow> a smod b = 0"
proof -
  have eq: "a smod b = sgn a * (\<bar>a\<bar> mod b)"
    using assms(2) by (cases "a = 0") (auto simp: signed_modulo_int_def signed_divide_int_def sgn_if
        minus_mult_div_eq_mod algebra_simps)
  moreover have "0 \<le> \<bar>a\<bar> mod b" "\<bar>a\<bar> mod b < b" using assms(2) by auto
  ultimately have "\<bar>a smod b\<bar> < 2 ^ 32"
    using assms(3) by (auto simp: int_range_def INT_MAX_def sgn_if abs_mult)
  then have small: "\<not> 2 ^ 32 dvd a smod b" if "a smod b \<noteq> 0"
    using dvd_imp_le_int[OF that, of "2 ^ 32"] by auto
  show ?thesis
  proof
    assume "(word_of_int (a smod b) :: u32) = 0"
    then have "2 ^ 32 dvd a smod b" by (simp add: word_of_int_eq_0_iff)
    with small show "a smod b = 0" by blast
  qed simp
qed

lemma get_soft_tick_ok:
  assumes "0 < tick_rate t" "int_range (tick_rate t)" "int_range ms"
  shows "get_soft_tick_from_milsec t ms = Some (ticks_of (tick_rate t) ms)"
  using assms sdiv_range[of ms "tick_rate t"] word_of_int_smod_zero[of ms "tick_rate t"]
  by (simp add: get_soft_tick_from_milsec_def c_div_def c_mod_def ticks_of_def Let_def)

text \<open>The bucket a tick count belongs to.\<close>

definition slot :: "u32 \<Rightarrow> nat" where
  "slot t = unat t mod 8"

lemma unat_mod_slot [simp]: "unat (t mod of_nat SOFT_TIMER_NUM_BUCKETS) = slot t"
  by (simp add: SOFT_TIMER_NUM_BUCKETS_def slot_def unat_mod)

lemma slot_less [simp]: "slot t < 8"
  by (simp add: slot_def)

section \<open>The abstract wheel and the invariant\<close>

text \<open>
  \<open>E\<close> are the timer elements of the client, \<open>T\<close> the heads of lists of due timers (the local
  \<open>timeout_list\<close> while a tick runs). Every element is detached or in exactly one bucket or due
  list, and an element in a bucket has a tick that belongs there.
\<close>

definition wheel :: "addr set \<Rightarrow> addr set \<Rightarrow> addr list \<Rightarrow> (addr \<Rightarrow> u32) \<Rightarrow> family \<Rightarrow> bool" where
  "wheel E T bs et L \<longleftrightarrow> length bs = 8 \<and> distinct bs
     \<and> E \<inter> (set bs \<union> T) = {} \<and> T \<inter> set bs = {}
     \<and> (\<forall>i<8. \<exists>xs. L (bs ! i) = Some xs \<and> (\<forall>e\<in>set xs. e \<in> E \<and> slot (et e) = i))
     \<and> (\<forall>c\<in>T. \<exists>xs. L c = Some xs \<and> set xs \<subseteq> E)
     \<and> (\<forall>e\<in>E. L e = Some [] \<or> (\<exists>c\<in>set bs \<union> T. \<exists>xs. L c = Some xs \<and> e \<in> set xs))"

definition timer_inv :: "addr set \<Rightarrow> addr set \<Rightarrow> 'a timer_mem_scheme \<Rightarrow> family \<Rightarrow> bool" where
  "timer_inv E T w L \<longleftrightarrow> heap_lists (lheap w) L \<and> 0 < tick_rate (st w) \<and> int_range (tick_rate (st w))
     \<and> wheel E T (buckets (st w)) (elem_tick w) L"

lemma wheel_bucket:
  assumes "wheel E T bs et L" "i < 8"
  shows "bs ! i \<in> set bs"
    and "\<exists>xs. L (bs ! i) = Some xs \<and> (\<forall>e\<in>set xs. e \<in> E \<and> slot (et e) = i)"
  using assms by (auto simp: wheel_def)

lemma wheel_heads: "wheel E T bs et L \<Longrightarrow> e \<in> E \<Longrightarrow> c \<in> set bs \<union> T \<Longrightarrow> e \<noteq> c"
  by (auto simp: wheel_def)

lemma wheel_due: "wheel E T bs et L \<Longrightarrow> c \<in> T \<Longrightarrow> \<exists>xs. L c = Some xs \<and> set xs \<subseteq> E"
  unfolding wheel_def by blast

lemma wheel_elem:
  assumes "wheel E T bs et L" "e \<in> E"
  obtains "L e = Some []" | c xs where "c \<in> set bs \<union> T" "L c = Some xs" "e \<in> set xs"
  using assms unfolding wheel_def by blast

lemma wheel_add:
  assumes w: "wheel E T bs et L" and e: "e \<in> E" "L e = Some []"
    and out: "\<And>c ys. L c = Some ys \<Longrightarrow> e \<notin> set ys" and b: "L (bs ! slot t) = Some xs"
  shows "wheel E T bs (et(e := t)) (L(e := None, bs ! slot t \<mapsto> xs @ [e]))"
proof -
  let ?b = "bs ! slot t"
  let ?L = "L(e := None, ?b \<mapsto> xs @ [e])"
  have len: "length bs = 8" and dist: "distinct bs" using w by (auto simp: wheel_def)
  have bin: "?b \<in> set bs" using len by simp
  have eb: "e \<noteq> c" if "c \<in> set bs \<union> T" for c using wheel_heads[OF w e(1) that] .
  have other: "?L c = L c" if "c \<in> set bs \<union> T" "c \<noteq> ?b" for c using eb[OF that(1)] that(2) by simp
  have "\<exists>ys. ?L (bs ! i) = Some ys \<and> (\<forall>x\<in>set ys. x \<in> E \<and> slot ((et(e := t)) x) = i)" if i: "i < 8" for i
  proof (cases "i = slot t")
    case True
    note bi = wheel_bucket(1)[OF w i]
    obtain ys where ys: "L (bs ! i) = Some ys" "\<forall>x\<in>set ys. x \<in> E \<and> slot (et x) = i"
      using wheel_bucket(2)[OF w i] by blast
    then have "ys = xs" using True b by simp
    then show ?thesis using True e(1) ys out[OF b] by simp
  next
    case False
    then have ne: "bs ! i \<noteq> ?b" using i len dist by (simp add: nth_eq_iff_index_eq)
    note bi = wheel_bucket(1)[OF w i]
    obtain ys where ys: "L (bs ! i) = Some ys" "\<forall>x\<in>set ys. x \<in> E \<and> slot (et x) = i"
      using wheel_bucket(2)[OF w i] by blast
    have "?L (bs ! i) = Some ys" using other[of "bs ! i"] ne ys(1) bi by simp
    moreover have "e \<notin> set ys" using out ys(1) .
    ultimately show ?thesis using ys(2) by auto
  qed
  moreover have "\<exists>ys. ?L c = Some ys \<and> set ys \<subseteq> E" if "c \<in> T" for c
    using that w other[of c] bin by (auto simp: wheel_def)
  moreover have "?L x = Some [] \<or> (\<exists>c\<in>set bs \<union> T. \<exists>ys. ?L c = Some ys \<and> x \<in> set ys)" if x: "x \<in> E" for x
  proof (cases "x = e")
    case True
    then show ?thesis using bin by (intro disjI2 bexI[of _ ?b]) auto
  next
    case False
    show ?thesis
    proof (rule wheel_elem[OF w x])
      assume "L x = Some []"
      moreover have "x \<noteq> ?b" using wheel_heads[OF w x] bin by blast
      ultimately show ?thesis using False by simp
    next
      fix c ys assume c: "c \<in> set bs \<union> T" "L c = Some ys" "x \<in> set ys"
      show ?thesis
      proof (cases "c = ?b")
        case True
        then show ?thesis using c b bin by (intro disjI2 bexI[of _ ?b]) auto
      next
        case False
        then show ?thesis using c other[OF c(1)] by (intro disjI2 bexI[of _ c]) auto
      qed
    qed
  qed
  ultimately show ?thesis using w unfolding wheel_def by simp
qed

text \<open>Taking an element out of a list that holds it.\<close>

lemma wheel_del:
  assumes w: "wheel E T bs et L" and e: "e \<in> E" and c: "c \<in> set bs \<union> T" "L c = Some xs"
  shows "wheel E T bs et (L(c \<mapsto> remove1 e xs, e \<mapsto> []))"
proof -
  let ?L = "L(c \<mapsto> remove1 e xs, e \<mapsto> [])"
  have sub: "\<exists>zs. ?L d = Some zs \<and> set zs \<subseteq> set ys \<and> set ys - {e} \<subseteq> set zs"
    if "d \<in> set bs \<union> T" "L d = Some ys" for d ys
  proof (cases "d = c")
    case True
    have "set xs - {e} \<subseteq> set (remove1 e xs)" using in_set_remove1[of _ e xs] by blast
    then show ?thesis using True that(2) c(2) wheel_heads[OF w e that(1)] set_remove1_subset[of e xs] by simp
  next
    case False
    then show ?thesis using that wheel_heads[OF w e that(1)] by auto
  qed
  have "\<exists>ys. ?L (bs ! i) = Some ys \<and> (\<forall>x\<in>set ys. x \<in> E \<and> slot (et x) = i)" if i: "i < 8" for i
  proof -
    obtain ys where ys: "L (bs ! i) = Some ys" "\<forall>x\<in>set ys. x \<in> E \<and> slot (et x) = i"
      using wheel_bucket(2)[OF w i] by blast
    then show ?thesis using sub[of "bs ! i" ys] wheel_bucket(1)[OF w i] by blast
  qed
  moreover have "\<exists>ys. ?L d = Some ys \<and> set ys \<subseteq> E" if "d \<in> T" for d
  proof -
    obtain ys where "L d = Some ys" "set ys \<subseteq> E" using wheel_due[OF w \<open>d \<in> T\<close>] by blast
    then show ?thesis using sub[of d ys] that by blast
  qed
  moreover have "?L x = Some [] \<or> (\<exists>d\<in>set bs \<union> T. \<exists>ys. ?L d = Some ys \<and> x \<in> set ys)" if x: "x \<in> E" for x
  proof (rule wheel_elem[OF w x])
    assume "L x = Some []"
    then show ?thesis using wheel_heads[OF w x c(1)] by simp
  next
    fix d ys assume d: "d \<in> set bs \<union> T" "L d = Some ys" "x \<in> set ys"
    obtain zs where zs: "?L d = Some zs" "set ys - {e} \<subseteq> set zs" using sub[OF d(1,2)] by blast
    show ?thesis
    proof (cases "x = e")
      case False
      then have "x \<in> set zs" using zs(2) d(3) by blast
      then show ?thesis using d(1) zs(1) by blast
    qed simp
  qed
  ultimately show ?thesis using w unfolding wheel_def by simp
qed

section \<open>The operations on the wheel\<close>

lemma timer_invD:
  assumes "timer_inv E T w L"
  shows "heap_lists (lheap w) L" "0 < tick_rate (st w)" "int_range (tick_rate (st w))"
    "wheel E T (buckets (st w)) (elem_tick w) L"
  using assms by (auto simp: timer_inv_def)

lemma is_running_idle:
  "heap_lists (lheap w) L \<Longrightarrow> L e = Some [] \<Longrightarrow> soft_timer_is_running e w = Some False"
  using list_first_family[of "lheap w" L e "[]"] list_last_family[of "lheap w" L e "[]"]
  by (simp add: soft_timer_is_running_def)

lemma is_running_queued:
  assumes "heap_lists (lheap w) L" "L c = Some xs" "e \<in> set xs"
  shows "soft_timer_is_running e w = Some True"
proof -
  obtain us vs where sp: "xs = us @ e # vs" using split_list[OF assms(3)] by blast
  then have "e \<noteq> hd (vs @ [c])"
    using ring_distinct[OF listsD(2)[OF assms(1,2)]] by (cases vs) auto
  with sp list_neighbours[of "lheap w" L c us e vs] assms(1,2) show ?thesis
    by (simp add: soft_timer_is_running_def del: last.simps)
qed

lemma soft_timer_init_elem_ok:
  assumes "heap_lists (lheap w) L" "loose (lheap w) (L(e := None)) e"
  shows "\<exists>h. soft_timer_init_elem e w = Some (w\<lparr>lheap := h\<rparr>) \<and> heap_lists h (L(e \<mapsto> [])) \<and> dom h = dom (lheap w)"
  using INIT_LIST_HEAD_family[OF assms] on_heap_Some[of "INIT_LIST_HEAD e" w]
  by (auto simp: soft_timer_init_elem_def)

lemma soft_timer_add_running:
  assumes "timer_inv E T w L" "e \<in> E" "L e \<noteq> Some []"
  shows "soft_timer_add e ms w = Some w"
proof -
  obtain c xs where "L c = Some xs" "e \<in> set xs"
    using wheel_elem[OF timer_invD(4)[OF assms(1)] assms(2)] assms(3) by metis
  then show ?thesis
    using is_running_queued[OF timer_invD(1)[OF assms(1)]] by (simp add: soft_timer_add_def)
qed

lemma soft_timer_add_idle:
  fixes w :: "'a timer_mem_scheme"
  assumes inv: "timer_inv E T w L" and e: "e \<in> E" "L e = Some []" and ms: "int_range ms"
  defines "t \<equiv> tick (st w) + ticks_of (tick_rate (st w)) ms"
  defines "b \<equiv> buckets (st w) ! slot t"
  shows "\<exists>h xs. L b = Some xs
    \<and> soft_timer_add e ms w = Some (w\<lparr>lheap := h, elem_tick := (elem_tick w)(e := t)\<rparr>)
    \<and> timer_inv E T (w\<lparr>lheap := h, elem_tick := (elem_tick w)(e := t)\<rparr>) (L(e := None, b \<mapsto> xs @ [e]))
    \<and> dom h = dom (lheap w)"
proof -
  note L = timer_invD(1)[OF inv] and wh = timer_invD(4)[OF inv]
  have len: "length (buckets (st w)) = 8" using wh by (simp add: wheel_def)
  obtain xs where xs: "L b = Some xs" "b \<in> set (buckets (st w))"
    using wheel_bucket[OF wh slot_less[of t]] b_def by blast
  have eb: "e \<noteq> b" using wheel_heads[OF wh e(1)] xs(2) by blast
  obtain h1 where h1: "INIT_LIST_HEAD e (lheap w) = Some h1" "heap_lists h1 L" "dom h1 = dom (lheap w)"
    using INIT_LIST_HEAD_family[OF L loose_forget[OF L e(2)]] e(2) by (auto simp: map_upd_triv)
  obtain h2 where h2: "list_add_tail e b h1 = Some h2" "heap_lists h2 (L(e := None, b \<mapsto> xs @ [e]))"
    "dom h2 = dom h1"
    using list_add_tail_family[OF lists_forget[OF h1(2)] _ loose_forget[OF h1(2) e(2)], of b xs] xs(1) eb
    by auto
  have "e \<notin> set ys" if "L c = Some ys" for c ys
    using lists_elem_not_head[OF L that] e(2) by auto
  then have "wheel E T (buckets (st w)) ((elem_tick w)(e := t)) (L(e := None, b \<mapsto> xs @ [e]))"
    using wheel_add[OF wh e, of t xs] xs(1) b_def by blast
  then have "timer_inv E T (w\<lparr>lheap := h2, elem_tick := (elem_tick w)(e := t)\<rparr>) (L(e := None, b \<mapsto> xs @ [e]))"
    using h2(2) timer_invD[OF inv] by (simp add: timer_inv_def)
  moreover have "soft_timer_add e ms w = Some (w\<lparr>lheap := h2, elem_tick := (elem_tick w)(e := t)\<rparr>)"
    using is_running_idle[OF L e(2)] h1(1) h2(1) len timer_invD(2,3)[OF inv] ms
    by (simp add: soft_timer_add_def on_heap_def get_soft_tick_ok bucket_def t_def b_def Let_def)
  ultimately show ?thesis using xs(1) h1(3) h2(3) by blast
qed

lemma soft_timer_del_idle:
  "timer_inv E T w L \<Longrightarrow> L e = Some [] \<Longrightarrow> soft_timer_del e w = Some w"
  by (simp add: soft_timer_del_def is_running_idle[OF timer_invD(1)])

lemma soft_timer_del_running:
  fixes w :: "'a timer_mem_scheme"
  assumes inv: "timer_inv E T w L" and e: "e \<in> E" "L e \<noteq> Some []"
  shows "\<exists>c xs h. c \<in> set (buckets (st w)) \<union> T \<and> L c = Some xs \<and> e \<in> set xs
    \<and> soft_timer_del e w = Some (w\<lparr>lheap := h\<rparr>)
    \<and> timer_inv E T (w\<lparr>lheap := h\<rparr>) (L(c \<mapsto> remove1 e xs, e \<mapsto> [])) \<and> dom h = dom (lheap w)"
proof -
  note L = timer_invD(1)[OF inv] and wh = timer_invD(4)[OF inv]
  obtain c xs where c: "c \<in> set (buckets (st w)) \<union> T" "L c = Some xs" "e \<in> set xs"
    using wheel_elem[OF wh e(1)] e(2) by metis
  obtain h where h: "list_del_init e (lheap w) = Some h" "heap_lists h (L(c \<mapsto> remove1 e xs, e \<mapsto> []))"
    "dom h = dom (lheap w)"
    using list_del_init_family[OF L c(2,3)] by blast
  have "soft_timer_del e w = Some (w\<lparr>lheap := h\<rparr>)"
    using is_running_queued[OF L c(2,3)] h(1) by (simp add: soft_timer_del_def on_heap_def)
  moreover have "timer_inv E T (w\<lparr>lheap := h\<rparr>) (L(c \<mapsto> remove1 e xs, e \<mapsto> []))"
    using h(2) wheel_del[OF wh e(1) c(1,2)] timer_invD[OF inv] by (simp add: timer_inv_def)
  ultimately show ?thesis using c h(3) by blast
qed

text \<open>Initialising the manager: every bucket becomes an empty list.\<close>

lemma init_buckets_family:
  "heap_lists h L \<Longrightarrow> distinct bs \<Longrightarrow> set bs \<subseteq> dom h - cells L \<Longrightarrow>
   \<exists>h'. init_buckets bs h = Some h' \<and> dom h' = dom h
     \<and> heap_lists h' (\<lambda>c. if c \<in> set bs then Some [] else L c)"
proof (induction bs arbitrary: h L)
  case (Cons b bs)
  have Lb: "L b = None" using Cons.prems(3) cellsI[of L b _ b] by fastforce
  then have "loose h (L(b := None)) b" using Cons.prems(3) by (simp add: loose_def fun_upd_idem)
  then obtain h1 where h1: "INIT_LIST_HEAD b h = Some h1" "heap_lists h1 (L(b \<mapsto> []))" "dom h1 = dom h"
    using INIT_LIST_HEAD_family[OF Cons.prems(1)] by blast
  have "set bs \<subseteq> dom h1 - cells (L(b \<mapsto> []))"
    using Cons.prems(2,3) h1(3) Lb by (auto simp: cells_upd fun_upd_idem)
  then obtain h2 where h2: "init_buckets bs h1 = Some h2" "dom h2 = dom h1"
    "heap_lists h2 (\<lambda>c. if c \<in> set bs then Some [] else (L(b \<mapsto> [])) c)"
    using Cons.IH[OF h1(2) _ \<open>set bs \<subseteq> dom h1 - cells (L(b \<mapsto> []))\<close>] Cons.prems(2) unfolding distinct.simps by blast
  moreover have "(\<lambda>c. if c \<in> set bs then Some [] else (L(b \<mapsto> [])) c)
    = (\<lambda>c. if c \<in> set (b # bs) then Some [] else L c)" by auto
  ultimately show ?case using h1 by simp
qed simp

text \<open>A manager starts with no timer running, whatever the old contents of its fields.\<close>

lemma soft_timer_init_wheel:
  fixes w :: "'a timer_mem_scheme"
  assumes "heap_lists (lheap w) L" "length (buckets (st w)) = SOFT_TIMER_NUM_BUCKETS" "distinct (buckets (st w))"
    "set (buckets (st w)) \<subseteq> dom (lheap w) - cells L" "0 < rate" "int_range rate" "\<And>e. e \<in> E \<Longrightarrow> L e = Some []"
  shows "\<exists>w' L'. soft_timer_init rate w = Some (0, w') \<and> timer_inv E {} w' L' \<and> tick (st w') = 0
    \<and> tick_rate (st w') = rate \<and> buckets (st w') = buckets (st w)
    \<and> (\<forall>c. L' c = (if c \<in> set (buckets (st w)) then Some [] else L c))"
proof -
  let ?bs = "buckets (st w)" and ?L = "\<lambda>c. if c \<in> set (buckets (st w)) then Some [] else L c"
  obtain h where h: "init_buckets ?bs (lheap w) = Some h" "heap_lists h ?L"
    using init_buckets_family[OF assms(1,3,4)] by blast
  have E: "E \<inter> set ?bs = {}" using assms(4,7) cellsI[of L _ "[]"] by fastforce
  have "?bs ! i \<in> set ?bs" if "i < 8" for i using that assms(2) by (simp add: SOFT_TIMER_NUM_BUCKETS_def)
  then have "wheel E {} ?bs (elem_tick w) ?L"
    using assms(2,3,7) E by (auto simp: wheel_def SOFT_TIMER_NUM_BUCKETS_def)
  then show ?thesis
    using h assms(5,6)
    by (intro exI[of _ "w\<lparr>st := (st w)\<lparr>tick_rate := rate, tick := 0\<rparr>, lheap := h\<rparr>"] exI[of _ ?L])
      (simp add: soft_timer_init_def on_heap_def timer_inv_def)
qed

section \<open>The first loop of a tick\<close>

text \<open>
  \<open>w0\<close> and \<open>L0\<close> are the state and the lists when the loop starts: the timers of the bucket
  \<open>b\<close> that are due go to \<open>tlist\<close> in their order, the others stay.
\<close>

definition collect_inv ::
  "'a timer_mem_scheme \<Rightarrow> family \<Rightarrow> addr \<Rightarrow> addr \<Rightarrow> addr list \<Rightarrow> addr list \<Rightarrow> 'a timer_mem_scheme \<Rightarrow> bool" where
  "collect_inv w0 L0 b tlist don rest w \<longleftrightarrow> b \<noteq> tlist \<and> w = w0\<lparr>lheap := lheap w\<rparr>
     \<and> heap_lists (lheap w)
         (L0(b \<mapsto> filter (\<lambda>p. elem_tick w0 p \<noteq> tick (st w0)) don @ rest,
             tlist \<mapsto> filter (\<lambda>p. elem_tick w0 p = tick (st w0)) don))"

lemma collect_due_step:
  assumes "collect_inv w0 L0 b tlist don (x # rest) w"
  shows "\<exists>w'. collect_due tlist x w = Some w' \<and> collect_inv w0 L0 b tlist (don @ [x]) rest w'"
proof -
  let ?stay = "filter (\<lambda>p. elem_tick w0 p \<noteq> tick (st w0)) don"
  let ?go = "filter (\<lambda>p. elem_tick w0 p = tick (st w0)) don"
  let ?L = "L0(b \<mapsto> ?stay @ x # rest, tlist \<mapsto> ?go)"
  have i: "b \<noteq> tlist" "w = w0\<lparr>lheap := lheap w\<rparr>" and L: "heap_lists (lheap w) ?L"
    using assms by (auto simp: collect_inv_def)
  have same: "elem_tick w = elem_tick w0" "st w = st w0"
    by (subst i(2), simp)+
  show ?thesis
  proof (cases "elem_tick w0 x = tick (st w0)")
    case True
    have Lb: "?L b = Some (?stay @ x # rest)" using i(1) by simp
    have "distinct (b # ?stay @ x # rest)" by (rule ring_distinct[OF listsD(2)[OF L Lb]])
    then have rem: "remove1 x (?stay @ x # rest) = ?stay @ rest" by (auto simp: remove1_append)
    obtain h1 where h1: "list_del x (lheap w) = Some h1" "heap_lists h1 (?L(b \<mapsto> ?stay @ rest))"
      "loose h1 (?L(b \<mapsto> ?stay @ rest)) x"
      using list_del_family[OF L Lb _, of x, unfolded rem] in_set_conv_decomp[of x "?stay @ x # rest"] by blast
    have "(?L(b \<mapsto> ?stay @ rest)) tlist = Some ?go" using i(1) by simp
    then obtain h2 where h2: "list_add_tail x tlist h1 = Some h2"
      "heap_lists h2 (?L(b \<mapsto> ?stay @ rest, tlist \<mapsto> ?go @ [x]))"
      using list_add_tail_family[OF h1(2) _ h1(3)] by blast
    have "?L(b \<mapsto> ?stay @ rest, tlist \<mapsto> ?go @ [x]) = L0(b \<mapsto> ?stay @ rest, tlist \<mapsto> ?go @ [x])"
      using i(1) by (intro ext) simp
    moreover have "w\<lparr>lheap := h2\<rparr> = w0\<lparr>lheap := h2\<rparr>" by (subst i(2)) simp
    moreover have "collect_due tlist x w = Some (w\<lparr>lheap := h2\<rparr>)"
      using True h1(1) h2(1) by (simp add: collect_due_def same on_heap_def)
    ultimately show ?thesis using True h2(2) i(1) unfolding collect_inv_def by simp
  next
    case False
    then show ?thesis using L i by (simp add: collect_due_def same collect_inv_def)
  qed
qed

interpretation collect: safe_traversal lheap b "collect_due tlist" "collect_inv w0 L0 b tlist"
  for b tlist w0 L0
proof
  fix don rest and w :: "'a timer_mem_scheme"
  assume "collect_inv w0 L0 b tlist don rest w"
  then show "\<exists>L us. heap_lists (lheap w) L \<and> L b = Some (us @ rest)"
    by (intro exI[of _ "L0(b \<mapsto> filter (\<lambda>p. elem_tick w0 p \<noteq> tick (st w0)) don @ rest,
          tlist \<mapsto> filter (\<lambda>p. elem_tick w0 p = tick (st w0)) don)"]) (auto simp: collect_inv_def)
qed (rule collect_due_step)

lemma collect_due_loop:
  assumes "heap_lists (lheap w) L" "L b = Some xs" "L tlist = Some []" "b \<noteq> tlist"
  shows "\<exists>h. list_for_each_entry_safe lheap b (collect_due tlist) w = Some (w\<lparr>lheap := h\<rparr>)
    \<and> heap_lists h (L(b \<mapsto> filter (\<lambda>p. elem_tick w p \<noteq> tick (st w)) xs,
                      tlist \<mapsto> filter (\<lambda>p. elem_tick w p = tick (st w)) xs))"
proof -
  have "L(b \<mapsto> xs, tlist \<mapsto> []) = L" using assms(2,3) by auto
  then have "collect_inv w L b tlist [] xs w" using assms(1,4) by (simp add: collect_inv_def)
  from collect.traversal[OF this assms(1,2)] obtain w' where
    "list_for_each_entry_safe lheap b (collect_due tlist) w = Some w'" "collect_inv w L b tlist xs [] w'"
    by blast
  then show ?thesis unfolding collect_inv_def by (metis append_Nil2)
qed

section \<open>The second loop and the contract of the callbacks\<close>

definition queued :: "family \<Rightarrow> addr \<Rightarrow> addr \<Rightarrow> bool" where
  "queued L e c \<longleftrightarrow> (\<exists>xs. L c = Some xs \<and> e \<in> set xs)"

text \<open>The timers of \<open>K\<close> keep their tick and their place.\<close>

definition untouched ::
  "addr set \<Rightarrow> 'a timer_mem_scheme \<Rightarrow> family \<Rightarrow> 'a timer_mem_scheme \<Rightarrow> family \<Rightarrow> bool" where
  "untouched K w L w' L' \<longleftrightarrow>
     (\<forall>e\<in>K. elem_tick w' e = elem_tick w e \<and> (\<forall>c. queued L' e c = queued L e c))"

lemma untouched_mono: "untouched K w L w' L' \<Longrightarrow> J \<subseteq> K \<Longrightarrow> untouched J w L w' L'"
  unfolding untouched_def by blast

lemma untouched_trans: "untouched K w L w' L' \<Longrightarrow> untouched K w' L' w'' L'' \<Longrightarrow> untouched K w L w'' L''"
  by (simp add: untouched_def)

text \<open>The lists that are not the wheel's.\<close>

definition others :: "addr set \<Rightarrow> addr list \<Rightarrow> addr \<Rightarrow> family \<Rightarrow> family" where
  "others E bs tlist L = L |` (- (E \<union> set bs \<union> {tlist}))"

lemma others_upd [simp]:
  "c \<in> E \<union> set bs \<union> {tlist} \<Longrightarrow> others E bs tlist (L(c := v)) = others E bs tlist L"
  by (auto simp: others_def restrict_map_def)

lemma queuedI: "L c = Some xs \<Longrightarrow> e \<in> set xs \<Longrightarrow> queued L e c"
  by (auto simp: queued_def)

lemma queued_del_other:
  "L c = Some xs \<Longrightarrow> heap_lists h L \<Longrightarrow> p \<in> set xs \<Longrightarrow> e \<noteq> p \<Longrightarrow>
   queued (L(c \<mapsto> remove1 p xs, p \<mapsto> [])) e d = queued L e d"
  using lists_elem_not_head[of h L c xs p] by (auto simp: queued_def)

lemma queued_unique: "heap_lists h L \<Longrightarrow> queued L e c \<Longrightarrow> queued L e d \<Longrightarrow> c = d"
  unfolding queued_def using lists_elem_unique by blast

lemma wheel_collect:
  assumes w: "wheel E {tlist} bs et L" and b: "i < 8" "L (bs ! i) = Some xs" and t: "L tlist = Some []"
  shows "wheel E {tlist} bs et (L(bs ! i \<mapsto> filter (\<lambda>p. \<not> P p) xs, tlist \<mapsto> filter P xs))"
proof -
  let ?L = "L(bs ! i \<mapsto> filter (\<lambda>p. \<not> P p) xs, tlist \<mapsto> filter P xs)"
  have bs: "length bs = 8" "distinct bs" "tlist \<notin> set bs" using w by (auto simp: wheel_def)
  have bi: "bs ! i \<in> set bs" using b(1) bs(1) by simp
  have ne: "bs ! i \<noteq> tlist" using bi bs(3) by blast
  obtain zs where "L (bs ! i) = Some zs" "\<forall>e\<in>set zs. e \<in> E \<and> slot (et e) = i"
    using wheel_bucket(2)[OF w b(1)] by blast
  then have xs: "\<forall>e\<in>set xs. e \<in> E \<and> slot (et e) = i" using b(2) by simp
  have one: "\<exists>ys. ?L (bs ! j) = Some ys \<and> (\<forall>x\<in>set ys. x \<in> E \<and> slot (et x) = j)" if j: "j < 8" for j
  proof (cases "j = i")
    case True
    then show ?thesis using ne xs by simp
  next
    case False
    then have "bs ! j \<noteq> bs ! i" using j b(1) bs(1,2) by (simp add: nth_eq_iff_index_eq)
    moreover have "bs ! j \<noteq> tlist" using j bs(1,3) nth_mem[of j bs] by auto
    ultimately have "?L (bs ! j) = L (bs ! j)" by simp
    then show ?thesis using wheel_bucket(2)[OF w j] by simp
  qed
  have two: "set (filter P xs) \<subseteq> E" using xs by auto
  have three: "?L x = Some [] \<or> (\<exists>c\<in>set bs \<union> {tlist}. \<exists>ys. ?L c = Some ys \<and> x \<in> set ys)" if x: "x \<in> E" for x
  proof (rule wheel_elem[OF w x])
    assume "L x = Some []"
    moreover have "x \<noteq> bs ! i" "x \<noteq> tlist" using wheel_heads[OF w x] bi by blast+
    ultimately show ?thesis by simp
  next
    fix c ys assume c: "c \<in> set bs \<union> {tlist}" "L c = Some ys" "x \<in> set ys"
    then have ct: "c \<noteq> tlist" using t by auto
    show ?thesis
    proof (cases "c = bs ! i")
      case True
      then have "ys = xs" using c(2) b(2) by simp
      then show ?thesis using c(3) bi ne by (cases "P x") auto
    next
      case False
      then have "?L c = Some ys" using c(2) ct by simp
      then show ?thesis using c(1,3) by blast
    qed
  qed
  show ?thesis using w one two three unfolding wheel_def by simp
qed

lemma wheel_enter: "wheel E {} bs et L \<Longrightarrow> tlist \<notin> E \<union> set bs \<Longrightarrow> wheel E {tlist} bs et (L(tlist \<mapsto> []))"
  unfolding wheel_def by (auto 0 3 simp: nth_mem)

lemma wheel_leave:
  assumes w: "wheel E {tlist} bs et L" and t: "L tlist = Some []"
  shows "wheel E {} bs et (L(tlist := None))"
proof -
  have bs: "length bs = 8" "tlist \<notin> set bs" "tlist \<notin> E" using w by (auto simp: wheel_def)
  have "\<exists>ys. (L(tlist := None)) (bs ! j) = Some ys \<and> (\<forall>x\<in>set ys. x \<in> E \<and> slot (et x) = j)" if j: "j < 8" for j
  proof -
    have "bs ! j \<noteq> tlist" using j bs nth_mem[of j bs] by auto
    then have "(L(tlist := None)) (bs ! j) = L (bs ! j)" by simp
    then show ?thesis using wheel_bucket(2)[OF w j] by simp
  qed
  moreover have "(L(tlist := None)) x = Some [] \<or> (\<exists>c\<in>set bs. \<exists>ys. (L(tlist := None)) c = Some ys \<and> x \<in> set ys)"
    if x: "x \<in> E" for x
  proof (rule wheel_elem[OF w x])
    assume "L x = Some []"
    then show ?thesis using x bs(3) by auto
  next
    fix c ys assume c: "c \<in> set bs \<union> {tlist}" "L c = Some ys" "x \<in> set ys"
    then have "c \<noteq> tlist" using t by auto
    then show ?thesis using c by auto
  qed
  ultimately show ?thesis using w unfolding wheel_def by simp
qed

text \<open>
  What the wheel relies on from the callback \<open>cb\<close> of its client, for the timers \<open>E\<close>, the buckets
  \<open>bs\<close> and the head \<open>tlist\<close> of the due timers. The callback may start and stop timers, those
  that are due in the same tick included, and use the rest of the program's state (whose
  invariant is \<open>ext\<close>), but it does not touch the timers of \<open>K\<close> other than its own, and does not
  drive the wheel.
\<close>

locale timer_callback =
  fixes cb :: "addr \<Rightarrow> 'a timer_mem_scheme \<Rightarrow> 'a timer_mem_scheme option"
    and E K :: "addr set" and bs :: "addr list" and tlist :: addr and ext :: "'a \<Rightarrow> family \<Rightarrow> bool"
  assumes call: "\<lbrakk>p \<in> E; timer_inv E {tlist} w L; buckets (st w) = bs; L p = Some []; L tlist = Some q;
      ext (timer_mem.more w) (others E bs tlist L)\<rbrakk> \<Longrightarrow>
    \<exists>w' L' q'. cb p w = Some w' \<and> timer_inv E {tlist} w' L' \<and> st w' = st w \<and> fired w' = fired w
      \<and> L' tlist = Some q' \<and> subseq q' q \<and> ext (timer_mem.more w') (others E bs tlist L')
      \<and> untouched (K - {p}) w L w' L'"
begin

text \<open>The invariant of the loop: \<open>ps\<close> have run, of the timers that were due.\<close>

definition firing ::
  "'a timer_mem_scheme \<Rightarrow> family \<Rightarrow> addr list \<Rightarrow> 'a timer_mem_scheme \<Rightarrow> family \<Rightarrow> addr list \<Rightarrow> addr list \<Rightarrow> bool" where
  "firing w0 L0 due w L ps q \<longleftrightarrow> timer_inv E {tlist} w L \<and> st w = st w0 \<and> buckets (st w) = bs
     \<and> L tlist = Some q \<and> ext (timer_mem.more w) (others E bs tlist L)
     \<and> fired w = fired w0 @ map (\<lambda>p. (p, tick (st w0))) ps \<and> subseq (ps @ q) due
     \<and> (\<forall>e\<in>K \<inter> set due. e \<in> set ps \<union> set q) \<and> untouched (K - set due) w0 L0 w L"

lemma fire_step:
  assumes "firing w0 L0 due w L ps (p # q)" "distinct due"
  shows "\<exists>w' L' q'. fire cb p w = Some w' \<and> firing w0 L0 due w' L' (ps @ [p]) q' \<and> subseq q' q"
proof -
  have f: "timer_inv E {tlist} w L" "st w = st w0" "buckets (st w) = bs" "L tlist = Some (p # q)"
    "ext (timer_mem.more w) (others E bs tlist L)" "fired w = fired w0 @ map (\<lambda>p. (p, tick (st w0))) ps"
    "subseq (ps @ p # q) due" "\<forall>e\<in>K \<inter> set due. e \<in> set ps \<union> set (p # q)" "untouched (K - set due) w0 L0 w L"
    using assms(1) unfolding firing_def by auto
  note L = timer_invD(1)[OF f(1)] and wh = timer_invD(4)[OF f(1)]
  have pE: "p \<in> E" using wheel_due[OF wh, of tlist] f(4) by auto
  have pdue: "p \<in> set due" using subseq_set_le[OF f(7)] by auto
  have "distinct (ps @ p # q)" using subseq_distinct[OF f(7) assms(2)] .
  then have pq: "p \<notin> set q" by simp
  have pt: "p \<noteq> tlist" using wheel_heads[OF wh pE] by blast
  let ?L1 = "L(tlist \<mapsto> q, p \<mapsto> [])"
  obtain h1 where h1: "list_del_init p (lheap w) = Some h1" "heap_lists h1 ?L1"
    using list_del_init_family[OF L f(4), of p] by auto
  let ?w1 = "w\<lparr>lheap := h1, fired := fired w @ [(p, tick (st w))]\<rparr>"
  have "wheel E {tlist} (buckets (st w)) (elem_tick w) ?L1"
    using wheel_del[OF wh pE _ f(4)] by simp
  then have i1: "timer_inv E {tlist} ?w1 ?L1"
    using h1(2) timer_invD[OF f(1)] by (simp add: timer_inv_def)
  have ext1: "ext (timer_mem.more ?w1) (others E bs tlist ?L1)" using f(5) pE by simp
  obtain w' L' q' where c: "cb p ?w1 = Some w'" "timer_inv E {tlist} w' L'" "st w' = st ?w1" "fired w' = fired ?w1"
      "L' tlist = Some q'" "subseq q' q" "ext (timer_mem.more w') (others E bs tlist L')"
      "untouched (K - {p}) ?w1 ?L1 w' L'"
    using call[OF pE i1 _ _ _ ext1, of q] f(3) pt by auto
  have "queued ?L1 e d = queued L e d" if "e \<noteq> p" for e d
    using queued_del_other[OF f(4) L, of p e d] that by simp
  then have u: "untouched (K - {p}) w L w' L'" using c(8) by (auto simp: untouched_def)
  have stay: "e \<in> set q'" if "e \<in> K" "e \<noteq> p" "e \<in> set q" for e
  proof -
    have "queued L e tlist" using that(3) f(4) by (auto simp: queued_def)
    then have "queued L' e tlist" using u that(1,2) by (simp add: untouched_def)
    then show ?thesis using c(5) by (simp add: queued_def)
  qed
  have "subseq (ps @ [p] @ q') due"
    using f(7) c(6) subseq_order.trans[of "ps @ [p] @ q'" "ps @ p # q" due] by (simp add: subseq_append')
  moreover have "\<forall>e\<in>K \<inter> set due. e \<in> set (ps @ [p]) \<union> set q'" using f(8) stay by auto
  moreover have "untouched (K - set due) w0 L0 w' L'"
    using untouched_trans[OF untouched_mono[OF f(9)] untouched_mono[OF u]] pdue by blast
  moreover have "fire cb p w = Some w'" using h1(1) c(1) by (simp add: fire_def on_heap_def)
  ultimately show ?thesis using c f unfolding firing_def
    by (intro exI[of _ w'] exI[of _ L'] exI[of _ q']) simp
qed

end

interpretation firing: work_list lheap tlist "fire cb"
    "\<lambda>w q. timer_callback cb E K bs tlist ext \<and> distinct due \<and>
      (\<exists>L ps. timer_callback.firing E K bs tlist ext w0 L0 due w L ps q)"
  for cb E K bs tlist ext due w0 L0
proof
  fix w :: "'a timer_mem_scheme" and q
  assume "timer_callback cb E K bs tlist ext \<and> distinct due \<and>
      (\<exists>L ps. timer_callback.firing E K bs tlist ext w0 L0 due w L ps q)"
  then obtain L ps where t: "timer_callback cb E K bs tlist ext"
    and f: "timer_callback.firing E K bs tlist ext w0 L0 due w L ps q" by blast
  show "\<exists>L. heap_lists (lheap w) L \<and> L tlist = Some q"
    using f unfolding timer_callback.firing_def[OF t] using timer_invD(1) by blast
next
  fix w :: "'a timer_mem_scheme" and p q
  assume "timer_callback cb E K bs tlist ext \<and> distinct due \<and>
      (\<exists>L ps. timer_callback.firing E K bs tlist ext w0 L0 due w L ps (p # q))"
  then obtain L ps where t: "timer_callback cb E K bs tlist ext" and d: "distinct due"
    and f: "timer_callback.firing E K bs tlist ext w0 L0 due w L ps (p # q)" by blast
  then show "\<exists>w' q'. fire cb p w = Some w' \<and> (timer_callback cb E K bs tlist ext \<and> distinct due \<and>
      (\<exists>L ps. timer_callback.firing E K bs tlist ext w0 L0 due w' L ps q')) \<and> subseq q' q"
    using timer_callback.fire_step[OF t f d] by blast
qed

section \<open>A tick\<close>

text \<open>The timers a tick finds due: those of the current bucket whose tick has come, in order.\<close>

definition due_list :: "'a timer_mem_scheme \<Rightarrow> family \<Rightarrow> addr list" where
  "due_list w L = filter (\<lambda>p. elem_tick w p = tick (st w) + 1)
     (the (L (buckets (st w) ! slot (tick (st w) + 1))))"

text \<open>
  The agenda of a wheel: its running timers with their expiry, in the order in which they were
  added. A bucket holds those whose expiry belongs there, and for every expiry in that order.
\<close>

definition agenda :: "(addr \<times> u32) list \<Rightarrow> 'a timer_mem_scheme \<Rightarrow> family \<Rightarrow> bool" where
  "agenda Q w L \<longleftrightarrow> (\<forall>t. filter (\<lambda>e. elem_tick w e = t) (the (L (buckets (st w) ! slot t)))
     = map fst (filter (\<lambda>x. snd x = t) Q))"

definition due_of :: "u32 \<Rightarrow> (addr \<times> u32) list \<Rightarrow> addr list" where
  "due_of t Q = map fst (filter (\<lambda>x. snd x = t) Q)"

lemma agenda_due: "agenda Q w L \<Longrightarrow> due_list w L = due_of (tick (st w) + 1) Q"
  by (simp add: agenda_def due_list_def due_of_def)

lemma agendaD:
  "agenda Q w L \<Longrightarrow> L (buckets (st w) ! slot t) = Some ys \<Longrightarrow>
   filter (\<lambda>e. elem_tick w e = t) ys = map fst (filter (\<lambda>x. snd x = t) Q)"
  unfolding agenda_def by (metis option.sel)

lemma agenda_same:
  assumes "agenda Q w L" "elem_tick w' = elem_tick w" "buckets (st w') = buckets (st w)"
    "\<And>b. b \<in> set (buckets (st w)) \<Longrightarrow> L' b = L b" "length (buckets (st w)) = 8"
  shows "agenda Q w' L'"
  using assms nth_mem[of _ "buckets (st w)"] by (simp add: agenda_def)

lemma agenda_idle:
  assumes inv: "timer_inv E {} w L" and idle: "\<forall>e\<in>E. L e = Some []"
  shows "agenda [] w L"
proof -
  have "the (L (buckets (st w) ! slot t)) = []" for t
  proof -
    obtain xs where xs: "L (buckets (st w) ! slot t) = Some xs" "\<forall>e\<in>set xs. e \<in> E"
      using wheel_bucket(2)[OF timer_invD(4)[OF inv] slot_less] by blast
    then have "e \<notin> set xs" for e
      using lists_elem_not_head[OF timer_invD(1)[OF inv] xs(1)] idle by fastforce
    then have "xs = []" by (cases xs) auto
    then show ?thesis using xs(1) by simp
  qed
  then show ?thesis by (simp add: agenda_def)
qed

lemma agenda_mem:
  assumes inv: "timer_inv E {} w L" and ag: "agenda Q w L" and e: "e \<in> E"
  shows "L e = Some [] \<longleftrightarrow> e \<notin> fst ` set Q"
proof
  assume i: "L e = Some []"
  have "e \<notin> set (map fst (filter (\<lambda>x. snd x = t) Q))" for t
  proof -
    obtain xs where xs: "L (buckets (st w) ! slot t) = Some xs"
      using wheel_bucket(2)[OF timer_invD(4)[OF inv] slot_less] by blast
    then have "e \<notin> set xs" using lists_elem_not_head[OF timer_invD(1)[OF inv] xs] i by fastforce
    then show ?thesis using agendaD[OF ag xs, symmetric] by simp
  qed
  then show "e \<notin> fst ` set Q" by force
next
  assume n: "e \<notin> fst ` set Q"
  show "L e = Some []"
  proof (rule wheel_elem[OF timer_invD(4)[OF inv] e])
    fix c xs assume c: "c \<in> set (buckets (st w)) \<union> {}" "L c = Some xs" "e \<in> set xs"
    then obtain i where i: "i < 8" "c = buckets (st w) ! i"
      using timer_invD(4)[OF inv] by (auto simp: in_set_conv_nth[of c] wheel_def)
    then have "slot (elem_tick w e) = i" using wheel_bucket(2)[OF timer_invD(4)[OF inv] i(1)] c by auto
    then have "e \<in> set (filter (\<lambda>x. elem_tick w x = elem_tick w e) (the (L (buckets (st w) ! slot (elem_tick w e)))))"
      using c i by simp
    then have "e \<in> set (map fst (filter (\<lambda>x. snd x = elem_tick w e) Q))"
      using ag unfolding agenda_def by metis
    then show ?thesis using n by force
  qed
qed

text \<open>A timer that is added comes last; one that is deleted leaves the others as they are.\<close>

lemma agenda_add:
  fixes w :: "'a timer_mem_scheme" and w' :: "'b timer_mem_scheme" and t :: u32
  assumes inv: "timer_inv E T w L" and ag: "agenda Q w L" and e: "e \<in> E" "L e = Some []"
  defines "b \<equiv> buckets (st w) ! slot t"
  assumes xs: "L b = Some xs" and w': "elem_tick w' = (elem_tick w)(e := t)" "st w' = st w"
  shows "agenda (Q @ [(e, t)]) w' (L(e := None, b \<mapsto> xs @ [e]))"
  unfolding agenda_def
proof
  fix u
  let ?c = "buckets (st w) ! slot u"
  note wh = timer_invD(4)[OF inv]
  have ec: "e \<noteq> ?c" using wheel_heads[OF wh e(1)] wheel_bucket(1)[OF wh slot_less] by blast
  obtain ys where ys: "L ?c = Some ys" using wheel_bucket(2)[OF wh slot_less] by blast
  have ne: "e \<notin> set zs" if "L c = Some zs" for c zs
    using lists_elem_not_head[OF timer_invD(1)[OF inv] that] e(2) by auto
  have f: "filter (\<lambda>x. ((elem_tick w)(e := t)) x = u) zs = filter (\<lambda>x. elem_tick w x = u) zs" if "L c = Some zs" for c zs
    using ne[OF that] by (intro filter_cong) auto
  have "filter (\<lambda>x. elem_tick w' x = u) (the ((L(e := None, b \<mapsto> xs @ [e])) ?c))
      = filter (\<lambda>x. elem_tick w x = u) ys @ (if t = u then [e] else [])"
    using ys xs ec f[OF xs] f[OF ys] unfolding w' by (cases "?c = b") (auto simp: b_def)
  then show "filter (\<lambda>x. elem_tick w' x = u) (the ((L(e := None, b \<mapsto> xs @ [e])) (buckets (st w') ! slot u)))
      = map fst (filter (\<lambda>x. snd x = u) (Q @ [(e, t)]))"
    unfolding w'(2) using agendaD[OF ag ys] by simp
qed

lemma agenda_del:
  assumes inv: "timer_inv E T w L" and ag: "agenda Q w L" and e: "e \<in> E" "L c = Some xs" "e \<in> set xs"
    and w': "elem_tick w' = elem_tick w" "st w' = st w"
  shows "agenda (filter (\<lambda>x. fst x \<noteq> e) Q) w' (L(c \<mapsto> remove1 e xs, e \<mapsto> []))"
  unfolding agenda_def
proof
  fix u
  let ?c = "buckets (st w) ! slot u"
  note wh = timer_invD(4)[OF inv] and L = timer_invD(1)[OF inv]
  have ec: "e \<noteq> ?c" using wheel_heads[OF wh e(1)] wheel_bucket(1)[OF wh slot_less] by blast
  obtain ys where ys: "L ?c = Some ys" using wheel_bucket(2)[OF wh slot_less] by blast
  have "the ((L(c \<mapsto> remove1 e xs, e \<mapsto> [])) ?c) = filter (\<lambda>x. x \<noteq> e) ys"
  proof (cases "?c = c")
    case True
    then show ?thesis using ys e ec ring_distinct[OF listsD(2)[OF L e(2)]] distinct_remove1_removeAll[of xs e]
      by (simp add: removeAll_filter_not_eq) (metis (mono_tags, lifting) filter_cong)
  next
    case False
    then have "e \<notin> set ys" using lists_elem_unique[OF L e(2) ys e(3)] by blast
    then show ?thesis using ys ec False by (auto intro: filter_True[symmetric])
  qed
  then have "filter (\<lambda>x. elem_tick w x = u) (the ((L(c \<mapsto> remove1 e xs, e \<mapsto> [])) ?c))
      = filter (\<lambda>x. x \<noteq> e) (filter (\<lambda>x. elem_tick w x = u) ys)" by (simp add: conj_commute)
  also have "\<dots> = filter (\<lambda>x. x \<noteq> e) (map fst (filter (\<lambda>x. snd x = u) Q))"
    using agendaD[OF ag ys] by simp
  also have "\<dots> = map fst (filter (\<lambda>x. snd x = u) (filter (\<lambda>x. fst x \<noteq> e) Q))"
    by (simp add: filter_map comp_def conj_commute)
  finally show "filter (\<lambda>x. elem_tick w' x = u) (the ((L(c \<mapsto> remove1 e xs, e \<mapsto> [])) (buckets (st w') ! slot u)))
      = map fst (filter (\<lambda>x. snd x = u) (filter (\<lambda>x. fst x \<noteq> e) Q))"
    unfolding w' .
qed

text \<open>\<open>tlist\<close> is a fresh cell, as a local variable is.\<close>

definition fresh_for :: "addr set \<Rightarrow> addr \<Rightarrow> 'a timer_mem_scheme \<Rightarrow> bool" where
  "fresh_for E tlist w \<longleftrightarrow> lheap w tlist = None \<and> tlist \<noteq> NULL \<and> tlist \<notin> E"

lemma due_list_distinct:
  assumes "timer_inv E T w L"
  shows "distinct (due_list w L)"
proof -
  obtain xs where "L (buckets (st w) ! slot (tick (st w) + 1)) = Some xs"
    using wheel_bucket(2)[OF timer_invD(4)[OF assms] slot_less] by blast
  then show ?thesis
    using ring_distinct[OF listsD(2)[OF timer_invD(1)[OF assms]]] by (simp add: due_list_def)
qed

lemma fresh_tlist:
  assumes "timer_inv E {} w L" "fresh_for E tlist w"
  shows "L tlist = None" "tlist \<notin> set (buckets (st w))" "queued L e c \<Longrightarrow> c \<noteq> tlist"
proof -
  show a: "L tlist = None"
    using lists_head_dom[OF timer_invD(1)[OF assms(1)]] assms(2) by (fastforce simp: fresh_for_def domIff)
  show "tlist \<notin> set (buckets (st w))"
  proof
    assume "tlist \<in> set (buckets (st w))"
    then obtain i where "i < 8" "buckets (st w) ! i = tlist"
      using timer_invD(4)[OF assms(1)] by (auto simp: in_set_conv_nth wheel_def)
    then show False using wheel_bucket(2)[OF timer_invD(4)[OF assms(1)], of i] a by auto
  qed
  show "queued L e c \<Longrightarrow> c \<noteq> tlist" using a by (auto simp: queued_def)
qed

text \<open>The state in which the due timers are about to be fired.\<close>

lemma tick_collects:
  fixes w :: "'a timer_mem_scheme"
  assumes inv: "timer_inv E {} w L" and fr: "fresh_for E tlist w"
  shows "\<exists>h L1. timer_tick cb tlist w
      = do { w \<leftarrow> while_not_empty lheap tlist (fire cb) (w\<lparr>lheap := h, st := (st w)\<lparr>tick := tick (st w) + 1\<rparr>\<rparr>);
             Some (leave_scope tlist w) }
    \<and> timer_inv E {tlist} (w\<lparr>lheap := h, st := (st w)\<lparr>tick := tick (st w) + 1\<rparr>\<rparr>) L1
    \<and> L1 tlist = Some (due_list w L) \<and> others E (buckets (st w)) tlist L1 = others E (buckets (st w)) tlist L
    \<and> (\<forall>e c. e \<notin> set (due_list w L) \<longrightarrow> queued L1 e c = queued L e c)
    \<and> (\<forall>Q. agenda Q w L \<longrightarrow> agenda (filter (\<lambda>x. snd x \<noteq> tick (st w) + 1) Q)
         (w\<lparr>lheap := h, st := (st w)\<lparr>tick := tick (st w) + 1\<rparr>\<rparr>) L1)"
proof -
  let ?i = "slot (tick (st w) + 1)"
  let ?b = "buckets (st w) ! ?i"
  let ?P = "\<lambda>p. elem_tick w p = tick (st w) + 1"
  note L = timer_invD(1)[OF inv] and wh = timer_invD(4)[OF inv] and ft = fresh_tlist[OF inv fr]
  have f: "lheap w tlist = None" "tlist \<noteq> NULL" "tlist \<notin> E" using fr by (auto simp: fresh_for_def)
  let ?w1 = "(enter_scope tlist w)\<lparr>st := (st w)\<lparr>tick := tick (st w) + 1\<rparr>\<rparr>"
  have L1: "heap_lists (lheap ?w1) (L(tlist \<mapsto> []))" using enter_scope_family[OF L f(1,2)] by simp
  have wh1: "wheel E {tlist} (buckets (st w)) (elem_tick w) (L(tlist \<mapsto> []))"
    using wheel_enter[OF wh] ft(2) f(3) by blast
  obtain xs where xs: "L ?b = Some xs" using wheel_bucket(2)[OF wh slot_less] by blast
  have bt: "?b \<noteq> tlist" using wheel_bucket(1)[OF wh slot_less] ft(2) by metis
  have b1: "(L(tlist \<mapsto> [])) ?b = Some xs" "(L(tlist \<mapsto> [])) tlist = Some []" using xs bt by simp_all
  have e1: "elem_tick ?w1 = elem_tick w" "tick (st ?w1) = tick (st w) + 1"
    by (simp_all add: enter_scope_def)
  let ?L2 = "L(tlist \<mapsto> [], ?b \<mapsto> filter (\<lambda>p. \<not> ?P p) xs, tlist \<mapsto> filter ?P xs)"
  obtain h where h: "list_for_each_entry_safe lheap ?b (collect_due tlist) ?w1 = Some (?w1\<lparr>lheap := h\<rparr>)"
    "heap_lists h ?L2"
    using collect_due_loop[OF L1 b1 bt] unfolding e1 by blast
  let ?w2 = "w\<lparr>lheap := h, st := (st w)\<lparr>tick := tick (st w) + 1\<rparr>\<rparr>"
  have w2: "?w1\<lparr>lheap := h\<rparr> = ?w2" by (simp add: enter_scope_def)
  have due: "due_list w L = filter ?P xs" using xs by (simp add: due_list_def)
  have "wheel E {tlist} (buckets (st w)) (elem_tick w) ?L2"
    by (rule wheel_collect[OF wh1 slot_less b1])
  then have inv2: "timer_inv E {tlist} ?w2 ?L2" using h(2) timer_invD(2,3)[OF inv] by (simp add: timer_inv_def)
  have q: "queued ?L2 e c = queued L e c" if "e \<notin> set (filter ?P xs)" for e c
    using that xs bt ft(1) by (auto simp: queued_def)
  have "length (buckets (st w)) = 8" using wh by (simp add: wheel_def)
  then have bk: "bucket ((st w)\<lparr>tick := tick (st w) + 1\<rparr>) ?i = Some ?b" by (simp add: bucket_def)
  have "timer_tick cb tlist w
      = do { w \<leftarrow> while_not_empty lheap tlist (fire cb) ?w2; Some (leave_scope tlist w) }"
    using h(1) bk unfolding w2 by (simp add: timer_tick_def Let_def enter_scope_def)
  moreover have "?L2 tlist = Some (due_list w L)" using due by simp
  moreover have "others E (buckets (st w)) tlist ?L2 = others E (buckets (st w)) tlist L"
    using wheel_bucket(1)[OF wh slot_less] by simp
  moreover have "agenda (filter (\<lambda>x. snd x \<noteq> tick (st w) + 1) Q) ?w2 ?L2" if ag: "agenda Q w L" for Q
    unfolding agenda_def
  proof
    fix u
    let ?c = "buckets (st w) ! slot u"
    obtain ys where ys: "L ?c = Some ys" using wheel_bucket(2)[OF wh slot_less] by blast
    have ct: "?c \<noteq> tlist" using wheel_bucket(1)[OF wh slot_less] ft(2) by metis
    have "the (?L2 ?c) = (if ?c = ?b then filter (\<lambda>p. \<not> ?P p) ys else ys)" using ys xs ct by auto
    moreover have "u \<noteq> tick (st w) + 1" if "?c \<noteq> ?b" using that by blast
    moreover have "filter (\<lambda>x. elem_tick w x = u) (filter (\<lambda>p. \<not> ?P p) ys)
        = (if u = tick (st w) + 1 then [] else filter (\<lambda>x. elem_tick w x = u) ys)"
      by (auto simp: filter_empty_conv intro!: filter_cong)
    ultimately have "filter (\<lambda>x. elem_tick w x = u) (the (?L2 ?c))
        = (if u = tick (st w) + 1 then [] else filter (\<lambda>x. elem_tick w x = u) ys)" by auto
    also have "\<dots> = (if u = tick (st w) + 1 then [] else map fst (filter (\<lambda>x. snd x = u) Q))"
      using agendaD[OF ag ys] by simp
    also have "\<dots> = map fst (filter (\<lambda>x. snd x = u) (filter (\<lambda>x. snd x \<noteq> tick (st w) + 1) Q))"
      by (auto simp: filter_empty_conv intro!: arg_cong[where f = "map fst"] filter_cong)
    finally show "filter (\<lambda>x. elem_tick ?w2 x = u) (the (?L2 (buckets (st ?w2) ! slot u)))
        = map fst (filter (\<lambda>x. snd x = u) (filter (\<lambda>x. snd x \<noteq> tick (st w) + 1) Q))" by simp
  qed
  ultimately show ?thesis using inv2 q due by (intro exI[of _ h] exI[of _ ?L2]) auto
qed

context timer_callback
begin

text \<open>
  A tick returns, keeps the invariant, and runs callbacks of due timers only, each at most once
  and in order; a timer nobody else touches runs if it is due and is not disturbed if not.
\<close>

lemma tick:
  assumes inv: "timer_inv E {} w L" and fr: "fresh_for E tlist w" and bs: "buckets (st w) = bs"
    and ext: "ext (timer_mem.more w) (others E bs tlist L)"
  shows "\<exists>w' L' ps. timer_tick cb tlist w = Some w' \<and> timer_inv E {} w' L' \<and> fresh_for E tlist w'
    \<and> st w' = (st w)\<lparr>tick := tick (st w) + 1\<rparr> \<and> ext (timer_mem.more w') (others E bs tlist L')
    \<and> fired w' = fired w @ map (\<lambda>p. (p, tick (st w) + 1)) ps \<and> subseq ps (due_list w L)
    \<and> (\<forall>e\<in>K. e \<in> set (due_list w L) \<longrightarrow> e \<in> set ps) \<and> untouched (K - set (due_list w L)) w L w' L'"
proof -
  let ?due = "due_list w L"
  obtain h L1 where t: "timer_tick cb tlist w
      = do { w \<leftarrow> while_not_empty lheap tlist (fire cb) (w\<lparr>lheap := h, st := (st w)\<lparr>tick := tick (st w) + 1\<rparr>\<rparr>);
             Some (leave_scope tlist w) }"
    and inv1: "timer_inv E {tlist} (w\<lparr>lheap := h, st := (st w)\<lparr>tick := tick (st w) + 1\<rparr>\<rparr>) L1"
    and L1: "L1 tlist = Some ?due" "others E bs tlist L1 = others E bs tlist L"
      "\<And>e c. e \<notin> set ?due \<Longrightarrow> queued L1 e c = queued L e c"
    using tick_collects[OF inv fr, of cb] unfolding bs by blast
  let ?w1 = "w\<lparr>lheap := h, st := (st w)\<lparr>tick := tick (st w) + 1\<rparr>\<rparr>"
  have "firing ?w1 L1 ?due ?w1 L1 [] ?due"
    using inv1 L1 ext bs by (auto simp: firing_def untouched_def)
  then have "timer_callback cb E K bs tlist ext \<and> distinct ?due \<and> (\<exists>M ps. firing ?w1 L1 ?due ?w1 M ps ?due)"
    using due_list_distinct[OF inv] timer_callback_axioms by blast
  from firing.drains[OF this] obtain w' M ps where w': "while_not_empty lheap tlist (fire cb) ?w1 = Some w'"
    and "firing ?w1 L1 ?due w' M ps []" by blast
  then have f: "timer_inv E {tlist} w' M" "st w' = (st w)\<lparr>tick := tick (st w) + 1\<rparr>" "M tlist = Some []"
     "ext (timer_mem.more w') (others E bs tlist M)" "fired w' = fired w @ map (\<lambda>p. (p, tick (st w) + 1)) ps"
     "subseq ps ?due" "\<forall>e\<in>K \<inter> set ?due. e \<in> set ps" "untouched (K - set ?due) ?w1 L1 w' M"
    unfolding firing_def by simp_all
  let ?w' = "leave_scope tlist w'" and ?L' = "M(tlist := None)"
  have same: "st ?w' = st w'" "fired ?w' = fired w'" "timer_mem.more ?w' = timer_mem.more w'"
    "elem_tick ?w' = elem_tick w'" "lheap ?w' tlist = None" by (simp_all add: leave_scope_def)
  have "timer_inv E {} ?w' ?L'"
    using leave_scope_family[OF timer_invD(1)[OF f(1)] f(3)] timer_invD(2-4)[OF f(1)]
      wheel_leave[OF timer_invD(4)[OF f(1)] f(3)] by (simp add: timer_inv_def same)
  moreover have "fresh_for E tlist ?w'" using fr same(5) by (simp add: fresh_for_def)
  moreover have "untouched (K - set ?due) w L ?w' ?L'"
  proof -
    have "queued ?L' e c = queued M e c" for e c using f(3) by (auto simp: queued_def)
    then show ?thesis using f(8) L1(3) by (simp add: untouched_def same)
  qed
  moreover have "others E bs tlist ?L' = others E bs tlist M" by simp
  moreover have "timer_tick cb tlist w = Some ?w'" using t w' by simp
  ultimately show ?thesis using f same
    by (intro exI[of _ ?w'] exI[of _ ?L'] exI[of _ ps]) auto
qed

end

section \<open>A client's callback\<close>

text \<open>
  A client that makes any calls of the interface, on the timers \<open>X\<close> and on the one that
  expired: \<open>f\<close> chooses them, after looking at the whole state.
\<close>

datatype timer_call = Timer_add addr int | Timer_del addr

fun timer_call_ok :: "addr set \<Rightarrow> timer_call \<Rightarrow> bool" where
  "timer_call_ok X (Timer_add e ms) = (e \<in> X \<and> int_range ms)"
| "timer_call_ok X (Timer_del e) = (e \<in> X)"

fun do_timer_call :: "timer_call \<Rightarrow> 'a timer_mem_scheme \<Rightarrow> 'a timer_mem_scheme option" where
  "do_timer_call (Timer_add e ms) w = soft_timer_add e ms w"
| "do_timer_call (Timer_del e) w = soft_timer_del e w"

fun do_timer_calls :: "timer_call list \<Rightarrow> 'a timer_mem_scheme \<Rightarrow> 'a timer_mem_scheme option" where
  "do_timer_calls [] w = Some w"
| "do_timer_calls (c # cs) w = do { w \<leftarrow> do_timer_call c w; do_timer_calls cs w }"

definition script_cb ::
  "addr set \<Rightarrow> (addr \<Rightarrow> 'a timer_mem_scheme \<Rightarrow> timer_call list) \<Rightarrow> addr \<Rightarrow>
   'a timer_mem_scheme \<Rightarrow> 'a timer_mem_scheme option" where
  "script_cb X f p w = do_timer_calls (filter (timer_call_ok (insert p X)) (f p w)) w"

text \<open>What a call keeps, in and outside a tick.\<close>

definition call_effect ::
  "addr set \<Rightarrow> addr set \<Rightarrow> addr set \<Rightarrow> 'a timer_mem_scheme \<Rightarrow> family \<Rightarrow> 'a timer_mem_scheme \<Rightarrow> family \<Rightarrow> bool" where
  "call_effect E T X w L w' L' \<longleftrightarrow> timer_inv E T w' L' \<and> st w' = st w \<and> fired w' = fired w
     \<and> timer_mem.more w' = timer_mem.more w
     \<and> (\<forall>c. c \<notin> E \<union> set (buckets (st w)) \<union> T \<longrightarrow> L' c = L c)
     \<and> (\<forall>c\<in>T. \<exists>q q'. L c = Some q \<and> L' c = Some q' \<and> subseq q' q)
     \<and> untouched (- X) w L w' L' \<and> dom (lheap w') = dom (lheap w)"

lemma call_effect_refl:
  assumes "timer_inv E T w L"
  shows "call_effect E T X w L w L"
  using assms wheel_due[OF timer_invD(4)[OF assms]] by (force simp: call_effect_def untouched_def)

lemma call_effect_trans:
  assumes "call_effect E T X w L w' L'" "call_effect E T X w' L' w'' L''"
  shows "call_effect E T X w L w'' L''"
proof -
  have "\<exists>q q'. L c = Some q \<and> L'' c = Some q' \<and> subseq q' q" if c: "c \<in> T" for c
  proof -
    obtain q q' q'' where "L c = Some q" "L' c = Some q'" "subseq q' q" "L'' c = Some q''" "subseq q'' q'"
      using assms c unfolding call_effect_def by (metis option.inject)
    then show ?thesis using subseq_order.trans by blast
  qed
  then show ?thesis using assms untouched_trans unfolding call_effect_def by (metis (no_types, lifting))
qed

lemma soft_timer_add_agenda:
  fixes w :: "'a timer_mem_scheme"
  assumes inv: "timer_inv E T w L" and e: "e \<in> E" "e \<in> X" and ms: "int_range ms"
  shows "\<exists>w' L'. soft_timer_add e ms w = Some w' \<and> call_effect E T X w L w' L'
    \<and> (\<forall>Q. agenda Q w L \<longrightarrow>
         agenda (if L e = Some [] then Q @ [(e, tick (st w) + ticks_of (tick_rate (st w)) ms)] else Q) w' L')"
proof (cases "L e = Some []")
  case False
  then show ?thesis using soft_timer_add_running[OF inv e(1)] call_effect_refl[OF inv] by auto
next
  case True
  note wh = timer_invD(4)[OF inv]
  define t where "t = tick (st w) + ticks_of (tick_rate (st w)) ms"
  define b where "b = buckets (st w) ! slot t"
  obtain h xs where a: "L b = Some xs"
    "soft_timer_add e ms w = Some (w\<lparr>lheap := h, elem_tick := (elem_tick w)(e := t)\<rparr>)"
    "timer_inv E T (w\<lparr>lheap := h, elem_tick := (elem_tick w)(e := t)\<rparr>) (L(e := None, b \<mapsto> xs @ [e]))"
    "dom h = dom (lheap w)"
    using soft_timer_add_idle[OF inv e(1) True ms] unfolding t_def b_def by blast
  let ?L = "L(e := None, b \<mapsto> xs @ [e])"
  have b: "b \<in> set (buckets (st w))" using wheel_bucket(1)[OF wh slot_less] b_def by blast
  then have bT: "b \<notin> T" using wh by (auto simp: wheel_def)
  have eT: "e \<notin> T" using wheel_heads[OF wh e(1)] by blast
  have "\<exists>q q'. L c = Some q \<and> ?L c = Some q' \<and> subseq q' q" if "c \<in> T" for c
    using wheel_due[OF wh that] that bT eT by (cases "c = b \<or> c = e") auto
  moreover have "queued ?L x c = queued L x c" if "x \<noteq> e" for x c
    using that a(1) True by (auto simp: queued_def)
  ultimately have "call_effect E T X w L (w\<lparr>lheap := h, elem_tick := (elem_tick w)(e := t)\<rparr>) ?L"
    using a(3,4) b e by (simp add: call_effect_def untouched_def)
  moreover have "agenda (Q @ [(e, t)]) (w\<lparr>lheap := h, elem_tick := (elem_tick w)(e := t)\<rparr>) ?L"
    if "agenda Q w L" for Q
    unfolding b_def by (rule agenda_add[OF inv that e(1) True]) (use a(1) b_def in simp_all)
  ultimately show ?thesis using a(2) True unfolding t_def by auto
qed

lemma soft_timer_add_effect:
  fixes w :: "'a timer_mem_scheme"
  assumes "timer_inv E T w L" "e \<in> E" "e \<in> X" "int_range ms"
  shows "\<exists>w' L'. soft_timer_add e ms w = Some w' \<and> call_effect E T X w L w' L'"
  using soft_timer_add_agenda[OF assms] by blast

lemma agenda_not_in:
  assumes inv: "timer_inv E T w L" and ag: "agenda Q w L" and e: "L e = Some []"
  shows "filter (\<lambda>x. fst x \<noteq> e) Q = Q"
proof -
  have "fst x \<noteq> e" if x: "x \<in> set Q" for x
  proof -
    obtain xs where xs: "L (buckets (st w) ! slot (snd x)) = Some xs"
      using wheel_bucket(2)[OF timer_invD(4)[OF inv] slot_less] by blast
    have "fst x \<in> set (map fst (filter (\<lambda>y. snd y = snd x) Q))" using x by auto
    then have "fst x \<in> set xs" using agendaD[OF ag xs, symmetric] by simp
    then show ?thesis using lists_elem_not_head[OF timer_invD(1)[OF inv] xs] e by fastforce
  qed
  then show ?thesis by (simp add: filter_id_conv)
qed

lemma soft_timer_del_agenda:
  fixes w :: "'a timer_mem_scheme"
  assumes inv: "timer_inv E T w L" and e: "e \<in> E" "e \<in> X"
  shows "\<exists>w' L'. soft_timer_del e w = Some w' \<and> call_effect E T X w L w' L' \<and> L' e = Some []
    \<and> (\<forall>Q. agenda Q w L \<longrightarrow> agenda (filter (\<lambda>x. fst x \<noteq> e) Q) w' L')"
proof (cases "L e = Some []")
  case True
  then show ?thesis
    using soft_timer_del_idle[OF inv True] call_effect_refl[OF inv] agenda_not_in[OF inv _ True] by auto
next
  case False
  note wh = timer_invD(4)[OF inv]
  obtain c xs h where d: "c \<in> set (buckets (st w)) \<union> T" "L c = Some xs" "e \<in> set xs"
    "soft_timer_del e w = Some (w\<lparr>lheap := h\<rparr>)"
    "timer_inv E T (w\<lparr>lheap := h\<rparr>) (L(c \<mapsto> remove1 e xs, e \<mapsto> []))" "dom h = dom (lheap w)"
    using soft_timer_del_running[OF inv e(1) False] by blast
  let ?L = "L(c \<mapsto> remove1 e xs, e \<mapsto> [])"
  have "\<exists>q q'. L a = Some q \<and> ?L a = Some q' \<and> subseq q' q" if "a \<in> T" for a
  proof -
    have "a \<noteq> e" using wheel_heads[OF wh e(1)] that by blast
    then show ?thesis using wheel_due[OF wh that] d(2) subseq_remove1 by (cases "a = c") auto
  qed
  moreover have "queued ?L x a = queued L x a" if "x \<in> - X" for x a
    by (rule queued_del_other[OF d(2) timer_invD(1)[OF inv] d(3)]) (use that e(2) in auto)
  then have "untouched (- X) w L (w\<lparr>lheap := h\<rparr>) ?L"
    unfolding untouched_def by simp
  moreover have "?L a = L a" if "a \<notin> E \<union> set (buckets (st w)) \<union> T" for a
    using that d(1) e(1) by auto
  ultimately have "call_effect E T X w L (w\<lparr>lheap := h\<rparr>) ?L"
    using d(5,6) unfolding call_effect_def by simp
  moreover have "agenda (filter (\<lambda>x. fst x \<noteq> e) Q) (w\<lparr>lheap := h\<rparr>) ?L" if "agenda Q w L" for Q
    by (rule agenda_del[OF inv that e(1) d(2,3)]) simp_all
  ultimately show ?thesis using d(4) by (intro exI[of _ "w\<lparr>lheap := h\<rparr>"] exI[of _ ?L]) simp
qed

lemma soft_timer_del_effect:
  fixes w :: "'a timer_mem_scheme"
  assumes "timer_inv E T w L" "e \<in> E" "e \<in> X"
  shows "\<exists>w' L'. soft_timer_del e w = Some w' \<and> call_effect E T X w L w' L' \<and> L' e = Some []"
  using soft_timer_del_agenda[OF assms] by blast

text \<open>What the calls do to the agenda, on a wheel at rest and, for the timers they do not name, in
  the middle of a tick as well.\<close>

fun agenda_call :: "int \<Rightarrow> u32 \<Rightarrow> timer_call \<Rightarrow> (addr \<times> u32) list \<Rightarrow> (addr \<times> u32) list" where
  "agenda_call rate now (Timer_add e ms) Q = (if e \<in> fst ` set Q then Q else Q @ [(e, now + ticks_of rate ms)])"
| "agenda_call rate now (Timer_del e) Q = filter (\<lambda>x. fst x \<noteq> e) Q"

fun agenda_calls :: "int \<Rightarrow> u32 \<Rightarrow> timer_call list \<Rightarrow> (addr \<times> u32) list \<Rightarrow> (addr \<times> u32) list" where
  "agenda_calls rate now [] Q = Q"
| "agenda_calls rate now (c # cs) Q = agenda_calls rate now cs (agenda_call rate now c Q)"

abbreviation not_named :: "addr set \<Rightarrow> (addr \<times> u32) list \<Rightarrow> (addr \<times> u32) list" where
  "not_named X Q \<equiv> filter (\<lambda>x. fst x \<notin> X) Q"

lemma do_timer_call_agenda:
  fixes w :: "'a timer_mem_scheme"
  assumes inv: "timer_inv E T w L" and ag: "agenda Q w L" and X: "X \<subseteq> E" and ok: "timer_call_ok X c"
  shows "\<exists>w' L' Q'. do_timer_call c w = Some w' \<and> call_effect E T X w L w' L' \<and> agenda Q' w' L'
    \<and> not_named X Q' = not_named X Q
    \<and> (T = {} \<longrightarrow> Q' = agenda_call (tick_rate (st w)) (tick (st w)) c Q)"
proof (cases c)
  case (Timer_add e ms)
  let ?t = "tick (st w) + ticks_of (tick_rate (st w)) ms"
  let ?Q = "if L e = Some [] then Q @ [(e, ?t)] else Q"
  have e: "e \<in> E" "e \<in> X" "int_range ms" using ok X Timer_add by auto
  obtain w' L' where "soft_timer_add e ms w = Some w'" "call_effect E T X w L w' L'" "agenda ?Q w' L'"
    using soft_timer_add_agenda[OF inv e] ag by blast
  moreover have "not_named X ?Q = not_named X Q" using e(2) by simp
  moreover have "?Q = agenda_call (tick_rate (st w)) (tick (st w)) c Q" if T: "T = {}"
    using agenda_mem[OF inv[unfolded T] ag e(1)] Timer_add by simp
  ultimately show ?thesis using Timer_add by (intro exI[of _ w'] exI[of _ L'] exI[of _ ?Q]) simp
next
  case (Timer_del e)
  let ?Q = "filter (\<lambda>x. fst x \<noteq> e) Q"
  have e: "e \<in> E" "e \<in> X" using ok X Timer_del by auto
  obtain w' L' where "soft_timer_del e w = Some w'" "call_effect E T X w L w' L'" "agenda ?Q w' L'"
    using soft_timer_del_agenda[OF inv e] ag by blast
  moreover have "not_named X ?Q = not_named X Q" using e(2) by (auto intro: filter_cong)
  ultimately show ?thesis using Timer_del by (intro exI[of _ w'] exI[of _ L'] exI[of _ ?Q]) simp
qed

lemma do_timer_calls_agenda:
  fixes w :: "'a timer_mem_scheme"
  shows "timer_inv E T w L \<Longrightarrow> agenda Q w L \<Longrightarrow> X \<subseteq> E \<Longrightarrow> \<forall>c\<in>set cs. timer_call_ok X c \<Longrightarrow>
    \<exists>w' L' Q'. do_timer_calls cs w = Some w' \<and> call_effect E T X w L w' L' \<and> agenda Q' w' L'
      \<and> not_named X Q' = not_named X Q
      \<and> (T = {} \<longrightarrow> Q' = agenda_calls (tick_rate (st w)) (tick (st w)) cs Q)"
proof (induction cs arbitrary: w L Q)
  case Nil
  then show ?case using call_effect_refl[OF Nil.prems(1)] by auto
next
  case (Cons c cs)
  obtain w1 L1 Q1 where 1: "do_timer_call c w = Some w1" "call_effect E T X w L w1 L1" "agenda Q1 w1 L1"
    "not_named X Q1 = not_named X Q" "T = {} \<longrightarrow> Q1 = agenda_call (tick_rate (st w)) (tick (st w)) c Q"
    using do_timer_call_agenda[OF Cons.prems(1-3), of c] Cons.prems(4) by auto
  have i1: "timer_inv E T w1 L1" "st w1 = st w" using 1(2) by (simp_all add: call_effect_def)
  obtain w' L' Q' where 2: "do_timer_calls cs w1 = Some w'" "call_effect E T X w1 L1 w' L'" "agenda Q' w' L'"
    "not_named X Q' = not_named X Q1" "T = {} \<longrightarrow> Q' = agenda_calls (tick_rate (st w1)) (tick (st w1)) cs Q1"
    using Cons.IH[OF i1(1) 1(3) Cons.prems(3)] Cons.prems(4) by auto
  have "call_effect E T X w L w' L'" by (rule call_effect_trans[OF 1(2) 2(2)])
  then show ?case using 1(1,4,5) 2(1,3,4,5) i1(2)
    by (intro exI[of _ w'] exI[of _ L'] exI[of _ Q']) simp
qed

lemma do_timer_calls_effect:
  fixes w :: "'a timer_mem_scheme"
  shows "timer_inv E T w L \<Longrightarrow> X \<subseteq> E \<Longrightarrow> \<forall>c\<in>set cs. timer_call_ok X c \<Longrightarrow>
    \<exists>w' L'. do_timer_calls cs w = Some w' \<and> call_effect E T X w L w' L'"
proof (induction cs arbitrary: w L)
  case Nil
  then show ?case using call_effect_refl[OF Nil.prems(1)] by auto
next
  case (Cons c cs)
  have "\<exists>w1 L1. do_timer_call c w = Some w1 \<and> call_effect E T X w L w1 L1"
  proof (cases c)
    case (Timer_add e ms)
    then show ?thesis using soft_timer_add_effect[OF Cons.prems(1), of e X ms] Cons.prems(2,3) by auto
  next
    case (Timer_del e)
    then show ?thesis using soft_timer_del_effect[OF Cons.prems(1), of e X] Cons.prems(2,3) by auto
  qed
  then obtain w1 L1 where 1: "do_timer_call c w = Some w1" "call_effect E T X w L w1 L1" by blast
  then obtain w' L' where "do_timer_calls cs w1 = Some w'" "call_effect E T X w1 L1 w' L'"
    using Cons.IH[of w1 L1] Cons.prems(2,3) by (auto simp: call_effect_def)
  moreover from this(2) have "call_effect E T X w L w' L'" by (rule call_effect_trans[OF 1(2)])
  ultimately show ?case using 1(1) by auto
qed

text \<open>What every round of a work-list loop keeps, the loop keeps.\<close>

definition kept_by :: "('s \<Rightarrow> list_heap) \<Rightarrow> addr \<Rightarrow> (addr \<Rightarrow> 's \<Rightarrow> 's option) \<Rightarrow> ('s \<Rightarrow> bool) \<Rightarrow> bool" where
  "kept_by hp head body J \<longleftrightarrow> (\<forall>p s s'. J s \<and> list_empty head (hp s) = Some False \<and> read_next head (hp s) = Some p
     \<and> body p s = Some s' \<longrightarrow> J s')"

lemma while_not_empty_keeps:
  assumes "while_not_empty hp head body s = Some s'" "J s" "kept_by hp head body J"
  shows "J s'" "list_empty head (hp s') = Some True"
proof -
  let ?P = "\<lambda>hp head body s s'. kept_by hp head body J \<longrightarrow> J s \<longrightarrow> J s' \<and> list_empty head (hp s') = Some True"
  have "?P hp head body s s'"
  proof (rule while_not_empty.raw_induct[where P = ?P, OF _ assms(1)], intro impI)
    fix loop hp head and body :: "addr \<Rightarrow> 'a \<Rightarrow> 'a option" and s s'
    assume ih: "\<And>hp head body s s'. loop hp head body s = Some s' \<Longrightarrow> ?P hp head body s s'"
      and b: "kept_by hp head body J" "J s"
      and step: "do { e \<leftarrow> list_empty head (hp s); if e then Some s else do { p \<leftarrow> read_next head (hp s); s \<leftarrow> body p s; loop hp head body s } } = Some s'"
    obtain e where e: "list_empty head (hp s) = Some e" using step by (auto simp: bind_eq_Some_conv)
    show "J s' \<and> list_empty head (hp s') = Some True"
    proof (cases e)
      case True
      then show ?thesis using step e b(2) by simp
    next
      case False
      obtain p s1 where 1: "read_next head (hp s) = Some p" "body p s = Some s1" "loop hp head body s1 = Some s'"
        using step e False by (auto simp: bind_eq_Some_conv)
      have "list_empty head (hp s) = Some False" using e False by simp
      then have "J s1" using b 1(1,2) unfolding kept_by_def by blast
      then show ?thesis using ih[OF 1(3)] b(1) by blast
    qed
  qed
  then show "J s'" "list_empty head (hp s') = Some True" using assms(2,3) by blast+
qed

text \<open>The agenda of the timers of \<open>K\<close> while a tick of a client that leaves them alone runs.\<close>

definition firing_agenda :: "addr set \<Rightarrow> addr \<Rightarrow> addr set \<Rightarrow> (addr \<times> u32) list \<Rightarrow> 'a timer_mem_scheme \<Rightarrow> bool" where
  "firing_agenda E tlist X Q0 w \<longleftrightarrow> (\<exists>L q Q. timer_inv E {tlist} w L \<and> L tlist = Some q \<and> set q \<subseteq> X
     \<and> agenda Q w L \<and> not_named X Q = not_named X Q0)"

lemma fire_agenda:
  fixes w :: "'a timer_mem_scheme"
  assumes fa: "firing_agenda E tlist X Q0 w" and p: "read_next tlist (lheap w) = Some p"
      "list_empty tlist (lheap w) = Some False"
    and w': "fire (script_cb Y f) p w = Some w'" and Y: "Y \<subseteq> X" "X \<subseteq> E"
  shows "firing_agenda E tlist X Q0 w'"
proof -
  obtain L q0 Q where f: "timer_inv E {tlist} w L" "L tlist = Some q0" "set q0 \<subseteq> X" "agenda Q w L"
    "not_named X Q = not_named X Q0" using fa by (auto simp: firing_agenda_def)
  note L = timer_invD(1)[OF f(1)] and wh = timer_invD(4)[OF f(1)]
  obtain q where q: "q0 = p # q"
    using p list_empty_family[OF L f(2)] list_first_family[OF L f(2)] by (cases q0) auto
  have pX: "p \<in> X" "p \<in> E" using f(3) q Y(2) by auto
  have pt: "p \<noteq> tlist" using wheel_heads[OF wh pX(2)] by blast
  let ?L1 = "L(tlist \<mapsto> q, p \<mapsto> [])"
  obtain h1 where h1: "list_del_init p (lheap w) = Some h1" "heap_lists h1 ?L1"
    using list_del_init_family[OF L f(2), of p] q by auto
  let ?w1 = "w\<lparr>lheap := h1, fired := fired w @ [(p, tick (st w))]\<rparr>"
  have "wheel E {tlist} (buckets (st w)) (elem_tick w) ?L1"
    using wheel_del[OF wh pX(2) _ f(2)] q by simp
  then have i1: "timer_inv E {tlist} ?w1 ?L1"
    using h1(2) timer_invD[OF f(1)] by (simp add: timer_inv_def)
  have "?L1 b = L b" if "b \<in> set (buckets (st w))" for b
    using that wh wheel_heads[OF wh pX(2), of b] by (auto simp: wheel_def)
  then have a1: "agenda Q ?w1 ?L1" using wh by (intro agenda_same[OF f(4)]) (auto simp: wheel_def)
  let ?cs = "filter (timer_call_ok (insert p Y)) (f p ?w1)"
  have "script_cb Y f p ?w1 = Some w'" using w' h1(1) by (simp add: fire_def on_heap_def)
  moreover have "\<forall>c\<in>set ?cs. timer_call_ok (insert p Y) c" by simp
  then obtain w2 L' Q' where "do_timer_calls ?cs ?w1 = Some w2" "call_effect E {tlist} (insert p Y) ?w1 ?L1 w2 L'"
    "agenda Q' w2 L'" "not_named (insert p Y) Q' = not_named (insert p Y) Q"
    using do_timer_calls_agenda[OF i1 a1, of "insert p Y" ?cs] Y pX by blast
  ultimately have 2: "call_effect E {tlist} (insert p Y) ?w1 ?L1 w' L'" "agenda Q' w' L'"
    "not_named (insert p Y) Q' = not_named (insert p Y) Q" by (simp_all add: script_cb_def)
  have "not_named X R = not_named X (not_named (insert p Y) R)" for R :: "(addr \<times> u32) list"
    using Y(1) pX(1) by (auto intro: filter_cong)
  then have "not_named X Q' = not_named X Q0" using 2(3) f(5) by metis
  moreover obtain q' where "L' tlist = Some q'" "subseq q' q" using 2(1) pt by (auto simp: call_effect_def)
  moreover from this(2) have "set q' \<subseteq> X" using f(3) q subseq_set_le by fastforce
  ultimately show ?thesis using 2(1,2) unfolding firing_agenda_def call_effect_def by blast
qed

lemma tick_agenda:
  fixes w :: "'a timer_mem_scheme"
  assumes inv: "timer_inv E {} w L" and fr: "fresh_for E tlist w" and ag: "agenda Q w L" and Y: "Y \<subseteq> E"
    and w': "timer_tick (script_cb Y f) tlist w = Some w'"
  defines "X \<equiv> Y \<union> set (due_list w L)"
  shows "\<exists>L' Q'. timer_inv E {} w' L' \<and> agenda Q' w' L' \<and> not_named X Q' = not_named X Q"
proof -
  let ?Q = "filter (\<lambda>x. snd x \<noteq> tick (st w) + 1) Q"
  obtain h L1 where t: "timer_tick (script_cb Y f) tlist w
      = do { w \<leftarrow> while_not_empty lheap tlist (fire (script_cb Y f)) (w\<lparr>lheap := h, st := (st w)\<lparr>tick := tick (st w) + 1\<rparr>\<rparr>);
             Some (leave_scope tlist w) }"
    and inv1: "timer_inv E {tlist} (w\<lparr>lheap := h, st := (st w)\<lparr>tick := tick (st w) + 1\<rparr>\<rparr>) L1"
    and L1: "L1 tlist = Some (due_list w L)"
      "agenda ?Q (w\<lparr>lheap := h, st := (st w)\<lparr>tick := tick (st w) + 1\<rparr>\<rparr>) L1"
    using tick_collects[OF inv fr, of "script_cb Y f"] ag by blast
  let ?w1 = "w\<lparr>lheap := h, st := (st w)\<lparr>tick := tick (st w) + 1\<rparr>\<rparr>"
  have "do { w \<leftarrow> while_not_empty lheap tlist (fire (script_cb Y f)) ?w1; Some (leave_scope tlist w) } = Some w'"
    using t w' by simp
  then obtain w2 where w2: "while_not_empty lheap tlist (fire (script_cb Y f)) ?w1 = Some w2" "w' = leave_scope tlist w2"
    by (auto simp: bind_eq_Some_conv)
  have XE: "X \<subseteq> E" using wheel_due[OF timer_invD(4)[OF inv1]] L1(1) Y by (auto simp: X_def)
  have "firing_agenda E tlist X ?Q ?w1" using inv1 L1 unfolding firing_agenda_def X_def by blast
  moreover have "Y \<subseteq> X" by (simp add: X_def)
  then have "kept_by lheap tlist (fire (script_cb Y f)) (firing_agenda E tlist X ?Q)"
    using fire_agenda[OF _ _ _ _ _ XE] unfolding kept_by_def by blast
  ultimately have "firing_agenda E tlist X ?Q w2" "list_empty tlist (lheap w2) = Some True"
    by (rule while_not_empty_keeps[OF w2(1)])+
  then obtain M q Q' where m: "timer_inv E {tlist} w2 M" "M tlist = Some q" "agenda Q' w2 M"
    "not_named X Q' = not_named X ?Q" "list_empty tlist (lheap w2) = Some True"
    by (auto simp: firing_agenda_def)
  have q: "M tlist = Some []"
    using m(2,5) list_empty_family[OF timer_invD(1)[OF m(1)] m(2)] by simp
  have same: "st w' = st w2" "elem_tick w' = elem_tick w2" by (simp_all add: w2(2) leave_scope_def)
  have "timer_inv E {} w' (M(tlist := None))"
    using leave_scope_family[OF timer_invD(1)[OF m(1)] q] timer_invD(2-4)[OF m(1)]
      wheel_leave[OF timer_invD(4)[OF m(1)] q] by (simp add: timer_inv_def same w2(2)[symmetric])
  moreover have "agenda Q' w' (M(tlist := None))"
    using timer_invD(4)[OF m(1)] by (intro agenda_same[OF m(3)]) (auto simp: same wheel_def)
  moreover have "fst x \<in> X" if "x \<in> set Q" "snd x = tick (st w) + 1" for x
    using that agenda_due[OF ag] by (force simp: X_def due_of_def)
  then have "not_named X ?Q = not_named X Q" by (auto intro!: filter_cong)
  ultimately show ?thesis using m(4) by metis
qed

interpretation script: timer_callback "script_cb (E - K) f" E K bs tlist ext
  for E K bs tlist ext and f :: "addr \<Rightarrow> 'a timer_mem_scheme \<Rightarrow> timer_call list"
proof
  fix p L q and w :: "'a timer_mem_scheme"
  assume a: "p \<in> E" "timer_inv E {tlist} w L" "buckets (st w) = bs" "L p = Some []" "L tlist = Some q"
    "ext (timer_mem.more w) (others E bs tlist L)"
  have "insert p (E - K) \<subseteq> E" using a(1) by blast
  then obtain w' L' where w': "script_cb (E - K) f p w = Some w'"
    and ce: "call_effect E {tlist} (insert p (E - K)) w L w' L'"
    using do_timer_calls_effect[OF a(2), of "insert p (E - K)" "filter (timer_call_ok (insert p (E - K))) (f p w)"]
    by (auto simp: script_cb_def)
  have "others E bs tlist L' = others E bs tlist L"
    using ce a(3) by (auto simp: call_effect_def others_def restrict_map_def)
  moreover have "untouched (K - {p}) w L w' L'"
    using ce untouched_mono[of "- insert p (E - K)" w L w' L' "K - {p}"] by (auto simp: call_effect_def)
  ultimately show "\<exists>w' L' q'. script_cb (E - K) f p w = Some w' \<and> timer_inv E {tlist} w' L' \<and> st w' = st w
      \<and> fired w' = fired w \<and> L' tlist = Some q' \<and> subseq q' q
      \<and> ext (timer_mem.more w') (others E bs tlist L') \<and> untouched (K - {p}) w L w' L'"
    using w' ce a(5,6) by (intro exI[of _ w'] exI[of _ L']) (auto simp: call_effect_def)
qed

section \<open>When a timer fires\<close>

fun soft_timer_drives ::
  "(addr \<Rightarrow> 'a timer_mem_scheme \<Rightarrow> 'a timer_mem_scheme option) \<Rightarrow> addr \<Rightarrow> nat \<Rightarrow>
   'a timer_mem_scheme \<Rightarrow> 'a timer_mem_scheme option" where
  "soft_timer_drives cb tlist 0 w = Some w"
| "soft_timer_drives cb tlist (Suc n) w = do {
     w \<leftarrow> soft_timer_drive cb tlist w;
     soft_timer_drives cb tlist n w
   }"

definition armed :: "'a timer_mem_scheme \<Rightarrow> family \<Rightarrow> addr \<Rightarrow> bool" where
  "armed w L e \<longleftrightarrow> (\<exists>c\<in>set (buckets (st w)). queued L e c)"

text \<open>The ticks at which \<open>e\<close> has fired.\<close>

definition firings :: "addr \<Rightarrow> 'a timer_mem_scheme \<Rightarrow> u32 list" where
  "firings e w = map snd (filter (\<lambda>x. fst x = e) (fired w))"

text \<open>How many drives it takes: the distance of the two counters, or a whole round of them.\<close>

definition ticks_left :: "addr \<Rightarrow> 'a timer_mem_scheme \<Rightarrow> nat" where
  "ticks_left e w = unat (elem_tick w e - tick (st w) - 1) + 1"

lemma ticks_left_due: "ticks_left e w = 1 \<longleftrightarrow> elem_tick w e = tick (st w) + 1"
  by (auto simp: ticks_left_def unat_eq_0 algebra_simps)

lemma armed_due:
  assumes inv: "timer_inv E T w L" and e: "armed w L e"
  shows "e \<in> set (due_list w L) \<longleftrightarrow> ticks_left e w = 1"
proof -
  note wh = timer_invD(4)[OF inv]
  obtain c xs where c: "c \<in> set (buckets (st w))" "L c = Some xs" "e \<in> set xs"
    using e by (auto simp: armed_def queued_def)
  moreover obtain i where "i < 8" "c = buckets (st w) ! i"
    using c(1) wh by (auto simp: in_set_conv_nth[of c] wheel_def)
  ultimately have i: "i < 8" "L (buckets (st w) ! i) = Some xs" "e \<in> set xs" by simp_all
  then have s: "slot (elem_tick w e) = i" using wheel_bucket(2)[OF wh i(1)] by auto
  show ?thesis
  proof (cases "ticks_left e w = 1")
    case True
    then have "elem_tick w e = tick (st w) + 1" using ticks_left_due by blast
    then show ?thesis using True i s by (simp add: due_list_def)
  next
    case False
    then have "elem_tick w e \<noteq> tick (st w) + 1" using ticks_left_due by blast
    then show ?thesis using False by (simp add: due_list_def)
  qed
qed

lemma firings_append: "firings e (w\<lparr>fired := xs @ ys\<rparr>) = firings e (w\<lparr>fired := xs\<rparr>) @ firings e (w\<lparr>fired := ys\<rparr>)"
  by (simp add: firings_def)

lemma filter_once: "distinct ps \<Longrightarrow> filter (\<lambda>p. p = e) ps = (if e \<in> set ps then [e] else [])"
  by (induction ps) auto

context timer_callback
begin

lemma drive_step:
  assumes inv: "timer_inv E {} w L" and fr: "fresh_for E tlist w" and bs: "buckets (st w) = bs"
    and ext: "ext (timer_mem.more w) (others E bs tlist L)" and e: "e \<in> K"
  shows "\<exists>w' L'. soft_timer_drive cb tlist w = Some w' \<and> timer_inv E {} w' L' \<and> fresh_for E tlist w'
    \<and> st w' = (st w)\<lparr>tick := tick (st w) + 1\<rparr> \<and> ext (timer_mem.more w') (others E bs tlist L')
    \<and> prefix (firings e w) (firings e w')
    \<and> (armed w L e \<longrightarrow> (if ticks_left e w = 1 then firings e w' = firings e w @ [elem_tick w e]
       else firings e w' = firings e w \<and> armed w' L' e \<and> elem_tick w' e = elem_tick w e
         \<and> ticks_left e w = Suc (ticks_left e w')))"
proof -
  obtain w' L' ps where t: "timer_tick cb tlist w = Some w'" "timer_inv E {} w' L'" "fresh_for E tlist w'"
    "st w' = (st w)\<lparr>tick := tick (st w) + 1\<rparr>" "ext (timer_mem.more w') (others E bs tlist L')"
    "fired w' = fired w @ map (\<lambda>p. (p, tick (st w) + 1)) ps" "subseq ps (due_list w L)"
    "\<forall>e\<in>K. e \<in> set (due_list w L) \<longrightarrow> e \<in> set ps" "untouched (K - set (due_list w L)) w L w' L'"
    using tick[OF inv fr bs ext] by blast
  have d: "distinct ps" using subseq_distinct[OF t(7) due_list_distinct[OF inv]] .
  have "filter (\<lambda>x. fst x = e) (map (\<lambda>p. (p, tick (st w) + 1)) ps)
      = map (\<lambda>p. (p, tick (st w) + 1)) (filter (\<lambda>p. p = e) ps)" by (simp add: filter_map comp_def)
  then have fi: "firings e w' = firings e w @ (if e \<in> set ps then [tick (st w) + 1] else [])"
    using filter_once[OF d, of e] by (simp add: firings_def t(6))
  have "if ticks_left e w = 1 then firings e w' = firings e w @ [elem_tick w e]
       else firings e w' = firings e w \<and> armed w' L' e \<and> elem_tick w' e = elem_tick w e
         \<and> ticks_left e w = Suc (ticks_left e w')" if ar: "armed w L e"
  proof (cases "ticks_left e w = 1")
    case True
    then have "e \<in> set ps" using armed_due[OF inv ar] t(8) e by blast
    then show ?thesis using True fi ticks_left_due[of e w] by auto
  next
    case False
    then have nd: "e \<notin> set (due_list w L)" using armed_due[OF inv ar] by blast
    then have "e \<notin> set ps" using subseq_set_le[OF t(7)] by blast
    moreover have u: "elem_tick w' e = elem_tick w e" "\<And>c. queued L' e c = queued L e c"
      using t(9) e nd by (auto simp: untouched_def)
    moreover have "armed w' L' e" using ar u(2) t(4) by (simp add: armed_def)
    moreover have "ticks_left e w = Suc (ticks_left e w')"
    proof -
      let ?d = "elem_tick w e - tick (st w) - 1"
      have "?d \<noteq> 0" using False by (auto simp: ticks_left_def)
      then have "unat (?d - 1) = unat ?d - 1" "0 < unat ?d" by (rule unat_minus_one, simp add: unat_gt_0)
      moreover have eq: "elem_tick w' e - tick (st w') - 1 = ?d - 1" using u(1) t(4) by simp
      ultimately show ?thesis unfolding ticks_left_def eq by linarith
    qed
    ultimately show ?thesis using False fi by simp
  qed
  then have ar: "armed w L e \<longrightarrow> (if ticks_left e w = 1 then firings e w' = firings e w @ [elem_tick w e]
       else firings e w' = firings e w \<and> armed w' L' e \<and> elem_tick w' e = elem_tick w e
         \<and> ticks_left e w = Suc (ticks_left e w'))" by blast
  have "prefix (firings e w) (firings e w')" using fi by simp
  moreover have "soft_timer_drive cb tlist w = Some w'" using t(1) by (simp add: soft_timer_drive_def)
  ultimately show ?thesis using t(2-5) ar by blast
qed

lemma one_drive:
  assumes inv: "timer_inv E {} w L" and fr: "fresh_for E tlist w" and bs: "buckets (st w) = bs"
    and ext: "ext (timer_mem.more w) (others E bs tlist L)" and e: "e \<in> K" "armed w L e"
  shows "\<exists>w' L'. soft_timer_drive cb tlist w = Some w' \<and> timer_inv E {} w' L' \<and> fresh_for E tlist w'
    \<and> buckets (st w') = bs \<and> ext (timer_mem.more w') (others E bs tlist L')
    \<and> (if ticks_left e w = 1 then firings e w' = firings e w @ [elem_tick w e]
       else firings e w' = firings e w \<and> armed w' L' e \<and> elem_tick w' e = elem_tick w e
         \<and> ticks_left e w = Suc (ticks_left e w'))"
proof -
  obtain w' L' where t: "soft_timer_drive cb tlist w = Some w'" "timer_inv E {} w' L'" "fresh_for E tlist w'"
    "st w' = (st w)\<lparr>tick := tick (st w) + 1\<rparr>" "ext (timer_mem.more w') (others E bs tlist L')"
    "armed w L e \<longrightarrow> (if ticks_left e w = 1 then firings e w' = firings e w @ [elem_tick w e]
       else firings e w' = firings e w \<and> armed w' L' e \<and> elem_tick w' e = elem_tick w e
         \<and> ticks_left e w = Suc (ticks_left e w'))"
    using drive_step[OF inv fr bs ext e(1)] by blast
  have "buckets (st w') = bs" using t(4) bs by simp
  then show ?thesis using t(1-3,5) mp[OF t(6) e(2)] by blast
qed

lemma drives:
  "timer_inv E {} w L \<Longrightarrow> fresh_for E tlist w \<Longrightarrow> buckets (st w) = bs \<Longrightarrow>
   ext (timer_mem.more w) (others E bs tlist L) \<Longrightarrow> e \<in> K \<Longrightarrow> armed w L e \<Longrightarrow> n \<le> ticks_left e w \<Longrightarrow>
   \<exists>w' L'. soft_timer_drives cb tlist n w = Some w' \<and> timer_inv E {} w' L'
     \<and> (if n < ticks_left e w then firings e w' = firings e w \<and> armed w' L' e
        else firings e w' = firings e w @ [elem_tick w e])"
proof (induction n arbitrary: w L)
  case 0
  then show ?case by (auto simp: ticks_left_def)
next
  case (Suc n)
  obtain w1 L1 where 1: "soft_timer_drive cb tlist w = Some w1" "timer_inv E {} w1 L1" "fresh_for E tlist w1"
    "buckets (st w1) = bs" "ext (timer_mem.more w1) (others E bs tlist L1)"
    "if ticks_left e w = 1 then firings e w1 = firings e w @ [elem_tick w e]
     else firings e w1 = firings e w \<and> armed w1 L1 e \<and> elem_tick w1 e = elem_tick w e
       \<and> ticks_left e w = Suc (ticks_left e w1)"
    using one_drive[OF Suc.prems(1-6)] by blast
  show ?case
  proof (cases "ticks_left e w = 1")
    case True
    then have "n = 0" using Suc.prems(7) by simp
    then show ?thesis using True 1 by auto
  next
    case False
    then have a: "armed w1 L1 e" "elem_tick w1 e = elem_tick w e" "ticks_left e w = Suc (ticks_left e w1)"
      "firings e w1 = firings e w" using 1(6) by simp_all
    then have "n \<le> ticks_left e w1" using Suc.prems(7) by simp
    from Suc.IH[OF 1(2-5) Suc.prems(5) a(1) this] obtain w' L' where
      "soft_timer_drives cb tlist n w1 = Some w'" "timer_inv E {} w' L'"
      "if n < ticks_left e w1 then firings e w' = firings e w1 \<and> armed w' L' e
       else firings e w' = firings e w1 @ [elem_tick w1 e]" by blast
    then show ?thesis using 1(1) a by (intro exI[of _ w'] exI[of _ L']) simp
  qed
qed

end

section \<open>From milliseconds to drives\<close>

lemma div_ceiling:
  fixes a b :: int
  assumes "0 \<le> a" "0 < b"
  shows "(a + b - 1) div b = a div b + (if a mod b \<noteq> 0 then 1 else 0)"
proof -
  have e: "a = b * (a div b) + a mod b" "0 \<le> a mod b" "a mod b < b" using assms by simp_all
  then have eq: "a + b - 1 = (a mod b + b - 1) + b * (a div b)" by linarith
  have "(a + b - 1) div b = a div b + (a mod b + b - 1) div b"
    unfolding eq by (rule trans[OF div_mult_self2]) (use assms(2) in auto)
  moreover have "(a mod b + b - 1) div b = (if a mod b \<noteq> 0 then 1 else 0)"
    using e(2,3) by (auto intro!: div_pos_pos_trivial int_div_pos_eq[of _ _ _ "a mod b - 1"])
  ultimately show ?thesis by simp
qed

lemma ticks_of_ceiling:
  "0 \<le> ms \<Longrightarrow> 0 < rate \<Longrightarrow> ticks_of rate ms = word_of_int ((ms + rate - 1) div rate)"
  by (simp add: ticks_of_def sdiv_nonneg smod_nonneg div_ceiling)

text \<open>The number of drives after which a timer set to \<open>ms\<close> fires.\<close>

definition drives_until :: "int \<Rightarrow> int \<Rightarrow> nat" where
  "drives_until rate ms = (if ms = 0 then 2 ^ 32 else nat ((ms + rate - 1) div rate))"

lemma drives_until_ticks:
  assumes "0 \<le> ms" "ms \<le> INT_MAX" "0 < rate"
  shows "unat (ticks_of rate ms - 1) + 1 = drives_until rate ms"
proof (cases "ms = 0")
  case True
  then have "ticks_of rate ms = 0" using assms by (simp add: ticks_of_ceiling div_pos_pos_trivial)
  moreover have "unat (- 1 :: u32) = 2 ^ 32 - 1"
    by (simp add: unsigned_minus_1_eq_mask mask_eq_exp_minus_1)
  ultimately show ?thesis using True by (simp add: drives_until_def)
next
  case False
  let ?m = "(ms + rate - 1) div rate"
  have m: "1 \<le> ?m" using zdiv_mono1[of rate "ms + rate - 1" rate] False assms by simp
  have "?m \<le> ms div rate + 1" using div_ceiling[OF assms(1,3)] by simp
  also have "ms div rate \<le> ms" using zdiv_mono2[of ms 1 rate] assms by simp
  finally have m2: "?m \<le> 2147483648" using assms(2) by (simp add: INT_MAX_def)
  have "ticks_of rate ms - 1 = word_of_int (?m - 1)" using ticks_of_ceiling[OF assms(1,3)] by simp
  then have "ticks_of rate ms - 1 = of_nat (nat (?m - 1))" using m by simp
  moreover have "nat (?m - 1) < 2 ^ 32" using m2 by simp
  ultimately have "unat (ticks_of rate ms - 1) = nat (?m - 1)"
    by (simp only: unsigned_of_nat) (simp add: take_bit_nat_eq_self)
  then show ?thesis using m False by (simp add: drives_until_def)
qed

context timer_callback
begin

lemma one_drive_idle:
  assumes inv: "timer_inv E {} w L" and fr: "fresh_for E tlist w" and bs: "buckets (st w) = bs"
    and ext: "ext (timer_mem.more w) (others E bs tlist L)" and e: "e \<in> K" "\<not> armed w L e"
  shows "\<exists>w' L'. soft_timer_drive cb tlist w = Some w' \<and> timer_inv E {} w' L' \<and> fresh_for E tlist w'
    \<and> buckets (st w') = bs \<and> ext (timer_mem.more w') (others E bs tlist L')
    \<and> firings e w' = firings e w \<and> \<not> armed w' L' e"
proof -
  obtain w' L' ps where t: "timer_tick cb tlist w = Some w'" "timer_inv E {} w' L'" "fresh_for E tlist w'"
    "st w' = (st w)\<lparr>tick := tick (st w) + 1\<rparr>" "ext (timer_mem.more w') (others E bs tlist L')"
    "fired w' = fired w @ map (\<lambda>p. (p, tick (st w) + 1)) ps" "subseq ps (due_list w L)"
    "untouched (K - set (due_list w L)) w L w' L'"
    using tick[OF inv fr bs ext] by blast
  note wh = timer_invD(4)[OF inv]
  obtain xs where xs: "L (buckets (st w) ! slot (tick (st w) + 1)) = Some xs"
    using wheel_bucket(2)[OF wh slot_less] by blast
  then have nd: "e \<notin> set (due_list w L)"
    using e(2) wheel_bucket(1)[OF wh slot_less] by (auto simp: due_list_def armed_def queued_def)
  then have "e \<notin> set ps" using subseq_set_le[OF t(7)] by blast
  then have "filter (\<lambda>x. fst x = e) (map (\<lambda>p. (p, tick (st w) + 1)) ps) = []" by (auto simp: filter_empty_conv)
  then have "firings e w' = firings e w" by (simp add: firings_def t(6))
  moreover have "\<not> armed w' L' e" using t(4,8) nd e by (simp add: untouched_def armed_def)
  ultimately show ?thesis using t(1-5) bs by (intro exI[of _ w'] exI[of _ L']) (simp add: soft_timer_drive_def)
qed

lemma drives_idle:
  "timer_inv E {} w L \<Longrightarrow> fresh_for E tlist w \<Longrightarrow> buckets (st w) = bs \<Longrightarrow>
   ext (timer_mem.more w) (others E bs tlist L) \<Longrightarrow> e \<in> K \<Longrightarrow> \<not> armed w L e \<Longrightarrow>
   \<exists>w' L'. soft_timer_drives cb tlist n w = Some w' \<and> timer_inv E {} w' L' \<and> firings e w' = firings e w"
proof (induction n arbitrary: w L)
  case (Suc n)
  obtain w1 L1 where 1: "soft_timer_drive cb tlist w = Some w1" "timer_inv E {} w1 L1" "fresh_for E tlist w1"
    "buckets (st w1) = bs" "ext (timer_mem.more w1) (others E bs tlist L1)" "firings e w1 = firings e w"
    "\<not> armed w1 L1 e"
    using one_drive_idle[OF Suc.prems(1-6)] by blast
  from Suc.IH[OF 1(2-5) Suc.prems(5) 1(7)] show ?case using 1(1,6) by auto
qed auto

end

section \<open>Properties\<close>

text \<open>\<open>get_soft_tick_from_milsec\<close> rounds up: the ticks returned cover the time asked for, by
  less than one tick.\<close>

theorem get_soft_tick_covers:
  assumes "0 < tick_rate t" "tick_rate t \<le> INT_MAX" "0 \<le> ms" "ms \<le> INT_MAX"
  shows "\<exists>k. get_soft_tick_from_milsec t ms = Some k \<and> ms \<le> int (unat k) * tick_rate t
    \<and> int (unat k) * tick_rate t < ms + tick_rate t"
proof -
  let ?r = "tick_rate t"
  let ?m = "(ms + ?r - 1) div ?r"
  have r: "int_range ?r" "int_range ms" using assms by (auto simp: int_range_def INT_MIN_def)
  have m0: "0 \<le> ?m" using assms by (simp add: pos_imp_zdiv_nonneg_iff)
  have "?m \<le> ms div ?r + 1" using div_ceiling[OF assms(3,1)] by simp
  also have "ms div ?r \<le> ms" using zdiv_mono2[of ms 1 ?r] assms by simp
  finally have m2: "nat ?m < 2 ^ 32" using assms(4) by (simp add: INT_MAX_def)
  have "ticks_of ?r ms = of_nat (nat ?m)" using ticks_of_ceiling[OF assms(3,1)] m0 by simp
  then have "unat (ticks_of ?r ms) = nat ?m"
    using m2 by (simp only: unsigned_of_nat) (simp add: take_bit_nat_eq_self)
  then have u: "int (unat (ticks_of ?r ms)) = ?m" using m0 by simp
  have "ms + ?r - 1 = ?m * ?r + (ms + ?r - 1) mod ?r" "0 \<le> (ms + ?r - 1) mod ?r" "(ms + ?r - 1) mod ?r < ?r"
    using assms(1) by simp_all
  then have "ms \<le> ?m * ?r" "?m * ?r < ms + ?r" by linarith+
  then show ?thesis using get_soft_tick_ok[OF assms(1) r] u by (intro exI[of _ "ticks_of ?r ms"]) simp
qed

lemma soft_timer_add_fires:
  fixes w :: "'a timer_mem_scheme" and f :: "addr \<Rightarrow> 'a timer_mem_scheme \<Rightarrow> timer_call list"
  assumes inv: "timer_inv E {} w L" and fr: "fresh_for E tlist w" and e: "e \<in> E" "L e = Some []"
    and ms: "0 \<le> ms" "ms \<le> INT_MAX" and n: "n \<le> drives_until (tick_rate (st w)) ms"
  shows "\<exists>w1 w'. soft_timer_add e ms w = Some w1
    \<and> soft_timer_drives (script_cb (E - {e}) f) tlist n w1 = Some w'
    \<and> firings e w' = (if n < drives_until (tick_rate (st w)) ms then firings e w
        else firings e w @ [tick (st w) + ticks_of (tick_rate (st w)) ms])"
proof -
  let ?t = "tick (st w) + ticks_of (tick_rate (st w)) ms"
  let ?b = "buckets (st w) ! slot ?t"
  obtain h xs where a: "soft_timer_add e ms w = Some (w\<lparr>lheap := h, elem_tick := (elem_tick w)(e := ?t)\<rparr>)"
    "timer_inv E {} (w\<lparr>lheap := h, elem_tick := (elem_tick w)(e := ?t)\<rparr>) (L(e := None, ?b \<mapsto> xs @ [e]))"
    "dom h = dom (lheap w)"
    using soft_timer_add_idle[OF inv e, of ms] ms by (auto simp: int_range_def INT_MIN_def)
  let ?w1 = "w\<lparr>lheap := h, elem_tick := (elem_tick w)(e := ?t)\<rparr>"
  have fr1: "fresh_for E tlist ?w1" using fr a(3) by (auto simp: fresh_for_def domIff)
  have "?b \<in> set (buckets (st w))" using wheel_bucket(1)[OF timer_invD(4)[OF inv] slot_less] .
  then have ar: "armed ?w1 (L(e := None, ?b \<mapsto> xs @ [e])) e" by (auto simp: armed_def queued_def)
  have tl: "ticks_left e ?w1 = drives_until (tick_rate (st w)) ms"
    using drives_until_ticks[OF ms, of "tick_rate (st w)"] timer_invD(2)[OF inv] by (simp add: ticks_left_def)
  have fi: "firings e ?w1 = firings e w" "elem_tick ?w1 e = ?t" by (simp_all add: firings_def)
  obtain w' where "soft_timer_drives (script_cb (E - {e}) f) tlist n ?w1 = Some w'"
    "if n < ticks_left e ?w1 then firings e w' = firings e ?w1
     else firings e w' = firings e ?w1 @ [elem_tick ?w1 e]"
    using script.drives[where ext = "\<lambda>_ _. True" and K = "{e}" and f = f and n = n, OF a(2) fr1 refl TrueI insertI1 ar] n unfolding tl by (auto split: if_splits)
  then show ?thesis using a(1) unfolding tl fi by auto
qed

text \<open>C1: A timer that is not running and is added with \<open>ms\<close> milliseconds fires once, exactly at
  the drive number \<open>ms / tick_rate\<close> rounded up after the call and not before (with 0
  milliseconds, only after the counter has wrapped round), whatever the callbacks of the other
  timers do to each other, to timers due in the same tick and to themselves.\<close>

theorem soft_timer_add_fires_on_time:
  fixes w :: "'a timer_mem_scheme" and f :: "addr \<Rightarrow> 'a timer_mem_scheme \<Rightarrow> timer_call list"
  assumes inv: "timer_inv E {} w L" and fr: "fresh_for E tlist w" and e: "e \<in> E" "L e = Some []"
    and ms: "0 \<le> ms" "ms \<le> INT_MAX" and n: "n \<le> drives_until (tick_rate (st w)) ms"
  shows "\<exists>w1 w'. soft_timer_add e ms w = Some w1
    \<and> soft_timer_drives (script_cb (E - {e}) f) tlist n w1 = Some w'
    \<and> firings e w' = (if n < drives_until (tick_rate (st w)) ms then firings e w
        else firings e w @ [tick (st w) + ticks_of (tick_rate (st w)) ms])"
  by (rule soft_timer_add_fires[OF assms])

text \<open>C7: A timer that is stopped does not fire while nobody starts it again.\<close>

theorem soft_timer_del_cancels:
  fixes w :: "'a timer_mem_scheme" and f :: "addr \<Rightarrow> 'a timer_mem_scheme \<Rightarrow> timer_call list"
  assumes inv: "timer_inv E {} w L" and fr: "fresh_for E tlist w" and e: "e \<in> E"
  shows "\<exists>w1 w'. soft_timer_del e w = Some w1 \<and> soft_timer_is_running e w1 = Some False
    \<and> soft_timer_drives (script_cb (E - {e}) f) tlist n w1 = Some w' \<and> firings e w' = firings e w"
proof -
  obtain w1 L1 where 1: "soft_timer_del e w = Some w1" "call_effect E {} {e} w L w1 L1" "L1 e = Some []"
    using soft_timer_del_effect[OF inv e, of "{e}"] by blast
  then have c: "timer_inv E {} w1 L1" "fired w1 = fired w" "dom (lheap w1) = dom (lheap w)"
    by (auto simp: call_effect_def)
  have fr1: "fresh_for E tlist w1" using fr c(3) by (auto simp: fresh_for_def domIff)
  have na: "\<not> armed w1 L1 e"
    using lists_elem_not_head[OF timer_invD(1)[OF c(1)]] 1(3) by (fastforce simp: armed_def queued_def)
  obtain w' where "soft_timer_drives (script_cb (E - {e}) f) tlist n w1 = Some w'" "firings e w' = firings e w1"
    using script.drives_idle[where ext = "\<lambda>_ _. True" and K = "{e}" and f = f and n = n,
        OF c(1) fr1 refl TrueI insertI1 na] by blast
  then show ?thesis using 1(1) c(2) is_running_idle[OF timer_invD(1)[OF c(1)] 1(3)] by (simp add: firings_def)
qed

text \<open>C4: A client makes any calls of the interface and the wheel is then driven once. The agenda
  lists the running timers with their expiry in the order in which they were added: adding a timer
  that is not running puts it at the end, deleting one takes it out. For every client callback the
  drive returns and keeps the wheel well formed, and it runs the callbacks of timers whose expiry
  is the new tick only, each once and in the order in which they were added: those that the
  callbacks of other timers may not touch (\<open>K\<close>) all run, and all of them do if the callbacks leave
  the other timers alone. The other timers of \<open>K\<close> are still to come in the order they had, so that
  the same holds of the next drive.\<close>

theorem soft_timer_tick_runs_due:
  fixes w :: "'a timer_mem_scheme" and f :: "addr \<Rightarrow> 'a timer_mem_scheme \<Rightarrow> timer_call list"
  assumes inv: "timer_inv E {} w L" and fr: "fresh_for E tlist w" and ag: "agenda Q w L"
    and cs: "\<forall>c\<in>set cs. timer_call_ok E c"
  defines "Q1 \<equiv> agenda_calls (tick_rate (st w)) (tick (st w)) cs Q"
  defines "due \<equiv> due_of (tick (st w) + 1) Q1"
  shows "\<exists>w1 w' L' Q' ps. do_timer_calls cs w = Some w1
    \<and> soft_timer_drive (script_cb (E - K) f) tlist w1 = Some w' \<and> timer_inv E {} w' L'
    \<and> st w' = (st w)\<lparr>tick := tick (st w) + 1\<rparr>
    \<and> fired w' = fired w @ map (\<lambda>p. (p, tick (st w) + 1)) ps
    \<and> subseq ps due \<and> distinct due \<and> set due \<inter> K \<subseteq> set ps \<and> (E \<subseteq> K \<longrightarrow> ps = due)
    \<and> agenda Q' w' L' \<and> not_named (E - K \<union> set due) Q' = not_named (E - K \<union> set due) Q1"
proof -
  obtain w1 L1 where c: "do_timer_calls cs w = Some w1" "call_effect E {} E w L w1 L1" "agenda Q1 w1 L1"
    using do_timer_calls_agenda[OF inv ag _ cs] unfolding Q1_def by auto
  have i1: "timer_inv E {} w1 L1" "st w1 = st w" "fired w1 = fired w" "dom (lheap w1) = dom (lheap w)"
    using c(2) by (simp_all add: call_effect_def)
  have fr1: "fresh_for E tlist w1" using fr i1(4) by (auto simp: fresh_for_def domIff)
  have due: "due_list w1 L1 = due" using agenda_due[OF c(3)] i1(2) due_def by simp
  obtain w' ps where t: "timer_tick (script_cb (E - K) f) tlist w1 = Some w'"
    "st w' = (st w)\<lparr>tick := tick (st w) + 1\<rparr>"
    "fired w' = fired w @ map (\<lambda>p. (p, tick (st w) + 1)) ps" "subseq ps due"
    "\<forall>e\<in>K. e \<in> set due \<longrightarrow> e \<in> set ps"
    using script.tick[where ext = "\<lambda>_ _. True" and K = K and f = f, OF i1(1) fr1 refl TrueI]
    unfolding due i1(2,3) by blast
  obtain L' Q' where "timer_inv E {} w' L'" "agenda Q' w' L'"
    "not_named (E - K \<union> set due) Q' = not_named (E - K \<union> set due) Q1"
    using tick_agenda[OF i1(1) fr1 c(3) _ t(1)] unfolding due by blast
  moreover have d: "distinct due" using due_list_distinct[OF i1(1)] unfolding due .
  moreover have "set due \<subseteq> E"
    using wheel_bucket(2)[OF timer_invD(4)[OF i1(1)] slot_less[of "tick (st w1) + 1"]]
    unfolding due[symmetric] by (auto simp: due_list_def)
  then have "ps = due" if "E \<subseteq> K"
    using t(4,5) that d subseq_distinct[OF t(4) d] by (intro subseq_same_set) auto
  moreover have "soft_timer_drive (script_cb (E - K) f) tlist w1 = Some w'"
    using t(1) by (simp add: soft_timer_drive_def)
  ultimately show ?thesis using c(1) t(2-5)
    by (intro exI[of _ w1] exI[of _ w'] exI[of _ L'] exI[of _ Q'] exI[of _ ps]) auto
qed

text \<open>C8: Any sequence of timer calls of the client returns and keeps the wheel well formed;
  timers it does not name keep their expiry and their place.\<close>

theorem timer_calls_keep_wheel:
  fixes w :: "'a timer_mem_scheme"
  assumes "timer_inv E {} w L" "X \<subseteq> E" "\<forall>c\<in>set cs. timer_call_ok X c"
  shows "\<exists>w' L'. do_timer_calls cs w = Some w' \<and> timer_inv E {} w' L' \<and> st w' = st w \<and> fired w' = fired w
    \<and> untouched (- X) w L w' L'"
  using do_timer_calls_effect[OF assms] unfolding call_effect_def by blast

text \<open>\<open>soft_timer_init\<close> leaves eight empty buckets and the counter at 0, whatever the memory
  of the manager held before.\<close>

theorem soft_timer_init_empty:
  fixes w :: "'a timer_mem_scheme"
  assumes "heap_lists (lheap w) L" "length (buckets (st w)) = SOFT_TIMER_NUM_BUCKETS" "distinct (buckets (st w))"
    "set (buckets (st w)) \<subseteq> dom (lheap w) - cells L" "0 < rate" "rate \<le> INT_MAX" "\<forall>e\<in>E. L e = Some []"
  shows "\<exists>w' L'. soft_timer_init rate w = Some (0, w') \<and> timer_inv E {} w' L' \<and> tick (st w') = 0
    \<and> tick_rate (st w') = rate \<and> (\<forall>b\<in>set (buckets (st w')). L' b = Some [])"
  using soft_timer_init_wheel[OF assms(1-5), of E] assms(5-7)
  by (fastforce simp: int_range_def INT_MIN_def)

section \<open>Concrete instances\<close>

text \<open>A manager with a tick of 10 milliseconds, at tick 5, and two timers, 10 and 11.\<close>

definition demo_wheel :: timer_mem where
  "demo_wheel = \<lparr>lheap = idle_heap (set [1..<9] \<union> {10, 11}),
     st = \<lparr>tick_rate = 10, tick = 5, buckets = [1..<9]\<rparr>, elem_tick = (\<lambda>_. 0), fired = []\<rparr>"

abbreviation demo_lists :: family where
  "demo_lists \<equiv> idle_lists (set [1..<9] \<union> {10, 11})"

lemma demo_wheel_inv: "timer_inv {10, 11} {} demo_wheel demo_lists"
proof -
  have "heap_lists (idle_heap (set [1..<9] \<union> {10, 11})) demo_lists"
    by (rule idle_heap_lists) (simp add: NULL_def)
  moreover have "wheel {10, 11} {} [1..<9] (\<lambda>_. 0) demo_lists"
    by (auto simp: wheel_def idle_lists_def)
  ultimately show ?thesis by (simp add: timer_inv_def demo_wheel_def int_range_def INT_MIN_def INT_MAX_def)
qed

lemma demo_wheel_fresh: "fresh_for {10, 11} 99 demo_wheel"
  by (simp add: fresh_for_def demo_wheel_def idle_heap_def NULL_def)

lemma demo_idle: "demo_lists 10 = Some []"
  by (simp add: idle_lists_def)

text \<open>The same with timer 10 running, due at the next tick.\<close>

definition demo_running :: timer_mem where
  "demo_running = the (soft_timer_add 10 1 demo_wheel)"

lemma demo_running_inv:
  "\<exists>L. timer_inv {10, 11} {} demo_running L \<and> fresh_for {10, 11} 99 demo_running
    \<and> due_list demo_running L = [10] \<and> fired demo_running = [] \<and> tick (st demo_running) = 5
    \<and> tick_rate (st demo_running) = 10"
proof -
  let ?b = "[1..<9] ! 6 :: addr"
  have t: "tick (st demo_wheel) + ticks_of (tick_rate (st demo_wheel)) 1 = 6"
    by (simp add: demo_wheel_def ticks_of_ceiling)
  have b: "buckets (st demo_wheel) ! slot 6 = ?b" by (simp add: demo_wheel_def slot_def)
  obtain h xs where a: "demo_lists ?b = Some xs"
    "soft_timer_add 10 1 demo_wheel = Some (demo_wheel\<lparr>lheap := h, elem_tick := (elem_tick demo_wheel)(10 := 6)\<rparr>)"
    "timer_inv {10, 11} {} (demo_wheel\<lparr>lheap := h, elem_tick := (elem_tick demo_wheel)(10 := 6)\<rparr>)
       (demo_lists(10 := None, ?b \<mapsto> xs @ [10]))" "dom h = dom (lheap demo_wheel)"
    using soft_timer_add_idle[OF demo_wheel_inv _ demo_idle, of 1] unfolding t b
    by (auto simp: int_range_def INT_MIN_def INT_MAX_def)
  have xs: "xs = []" using a(1) by (simp add: idle_lists_def)
  have r: "demo_running = demo_wheel\<lparr>lheap := h, elem_tick := (elem_tick demo_wheel)(10 := 6)\<rparr>"
    using a(2) by (simp add: demo_running_def)
  have "due_list demo_running (demo_lists(10 := None, ?b \<mapsto> xs @ [10])) = [10]"
    by (simp add: due_list_def r xs demo_wheel_def slot_def)
  moreover have "fresh_for {10, 11} 99 demo_running"
    using demo_wheel_fresh a(4) by (auto simp: fresh_for_def domIff r)
  ultimately show ?thesis using a(3) unfolding r by (force simp: demo_wheel_def)
qed

theorem get_soft_tick_covers_witness:
  "\<exists>k. get_soft_tick_from_milsec \<lparr>tick_rate = 10, tick = 0, buckets = []\<rparr> 25 = Some k
    \<and> 25 \<le> int (unat k) * 10 \<and> int (unat k) * 10 < 35"
  using get_soft_tick_covers[of "\<lparr>tick_rate = 10, tick = 0, buckets = []\<rparr>" 25] by (simp add: INT_MAX_def)

theorem soft_timer_add_fires_on_time_witness:
  "\<exists>w1 w'. soft_timer_add 10 25 demo_wheel = Some w1
    \<and> soft_timer_drives (script_cb ({10, 11} - {10}) (\<lambda>p w. [Timer_add p 10, Timer_del 11])) 99 3 w1 = Some w'
    \<and> firings 10 w' = [8]"
  using soft_timer_add_fires_on_time[OF demo_wheel_inv demo_wheel_fresh _ demo_idle, of 25 3
      "\<lambda>p w. [Timer_add p 10, Timer_del 11]"]
  by (simp add: demo_wheel_def INT_MAX_def drives_until_def ticks_of_ceiling firings_def)

theorem soft_timer_del_cancels_witness:
  "\<exists>w1 w'. soft_timer_del 10 demo_running = Some w1 \<and> soft_timer_is_running 10 w1 = Some False
    \<and> soft_timer_drives (script_cb ({10, 11} - {10}) (\<lambda>p w. [Timer_add p 10])) 99 5 w1 = Some w'
    \<and> firings 10 w' = []"
proof -
  obtain L where "timer_inv {10, 11} {} demo_running L" "fresh_for {10, 11} 99 demo_running"
    "fired demo_running = []" using demo_running_inv by blast
  then show ?thesis
    using soft_timer_del_cancels[of "{10, 11}" demo_running L 99 10 "\<lambda>p w. [Timer_add p 10]" 5]
    by (simp add: firings_def)
qed

text \<open>Timer 11 is added first, to expire at the same tick as 10, and 10 again while it runs.\<close>

theorem soft_timer_tick_runs_due_witness:
  "\<exists>w1 w'. do_timer_calls [Timer_add 11 10, Timer_add 10 3, Timer_add 11 40] demo_wheel = Some w1
    \<and> soft_timer_drive (script_cb ({10, 11} - {10, 11}) (\<lambda>p w. [Timer_add p 20])) 99 w1 = Some w'
    \<and> fired w' = [(11, 6), (10, 6)]"
proof -
  have ag: "agenda [] demo_wheel demo_lists"
    by (rule agenda_idle[OF demo_wheel_inv]) (simp add: idle_lists_def)
  have "due_of (tick (st demo_wheel) + 1) (agenda_calls (tick_rate (st demo_wheel)) (tick (st demo_wheel))
      [Timer_add 11 10, Timer_add 10 3, Timer_add 11 40] []) = [11, 10]"
    by (simp add: demo_wheel_def due_of_def ticks_of_ceiling)
  moreover have "fired demo_wheel = []" "tick (st demo_wheel) + 1 = 6" by (simp_all add: demo_wheel_def)
  moreover have "\<forall>c\<in>set [Timer_add 11 10, Timer_add 10 3, Timer_add 11 40]. timer_call_ok {10, 11} c"
    by (simp add: int_range_def INT_MIN_def INT_MAX_def)
  ultimately show ?thesis
    using soft_timer_tick_runs_due[OF demo_wheel_inv demo_wheel_fresh ag,
        of "[Timer_add 11 10, Timer_add 10 3, Timer_add 11 40]" "{10, 11}" "\<lambda>p w. [Timer_add p 20]"]
    by fastforce
qed

theorem timer_calls_keep_wheel_witness:
  "\<exists>w' L'. do_timer_calls [Timer_add 10 25, Timer_add 10 5, Timer_del 10] demo_wheel = Some w'
    \<and> timer_inv {10, 11} {} w' L' \<and> untouched (- {10}) demo_wheel demo_lists w' L'"
  using timer_calls_keep_wheel[OF demo_wheel_inv, of "{10}" "[Timer_add 10 25, Timer_add 10 5, Timer_del 10]"]
  by (auto simp: int_range_def INT_MIN_def INT_MAX_def)

theorem soft_timer_init_empty_witness:
  "\<exists>w' L'. soft_timer_init 10 (demo_wheel\<lparr>lheap := idle_heap (set [1..<11])\<rparr>) = Some (0, w')
    \<and> timer_inv {9, 10} {} w' L' \<and> tick (st w') = 0"
proof -
  have "heap_lists (idle_heap (set [1..<11])) (idle_lists {9, 10})"
    using idle_heap_lists[of "set [1..<11]"] by (auto simp: heap_lists_def idle_lists_def NULL_def)
  moreover have "set [1..<9] \<subseteq> dom (idle_heap (set [1..<11])) - cells (idle_lists {9, 10})"
    by (auto simp: idle_heap_def idle_lists_def cells_def split: if_splits)
  moreover have "\<forall>e\<in>{9, 10}. idle_lists {9, 10} e = Some []" by (simp add: idle_lists_def)
  ultimately show ?thesis
    using soft_timer_init_empty[of "demo_wheel\<lparr>lheap := idle_heap (set [1..<11])\<rparr>" "idle_lists {9, 10}" 10 "{9, 10}"]
    by (auto simp add: demo_wheel_def SOFT_TIMER_NUM_BUCKETS_def INT_MAX_def simp del: set_upt)
qed

end
