(* ===== verification/Io_Driver.thy ===== *)
theory Io_Driver
  imports Soft_Timer
begin

text \<open>
  The select-based event loop of \<open>src/src/io_driver.h\<close> and \<open>src/src/io_driver.c\<close>, at the level
  of its pointers. A watcher is named by the address of its list cell \<open>le\<close>. A callback is a
  function pointer: the names of the program's watcher callbacks are a datatype, and the
  function \<open>dispatch\<close> that runs one is a parameter here; the components that provide callbacks
  supply it. \<open>calls\<close> is a ghost record of the callbacks run, with the watcher as it then was
  and the events passed, which no operation reads.

  \<open>select\<close> is a parameter: it gets what the code passes to the system call and returns the
  return value and the three sets as written back.
\<close>

section \<open>State\<close>

datatype io_callback =
    Io_timer_tick_callback
  | Io_pipe_rx_callback
  | Io_pipe_tx_callback
  | Io_net_generic_callback
  | Io_net_accept_callback
  | Io_net_connect_callback
  | Io_net_udp_callback
  | Io_ssl_generic_callback
  | Io_ssl_handshake_callback
  | Io_ssl_accept_callback
  | Io_ssl_connect_callback
  | Other_callback nat

definition IO_DRIVER_EVENT_RX :: u8 where "IO_DRIVER_EVENT_RX = 1"
definition IO_DRIVER_EVENT_TX :: u8 where "IO_DRIVER_EVENT_TX = 2"
definition IO_DRIVER_EVENT_EX :: u8 where "IO_DRIVER_EVENT_EX = 4"

unbundle bit_operations_syntax

record io_watcher =
  wfd :: int
  event_listening :: u8
  callback :: io_callback

record driver_mem = timer_mem +
  watchers :: "addr \<Rightarrow> io_watcher"
  calls :: "(addr \<times> io_watcher \<times> u8) list"

record select_call_arg =
  rset :: "int set"
  wset :: "int set"
  eset :: "int set"
  rset_empty :: bool
  wset_empty :: bool
  eset_empty :: bool
  maxfd :: int

section \<open>Operations\<close>

text \<open>\<open>FD_SET\<close> and \<open>FD_ISSET\<close> access memory outside the set for a descriptor out of range.\<close>

definition FD_SETSIZE :: int where
  "FD_SETSIZE = 1024"

definition FD_SET :: "int \<Rightarrow> int set \<Rightarrow> int set option" where
  "FD_SET fd s = (if 0 \<le> fd \<and> fd < FD_SETSIZE then Some (insert fd s) else None)"

definition FD_ISSET :: "int \<Rightarrow> int set \<Rightarrow> bool option" where
  "FD_ISSET fd s = (if 0 \<le> fd \<and> fd < FD_SETSIZE then Some (fd \<in> s) else None)"

definition preselect_arg0 :: select_call_arg where
  "preselect_arg0 = \<lparr>rset = {}, wset = {}, eset = {}, rset_empty = True, wset_empty = True,
     eset_empty = True, maxfd = 0\<rparr>"

definition preselect_watcher :: "io_watcher \<Rightarrow> select_call_arg \<Rightarrow> select_call_arg option" where
  "preselect_watcher wt s = do {
     s \<leftarrow> (if event_listening wt AND IO_DRIVER_EVENT_RX \<noteq> 0 then do {
         fs \<leftarrow> FD_SET (wfd wt) (rset s);
         Some (s\<lparr>rset := fs, maxfd := max (wfd wt) (maxfd s), rset_empty := False\<rparr>)
       } else Some s);
     s \<leftarrow> (if event_listening wt AND IO_DRIVER_EVENT_TX \<noteq> 0 then do {
         fs \<leftarrow> FD_SET (wfd wt) (wset s);
         Some (s\<lparr>wset := fs, maxfd := max (wfd wt) (maxfd s), wset_empty := False\<rparr>)
       } else Some s);
     if event_listening wt AND IO_DRIVER_EVENT_EX \<noteq> 0 then do {
         fs \<leftarrow> FD_SET (wfd wt) (eset s);
         Some (s\<lparr>eset := fs, maxfd := max (wfd wt) (maxfd s), eset_empty := False\<rparr>)
       } else Some s
   }"

definition preselect_body ::
  "addr \<Rightarrow> select_call_arg \<times> 'a driver_mem_scheme \<Rightarrow> (select_call_arg \<times> 'a driver_mem_scheme) option" where
  "preselect_body p sw = do { s \<leftarrow> preselect_watcher (watchers (snd sw) p) (fst sw); Some (s, snd sw) }"

definition io_driver_preselect ::
  "addr \<Rightarrow> 'a driver_mem_scheme \<Rightarrow> (select_call_arg \<times> 'a driver_mem_scheme) option" where
  "io_driver_preselect driver w =
     list_for_each_entry (\<lambda>sw. lheap (snd sw)) driver preselect_body (preselect_arg0, w)"

text \<open>The events a watcher listens for and the sets report.\<close>

definition collect_events :: "select_call_arg \<Rightarrow> io_watcher \<Rightarrow> u8 option" where
  "collect_events s wt = do {
     r \<leftarrow> (if event_listening wt AND IO_DRIVER_EVENT_RX \<noteq> 0 then FD_ISSET (wfd wt) (rset s) else Some False);
     let e = (if r then 0 OR IO_DRIVER_EVENT_RX else 0);
     t \<leftarrow> (if event_listening wt AND IO_DRIVER_EVENT_TX \<noteq> 0 then FD_ISSET (wfd wt) (wset s) else Some False);
     let e = (if t then e OR IO_DRIVER_EVENT_TX else e);
     x \<leftarrow> (if event_listening wt AND IO_DRIVER_EVENT_EX \<noteq> 0 then FD_ISSET (wfd wt) (eset s) else Some False);
     Some (if x then e OR IO_DRIVER_EVENT_EX else e)
   }"

text \<open>The body of the loop over the run list.\<close>

definition run_watcher ::
  "(io_callback \<Rightarrow> addr \<Rightarrow> u8 \<Rightarrow> 'a driver_mem_scheme \<Rightarrow> 'a driver_mem_scheme option) \<Rightarrow> addr \<Rightarrow>
   select_call_arg \<Rightarrow> addr \<Rightarrow> 'a driver_mem_scheme \<Rightarrow> 'a driver_mem_scheme option" where
  "run_watcher dispatch driver s p w = do {
     w \<leftarrow> on_heap (list_del_init p) w;
     w \<leftarrow> on_heap (list_add_tail p driver) w;
     e \<leftarrow> collect_events s (watchers w p);
     if e \<noteq> 0 then dispatch (callback (watchers w p)) p e (w\<lparr>calls := calls w @ [(p, watchers w p, e)]\<rparr>)
     else Some w
   }"

text \<open>\<open>run_list\<close> is the address of the local variable of that name.\<close>

definition io_driver_postselect ::
  "(io_callback \<Rightarrow> addr \<Rightarrow> u8 \<Rightarrow> 'a driver_mem_scheme \<Rightarrow> 'a driver_mem_scheme option) \<Rightarrow> addr \<Rightarrow> addr \<Rightarrow>
   select_call_arg \<Rightarrow> 'a driver_mem_scheme \<Rightarrow> 'a driver_mem_scheme option" where
  "io_driver_postselect dispatch run_list driver s w = do {
     let w = enter_scope run_list w;
     w \<leftarrow> on_heap (INIT_LIST_HEAD run_list) w;
     w \<leftarrow> on_heap (list_splice_init driver run_list) w;
     w \<leftarrow> while_not_empty lheap run_list (run_watcher dispatch driver s) w;
     Some (leave_scope run_list w)
   }"

definition io_driver_init :: "addr \<Rightarrow> 'a driver_mem_scheme \<Rightarrow> 'a driver_mem_scheme option" where
  "io_driver_init driver w = on_heap (INIT_LIST_HEAD driver) w"

type_synonym 'w select_fun =
  "int \<Rightarrow> int set option \<Rightarrow> int set option \<Rightarrow> int set option \<Rightarrow> 'w \<Rightarrow> int \<times> int set \<times> int set \<times> int set"

text \<open>The system call: empty sets are passed as null pointers and so are not written back.\<close>

definition call_select ::
  "'w select_fun \<Rightarrow> int \<Rightarrow> select_call_arg \<Rightarrow> 'w \<Rightarrow> int \<times> select_call_arg" where
  "call_select select nfds s w =
     (let (ret, r, t, x) = select nfds
        (if rset_empty s then None else Some (rset s))
        (if wset_empty s then None else Some (wset s))
        (if eset_empty s then None else Some (eset s)) w
      in (ret, s\<lparr>rset := (if rset_empty s then rset s else r), wset := (if wset_empty s then wset s else t),
            eset := (if eset_empty s then eset s else x)\<rparr>))"

definition io_driver_run ::
  "(io_callback \<Rightarrow> addr \<Rightarrow> u8 \<Rightarrow> 'a driver_mem_scheme \<Rightarrow> 'a driver_mem_scheme option) \<Rightarrow>
   'a driver_mem_scheme select_fun \<Rightarrow> addr \<Rightarrow> addr \<Rightarrow> 'a driver_mem_scheme \<Rightarrow> 'a driver_mem_scheme option" where
  "io_driver_run dispatch select run_list driver w = do {
     (s, w) \<leftarrow> io_driver_preselect driver w;
     nfds \<leftarrow> c_add (maxfd s) 1;
     let (ret, s) = call_select select nfds s w;
     if ret < 0 then Some w
     else if ret = 0 then Some w
     else io_driver_postselect dispatch run_list driver s w
   }"

definition put_watcher :: "addr \<Rightarrow> io_watcher \<Rightarrow> 'a driver_mem_scheme \<Rightarrow> 'a driver_mem_scheme" where
  "put_watcher p wt w = w\<lparr>watchers := (watchers w)(p := wt)\<rparr>"

definition io_driver_watcher_init ::
  "addr \<Rightarrow> int \<Rightarrow> io_callback \<Rightarrow> 'a driver_mem_scheme \<Rightarrow> 'a driver_mem_scheme option" where
  "io_driver_watcher_init p fd cb w = do {
     w \<leftarrow> on_heap (INIT_LIST_HEAD p) w;
     Some (put_watcher p \<lparr>wfd = fd, event_listening = 0, callback = cb\<rparr> w)
   }"

definition io_driver_watch :: "addr \<Rightarrow> addr \<Rightarrow> u8 \<Rightarrow> 'a driver_mem_scheme \<Rightarrow> 'a driver_mem_scheme option" where
  "io_driver_watch driver p event w = do {
     let old_set = event_listening (watchers w p);
     let w = put_watcher p ((watchers w p)\<lparr>event_listening := old_set OR event\<rparr>) w;
     if old_set = 0 \<and> event_listening (watchers w p) \<noteq> 0
     then on_heap (list_add_tail p driver) w
     else Some w
   }"

definition io_driver_no_watch :: "addr \<Rightarrow> addr \<Rightarrow> u8 \<Rightarrow> 'a driver_mem_scheme \<Rightarrow> 'a driver_mem_scheme option" where
  "io_driver_no_watch driver p event w = do {
     let old_set = event_listening (watchers w p);
     let w = put_watcher p ((watchers w p)\<lparr>event_listening := old_set AND NOT event\<rparr>) w;
     if old_set \<noteq> 0 \<and> event_listening (watchers w p) = 0
     then on_heap (list_del_init p) w
     else Some w
   }"

definition io_driver_watcher_set_cb :: "addr \<Rightarrow> io_callback \<Rightarrow> 'a driver_mem_scheme \<Rightarrow> 'a driver_mem_scheme" where
  "io_driver_watcher_set_cb p cb w = put_watcher p ((watchers w p)\<lparr>callback := cb\<rparr>) w"

section \<open>The invariant\<close>

text \<open>
  \<open>W\<close> are the watchers of the client, \<open>D\<close> the heads of the lists that hold listening watchers:
  the driver, and its run list during a pass. A watcher is in exactly one of these lists if it
  listens for any event and in none if not.
\<close>

definition driver_ok :: "addr set \<Rightarrow> addr set \<Rightarrow> (addr \<Rightarrow> io_watcher) \<Rightarrow> family \<Rightarrow> bool" where
  "driver_ok W D ws L \<longleftrightarrow> W \<inter> D = {}
     \<and> (\<forall>c\<in>D. \<exists>xs. L c = Some xs \<and> set xs \<subseteq> W)
     \<and> (\<forall>x\<in>W. 0 \<le> wfd (ws x) \<and> wfd (ws x) < FD_SETSIZE
         \<and> (if event_listening (ws x) = 0 then L x = Some [] else \<exists>c\<in>D. queued L x c))"

definition driver_inv :: "addr set \<Rightarrow> addr set \<Rightarrow> 'a driver_mem_scheme \<Rightarrow> family \<Rightarrow> bool" where
  "driver_inv W D w L \<longleftrightarrow> heap_lists (lheap w) L \<and> driver_ok W D (watchers w) L"

lemma driver_okD:
  assumes "driver_ok W D ws L"
  shows "W \<inter> D = {}" "c \<in> D \<Longrightarrow> \<exists>xs. L c = Some xs \<and> set xs \<subseteq> W"
    "x \<in> W \<Longrightarrow> 0 \<le> wfd (ws x) \<and> wfd (ws x) < FD_SETSIZE"
    "x \<in> W \<Longrightarrow> event_listening (ws x) = 0 \<Longrightarrow> L x = Some []"
    "x \<in> W \<Longrightarrow> event_listening (ws x) \<noteq> 0 \<Longrightarrow> \<exists>c\<in>D. queued L x c"
  using assms unfolding driver_ok_def by (auto split: if_splits)

lemma driver_okI:
  assumes "W \<inter> D = {}" "\<And>c. c \<in> D \<Longrightarrow> \<exists>xs. L c = Some xs \<and> set xs \<subseteq> W"
    and "\<And>x. x \<in> W \<Longrightarrow> 0 \<le> wfd (ws x) \<and> wfd (ws x) < FD_SETSIZE"
    and "\<And>x. x \<in> W \<Longrightarrow> if event_listening (ws x) = 0 then L x = Some [] else \<exists>c\<in>D. queued L x c"
  shows "driver_ok W D ws L"
  unfolding driver_ok_def using assms by blast

lemma driver_invD:
  assumes "driver_inv W D w L"
  shows "heap_lists (lheap w) L" "driver_ok W D (watchers w) L"
  using assms by (auto simp: driver_inv_def)

section \<open>Watching and unwatching\<close>

text \<open>The watchers of \<open>K\<close> keep their fields and their place.\<close>

definition still ::
  "addr set \<Rightarrow> 'a driver_mem_scheme \<Rightarrow> family \<Rightarrow> 'a driver_mem_scheme \<Rightarrow> family \<Rightarrow> bool" where
  "still K w L w' L' \<longleftrightarrow>
     (\<forall>x\<in>K. watchers w' x = watchers w x \<and> (\<forall>c. queued L' x c = queued L x c))"

lemma still_mono: "still K w L w' L' \<Longrightarrow> J \<subseteq> K \<Longrightarrow> still J w L w' L'"
  unfolding still_def by blast

lemma still_trans: "still K w L w' L' \<Longrightarrow> still K w' L' w'' L'' \<Longrightarrow> still K w L w'' L''"
  by (simp add: still_def)

text \<open>Adding a detached element to a list, and taking an element out, seen by the others.\<close>

lemma queued_add_other: "L c = Some xs \<Longrightarrow> L p = Some [] \<Longrightarrow> x \<noteq> p \<Longrightarrow>
  queued (L(p := None, c \<mapsto> xs @ [p])) x d = queued L x d"
  by (auto simp: queued_def)

text \<open>
  What an operation on the watchers \<open>X\<close> of the client changes: \<open>R\<close> are the run lists, from
  which it may only take elements out.
\<close>

definition driver_effect ::
  "addr set \<Rightarrow> addr \<Rightarrow> addr set \<Rightarrow> addr set \<Rightarrow> 'a driver_mem_scheme \<Rightarrow> family \<Rightarrow>
   'a driver_mem_scheme \<Rightarrow> family \<Rightarrow> bool" where
  "driver_effect W d R X w L w' L' \<longleftrightarrow> driver_inv W (insert d R) w' L'
     \<and> (\<exists>h ws. w' = w\<lparr>lheap := h, watchers := ws\<rparr> \<and> dom h = dom (lheap w))
     \<and> (\<forall>c. c \<notin> W \<union> insert d R \<longrightarrow> L' c = L c)
     \<and> (\<forall>c\<in>R. \<exists>q q'. L c = Some q \<and> L' c = Some q' \<and> subseq q' q)
     \<and> still (- X) w L w' L'"

lemma driver_effect_refl:
  assumes "driver_inv W (insert d R) w L"
  shows "driver_effect W d R X w L w L"
proof -
  have "\<exists>q q'. L c = Some q \<and> L c = Some q' \<and> subseq q' q" if "c \<in> R" for c
    using driver_okD(2)[OF driver_invD(2)[OF assms], of c] that by auto
  moreover have "\<exists>h ws. w = w\<lparr>lheap := h, watchers := ws\<rparr> \<and> dom h = dom (lheap w)"
    by (intro exI[of _ "lheap w"] exI[of _ "watchers w"]) simp
  ultimately show ?thesis using assms by (simp add: driver_effect_def still_def)
qed

lemma driver_effect_trans:
  assumes "driver_effect W d R X w L w' L'" "driver_effect W d R X w' L' w'' L''"
  shows "driver_effect W d R X w L w'' L''"
proof -
  have "\<exists>q q'. L c = Some q \<and> L'' c = Some q' \<and> subseq q' q" if c: "c \<in> R" for c
  proof -
    obtain q q' where "L c = Some q" "L' c = Some q'" "subseq q' q"
      using assms(1) c unfolding driver_effect_def by blast
    moreover obtain p p' where "L' c = Some p" "L'' c = Some p'" "subseq p' p"
      using assms(2) c unfolding driver_effect_def by blast
    ultimately show ?thesis using subseq_order.trans by fastforce
  qed
  moreover have "\<exists>h ws. w'' = w\<lparr>lheap := h, watchers := ws\<rparr> \<and> dom h = dom (lheap w)"
  proof -
    obtain h ws h' ws' where "w' = w\<lparr>lheap := h, watchers := ws\<rparr>" "dom h = dom (lheap w)"
      "w'' = w'\<lparr>lheap := h', watchers := ws'\<rparr>" "dom h' = dom (lheap w')"
      using assms unfolding driver_effect_def by blast
    then show ?thesis by (intro exI[of _ h'] exI[of _ ws']) simp
  qed
  moreover have "still (- X) w L w'' L''"
    using assms still_trans unfolding driver_effect_def by blast
  ultimately show ?thesis using assms unfolding driver_effect_def by simp
qed

lemma driver_effect_inv:
  assumes "driver_effect W d R X w L w' L'"
  shows "driver_inv W (insert d R) w' L'" "calls w' = calls w" "driver_mem.more w' = driver_mem.more w"
    "dom (lheap w') = dom (lheap w)"
proof -
  obtain h ws where "w' = w\<lparr>lheap := h, watchers := ws\<rparr>" "dom h = dom (lheap w)"
    "driver_inv W (insert d R) w' L'"
    using assms unfolding driver_effect_def by blast
  then show "driver_inv W (insert d R) w' L'" "calls w' = calls w" "driver_mem.more w' = driver_mem.more w"
    "dom (lheap w') = dom (lheap w)" by simp_all
qed

text \<open>Changing a watcher without touching the lists.\<close>

lemma put_watcher_ok:
  assumes "driver_ok W D ws L" "p \<in> W" "wfd wt = wfd (ws p)"
    and "event_listening wt = 0 \<longleftrightarrow> event_listening (ws p) = 0"
  shows "driver_ok W D (ws(p := wt)) L"
  using assms unfolding driver_ok_def by simp

lemma put_watcher_effect:
  assumes inv: "driver_inv W (insert d R) w L" and p: "p \<in> W" "p \<in> X" and wt: "wfd wt = wfd (watchers w p)"
    "event_listening wt = 0 \<longleftrightarrow> event_listening (watchers w p) = 0"
  shows "driver_effect W d R X w L (put_watcher p wt w) L"
proof -
  have "driver_inv W (insert d R) (put_watcher p wt w) L"
    using put_watcher_ok[OF driver_invD(2)[OF inv] p(1) wt] driver_invD(1)[OF inv]
    by (simp add: driver_inv_def put_watcher_def)
  moreover have "\<exists>q q'. L c = Some q \<and> L c = Some q' \<and> subseq q' q" if "c \<in> R" for c
    using driver_okD(2)[OF driver_invD(2)[OF inv], of c] that by auto
  moreover have "\<exists>h ws. put_watcher p wt w = w\<lparr>lheap := h, watchers := ws\<rparr> \<and> dom h = dom (lheap w)"
    by (intro exI[of _ "lheap w"] exI[of _ "(watchers w)(p := wt)"]) (simp add: put_watcher_def)
  ultimately show ?thesis using p(2) unfolding driver_effect_def
    by (auto simp: still_def put_watcher_def)
qed

lemma io_driver_watch_effect:
  fixes w :: "'a driver_mem_scheme"
  assumes inv: "driver_inv W (insert d R) w L" and p: "p \<in> W" "p \<in> X" and dR: "d \<notin> R"
  shows "\<exists>w' L'. io_driver_watch d p ev w = Some w' \<and> driver_effect W d R X w L w' L'
    \<and> watchers w' p = (watchers w p)\<lparr>event_listening := event_listening (watchers w p) OR ev\<rparr>"
proof -
  let ?old = "event_listening (watchers w p)"
  let ?wt = "(watchers w p)\<lparr>event_listening := ?old OR ev\<rparr>"
  let ?w1 = "put_watcher p ?wt w"
  note L = driver_invD(1)[OF inv] and ok = driver_invD(2)[OF inv]
  show ?thesis
  proof (cases "?old = 0 \<and> ev \<noteq> 0")
    case False
    then have "driver_effect W d R X w L ?w1 L"
      by (intro put_watcher_effect[OF inv p]) (auto simp: or_eq_0_iff)
    moreover have "io_driver_watch d p ev w = Some ?w1"
      using False by (auto simp: io_driver_watch_def put_watcher_def)
    ultimately show ?thesis by (intro exI[of _ ?w1] exI[of _ L]) (simp add: put_watcher_def)
  next
    case True
    have Lp: "L p = Some []" using driver_okD(4)[OF ok p(1)] True by simp
    obtain xs where xs: "L d = Some xs" "set xs \<subseteq> W" using driver_okD(2)[OF ok, of d] by auto
    have pd: "p \<noteq> d" "p \<notin> R" using driver_okD(1)[OF ok] p(1) by auto
    obtain h where h: "list_add_tail p d (lheap w) = Some h" "heap_lists h (L(p := None, d \<mapsto> xs @ [p]))"
      "dom h = dom (lheap w)"
      using list_add_tail_family[OF lists_forget[OF L] _ loose_forget[OF L Lp], of d xs] xs(1) pd(1) by auto
    let ?L = "L(p := None, d \<mapsto> xs @ [p])"
    let ?w = "w\<lparr>lheap := h, watchers := (watchers w)(p := ?wt)\<rparr>"
    have q: "queued ?L x c = queued L x c" if "x \<noteq> p" for x c using queued_add_other[OF xs(1) Lp that] .
    have "queued ?L p d" by (auto simp: queued_def)
    then have "driver_ok W (insert d R) ((watchers w)(p := ?wt)) ?L"
      using ok q xs p(1) pd dR True unfolding driver_ok_def by (auto split: if_splits)
    then have "driver_inv W (insert d R) ?w ?L" using h(2) by (simp add: driver_inv_def)
    moreover have "\<exists>q q'. L c = Some q \<and> ?L c = Some q' \<and> subseq q' q" if c: "c \<in> R" for c
    proof -
      have "?L c = L c" using c pd dR by auto
      then show ?thesis using driver_okD(2)[OF ok, of c] c by auto
    qed
    moreover have "still (- X) w L ?w ?L" using p(2) q by (auto simp: still_def)
    ultimately have "driver_effect W d R X w L ?w ?L"
      using h(3) p(1) unfolding driver_effect_def by auto
    moreover have "io_driver_watch d p ev w = Some ?w"
      using True h(1) by (simp add: io_driver_watch_def put_watcher_def on_heap_def)
    ultimately show ?thesis by (intro exI[of _ ?w] exI[of _ ?L]) simp
  qed
qed

lemma io_driver_no_watch_effect:
  fixes w :: "'a driver_mem_scheme"
  assumes inv: "driver_inv W (insert d R) w L" and p: "p \<in> W" "p \<in> X" and dR: "d \<notin> R"
  shows "\<exists>w' L'. io_driver_no_watch d p ev w = Some w' \<and> driver_effect W d R X w L w' L'
    \<and> watchers w' p = (watchers w p)\<lparr>event_listening := event_listening (watchers w p) AND NOT ev\<rparr>"
proof -
  let ?old = "event_listening (watchers w p)"
  let ?wt = "(watchers w p)\<lparr>event_listening := ?old AND NOT ev\<rparr>"
  let ?w1 = "put_watcher p ?wt w"
  note L = driver_invD(1)[OF inv] and ok = driver_invD(2)[OF inv]
  show ?thesis
  proof (cases "?old \<noteq> 0 \<and> ?old AND NOT ev = 0")
    case False
    then have "driver_effect W d R X w L ?w1 L" by (intro put_watcher_effect[OF inv p]) auto
    moreover have "io_driver_no_watch d p ev w = Some ?w1"
      using False by (auto simp: io_driver_no_watch_def put_watcher_def)
    ultimately show ?thesis by (intro exI[of _ ?w1] exI[of _ L]) (simp add: put_watcher_def)
  next
    case True
    obtain c xs where c: "c \<in> insert d R" "L c = Some xs" "p \<in> set xs"
      using driver_okD(5)[OF ok p(1)] True by (auto simp: queued_def)
    have pc: "p \<notin> insert d R" using driver_okD(1)[OF ok] p(1) by auto
    obtain h where h: "list_del_init p (lheap w) = Some h" "heap_lists h (L(c \<mapsto> remove1 p xs, p \<mapsto> []))"
      "dom h = dom (lheap w)"
      using list_del_init_family[OF L c(2,3)] by auto
    let ?L = "L(c \<mapsto> remove1 p xs, p \<mapsto> [])"
    let ?w = "w\<lparr>lheap := h, watchers := (watchers w)(p := ?wt)\<rparr>"
    have q: "queued ?L x a = queued L x a" if "x \<noteq> p" for x a
      using queued_del_other[OF c(2) L c(3) that] .
    have head: "\<exists>zs. ?L a = Some zs \<and> set zs \<subseteq> W" if a: "a \<in> insert d R" for a
    proof -
      obtain ys where "L a = Some ys" "set ys \<subseteq> W" using driver_okD(2)[OF ok a] by blast
      moreover have "a \<noteq> p" using a pc by auto
      ultimately show ?thesis using c(2) set_remove1_subset[of p xs] by (cases "a = c") auto
    qed
    have "driver_ok W (insert d R) ((watchers w)(p := ?wt)) ?L"
    proof -
      have "if event_listening (((watchers w)(p := ?wt)) x) = 0 then ?L x = Some [] else \<exists>a\<in>insert d R. queued ?L x a"
        if x: "x \<in> W" for x
      proof (cases "x = p")
        case False
        have "x \<noteq> c" using driver_okD(1)[OF ok] x c(1) by auto
        then show ?thesis using False q[OF False] driver_okD(4,5)[OF ok x] by simp
      qed (use True in simp)
      moreover have "0 \<le> wfd (((watchers w)(p := ?wt)) x) \<and> wfd (((watchers w)(p := ?wt)) x) < FD_SETSIZE"
        if "x \<in> W" for x using driver_okD(3)[OF ok that] by (cases "x = p") simp_all
      ultimately show ?thesis by (intro driver_okI[OF driver_okD(1)[OF ok] head]) blast+
    qed
    then have "driver_inv W (insert d R) ?w ?L" using h(2) by (simp add: driver_inv_def)
    moreover have "\<exists>q q'. L a = Some q \<and> ?L a = Some q' \<and> subseq q' q" if a: "a \<in> R" for a
    proof -
      have "a \<noteq> p" using a pc by auto
      then show ?thesis using driver_okD(2)[OF ok, of a] a c(2) subseq_remove1 by (cases "a = c") auto
    qed
    moreover have "still (- X) w L ?w ?L" unfolding still_def
    proof
      fix x assume "x \<in> - X"
      then have "x \<noteq> p" using p(2) by auto
      then show "watchers ?w x = watchers w x \<and> (\<forall>c. queued ?L x c = queued L x c)" using q[OF \<open>x \<noteq> p\<close>] by simp
    qed
    moreover have "?L a = L a" if "a \<notin> W \<union> insert d R" for a using that c(1) p(1) by auto
    ultimately have "driver_effect W d R X w L ?w ?L"
      using h(3) unfolding driver_effect_def by auto
    moreover have "io_driver_no_watch d p ev w = Some ?w"
      using True h(1) by (simp add: io_driver_no_watch_def put_watcher_def on_heap_def)
    ultimately show ?thesis by (intro exI[of _ ?w] exI[of _ ?L]) simp
  qed
qed

lemma io_driver_watcher_init_effect:
  fixes w :: "'a driver_mem_scheme"
  assumes inv: "driver_inv W (insert d R) w L" and p: "p \<in> W" "p \<in> X" and idle: "event_listening (watchers w p) = 0"
    and fd: "0 \<le> fd" "fd < FD_SETSIZE"
  shows "\<exists>w'. io_driver_watcher_init p fd cb w = Some w' \<and> driver_effect W d R X w L w' L
    \<and> watchers w' p = \<lparr>wfd = fd, event_listening = 0, callback = cb\<rparr>"
proof -
  note L = driver_invD(1)[OF inv] and ok = driver_invD(2)[OF inv]
  have Lp: "L p = Some []" by (rule driver_okD(4)[OF ok p(1) idle])
  let ?wt = "\<lparr>wfd = fd, event_listening = 0, callback = cb\<rparr>"
  obtain h where h: "INIT_LIST_HEAD p (lheap w) = Some h" "heap_lists h (L(p \<mapsto> []))" "dom h = dom (lheap w)"
    using INIT_LIST_HEAD_family[OF L loose_forget[OF L Lp]] by blast
  have LL: "L(p \<mapsto> []) = L" using Lp by (simp add: map_upd_triv)
  let ?w = "w\<lparr>lheap := h, watchers := (watchers w)(p := ?wt)\<rparr>"
  have "driver_ok W (insert d R) ((watchers w)(p := ?wt)) L"
    using driver_okD[OF ok] Lp fd by (intro driver_okI) (auto split: if_splits)
  then have "driver_inv W (insert d R) ?w L" using h(2) unfolding LL by (simp add: driver_inv_def)
  moreover have "\<exists>q q'. L c = Some q \<and> L c = Some q' \<and> subseq q' q" if "c \<in> R" for c
    using driver_okD(2)[OF ok, of c] that by auto
  moreover have "still (- X) w L ?w L" using p(2) by (auto simp: still_def)
  ultimately have "driver_effect W d R X w L ?w L" using h(3) unfolding driver_effect_def by auto
  then show ?thesis using h(1)
    by (intro exI[of _ ?w]) (simp add: io_driver_watcher_init_def put_watcher_def on_heap_def)
qed

lemma io_driver_watcher_set_cb_effect:
  assumes "driver_inv W (insert d R) w L" "p \<in> W" "p \<in> X"
  shows "driver_effect W d R X w L (io_driver_watcher_set_cb p cb w) L"
  using put_watcher_effect[OF assms] by (simp add: io_driver_watcher_set_cb_def)

section \<open>Before the system call\<close>

text \<open>The arguments of \<open>select\<close> for a list of watchers.\<close>

definition listeners :: "u8 \<Rightarrow> io_watcher list \<Rightarrow> int set" where
  "listeners ev ws = wfd ` {wt \<in> set ws. event_listening wt AND ev \<noteq> 0}"

definition all_events :: u8 where
  "all_events = IO_DRIVER_EVENT_RX OR IO_DRIVER_EVENT_TX OR IO_DRIVER_EVENT_EX"

definition top_fd :: "int set \<Rightarrow> int" where
  "top_fd S = Max (insert 0 S)"

lemma top_fd_insert: "finite S \<Longrightarrow> top_fd (insert a S) = max a (top_fd S)"
  by (simp add: top_fd_def insert_commute[of 0 a])

definition select_args :: "io_watcher list \<Rightarrow> select_call_arg" where
  "select_args ws = \<lparr>rset = listeners IO_DRIVER_EVENT_RX ws, wset = listeners IO_DRIVER_EVENT_TX ws,
     eset = listeners IO_DRIVER_EVENT_EX ws,
     rset_empty = (listeners IO_DRIVER_EVENT_RX ws = {}), wset_empty = (listeners IO_DRIVER_EVENT_TX ws = {}),
     eset_empty = (listeners IO_DRIVER_EVENT_EX ws = {}),
     maxfd = top_fd (listeners IO_DRIVER_EVENT_RX ws \<union> listeners IO_DRIVER_EVENT_TX ws
       \<union> listeners IO_DRIVER_EVENT_EX ws)\<rparr>"

lemma listeners_snoc:
  "listeners ev (ws @ [wt]) = (if event_listening wt AND ev \<noteq> 0 then insert (wfd wt) (listeners ev ws) else listeners ev ws)"
  by (auto simp: listeners_def)

lemma finite_listeners [simp]: "finite (listeners ev ws)"
  by (simp add: listeners_def)

lemma preselect_watcher_snoc:
  assumes "0 \<le> wfd wt" "wfd wt < FD_SETSIZE"
  shows "preselect_watcher wt (select_args ws) = Some (select_args (ws @ [wt]))"
  using assms
  by (simp add: preselect_watcher_def select_args_def FD_SET_def listeners_snoc top_fd_insert max.left_commute)

interpretation preselect: plain_traversal "\<lambda>sw. lheap (snd sw)" d preselect_body
    "\<lambda>don rest sw. sw = (select_args (map (watchers w) don), w) \<and> driver_inv W (insert d R) w L
       \<and> L d = Some (don @ rest)" for d w W R L
proof
  fix don x rest and sw :: "select_call_arg \<times> 'a driver_mem_scheme"
  assume a: "sw = (select_args (map (watchers w) don), w) \<and> driver_inv W (insert d R) w L \<and> L d = Some (don @ x # rest)"
  then have "x \<in> W" using driver_okD(2)[OF driver_invD(2), of W "insert d R" w L d] by auto
  then have "0 \<le> wfd (watchers w x)" "wfd (watchers w x) < FD_SETSIZE"
    using a driver_okD(3)[OF driver_invD(2)] by blast+
  then show "\<exists>s'. preselect_body x sw = Some s' \<and> (s' = (select_args (map (watchers w) (don @ [x])), w)
      \<and> driver_inv W (insert d R) w L \<and> L d = Some ((don @ [x]) @ rest))"
    using a by (simp add: preselect_body_def preselect_watcher_snoc)
qed (auto dest: driver_invD(1))

lemma io_driver_preselect_ok:
  assumes "driver_inv W (insert d R) w L" "L d = Some xs"
  shows "io_driver_preselect d w = Some (select_args (map (watchers w) xs), w)"
proof -
  have "select_args [] = preselect_arg0"
    by (simp add: select_args_def preselect_arg0_def listeners_def top_fd_def)
  then show ?thesis
    using preselect.traversal[where w = w and W = W and R = R and L = L and d = d and xs = xs and s = "(preselect_arg0, w)"] assms
    by (auto simp: io_driver_preselect_def)
qed

lemma select_args_maxfd:
  assumes "\<And>wt. wt \<in> set ws \<Longrightarrow> 0 \<le> wfd wt \<and> wfd wt < FD_SETSIZE"
  shows "0 \<le> maxfd (select_args ws) \<and> maxfd (select_args ws) < FD_SETSIZE"
  using assms by (auto simp: select_args_def listeners_def top_fd_def FD_SETSIZE_def)

section \<open>After the system call\<close>

text \<open>The events to report to a watcher, where its descriptor is in range.\<close>

definition ready :: "select_call_arg \<Rightarrow> io_watcher \<Rightarrow> u8" where
  "ready s wt = (if event_listening wt AND IO_DRIVER_EVENT_RX \<noteq> 0 \<and> wfd wt \<in> rset s then IO_DRIVER_EVENT_RX else 0)
     OR (if event_listening wt AND IO_DRIVER_EVENT_TX \<noteq> 0 \<and> wfd wt \<in> wset s then IO_DRIVER_EVENT_TX else 0)
     OR (if event_listening wt AND IO_DRIVER_EVENT_EX \<noteq> 0 \<and> wfd wt \<in> eset s then IO_DRIVER_EVENT_EX else 0)"

lemma collect_events_ready:
  "0 \<le> wfd wt \<Longrightarrow> wfd wt < FD_SETSIZE \<Longrightarrow> collect_events s wt = Some (ready s wt)"
  by (auto simp: collect_events_def ready_def FD_ISSET_def Let_def or.assoc)

definition driver_others :: "addr set \<Rightarrow> addr \<Rightarrow> addr \<Rightarrow> family \<Rightarrow> family" where
  "driver_others W d rl L = L |` (- (W \<union> {d, rl}))"

lemma driver_others_upd [simp]:
  "c \<in> W \<union> {d, rl} \<Longrightarrow> driver_others W d rl (L(c := v)) = driver_others W d rl L"
  by (auto simp: driver_others_def restrict_map_def)

text \<open>
  What the driver relies on from the callbacks of its clients, run through \<open>dispatch\<close>, for the
  watchers \<open>W\<close>, the driver \<open>d\<close> and its run list \<open>rl\<close>. A callback may watch and unwatch any
  watchers, its own included, and use the rest of the program's state (with invariant \<open>ext\<close>), but
  it leaves the watchers of \<open>K\<close> other than its own alone and does not run the driver.
\<close>

text \<open>Watcher \<open>x\<close>, with fields \<open>wt\<close>, got its events if there were any, and no call if not.\<close>

definition reported :: "select_call_arg \<Rightarrow> io_watcher \<Rightarrow> addr \<Rightarrow> (addr \<times> io_watcher \<times> u8) list \<Rightarrow> bool" where
  "reported s wt x cs \<longleftrightarrow>
     (if ready s wt \<noteq> 0 then (x, wt, ready s wt) \<in> set cs else x \<notin> fst ` set cs)"

lemma reported_snoc: "reported s wt x cs \<Longrightarrow> x \<noteq> y \<Longrightarrow> reported s wt x (cs @ [(y, v)])"
  by (auto simp: reported_def)

locale driver_client =
  fixes dispatch :: "io_callback \<Rightarrow> addr \<Rightarrow> u8 \<Rightarrow> 'a driver_mem_scheme \<Rightarrow> 'a driver_mem_scheme option"
    and W K :: "addr set" and d rl :: addr and ext :: "'a driver_mem_scheme \<Rightarrow> family \<Rightarrow> bool"
  assumes call: "\<lbrakk>d \<noteq> rl; p \<in> W; e \<noteq> 0; driver_inv W {d, rl} w L; L rl = Some q; queued L p d;
      calls w = cs @ [(p, watchers w p, e)]; ext (w\<lparr>calls := cs\<rparr>) (driver_others W d rl L)\<rbrakk> \<Longrightarrow>
    \<exists>w' L' q'. dispatch (callback (watchers w p)) p e w = Some w' \<and> driver_inv W {d, rl} w' L'
      \<and> calls w' = calls w \<and> L' rl = Some q' \<and> subseq q' q \<and> ext w' (driver_others W d rl L')
      \<and> still (K - {p}) w L w' L'"
    and ext_frame: "ext w M \<Longrightarrow> dom h - {rl} = dom (lheap w) - {rl} \<Longrightarrow> ext (w\<lparr>lheap := h\<rparr>) M"
begin

definition passing ::
  "select_call_arg \<Rightarrow> 'a driver_mem_scheme \<Rightarrow> family \<Rightarrow> addr list \<Rightarrow> 'a driver_mem_scheme \<Rightarrow> family \<Rightarrow>
   addr list \<Rightarrow> (addr \<times> io_watcher \<times> u8) list \<Rightarrow> addr list \<Rightarrow> bool" where
  "passing s w0 L0 xs w L don cs q \<longleftrightarrow> driver_inv W {d, rl} w L \<and> L rl = Some q
     \<and> ext w (driver_others W d rl L) \<and> calls w = calls w0 @ cs
     \<and> subseq (don @ q) xs \<and> subseq (map fst cs) don
     \<and> (\<forall>(x, wt, e)\<in>set cs. e = ready s wt \<and> e \<noteq> 0)
     \<and> (\<forall>x\<in>K \<inter> set xs. x \<in> set don \<union> set q)
     \<and> (\<forall>x\<in>K \<inter> set don. reported s (watchers w0 x) x cs)
     \<and> (\<forall>x\<in>K - set don. watchers w x = watchers w0 x)
     \<and> (\<forall>x\<in>K. x \<notin> set xs \<longrightarrow> (\<forall>c. queued L x c = queued L0 x c))"

end

text \<open>Moving the first watcher of the run list back to the driver.\<close>

lemma rotate_watcher:
  fixes w :: "'a driver_mem_scheme"
  assumes inv: "driver_inv W {d, rl} w L" and q: "L rl = Some (p # q)" and drl: "d \<noteq> rl"
  shows "\<exists>h xs. L d = Some xs \<and> do { w \<leftarrow> on_heap (list_del_init p) w; on_heap (list_add_tail p d) w } = Some (w\<lparr>lheap := h\<rparr>)
    \<and> driver_inv W {d, rl} (w\<lparr>lheap := h\<rparr>) (L(rl \<mapsto> q, d \<mapsto> xs @ [p])) \<and> dom h = dom (lheap w)"
proof -
  note L = driver_invD(1)[OF inv] and ok = driver_invD(2)[OF inv]
  obtain xs where xs: "L d = Some xs" "set xs \<subseteq> W" using driver_okD(2)[OF ok, of d] by auto
  have qW: "p \<in> W" "set q \<subseteq> W" using driver_okD(2)[OF ok, of rl] q by auto
  have pd: "p \<noteq> d" "p \<noteq> rl" using driver_okD(1)[OF ok] qW(1) by auto
  have Lp: "L p = None" using lists_elem_not_head[OF L q] by simp
  obtain h1 where h1: "list_del_init p (lheap w) = Some h1" "heap_lists h1 (L(rl \<mapsto> q, p \<mapsto> []))"
    "dom h1 = dom (lheap w)"
    using list_del_init_family[OF L q, of p] by auto
  let ?L1 = "L(rl \<mapsto> q, p \<mapsto> [])"
  have L1: "heap_lists h1 (?L1(p := None))" by (rule lists_forget[OF h1(2)])
  have L1d: "(?L1(p := None)) d = Some xs" using xs(1) pd drl by simp
  have L1p: "loose h1 (?L1(p := None)) p" by (rule loose_forget[OF h1(2)]) simp
  obtain h where h: "list_add_tail p d h1 = Some h" "heap_lists h (?L1(p := None, d \<mapsto> xs @ [p]))" "dom h = dom h1"
    using list_add_tail_family[OF L1 L1d L1p] by blast
  have LL: "?L1(p := None, d \<mapsto> xs @ [p]) = L(rl \<mapsto> q, d \<mapsto> xs @ [p])"
    using pd Lp by (intro ext) simp
  let ?L = "L(rl \<mapsto> q, d \<mapsto> xs @ [p])"
  have "queued L x c \<Longrightarrow> c \<in> {d, rl} \<Longrightarrow> \<exists>c\<in>{d, rl}. queued ?L x c" for x c
    using q xs(1) drl by (auto simp: queued_def)
  then have place: "\<exists>c\<in>{d, rl}. queued ?L x c" if "x \<in> W" "event_listening (watchers w x) \<noteq> 0" for x
    using driver_okD(5)[OF ok that] by blast
  have "driver_ok W {d, rl} (watchers w) ?L"
  proof (rule driver_okI)
    fix x assume x: "x \<in> W"
    have "x \<noteq> d" "x \<noteq> rl" using x driver_okD(1)[OF ok] by auto
    then show "if event_listening (watchers w x) = 0 then ?L x = Some [] else \<exists>c\<in>{d, rl}. queued ?L x c"
      using place[OF x] driver_okD(4)[OF ok x] by simp
  qed (use driver_okD(1-3)[OF ok] xs qW in auto)
  then have "driver_inv W {d, rl} (w\<lparr>lheap := h\<rparr>) ?L" using h(2) unfolding LL by (simp add: driver_inv_def)
  then show ?thesis using xs(1) h1 h by (intro exI[of _ h] exI[of _ xs]) (simp add: on_heap_def)
qed

context driver_client
begin

lemma run_watcher_step:
  assumes p: "passing s w0 L0 xs w L don cs (x # q)" and xs: "distinct xs" and drl: "d \<noteq> rl"
  shows "\<exists>w' L' cs' q'. run_watcher dispatch d s x w = Some w' \<and> passing s w0 L0 xs w' L' (don @ [x]) cs' q' \<and> subseq q' q"
proof -
  have f: "driver_inv W {d, rl} w L" "L rl = Some (x # q)" "ext w (driver_others W d rl L)" "calls w = calls w0 @ cs"
    "subseq (don @ x # q) xs" "subseq (map fst cs) don" "\<forall>(x, wt, e)\<in>set cs. e = ready s wt \<and> e \<noteq> 0"
    "\<forall>x'\<in>K \<inter> set xs. x' \<in> set don \<union> set (x # q)"
    "\<forall>x\<in>K \<inter> set don. reported s (watchers w0 x) x cs" "\<forall>x\<in>K - set don. watchers w x = watchers w0 x"
    "\<forall>x\<in>K. x \<notin> set xs \<longrightarrow> (\<forall>c. queued L x c = queued L0 x c)"
    using p unfolding passing_def by - (elim conjE, assumption)+
  note ok = driver_invD(2)[OF f(1)]
  have xW: "x \<in> W" using driver_okD(2)[OF ok, of rl] f(2) by auto
  have dis: "distinct (don @ x # q)" using subseq_distinct[OF f(5) xs] .
  have xx: "x \<in> set xs" using subseq_set_le[OF f(5)] by auto
  have fresh: "x \<notin> fst ` set cs" using subseq_set_le[OF f(6)] dis by auto
  obtain h ys where h: "L d = Some ys"
    "do { w \<leftarrow> on_heap (list_del_init x) w; on_heap (list_add_tail x d) w } = Some (w\<lparr>lheap := h\<rparr>)"
    "driver_inv W {d, rl} (w\<lparr>lheap := h\<rparr>) (L(rl \<mapsto> q, d \<mapsto> ys @ [x]))" "dom h = dom (lheap w)"
    using rotate_watcher[OF f(1,2) drl] by blast
  let ?w1 = "w\<lparr>lheap := h\<rparr>" and ?L1 = "L(rl \<mapsto> q, d \<mapsto> ys @ [x])"
  have q1: "queued ?L1 y c = queued L y c" if "y \<noteq> x" for y c
    using that f(2) h(1) drl by (auto simp: queued_def)
  have ce: "collect_events s (watchers ?w1 x) = Some (ready s (watchers w x))"
    using collect_events_ready driver_okD(3)[OF ok xW] by simp
  obtain w1 where w1: "on_heap (list_del_init x) w = Some w1" "on_heap (list_add_tail x d) w1 = Some ?w1"
    using h(2) by (auto simp: bind_eq_Some_conv)
  have kx: "watchers w x = watchers w0 x" if "x \<in> K" using f(10) that dis by auto
  have don': "subseq ((don @ [x]) @ q') xs" if "subseq q' q" for q'
    using f(5) that subseq_order.trans[of "don @ x # q'" "don @ x # q" xs] by (simp add: subseq_append')
  show ?thesis
  proof (cases "ready s (watchers w x) = 0")
    case True
    have run: "run_watcher dispatch d s x w = Some ?w1" using w1 ce True by (simp add: run_watcher_def)
    have "passing s w0 L0 xs ?w1 ?L1 (don @ [x]) cs q"
      unfolding passing_def
    proof (intro conjI)
      show "driver_inv W {d, rl} ?w1 ?L1" "?L1 rl = Some q" using h(3) drl by simp_all
      show "ext ?w1 (driver_others W d rl ?L1)" using ext_frame[where h = h, OF f(3)] h(4) by simp
      show "calls ?w1 = calls w0 @ cs" using f(4) by simp
      show "subseq ((don @ [x]) @ q) xs" using don' by simp
      show "subseq (map fst cs) (don @ [x])" using f(6) by (rule subseq_order.trans) (simp add: prefix_imp_subseq)
      show "\<forall>(x, wt, e)\<in>set cs. e = ready s wt \<and> e \<noteq> 0" by (rule f(7))
      show "\<forall>y\<in>K \<inter> set xs. y \<in> set (don @ [x]) \<union> set q" using f(8) by auto
      show "\<forall>y\<in>K \<inter> set (don @ [x]). reported s (watchers w0 y) y cs"
      proof
        fix y assume y: "y \<in> K \<inter> set (don @ [x])"
        show "reported s (watchers w0 y) y cs"
        proof (cases "y = x")
          case True
          then have "ready s (watchers w0 y) = 0" using y kx \<open>ready s (watchers w x) = 0\<close> by auto
          then show ?thesis using fresh True by (simp add: reported_def)
        next
          case False
          then show ?thesis using y f(9) by auto
        qed
      qed
      show "\<forall>y\<in>K - set (don @ [x]). watchers ?w1 y = watchers w0 y" using f(10) by auto
      show "\<forall>y\<in>K. y \<notin> set xs \<longrightarrow> (\<forall>c. queued ?L1 y c = queued L0 y c)"
        using f(11) q1 xx by metis
    qed
    with run show ?thesis by blast
  next
    case False
    let ?e = "ready s (watchers w x)"
    let ?w2 = "?w1\<lparr>calls := calls w @ [(x, watchers w x, ?e)]\<rparr>"
    have i2: "driver_inv W {d, rl} ?w2 ?L1" using h(3) by (simp add: driver_inv_def)
    have e2: "ext (?w2\<lparr>calls := calls w\<rparr>) (driver_others W d rl ?L1)"
      using ext_frame[where h = h, OF f(3)] h(4) by simp
    have "?L1 rl = Some q" "queued ?L1 x d" "calls ?w2 = calls w @ [(x, watchers ?w2 x, ?e)]"
      using drl by (simp_all add: queued_def)
    from call[OF drl xW False i2 this e2] obtain w' L' q' where
      c: "dispatch (callback (watchers ?w2 x)) x ?e ?w2 = Some w'" "driver_inv W {d, rl} w' L'"
      "calls w' = calls ?w2" "L' rl = Some q'" "subseq q' q" "ext w' (driver_others W d rl L')"
      "still (K - {x}) ?w2 ?L1 w' L'" by blast
    have run: "run_watcher dispatch d s x w = Some w'"
      using w1 ce False c(1) by (simp add: run_watcher_def)
    let ?cs = "cs @ [(x, watchers w x, ?e)]"
    have st: "watchers w' y = watchers w y \<and> (\<forall>c. queued L' y c = queued L y c)" if "y \<in> K" "y \<noteq> x" for y
      using c(7) that q1 by (simp add: still_def)
    have inq: "y \<in> set q'" if "y \<in> K" "y \<in> set q" for y
    proof -
      have "y \<noteq> x" using that(2) dis by auto
      moreover have "queued L y rl" using that(2) f(2) by (auto simp: queued_def)
      ultimately have "queued L' y rl" using st that(1) by blast
      then show ?thesis using c(4) by (simp add: queued_def)
    qed
    have "passing s w0 L0 xs w' L' (don @ [x]) ?cs q'"
      unfolding passing_def
    proof (intro conjI)
      show "driver_inv W {d, rl} w' L'" "L' rl = Some q'" "ext w' (driver_others W d rl L')" by (rule c)+
      show "calls w' = calls w0 @ ?cs" using c(3) f(4) by simp
      show "subseq ((don @ [x]) @ q') xs" using don' c(5) by simp
      show "subseq (map fst ?cs) (don @ [x])" using f(6) by simp
      show "\<forall>(x, wt, e)\<in>set ?cs. e = ready s wt \<and> e \<noteq> 0" using f(7) False by auto
      show "\<forall>y\<in>K \<inter> set xs. y \<in> set (don @ [x]) \<union> set q'" using f(8) inq by auto
      show "\<forall>y\<in>K \<inter> set (don @ [x]). reported s (watchers w0 y) y ?cs"
      proof
        fix y assume y: "y \<in> K \<inter> set (don @ [x])"
        show "reported s (watchers w0 y) y ?cs"
        proof (cases "y = x")
          case True
          then have "watchers w0 y = watchers w x" using y kx by auto
          then show ?thesis using True \<open>?e \<noteq> 0\<close> by (simp add: reported_def)
        next
          case False
          then have "y \<in> K \<inter> set don" using y by auto
          then show ?thesis using f(9) reported_snoc[OF _ False] by blast
        qed
      qed
      show "\<forall>y\<in>K - set (don @ [x]). watchers w' y = watchers w0 y" using f(10) st by auto
      show "\<forall>y\<in>K. y \<notin> set xs \<longrightarrow> (\<forall>c. queued L' y c = queued L0 y c)"
        using f(11) st xx by metis
    qed
    with run c(5) show ?thesis by blast
  qed
qed

end

interpretation passing: work_list lheap rl "run_watcher dispatch d s"
    "\<lambda>w q. driver_client dispatch W K d rl ext \<and> distinct xs \<and> d \<noteq> rl \<and>
      (\<exists>L don cs. driver_client.passing W K d rl ext s w0 L0 xs w L don cs q)"
  for dispatch W K d rl ext s w0 L0 xs
proof
  fix w :: "'a driver_mem_scheme" and q
  assume "driver_client dispatch W K d rl ext \<and> distinct xs \<and> d \<noteq> rl \<and>
      (\<exists>L don cs. driver_client.passing W K d rl ext s w0 L0 xs w L don cs q)"
  then obtain L don cs where t: "driver_client dispatch W K d rl ext"
    and p: "driver_client.passing W K d rl ext s w0 L0 xs w L don cs q" by blast
  show "\<exists>L. heap_lists (lheap w) L \<and> L rl = Some q"
    using p unfolding driver_client.passing_def[OF t] using driver_invD(1) by blast
next
  fix w :: "'a driver_mem_scheme" and x q
  assume "driver_client dispatch W K d rl ext \<and> distinct xs \<and> d \<noteq> rl \<and>
      (\<exists>L don cs. driver_client.passing W K d rl ext s w0 L0 xs w L don cs (x # q))"
  then obtain L don cs where t: "driver_client dispatch W K d rl ext" and d: "distinct xs" "d \<noteq> rl"
    and p: "driver_client.passing W K d rl ext s w0 L0 xs w L don cs (x # q)" by blast
  from driver_client.run_watcher_step[OF t p d] obtain w' L' cs' q' where
    "run_watcher dispatch d s x w = Some w'"
    "driver_client.passing W K d rl ext s w0 L0 xs w' L' (don @ [x]) cs' q'" "subseq q' q" by blast
  then show "\<exists>w' q'. run_watcher dispatch d s x w = Some w' \<and> (driver_client dispatch W K d rl ext \<and> distinct xs
      \<and> d \<noteq> rl \<and> (\<exists>L don cs. driver_client.passing W K d rl ext s w0 L0 xs w' L don cs q')) \<and> subseq q' q"
    using t d by blast
qed

text \<open>Entering and leaving the scope of the run list.\<close>

lemma driver_fresh:
  assumes "driver_inv W {d} w L" "lheap w rl = None"
  shows "L rl = None" "rl \<notin> W" "rl \<noteq> d" "queued L x c \<Longrightarrow> c \<noteq> rl" "\<not> queued L rl c"
proof -
  note L = driver_invD(1)[OF assms(1)] and ok = driver_invD(2)[OF assms(1)]
  have out: "rl \<notin> cells L" using lists_cells_dom[OF L, of rl] assms(2) by (auto simp: domIff)
  show n: "L rl = None" using out cellsI[of L rl _ rl] by fastforce
  show "rl \<noteq> d" using driver_okD(2)[OF ok, of d] n by auto
  show q: "\<not> queued L rl c" for c using out cellsI[of L c _ rl] by (auto simp: queued_def)
  show "rl \<notin> W"
    using driver_okD(4,5)[OF ok, of rl] n q by (cases "event_listening (watchers w rl) = 0") auto
  show "queued L x c \<Longrightarrow> c \<noteq> rl" using n by (auto simp: queued_def)
qed

lemma postselect_enters:
  fixes w :: "'a driver_mem_scheme"
  assumes inv: "driver_inv W {d} w L" and rl: "lheap w rl = None" "rl \<noteq> NULL" and xs: "L d = Some xs"
  shows "\<exists>h. do { w \<leftarrow> on_heap (INIT_LIST_HEAD rl) (enter_scope rl w); on_heap (list_splice_init d rl) w } = Some (w\<lparr>lheap := h\<rparr>)
    \<and> driver_inv W {d, rl} (w\<lparr>lheap := h\<rparr>) (L(rl \<mapsto> xs, d \<mapsto> [])) \<and> dom h - {rl} = dom (lheap w) - {rl}"
proof -
  note L = driver_invD(1)[OF inv] and ok = driver_invD(2)[OF inv] and fr = driver_fresh[OF inv rl(1)]
  let ?w1 = "enter_scope rl w"
  have L1: "heap_lists (lheap ?w1) (L(rl \<mapsto> []))" using enter_scope_family[OF L rl] .
  have "loose (lheap ?w1) ((L(rl \<mapsto> []))(rl := None)) rl" by (rule loose_forget[OF L1]) simp
  from INIT_LIST_HEAD_family[OF L1 this] obtain h1 where
    h1: "INIT_LIST_HEAD rl (lheap ?w1) = Some h1" "heap_lists h1 (L(rl \<mapsto> []))" "dom h1 = dom (lheap ?w1)" by auto
  obtain h where h: "list_splice_init d rl h1 = Some h" "heap_lists h (L(rl \<mapsto> [], rl \<mapsto> xs @ [], d \<mapsto> []))" "dom h = dom h1"
    using list_splice_init_family[OF h1(2), of rl "[]" d xs] xs fr(3) by auto
  have "driver_ok W {d, rl} (watchers w) (L(rl \<mapsto> xs, d \<mapsto> []))"
  proof (rule driver_okI)
    fix x assume x: "x \<in> W"
    have "x \<noteq> d" "x \<noteq> rl" using x driver_okD(1)[OF ok] fr(2) by auto
    moreover have "queued (L(rl \<mapsto> xs, d \<mapsto> [])) x rl" if "queued L x d"
      using that xs fr(3) by (auto simp: queued_def)
    ultimately show "if event_listening (watchers w x) = 0 then (L(rl \<mapsto> xs, d \<mapsto> [])) x = Some []
        else \<exists>c\<in>{d, rl}. queued (L(rl \<mapsto> xs, d \<mapsto> [])) x c"
      using driver_okD(4,5)[OF ok x] by auto
  qed (use driver_okD(1,3)[OF ok] driver_okD(2)[OF ok, of d] xs fr in auto)
  then have "driver_inv W {d, rl} (w\<lparr>lheap := h\<rparr>) (L(rl \<mapsto> xs, d \<mapsto> []))"
    using h(2) by (simp add: driver_inv_def)
  moreover have "dom h - {rl} = dom (lheap w) - {rl}" using h(3) h1(3) by (auto simp: enter_scope_def)
  ultimately show ?thesis using h1(1) h(1) by (intro exI[of _ h]) (simp add: on_heap_def enter_scope_def)
qed

lemma postselect_leaves:
  assumes inv: "driver_inv W {d, rl} w L" and q: "L rl = Some []" and drl: "d \<noteq> rl"
  shows "driver_inv W {d} (leave_scope rl w) (L(rl := None))"
proof -
  note ok = driver_invD(2)[OF inv]
  have "driver_ok W {d} (watchers w) (L(rl := None))"
  proof (rule driver_okI)
    fix x assume x: "x \<in> W"
    have "x \<noteq> rl" using x driver_okD(1)[OF ok] by auto
    moreover have "queued (L(rl := None)) x d" if "queued L x d" using that drl by (auto simp: queued_def)
    moreover have "\<not> queued L x rl" using q by (auto simp: queued_def)
    ultimately show "if event_listening (watchers w x) = 0 then (L(rl := None)) x = Some []
        else \<exists>c\<in>{d}. queued (L(rl := None)) x c"
      using driver_okD(4,5)[OF ok x] by auto
  qed (use driver_okD(1-3)[OF ok] drl in auto)
  then show ?thesis using leave_scope_family[OF driver_invD(1)[OF inv] q]
    by (simp add: driver_inv_def leave_scope_def)
qed

context driver_client
begin

lemma postselect:
  fixes w :: "'a driver_mem_scheme"
  assumes inv: "driver_inv W {d} w L" and rl: "lheap w rl = None" "rl \<noteq> NULL" and xs: "L d = Some xs"
    and ext: "ext w (driver_others W d rl L)"
  shows "\<exists>w' L' cs. io_driver_postselect dispatch rl d s w = Some w' \<and> driver_inv W {d} w' L'
    \<and> lheap w' rl = None \<and> ext w' (driver_others W d rl L') \<and> calls w' = calls w @ cs \<and> subseq (map fst cs) xs
    \<and> (\<forall>(x, wt, e)\<in>set cs. e = ready s wt \<and> e \<noteq> 0)
    \<and> (\<forall>x\<in>K \<inter> set xs. reported s (watchers w x) x cs)
    \<and> (\<forall>x\<in>K. x \<notin> set xs \<longrightarrow> watchers w' x = watchers w x)"
proof -
  note fr = driver_fresh[OF inv rl(1)]
  have dis: "distinct xs" using ring_distinct[OF listsD(2)[OF driver_invD(1)[OF inv] xs]] by simp
  obtain h where h: "do { w \<leftarrow> on_heap (INIT_LIST_HEAD rl) (enter_scope rl w); on_heap (list_splice_init d rl) w }
      = Some (w\<lparr>lheap := h\<rparr>)" "driver_inv W {d, rl} (w\<lparr>lheap := h\<rparr>) (L(rl \<mapsto> xs, d \<mapsto> []))"
    "dom h - {rl} = dom (lheap w) - {rl}"
    using postselect_enters[OF inv rl xs] by blast
  let ?w1 = "w\<lparr>lheap := h\<rparr>" and ?L1 = "L(rl \<mapsto> xs, d \<mapsto> [])"
  have "ext ?w1 (driver_others W d rl ?L1)"
    using ext_frame[where h = h, OF ext] h(3) by simp
  moreover have "?L1 rl = Some xs" using fr(3) by simp
  ultimately have "passing s ?w1 ?L1 xs ?w1 ?L1 [] [] xs"
    using h(2) unfolding passing_def by auto
  then have "driver_client dispatch W K d rl ext \<and> distinct xs \<and> d \<noteq> rl \<and> (\<exists>L don cs. passing s ?w1 ?L1 xs ?w1 L don cs xs)"
    using driver_client_axioms dis fr(3) by blast
  from passing.drains[OF this] obtain w1 M don cs where
    w1: "while_not_empty lheap rl (run_watcher dispatch d s) ?w1 = Some w1"
    and "passing s ?w1 ?L1 xs w1 M don cs []" by blast
  then have f: "driver_inv W {d, rl} w1 M" "M rl = Some []" "ext w1 (driver_others W d rl M)"
    "calls w1 = calls w @ cs" "subseq don xs" "subseq (map fst cs) don"
    "\<forall>(x, wt, e)\<in>set cs. e = ready s wt \<and> e \<noteq> 0" "\<forall>x\<in>K \<inter> set xs. x \<in> set don"
    "\<forall>x\<in>K \<inter> set don. reported s (watchers w x) x cs" "\<forall>x\<in>K - set don. watchers w1 x = watchers w x"
    unfolding passing_def by simp_all
  let ?w' = "leave_scope rl w1" and ?L' = "M(rl := None)"
  have i': "driver_inv W {d} ?w' ?L'" by (rule postselect_leaves[OF f(1,2)]) (use fr(3) in simp)
  have s1: "subseq (map fst cs) xs" by (rule subseq_order.trans[OF f(6,5)])
  obtain w2 where w2: "on_heap (INIT_LIST_HEAD rl) (enter_scope rl w) = Some w2"
    "on_heap (list_splice_init d rl) w2 = Some ?w1"
    using h(1) by (auto simp: bind_eq_Some_conv)
  have r: "io_driver_postselect dispatch rl d s w = Some ?w'"
    using w2 w1 by (simp add: io_driver_postselect_def Let_def)
  have k: "\<forall>x\<in>K \<inter> set xs. reported s (watchers w x) x cs" using f(8,9) by blast
  have k2: "\<forall>x\<in>K. x \<notin> set xs \<longrightarrow> watchers w1 x = watchers w x"
    using f(10) subseq_set_le[OF f(5)] by blast
  have e': "ext ?w' (driver_others W d rl ?L')"
    using ext_frame[where h = "(lheap w1)(rl := None)", OF f(3)] by (auto simp: leave_scope_def)
  show ?thesis using i' r s1 f(4,7) k k2 e'
    by (intro exI[of _ ?w'] exI[of _ ?L'] exI[of _ cs]) (simp add: leave_scope_def)
qed

end

context driver_client
begin

lemma run_ok:
  fixes w :: "'a driver_mem_scheme" and select :: "'a driver_mem_scheme select_fun"
  assumes inv: "driver_inv W {d} w L" and rl: "lheap w rl = None" "rl \<noteq> NULL" and xs: "L d = Some xs"
    and ext: "ext w (driver_others W d rl L)"
  defines "s0 \<equiv> select_args (map (watchers w) xs)"
  defines "ret \<equiv> fst (call_select select (maxfd s0 + 1) s0 w)"
  defines "s \<equiv> snd (call_select select (maxfd s0 + 1) s0 w)"
  shows "\<exists>w' L' cs. io_driver_run dispatch select rl d w = Some w' \<and> driver_inv W {d} w' L'
    \<and> lheap w' rl = None \<and> ext w' (driver_others W d rl L') \<and> calls w' = calls w @ cs
    \<and> (if ret \<le> 0 then w' = w \<and> cs = []
       else subseq (map fst cs) xs \<and> (\<forall>(x, wt, e)\<in>set cs. e = ready s wt \<and> e \<noteq> 0)
         \<and> (\<forall>x\<in>K \<inter> set xs. reported s (watchers w x) x cs)
         \<and> (\<forall>x\<in>K. x \<notin> set xs \<longrightarrow> watchers w' x = watchers w x))"
proof -
  note ok = driver_invD(2)[OF inv]
  have pre: "io_driver_preselect d w = Some (s0, w)"
    using io_driver_preselect_ok[of W d "{}" w L xs] inv xs by (simp add: s0_def)
  have "set xs \<subseteq> W" using driver_okD(2)[OF ok, of d] xs by auto
  then have "0 \<le> maxfd s0 \<and> maxfd s0 < FD_SETSIZE"
    unfolding s0_def using driver_okD(3)[OF ok] by (intro select_args_maxfd) auto
  then have nf: "c_add (maxfd s0) 1 = Some (maxfd s0 + 1)"
    by (simp add: c_add_def int_range_def INT_MIN_def INT_MAX_def FD_SETSIZE_def)
  have cs: "call_select select (maxfd s0 + 1) s0 w = (ret, s)" by (simp add: ret_def s_def)
  show ?thesis
  proof (cases "ret \<le> 0")
    case True
    then have "io_driver_run dispatch select rl d w = Some w"
      using pre nf cs by (auto simp: io_driver_run_def)
    then show ?thesis using True inv rl(1) ext by (intro exI[of _ w] exI[of _ L] exI[of _ "[]"]) simp
  next
    case False
    then have "io_driver_run dispatch select rl d w = io_driver_postselect dispatch rl d s w"
      using pre nf cs by (simp add: io_driver_run_def)
    then show ?thesis using postselect[OF inv rl xs ext, of s] False by simp
  qed
qed

end

section \<open>A client\<close>

text \<open>
  A client whose callbacks make any calls of the interface on the watchers \<open>X\<close> and on their own:
  \<open>f\<close> chooses them, after looking at the whole state.
\<close>

datatype driver_call = Driver_watch addr u8 | Driver_no_watch addr u8 | Driver_set_cb addr io_callback

fun driver_call_on :: "driver_call \<Rightarrow> addr" where
  "driver_call_on (Driver_watch p ev) = p"
| "driver_call_on (Driver_no_watch p ev) = p"
| "driver_call_on (Driver_set_cb p cb) = p"

fun do_driver_call :: "addr \<Rightarrow> driver_call \<Rightarrow> 'a driver_mem_scheme \<Rightarrow> 'a driver_mem_scheme option" where
  "do_driver_call d (Driver_watch p ev) w = io_driver_watch d p ev w"
| "do_driver_call d (Driver_no_watch p ev) w = io_driver_no_watch d p ev w"
| "do_driver_call d (Driver_set_cb p cb) w = Some (io_driver_watcher_set_cb p cb w)"

fun do_driver_calls :: "addr \<Rightarrow> driver_call list \<Rightarrow> 'a driver_mem_scheme \<Rightarrow> 'a driver_mem_scheme option" where
  "do_driver_calls d [] w = Some w"
| "do_driver_calls d (c # cs) w = do { w \<leftarrow> do_driver_call d c w; do_driver_calls d cs w }"

definition script_dispatch ::
  "addr set \<Rightarrow> addr \<Rightarrow> (io_callback \<Rightarrow> addr \<Rightarrow> u8 \<Rightarrow> 'a driver_mem_scheme \<Rightarrow> driver_call list) \<Rightarrow>
   io_callback \<Rightarrow> addr \<Rightarrow> u8 \<Rightarrow> 'a driver_mem_scheme \<Rightarrow> 'a driver_mem_scheme option" where
  "script_dispatch X d f cb p e w =
     do_driver_calls d (filter (\<lambda>c. driver_call_on c \<in> insert p X) (f cb p e w)) w"

lemma do_driver_calls_effect:
  fixes w :: "'a driver_mem_scheme"
  shows "driver_inv W (insert d R) w L \<Longrightarrow> X \<subseteq> W \<Longrightarrow> d \<notin> R \<Longrightarrow> \<forall>c\<in>set cs. driver_call_on c \<in> X \<Longrightarrow>
    \<exists>w' L'. do_driver_calls d cs w = Some w' \<and> driver_effect W d R X w L w' L'"
proof (induction cs arbitrary: w L)
  case Nil
  then show ?case using driver_effect_refl[OF Nil.prems(1)] by auto
next
  case (Cons c cs)
  have on: "driver_call_on c \<in> X" "driver_call_on c \<in> W" using Cons.prems(2,4) by auto
  have "\<exists>w1 L1. do_driver_call d c w = Some w1 \<and> driver_effect W d R X w L w1 L1"
  proof (cases c)
    case (Driver_watch p ev)
    then show ?thesis using io_driver_watch_effect[OF Cons.prems(1), of p X ev] on Cons.prems(3) by auto
  next
    case (Driver_no_watch p ev)
    then show ?thesis using io_driver_no_watch_effect[OF Cons.prems(1), of p X ev] on Cons.prems(3) by auto
  next
    case (Driver_set_cb p cb)
    then show ?thesis using io_driver_watcher_set_cb_effect[OF Cons.prems(1), of p X cb] on by auto
  qed
  then obtain w1 L1 where 1: "do_driver_call d c w = Some w1" "driver_effect W d R X w L w1 L1" by blast
  obtain w' L' where 2: "do_driver_calls d cs w1 = Some w'" "driver_effect W d R X w1 L1 w' L'"
    using Cons.IH[OF driver_effect_inv(1)[OF 1(2)]] Cons.prems by auto
  show ?case using 1(1) 2(1) driver_effect_trans[OF 1(2) 2(2)] by auto
qed

interpretation driver_script: driver_client "script_dispatch (W - K) d f" W K d rl "\<lambda>_ _. True"
  for W K d rl and f :: "io_callback \<Rightarrow> addr \<Rightarrow> u8 \<Rightarrow> 'a driver_mem_scheme \<Rightarrow> driver_call list"
proof
  fix p e L q and w :: "'a driver_mem_scheme"
  assume a: "p \<in> W" "driver_inv W {d, rl} w L" "L rl = Some q" "d \<noteq> rl"
  let ?cs = "filter (\<lambda>c. driver_call_on c \<in> insert p (W - K)) (f (callback (watchers w p)) p e w)"
  obtain w' L' where c: "do_driver_calls d ?cs w = Some w'" "driver_effect W d {rl} (insert p (W - K)) w L w' L'"
    using do_driver_calls_effect[OF a(2), of "insert p (W - K)" ?cs] a(1,4) by auto
  then have "still (K - {p}) w L w' L'"
    unfolding driver_effect_def using still_mono[of "- insert p (W - K)" w L w' L' "K - {p}"] by auto
  moreover obtain q' where "L' rl = Some q'" "subseq q' q" using c(2) a(3) unfolding driver_effect_def by auto
  ultimately show "\<exists>w' L' q'. script_dispatch (W - K) d f (callback (watchers w p)) p e w = Some w' \<and> driver_inv W {d, rl} w' L'
      \<and> calls w' = calls w \<and> L' rl = Some q' \<and> subseq q' q \<and> True \<and> still (K - {p}) w L w' L'"
    using c(1) driver_effect_inv[OF c(2)] by (auto simp: script_dispatch_def)
qed simp

section \<open>Properties\<close>

text \<open>C11: A pass of the event loop returns and keeps the watcher lists well formed, for every client
  callback and every answer of \<open>select\<close>. It calls only watchers that were registered when the pass
  began, each at most once and in their order, with exactly those events that \<open>select\<close> reported
  and that the watcher listens for at the moment of the call; a watcher that no other callback
  touches gets all its events, and no callback without one. On an error or a timeout nothing
  happens.\<close>

theorem io_driver_run_dispatches:
  fixes w :: "'a driver_mem_scheme" and f :: "io_callback \<Rightarrow> addr \<Rightarrow> u8 \<Rightarrow> 'a driver_mem_scheme \<Rightarrow> driver_call list"
    and select :: "'a driver_mem_scheme select_fun"
  assumes "driver_inv W {d} w L" "lheap w rl = None" "rl \<noteq> NULL" "L d = Some xs"
    and "call_select select (maxfd (select_args (map (watchers w) xs)) + 1) (select_args (map (watchers w) xs)) w = (ret, s)"
  shows "\<exists>w' L' cs. io_driver_run (script_dispatch (W - K) d f) select rl d w = Some w' \<and> driver_inv W {d} w' L'
    \<and> calls w' = calls w @ cs
    \<and> (if ret \<le> 0 then w' = w
       else subseq (map fst cs) xs \<and> (\<forall>(x, wt, e)\<in>set cs. e = ready s wt \<and> e \<noteq> 0)
         \<and> (\<forall>x\<in>K \<inter> set xs. reported s (watchers w x) x cs))"
proof -
  obtain w' L' cs where r: "io_driver_run (script_dispatch (W - K) d f) select rl d w = Some w'"
    "driver_inv W {d} w' L'" "calls w' = calls w @ cs"
    "if ret \<le> 0 then w' = w \<and> cs = []
     else subseq (map fst cs) xs \<and> (\<forall>(x, wt, e)\<in>set cs. e = ready s wt \<and> e \<noteq> 0)
       \<and> (\<forall>x\<in>K \<inter> set xs. reported s (watchers w x) x cs)
       \<and> (\<forall>x\<in>K. x \<notin> set xs \<longrightarrow> watchers w' x = watchers w x)"
    using driver_script.run_ok[where K = K and f = f and select = select, OF assms(1-4) TrueI]
    unfolding assms(5) fst_conv snd_conv by blast
  then show ?thesis by (intro exI[of _ w'] exI[of _ L'] exI[of _ cs]) (simp split: if_splits)
qed

text \<open>The arguments of \<open>select\<close> name exactly the descriptors of the watchers that listen for the
  event in question, the null pointer stands for an empty set, and \<open>nfds\<close> is one more than the
  greatest descriptor.\<close>

theorem io_driver_preselect_correct:
  fixes w :: "'a driver_mem_scheme"
  assumes "driver_inv W {d} w L"
  shows "\<exists>s. io_driver_preselect d w = Some (s, w)
    \<and> rset s = {wfd (watchers w x) |x. x \<in> W \<and> event_listening (watchers w x) AND IO_DRIVER_EVENT_RX \<noteq> 0}
    \<and> wset s = {wfd (watchers w x) |x. x \<in> W \<and> event_listening (watchers w x) AND IO_DRIVER_EVENT_TX \<noteq> 0}
    \<and> eset s = {wfd (watchers w x) |x. x \<in> W \<and> event_listening (watchers w x) AND IO_DRIVER_EVENT_EX \<noteq> 0}
    \<and> rset_empty s = (rset s = {}) \<and> wset_empty s = (wset s = {}) \<and> eset_empty s = (eset s = {})
    \<and> (\<forall>fd\<in>rset s \<union> wset s \<union> eset s. fd \<le> maxfd s)
    \<and> maxfd s \<in> insert 0 (rset s \<union> wset s \<union> eset s)"
proof -
  note ok = driver_invD(2)[OF assms]
  obtain xs where xs: "L d = Some xs" "set xs \<subseteq> W" using driver_okD(2)[OF ok, of d] by auto
  have in_xs: "x \<in> set xs" if "x \<in> W" "event_listening (watchers w x) AND ev \<noteq> 0" for x ev
  proof -
    have "event_listening (watchers w x) \<noteq> 0" using that(2) by auto
    then show ?thesis using driver_okD(5)[OF ok that(1)] xs(1) by (auto simp: queued_def)
  qed
  have "listeners ev (map (watchers w) xs)
      = {wfd (watchers w x) |x. x \<in> W \<and> event_listening (watchers w x) AND ev \<noteq> 0}" for ev
    using in_xs[of _ ev] xs(2) by (auto simp: listeners_def image_iff)
  note l = this
  have top: "fd \<le> top_fd S" if "finite S" "fd \<in> S" for fd S using that by (simp add: top_fd_def)
  have top2: "top_fd S \<in> insert 0 S" if "finite S" for S using Max_in[of "insert 0 S"] that by (simp add: top_fd_def)
  let ?s = "select_args (map (watchers w) xs)"
  let ?all = "rset ?s \<union> wset ?s \<union> eset ?s"
  have m: "maxfd ?s = top_fd ?all" "finite ?all" by (simp_all add: select_args_def)
  have "io_driver_preselect d w = Some (?s, w)"
    using io_driver_preselect_ok[of W d "{}" w L xs] assms xs(1) by simp
  moreover have "rset_empty ?s = (rset ?s = {})" "wset_empty ?s = (wset ?s = {})" "eset_empty ?s = (eset ?s = {})"
    by (simp_all add: select_args_def)
  moreover have "\<forall>fd\<in>?all. fd \<le> maxfd ?s" "maxfd ?s \<in> insert 0 ?all"
    unfolding m(1) using top[OF m(2)] top2[OF m(2)] by blast+
  moreover have "rset ?s = listeners IO_DRIVER_EVENT_RX (map (watchers w) xs)"
    "wset ?s = listeners IO_DRIVER_EVENT_TX (map (watchers w) xs)"
    "eset ?s = listeners IO_DRIVER_EVENT_EX (map (watchers w) xs)"
    by (simp_all add: select_args_def)
  ultimately show ?thesis unfolding l by (intro exI[of _ ?s] conjI) assumption+
qed

text \<open>C14: Every sequence of watch and unwatch calls returns and keeps the rule that a watcher is
  linked in the driver's list exactly while it listens for some event; the watchers not named, the
  timers and the rest of the state stay as they are.\<close>

theorem io_driver_calls_keep_lists:
  fixes w :: "'a driver_mem_scheme"
  assumes "driver_inv W {d} w L" "X \<subseteq> W" "\<forall>c\<in>set cs. driver_call_on c \<in> X"
  shows "\<exists>w' L'. do_driver_calls d cs w = Some w' \<and> driver_inv W {d} w' L'
    \<and> (\<forall>x\<in>- X. watchers w' x = watchers w x) \<and> st w' = st w \<and> elem_tick w' = elem_tick w
    \<and> (\<forall>c. c \<notin> W \<union> {d} \<longrightarrow> L' c = L c)"
proof -
  obtain w' L' where e: "do_driver_calls d cs w = Some w'" "driver_effect W d {} X w L w' L'"
    using do_driver_calls_effect[of W d "{}" w L X cs] assms by auto
  then obtain h ws where "w' = w\<lparr>lheap := h, watchers := ws\<rparr>" unfolding driver_effect_def by blast
  then have "st w' = st w" "elem_tick w' = elem_tick w" by simp_all
  then show ?thesis using e unfolding driver_effect_def still_def by auto
qed

text \<open>Watching an event and unwatching it again leaves an idle watcher idle and every list as it
  was.\<close>

theorem io_driver_watch_no_watch:
  fixes w :: "'a driver_mem_scheme"
  assumes inv: "driver_inv W {d} w L" and p: "p \<in> W" "event_listening (watchers w p) = 0"
  shows "\<exists>w1 w'. io_driver_watch d p ev w = Some w1 \<and> event_listening (watchers w1 p) = ev
    \<and> io_driver_no_watch d p ev w1 = Some w' \<and> watchers w' = watchers w \<and> heap_lists (lheap w') L"
proof -
  note L = driver_invD(1)[OF inv] and ok = driver_invD(2)[OF inv]
  have Lp: "L p = Some []" by (rule driver_okD(4)[OF ok p])
  obtain xs where xs: "L d = Some xs" "set xs \<subseteq> W" using driver_okD(2)[OF ok, of d] by auto
  have pd: "p \<noteq> d" using driver_okD(1)[OF ok] p(1) by auto
  have pw: "put_watcher p (watchers w p) w = w" by (simp add: put_watcher_def)
  have lis: "(watchers w p)\<lparr>event_listening := 0\<rparr> = watchers w p" using p(2) by simp
  show ?thesis
  proof (cases "ev = 0")
    case True
    then show ?thesis using p(2) L by (simp add: io_driver_watch_def io_driver_no_watch_def put_watcher_def lis)
  next
    case False
    obtain h where h: "list_add_tail p d (lheap w) = Some h" "heap_lists h (L(p := None, d \<mapsto> xs @ [p]))"
      using list_add_tail_family[OF lists_forget[OF L] _ loose_forget[OF L Lp], of d xs] xs(1) pd by auto
    have "p \<notin> set xs" using lists_elem_not_head[OF L xs(1)] Lp by auto
    then have rem: "remove1 p (xs @ [p]) = xs" by (simp add: remove1_append)
    obtain h' where h': "list_del_init p h = Some h'"
      "heap_lists h' (L(p := None, d \<mapsto> xs @ [p], d \<mapsto> remove1 p (xs @ [p]), p \<mapsto> []))"
      using list_del_init_family[OF h(2), of d "xs @ [p]" p] by auto
    have LL: "L(p := None, d \<mapsto> xs @ [p], d \<mapsto> remove1 p (xs @ [p]), p \<mapsto> []) = L"
      unfolding rem using xs(1) Lp pd by (intro ext) simp
    show ?thesis using h(1) h' False p(2) unfolding LL
      by (simp add: io_driver_watch_def io_driver_no_watch_def put_watcher_def on_heap_def lis)
  qed
qed

section \<open>Concrete instances\<close>

text \<open>A driver at 1 and two idle watchers, 2 on descriptor 5 and 3 on descriptor 7.\<close>

definition demo_driver :: driver_mem where
  "demo_driver = \<lparr>lheap = idle_heap {1, 2, 3}, st = \<lparr>tick_rate = 10, tick = 0, buckets = []\<rparr>,
     elem_tick = (\<lambda>_. 0), fired = [],
     watchers = (\<lambda>p. \<lparr>wfd = (if p = 2 then 5 else 7), event_listening = 0, callback = Other_callback 0\<rparr>),
     calls = []\<rparr>"

lemma demo_driver_inv: "driver_inv {2, 3} {1} demo_driver (idle_lists {1, 2, 3})"
proof -
  have "heap_lists (idle_heap {1, 2, 3}) (idle_lists {1, 2, 3})" by (rule idle_heap_lists) (simp add: NULL_def)
  then show ?thesis by (auto simp: driver_inv_def driver_ok_def demo_driver_def idle_lists_def FD_SETSIZE_def)
qed

text \<open>Watcher 2 listens for input.\<close>

definition demo_watching :: driver_mem where
  "demo_watching = the (io_driver_watch 1 2 IO_DRIVER_EVENT_RX demo_driver)"

lemma demo_watching_inv:
  "\<exists>L. driver_inv {2, 3} {1} demo_watching L \<and> L 1 = Some [2] \<and> lheap demo_watching 9 = None
    \<and> watchers demo_watching 2 = \<lparr>wfd = 5, event_listening = IO_DRIVER_EVENT_RX, callback = Other_callback 0\<rparr>
    \<and> calls demo_watching = []"
proof -
  have "driver_inv {2, 3} (insert 1 {}) demo_driver (idle_lists {1, 2, 3})" using demo_driver_inv by simp
  from io_driver_watch_effect[OF this, of 2 "{2}" IO_DRIVER_EVENT_RX] obtain w L where
    w: "io_driver_watch 1 2 IO_DRIVER_EVENT_RX demo_driver = Some w"
    "driver_effect {2, 3} 1 {} {2} demo_driver (idle_lists {1, 2, 3}) w L"
    "watchers w 2 = (watchers demo_driver 2)\<lparr>event_listening := event_listening (watchers demo_driver 2) OR IO_DRIVER_EVENT_RX\<rparr>"
    by auto
  then have eq: "demo_watching = w" by (simp add: demo_watching_def)
  have i: "driver_inv {2, 3} {1} w L" using driver_effect_inv(1)[OF w(2)] by simp
  have w2: "watchers w 2 = \<lparr>wfd = 5, event_listening = IO_DRIVER_EVENT_RX, callback = Other_callback 0\<rparr>"
    using w(3) by (simp add: demo_driver_def)
  obtain xs where xs: "L 1 = Some xs" "set xs \<subseteq> {2, 3}" using driver_okD(2)[OF driver_invD(2)[OF i], of 1] by auto
  have "still (- {2}) demo_driver (idle_lists {1, 2, 3}) w L" using w(2) by (simp add: driver_effect_def)
  then have "queued L 3 1 = queued (idle_lists {1, 2, 3}) 3 1" by (simp add: still_def)
  then have w3: "\<not> queued L 3 1" by (simp add: queued_def idle_lists_def)
  have "queued L 2 1" using driver_okD(5)[OF driver_invD(2)[OF i], of 2] w2 by (auto simp: IO_DRIVER_EVENT_RX_def)
  then have "set xs = {2}" using xs w3 by (auto simp: queued_def)
  moreover have "distinct xs" using ring_distinct[OF listsD(2)[OF driver_invD(1)[OF i] xs(1)]] by simp
  ultimately have "xs = [2]" using distinct_card[of xs] by (cases xs; cases "tl xs") auto
  moreover have "lheap w 9 = None"
  proof -
    have "9 \<notin> dom (lheap demo_driver)" by (simp add: demo_driver_def idle_heap_def domIff)
    then show ?thesis unfolding driver_effect_inv(4)[OF w(2), symmetric] by (simp add: domIff)
  qed
  moreover have "calls w = []" using driver_effect_inv(2)[OF w(2)] by (simp add: demo_driver_def)
  ultimately show ?thesis using i xs(1) w2 unfolding eq by blast
qed

theorem io_driver_run_dispatches_witness:
  "\<exists>w' cs. io_driver_run (script_dispatch ({2, 3} - {2, 3}) 1 (\<lambda>cb p e w. [Driver_watch 2 IO_DRIVER_EVENT_TX]))
      (\<lambda>nfds r t x w. (1, {5}, {}, {})) 9 1 demo_watching = Some w' \<and> calls w' = cs
    \<and> (2, \<lparr>wfd = 5, event_listening = IO_DRIVER_EVENT_RX, callback = Other_callback 0\<rparr>, IO_DRIVER_EVENT_RX) \<in> set cs"
proof -
  obtain L where L: "driver_inv {2, 3} {1} demo_watching L" "L 1 = Some [2]" "lheap demo_watching 9 = None"
    "watchers demo_watching 2 = \<lparr>wfd = 5, event_listening = IO_DRIVER_EVENT_RX, callback = Other_callback 0\<rparr>"
    "calls demo_watching = []"
    using demo_watching_inv by blast
  let ?sel = "\<lambda>nfds r t x w. (1, {5}, {}, {})" and ?wt = "watchers demo_watching 2"
  let ?s0 = "select_args (map (watchers demo_watching) [2])"
  obtain ret s where c: "call_select ?sel (maxfd ?s0 + 1) ?s0 demo_watching = (ret, s)" by force
  have ev: "listeners IO_DRIVER_EVENT_RX [?wt] = {5}" using L(4) by (auto simp: listeners_def IO_DRIVER_EVENT_RX_def)
  have "\<not> rset_empty ?s0" using ev by (simp add: select_args_def)
  then have "fst (call_select ?sel n ?s0 w) = 1 \<and> rset (snd (call_select ?sel n ?s0 w)) = {5}" for n w
    by (simp add: call_select_def)
  then have rs: "ret = 1" "rset s = {5}" using c by (metis fst_conv, metis snd_conv)
  have rd: "ready s ?wt = IO_DRIVER_EVENT_RX"
    unfolding ready_def L(4) rs(2)
    by (simp add: IO_DRIVER_EVENT_RX_def IO_DRIVER_EVENT_TX_def IO_DRIVER_EVENT_EX_def)
  obtain w' cs where "io_driver_run (script_dispatch ({2, 3} - {2, 3}) 1 (\<lambda>cb p e w. [Driver_watch 2 IO_DRIVER_EVENT_TX]))
      ?sel 9 1 demo_watching = Some w'" "calls w' = calls demo_watching @ cs"
    "\<forall>x\<in>{2, 3} \<inter> set [2]. reported s (watchers demo_watching x) x cs"
    using io_driver_run_dispatches[where K = "{2, 3}" and select = ?sel
        and f = "\<lambda>cb p e w. [Driver_watch 2 IO_DRIVER_EVENT_TX]", OF L(1,3) _ L(2) c] rs(1)
    by (auto simp: NULL_def)
  moreover from this(3) have "reported s ?wt 2 cs" by simp
  then have "(2, ?wt, IO_DRIVER_EVENT_RX) \<in> set cs"
    unfolding reported_def rd by (simp add: IO_DRIVER_EVENT_RX_def)
  ultimately show ?thesis using L(4,5) by auto
qed

theorem io_driver_preselect_correct_witness:
  "\<exists>s. io_driver_preselect 1 demo_driver = Some (s, demo_driver) \<and> rset_empty s \<and> maxfd s = 0"
  using io_driver_preselect_correct[OF demo_driver_inv] by (auto simp: demo_driver_def)

theorem io_driver_calls_keep_lists_witness:
  "\<exists>w' L'. do_driver_calls 1 [Driver_watch 2 IO_DRIVER_EVENT_RX, Driver_no_watch 2 IO_DRIVER_EVENT_EX,
      Driver_no_watch 2 IO_DRIVER_EVENT_RX] demo_driver = Some w'
    \<and> driver_inv {2, 3} {1} w' L' \<and> watchers w' 3 = watchers demo_driver 3"
  using io_driver_calls_keep_lists[OF demo_driver_inv, of "{2}" "[Driver_watch 2 IO_DRIVER_EVENT_RX,
      Driver_no_watch 2 IO_DRIVER_EVENT_EX, Driver_no_watch 2 IO_DRIVER_EVENT_RX]"] by auto

theorem io_driver_watch_no_watch_witness:
  "\<exists>w1 w'. io_driver_watch 1 3 6 demo_driver = Some w1 \<and> event_listening (watchers w1 3) = 6
    \<and> io_driver_no_watch 1 3 6 w1 = Some w' \<and> watchers w' = watchers demo_driver"
  using io_driver_watch_no_watch[OF demo_driver_inv, of 3 6] by (auto simp: demo_driver_def)

end
