(* ===== verification/Os_Calls.thy ===== *)
theory Os_Calls
  imports Io_Driver
begin

text \<open>
  The system calls the program makes. The operating system is a parameter, a function from the
  call and the calls made before, with their answers, to the answer of the call; so every
  behaviour of the system is one such function. The calls and their answers are recorded in the
  state, \<open>errno\<close> is set by them, and \<open>bufs\<close> holds the byte arrays that pointers of the program
  refer to.

  \<open>os_ok\<close> states what the manual pages promise of the answers and the code relies on: descriptors
  handed out are not in use and small enough for \<open>select\<close>, and a call that fills a buffer does
  not fill more than it was offered.
\<close>

section \<open>State and calls\<close>

text \<open>An IPv4 address with its port.\<close>

type_synonym sockaddr = "u32 \<times> u16"

datatype tls_call =
    Tls_net_init | Tls_net_free int
  | Tls_ssl_init | Tls_ssl_free
  | Tls_config_init | Tls_config_free
  | Tls_entropy_init | Tls_entropy_free
  | Tls_pk_init | Tls_pk_free
  | Tls_crt_init | Tls_crt_free
  | Tls_ctr_drbg_init | Tls_ctr_drbg_free
  | Tls_ctr_drbg_seed
  | Tls_crt_parse_srv | Tls_crt_parse_cas
  | Tls_pk_parse_srv_key
  | Tls_config_defaults bool
  | Tls_conf_rng | Tls_conf_ca_chain_next | Tls_conf_ca_chain | Tls_conf_own_cert | Tls_conf_authmode_none
  | Tls_ssl_setup addr
  | Tls_set_bio
  | Tls_handshake
  | Tls_read int
  | Tls_write bytes

datatype os_call =
    Sys_read int int
  | Sys_write int bytes
  | Sys_close int
  | Sys_socket bool
  | Sys_bind int sockaddr
  | Sys_listen int int
  | Sys_accept int
  | Sys_connect int sockaddr
  | Sys_getsockopt_error int
  | Sys_setsockopt_reuseaddr int
  | Sys_recvfrom int int
  | Sys_sendto int sockaddr bytes
  | Sys_ioctl_nonblock int
  | Sys_fcntl_setfd int
  | Sys_fcntl_getfl int
  | Sys_fcntl_setfl int int
  | Sys_pipe
  | Sys_fork
  | Sys_dup2 int int
  | Sys_execv addr addr
  | Sys_exit int
  | Sys_waitpid int
  | Sys_timerfd_create
  | Sys_timerfd_settime int int
  | Tls tls_call addr

text \<open>An answer: the return value, \<open>errno\<close>, the bytes, address and integers stored through pointers.\<close>

record os_result =
  os_ret :: int
  os_errno :: int
  os_data :: bytes
  os_addr :: sockaddr
  os_val :: int
  os_val2 :: int

type_synonym os_trace = "(os_call \<times> os_result) list"
type_synonym os = "os_call \<Rightarrow> os_trace \<Rightarrow> os_result"

record os_mem = driver_mem +
  trace :: os_trace
  errno :: int
  bufs :: "addr \<Rightarrow> bytes"

definition os_do :: "os \<Rightarrow> os_call \<Rightarrow> 'a os_mem_scheme \<Rightarrow> os_result \<times> 'a os_mem_scheme" where
  "os_do os c w = (let r = os c (trace w) in (r, w\<lparr>trace := trace w @ [(c, r)], errno := os_errno r\<rparr>))"

text \<open>A call whose only result is its return value.\<close>

definition sys :: "os \<Rightarrow> os_call \<Rightarrow> 'a os_mem_scheme \<Rightarrow> int \<times> 'a os_mem_scheme" where
  "sys os c w = (let (r, w) = os_do os c w in (os_ret r, w))"

text \<open>A call that stores bytes at \<open>buf\<close>.\<close>

definition sys_into :: "os \<Rightarrow> os_call \<Rightarrow> addr \<Rightarrow> 'a os_mem_scheme \<Rightarrow> (os_result \<times> 'a os_mem_scheme) option" where
  "sys_into os c buf w =
     (let (r, w) = os_do os c w in
      if length (os_data r) \<le> length (bufs w buf)
      then Some (r, w\<lparr>bufs := (bufs w)(buf := os_data r @ drop (length (os_data r)) (bufs w buf))\<rparr>)
      else None)"

definition EAGAIN :: int where "EAGAIN = 11"
definition EWOULDBLOCK :: int where "EWOULDBLOCK = 11"

text \<open>The \<open>len\<close> bytes at \<open>buf\<close> that a call is given to send.\<close>

definition bytes_at :: "addr \<Rightarrow> int \<Rightarrow> 'a os_mem_scheme \<Rightarrow> bytes option" where
  "bytes_at buf len w = (if 0 \<le> len \<and> len \<le> int (length (bufs w buf)) then Some (take (nat len) (bufs w buf)) else None)"

section \<open>Open descriptors and the promises of the system\<close>

text \<open>
  The descriptors that are open by the program's own calls. \<open>mbedtls_net_free\<close> closes the descriptor of its context as well, which is
  an argument of that call here, but does not count as one of the program's calls: a property that is about it names the calls made.
\<close>

fun fd_step :: "int set \<Rightarrow> os_call \<times> os_result \<Rightarrow> int set" where
  "fd_step S (Sys_socket b, r) = (if os_ret r < 0 then S else insert (os_ret r) S)"
| "fd_step S (Sys_accept fd, r) = (if os_ret r < 0 then S else insert (os_ret r) S)"
| "fd_step S (Sys_timerfd_create, r) = (if os_ret r < 0 then S else insert (os_ret r) S)"
| "fd_step S (Sys_pipe, r) = (if os_ret r \<noteq> 0 then S else insert (os_val r) (insert (os_val2 r) S))"
| "fd_step S (Sys_close fd, r) = S - {fd}"
| "fd_step S _ = S"

definition open_fds :: "os_trace \<Rightarrow> int set" where
  "open_fds tr = foldl fd_step {} tr"

lemma open_fds_append [simp]: "open_fds (tr @ xs) = foldl fd_step (open_fds tr) xs"
  by (simp add: open_fds_def)

definition new_fd :: "os_trace \<Rightarrow> int \<Rightarrow> bool" where
  "new_fd tr fd \<longleftrightarrow> 0 \<le> fd \<and> fd < FD_SETSIZE \<and> fd \<notin> open_fds tr"

definition filled :: "int \<Rightarrow> os_result \<Rightarrow> bool" where
  "filled n r \<longleftrightarrow> int_range (os_ret r) \<and> length (os_data r) = nat (os_ret r) \<and> (0 \<le> n \<longrightarrow> os_ret r \<le> n)"

fun answer_ok :: "os_trace \<Rightarrow> os_call \<Rightarrow> os_result \<Rightarrow> bool" where
  "answer_ok tr (Sys_socket b) r = (os_ret r = -1 \<or> new_fd tr (os_ret r))"
| "answer_ok tr (Sys_accept fd) r = (os_ret r = -1 \<or> new_fd tr (os_ret r))"
| "answer_ok tr Sys_timerfd_create r = (os_ret r = -1 \<or> new_fd tr (os_ret r))"
| "answer_ok tr Sys_pipe r = (os_ret r = -1 \<or>
     os_ret r = 0 \<and> new_fd tr (os_val r) \<and> new_fd tr (os_val2 r) \<and> os_val r \<noteq> os_val2 r)"
| "answer_ok tr (Sys_read fd n) r = filled n r"
| "answer_ok tr (Sys_recvfrom fd n) r = filled n r"
| "answer_ok tr (Tls (Tls_read n) s) r = filled n r"
| "answer_ok tr _ r = True"

definition os_ok :: "os \<Rightarrow> bool" where
  "os_ok os \<longleftrightarrow> (\<forall>c tr. answer_ok tr c (os c tr))"

lemma os_okD: "os_ok os \<Longrightarrow> answer_ok tr c (os c tr)"
  by (simp add: os_ok_def)

text \<open>A call, with its answer as a variable.\<close>

lemma sys_step:
  assumes "os_ok os"
  shows "\<exists>r. sys os c w = (os_ret r, w\<lparr>trace := trace w @ [(c, r)], errno := os_errno r\<rparr>)
    \<and> answer_ok (trace w) c r"
  using os_okD[OF assms, of "trace w" c]
  by (intro exI[of _ "os c (trace w)"]) (simp add: sys_def os_do_def Let_def)

section \<open>What an operation changes\<close>

text \<open>
  As \<open>driver_effect\<close>, for operations that also change the rest of the state: \<open>X\<close> are the
  watchers they may change, \<open>R\<close> the run lists.
\<close>

definition io_effect ::
  "addr set \<Rightarrow> addr \<Rightarrow> addr set \<Rightarrow> addr set \<Rightarrow> 'a driver_mem_scheme \<Rightarrow> family \<Rightarrow>
   'a driver_mem_scheme \<Rightarrow> family \<Rightarrow> bool" where
  "io_effect W d R X w L w' L' \<longleftrightarrow> driver_inv W (insert d R) w' L' \<and> calls w' = calls w
     \<and> dom (lheap w') = dom (lheap w) \<and> st w' = st w \<and> elem_tick w' = elem_tick w \<and> fired w' = fired w
     \<and> (\<forall>c. c \<notin> W \<union> insert d R \<longrightarrow> L' c = L c)
     \<and> (\<forall>c\<in>R. \<exists>q q'. L c = Some q \<and> L' c = Some q' \<and> subseq q' q)
     \<and> still (- X) w L w' L'"

lemma io_effect_driver: "driver_effect W d R X w L w' L' \<Longrightarrow> io_effect W d R X w L w' L'"
proof -
  assume e: "driver_effect W d R X w L w' L'"
  then obtain h ws where "w' = w\<lparr>lheap := h, watchers := ws\<rparr>" unfolding driver_effect_def by blast
  then show ?thesis using e driver_effect_inv(4)[OF e] by (simp add: io_effect_def driver_effect_def)
qed

lemma io_effect_refl: "driver_inv W (insert d R) w L \<Longrightarrow> io_effect W d R X w L w L"
  by (rule io_effect_driver[OF driver_effect_refl])

lemma io_effect_trans:
  assumes "io_effect W d R X w L w' L'" "io_effect W d R X w' L' w'' L''"
  shows "io_effect W d R X w L w'' L''"
proof -
  have "\<exists>q q'. L c = Some q \<and> L'' c = Some q' \<and> subseq q' q" if c: "c \<in> R" for c
  proof -
    obtain q q' where "L c = Some q" "L' c = Some q'" "subseq q' q"
      using assms(1) c unfolding io_effect_def by blast
    moreover obtain p p' where "L' c = Some p" "L'' c = Some p'" "subseq p' p"
      using assms(2) c unfolding io_effect_def by blast
    ultimately show ?thesis using subseq_order.trans by fastforce
  qed
  moreover have "still (- X) w L w'' L''"
    using assms still_trans unfolding io_effect_def by blast
  ultimately show ?thesis using assms unfolding io_effect_def by simp
qed

lemma io_effect_inv: "io_effect W d R X w L w' L' \<Longrightarrow> driver_inv W (insert d R) w' L'"
  by (simp add: io_effect_def)

lemma io_effect_mono: "io_effect W d R X w L w' L' \<Longrightarrow> X \<subseteq> Y \<Longrightarrow> io_effect W d R Y w L w' L'"
  unfolding io_effect_def using still_mono[of "- X" w L w' L' "- Y"] by blast

text \<open>The rest of the state does not matter to the driver.\<close>

lemma driver_inv_os [simp]:
  "driver_inv W D (w\<lparr>trace := t\<rparr>) L = driver_inv W D w L"
  "driver_inv W D (w\<lparr>errno := e\<rparr>) L = driver_inv W D w L"
  "driver_inv W D (w\<lparr>bufs := b\<rparr>) L = driver_inv W D w L"
  "driver_inv W D (w\<lparr>calls := c\<rparr>) L = driver_inv W D w L"
  by (simp_all add: driver_inv_def)

lemma still_os [simp]:
  "still K w L (w'\<lparr>trace := t\<rparr>) L' = still K w L w' L'"
  "still K w L (w'\<lparr>errno := e\<rparr>) L' = still K w L w' L'"
  "still K w L (w'\<lparr>bufs := b\<rparr>) L' = still K w L w' L'"
  by (simp_all add: still_def)

lemma io_effect_os [simp]:
  "io_effect W d R X w L (w'\<lparr>trace := t\<rparr>) L' = io_effect W d R X w L w' L'"
  "io_effect W d R X w L (w'\<lparr>errno := e\<rparr>) L' = io_effect W d R X w L w' L'"
  "io_effect W d R X w L (w'\<lparr>bufs := b\<rparr>) L' = io_effect W d R X w L w' L'"
  by (simp_all add: io_effect_def)

text \<open>The calls of the driver, with the state they leave written out.\<close>

lemma driver_effect_state:
  assumes "driver_effect W d R {p} w L w' L'"
  shows "w' = w\<lparr>lheap := lheap w', watchers := (watchers w)(p := watchers w' p)\<rparr>"
proof -
  obtain h ws where w': "w' = w\<lparr>lheap := h, watchers := ws\<rparr>" using assms unfolding driver_effect_def by blast
  have "ws x = watchers w x" if "x \<noteq> p" for x
    using assms that unfolding driver_effect_def still_def by (simp add: w')
  then have "ws = (watchers w)(p := ws p)" by (intro ext) simp
  then show ?thesis unfolding w' by simp
qed

lemma os_watch:
  fixes w :: "'a driver_mem_scheme"
  assumes "driver_inv W (insert d R) w L" "p \<in> W" "d \<notin> R"
  shows "\<exists>h L'. io_driver_watch d p ev w = Some (w\<lparr>lheap := h,
      watchers := (watchers w)(p := (watchers w p)\<lparr>event_listening := event_listening (watchers w p) OR ev\<rparr>)\<rparr>)
    \<and> io_effect W d R {p} w L (w\<lparr>lheap := h,
      watchers := (watchers w)(p := (watchers w p)\<lparr>event_listening := event_listening (watchers w p) OR ev\<rparr>)\<rparr>) L'"
proof -
  obtain w' L' where w': "io_driver_watch d p ev w = Some w'" "driver_effect W d R {p} w L w' L'"
    "watchers w' p = (watchers w p)\<lparr>event_listening := event_listening (watchers w p) OR ev\<rparr>"
    using io_driver_watch_effect[OF assms(1,2) _ assms(3)] by blast
  show ?thesis using w'(1) io_effect_driver[OF w'(2)] driver_effect_state[OF w'(2)] unfolding w'(3) by metis
qed

lemma os_no_watch:
  fixes w :: "'a driver_mem_scheme"
  assumes "driver_inv W (insert d R) w L" "p \<in> W" "d \<notin> R"
  shows "\<exists>h L'. io_driver_no_watch d p ev w = Some (w\<lparr>lheap := h,
      watchers := (watchers w)(p := (watchers w p)\<lparr>event_listening := event_listening (watchers w p) AND NOT ev\<rparr>)\<rparr>)
    \<and> io_effect W d R {p} w L (w\<lparr>lheap := h,
      watchers := (watchers w)(p := (watchers w p)\<lparr>event_listening := event_listening (watchers w p) AND NOT ev\<rparr>)\<rparr>) L'"
proof -
  obtain w' L' where w': "io_driver_no_watch d p ev w = Some w'" "driver_effect W d R {p} w L w' L'"
    "watchers w' p = (watchers w p)\<lparr>event_listening := event_listening (watchers w p) AND NOT ev\<rparr>"
    using io_driver_no_watch_effect[OF assms(1,2) _ assms(3)] by blast
  show ?thesis using w'(1) io_effect_driver[OF w'(2)] driver_effect_state[OF w'(2)] unfolding w'(3) by metis
qed

lemma os_set_cb:
  assumes "driver_inv W (insert d R) w L" "p \<in> W"
  shows "io_effect W d R {p} w L (io_driver_watcher_set_cb p cb w) L"
  using io_effect_driver[OF io_driver_watcher_set_cb_effect[OF assms]] by simp

text \<open>
  A watcher that may be initialised: an idle one of the client, or one in memory that belongs to
  no list, which joins the client's watchers.
\<close>

definition blank :: "addr set \<Rightarrow> addr set \<Rightarrow> addr \<Rightarrow> 'a driver_mem_scheme \<Rightarrow> family \<Rightarrow> bool" where
  "blank W D p w L \<longleftrightarrow> p \<notin> D \<and> (if p \<in> W then event_listening (watchers w p) = 0 else L p = None \<and> loose (lheap w) L p)"

lemma os_watcher_init:
  fixes w :: "'a driver_mem_scheme"
  assumes inv: "driver_inv W (insert d R) w L" and b: "blank W (insert d R) p w L" and fd: "0 \<le> fd" "fd < FD_SETSIZE"
  shows "\<exists>h. io_driver_watcher_init p fd cb w = Some (w\<lparr>lheap := h,
      watchers := (watchers w)(p := \<lparr>wfd = fd, event_listening = 0, callback = cb\<rparr>)\<rparr>)
    \<and> io_effect (insert p W) d R {p} (w\<lparr>lheap := h\<rparr>) (L(p \<mapsto> [])) (w\<lparr>lheap := h,
      watchers := (watchers w)(p := \<lparr>wfd = fd, event_listening = 0, callback = cb\<rparr>)\<rparr>) (L(p \<mapsto> []))
    \<and> dom h = dom (lheap w) \<and> (\<forall>x c. x \<noteq> p \<longrightarrow> queued (L(p \<mapsto> [])) x c = queued L x c)"
proof -
  note L = driver_invD(1)[OF inv] and ok = driver_invD(2)[OF inv]
  have Lp: "L p = Some [] \<or> L p = None" "loose (lheap w) (L(p := None)) p"
    using b driver_okD(4)[OF ok, of p] loose_forget[OF L, of p] by (auto simp: blank_def fun_upd_idem split: if_splits)
  obtain h where h: "INIT_LIST_HEAD p (lheap w) = Some h" "heap_lists h (L(p \<mapsto> []))" "dom h = dom (lheap w)"
    using INIT_LIST_HEAD_family[OF L Lp(2)] by blast
  let ?wt = "\<lparr>wfd = fd, event_listening = 0, callback = cb\<rparr>" and ?L = "L(p \<mapsto> [])"
  let ?w = "w\<lparr>lheap := h, watchers := (watchers w)(p := ?wt)\<rparr>"
  have q: "queued ?L x c = queued L x c" for x c
    using Lp(1) by (auto simp: queued_def)
  have "driver_ok (insert p W) (insert d R) ((watchers w)(p := ?wt)) ?L"
  proof (rule driver_okI)
    fix x assume x: "x \<in> insert p W"
    show "if event_listening (((watchers w)(p := ?wt)) x) = 0 then ?L x = Some [] else \<exists>c\<in>insert d R. queued ?L x c"
      using driver_okD(4,5)[OF ok, of x] x unfolding q by (cases "x = p") auto
  next
    fix c assume c: "c \<in> insert d R"
    have "c \<noteq> p" using c b by (auto simp: blank_def)
    then show "\<exists>xs. ?L c = Some xs \<and> set xs \<subseteq> insert p W" using driver_okD(2)[OF ok c] by auto
  qed (use driver_okD(1,3)[OF ok] b fd in \<open>auto simp: blank_def\<close>)
  then have inv': "driver_inv (insert p W) (insert d R) ?w ?L" using h(2) by (simp add: driver_inv_def)
  have "\<exists>q q'. ?L c = Some q \<and> ?L c = Some q' \<and> subseq q' q" if "c \<in> R" for c
    using driver_okD(2)[OF driver_invD(2)[OF inv'], of c] that by auto
  moreover have "still (- {p}) (w\<lparr>lheap := h\<rparr>) ?L ?w ?L" by (simp add: still_def)
  ultimately have "io_effect (insert p W) d R {p} (w\<lparr>lheap := h\<rparr>) ?L ?w ?L"
    using inv' by (simp add: io_effect_def)
  then show ?thesis using h q
    by (intro exI[of _ h]) (simp add: io_driver_watcher_init_def put_watcher_def on_heap_def)
qed

text \<open>Initialising a watcher and watching its first event.\<close>

lemma register_watcher:
  fixes w :: "'a driver_mem_scheme"
  assumes inv: "driver_inv W (insert d R) w L" and b: "blank W (insert d R) p w L" and fd: "0 \<le> fd" "fd < FD_SETSIZE"
    and dR: "d \<notin> R"
  shows "\<exists>h h' L'. io_driver_watcher_init p fd c w
      = Some (w\<lparr>lheap := h, watchers := (watchers w)(p := \<lparr>wfd = fd, event_listening = 0, callback = c\<rparr>)\<rparr>)
    \<and> io_driver_watch d p ev (w\<lparr>lheap := h, watchers := (watchers w)(p := \<lparr>wfd = fd, event_listening = 0, callback = c\<rparr>)\<rparr>)
      = Some (w\<lparr>lheap := h', watchers := (watchers w)(p := \<lparr>wfd = fd, event_listening = ev, callback = c\<rparr>)\<rparr>)
    \<and> io_effect (insert p W) d R {p} w (L(p \<mapsto> []))
        (w\<lparr>lheap := h', watchers := (watchers w)(p := \<lparr>wfd = fd, event_listening = ev, callback = c\<rparr>)\<rparr>) L'
    \<and> (\<forall>x a. x \<noteq> p \<longrightarrow> queued (L(p \<mapsto> [])) x a = queued L x a)"
proof -
  let ?wt = "\<lparr>wfd = fd, event_listening = 0, callback = c\<rparr>" and ?L = "L(p \<mapsto> [])"
  obtain h where h: "io_driver_watcher_init p fd c w = Some (w\<lparr>lheap := h, watchers := (watchers w)(p := ?wt)\<rparr>)"
    "io_effect (insert p W) d R {p} (w\<lparr>lheap := h\<rparr>) ?L (w\<lparr>lheap := h, watchers := (watchers w)(p := ?wt)\<rparr>) ?L"
    "dom h = dom (lheap w)" "\<forall>x a. x \<noteq> p \<longrightarrow> queued ?L x a = queued L x a"
    using os_watcher_init[where cb = c, OF inv b fd] by blast
  let ?w1 = "w\<lparr>lheap := h, watchers := (watchers w)(p := ?wt)\<rparr>"
  obtain h' L' where h': "io_driver_watch d p ev ?w1 = Some (?w1\<lparr>lheap := h',
      watchers := (watchers ?w1)(p := (watchers ?w1 p)\<lparr>event_listening := event_listening (watchers ?w1 p) OR ev\<rparr>)\<rparr>)"
    "io_effect (insert p W) d R {p} ?w1 ?L (?w1\<lparr>lheap := h',
      watchers := (watchers ?w1)(p := (watchers ?w1 p)\<lparr>event_listening := event_listening (watchers ?w1 p) OR ev\<rparr>)\<rparr>) L'"
    using os_watch[OF io_effect_inv[OF h(2)] insertI1 dR] by blast
  have "io_effect (insert p W) d R {p} (w\<lparr>lheap := h\<rparr>) ?L
      (w\<lparr>lheap := h', watchers := (watchers w)(p := \<lparr>wfd = fd, event_listening = ev, callback = c\<rparr>)\<rparr>) L'"
    using io_effect_trans[OF h(2) h'(2)] by simp
  then have "io_effect (insert p W) d R {p} w ?L
      (w\<lparr>lheap := h', watchers := (watchers w)(p := \<lparr>wfd = fd, event_listening = ev, callback = c\<rparr>)\<rparr>) L'"
    using h(3) by (simp add: io_effect_def still_def)
  then show ?thesis using h(1,4) h'(1) by (intro exI[of _ h] exI[of _ h'] exI[of _ L']) simp
qed

lemma blank_idle: "p \<in> W \<Longrightarrow> p \<notin> D \<Longrightarrow> event_listening (watchers w p) = 0 \<Longrightarrow> blank W D p w L"
  by (simp add: blank_def)

lemma blank_idle_lists:
  "driver_inv W D w L \<Longrightarrow> p \<in> W \<Longrightarrow> event_listening (watchers w p) = 0 \<Longrightarrow> L(p \<mapsto> []) = L"
  by (rule map_upd_triv) (rule driver_okD(4)[OF driver_invD(2)])

text \<open>Calls that do not open or close descriptors.\<close>

fun neutral :: "os_call \<Rightarrow> bool" where
  "neutral (Sys_socket b) = False"
| "neutral (Sys_accept fd) = False"
| "neutral Sys_timerfd_create = False"
| "neutral Sys_pipe = False"
| "neutral (Sys_close fd) = False"
| "neutral c = True"

lemma fd_step_neutral: "neutral c \<Longrightarrow> fd_step S (c, r) = S"
  by (cases c) auto

lemma open_fds_neutral: "list_all (\<lambda>x. neutral (fst x)) xs \<Longrightarrow> foldl fd_step S xs = S"
  by (induction xs) (auto simp: fd_step_neutral split_paired_all)

text \<open>Calls whose results are ignored, and calls that must all return 0.\<close>

fun sys_all :: "os \<Rightarrow> os_call list \<Rightarrow> 'a os_mem_scheme \<Rightarrow> 'a os_mem_scheme" where
  "sys_all os [] w = w"
| "sys_all os (c # cs) w = sys_all os cs (snd (sys os c w))"

fun sys_try :: "os \<Rightarrow> os_call list \<Rightarrow> 'a os_mem_scheme \<Rightarrow> int \<times> 'a os_mem_scheme" where
  "sys_try os [] w = (0, w)"
| "sys_try os (c # cs) w = (let (ret, w) = sys os c w in if ret \<noteq> 0 then (-1, w) else sys_try os cs w)"

lemma sys_state: "\<exists>r. sys os c w = (os_ret r, w\<lparr>trace := trace w @ [(c, r)], errno := os_errno r\<rparr>)"
  by (intro exI[of _ "os c (trace w)"]) (simp add: sys_def os_do_def Let_def)

lemma sys_all_state: "\<exists>tr e. sys_all os cs w = w\<lparr>trace := trace w @ tr, errno := e\<rparr> \<and> map fst tr = cs"
proof (induction cs arbitrary: w)
  case Nil
  show ?case by (intro exI[of _ "[]"] exI[of _ "errno w"]) simp
next
  case (Cons c cs)
  obtain r where r: "sys os c w = (os_ret r, w\<lparr>trace := trace w @ [(c, r)], errno := os_errno r\<rparr>)"
    using sys_state by blast
  let ?w = "w\<lparr>trace := trace w @ [(c, r)], errno := os_errno r\<rparr>"
  obtain tr e where "sys_all os cs ?w = ?w\<lparr>trace := trace ?w @ tr, errno := e\<rparr>" "map fst tr = cs" using Cons.IH by blast
  then show ?case using r by (intro exI[of _ "(c, r) # tr"] exI[of _ e]) simp
qed

lemma sys_try_state: "\<exists>ret tr e. sys_try os cs w = (ret, w\<lparr>trace := trace w @ tr, errno := e\<rparr>)
    \<and> prefix (map fst tr) cs \<and> (ret = 0 \<or> ret = -1)"
proof (induction cs arbitrary: w)
  case Nil
  show ?case by (intro exI[of _ 0] exI[of _ "[]"] exI[of _ "errno w"]) simp
next
  case (Cons c cs)
  obtain r where r: "sys os c w = (os_ret r, w\<lparr>trace := trace w @ [(c, r)], errno := os_errno r\<rparr>)"
    using sys_state by blast
  let ?w = "w\<lparr>trace := trace w @ [(c, r)], errno := os_errno r\<rparr>"
  obtain ret tr e where i: "sys_try os cs ?w = (ret, ?w\<lparr>trace := trace ?w @ tr, errno := e\<rparr>)" "prefix (map fst tr) cs"
    "ret = 0 \<or> ret = -1" using Cons.IH by blast
  show ?case
  proof (cases "os_ret r = 0")
    case True
    then show ?thesis using r i by (intro exI[of _ ret] exI[of _ "(c, r) # tr"] exI[of _ e]) simp
  next
    case False
    then show ?thesis using r by (intro exI[of _ "-1"] exI[of _ "[(c, r)]"] exI[of _ "os_errno r"]) simp
  qed
qed

declare sys_all.simps(2) [simp del] sys_try.simps(2) [simp del]

section \<open>A concrete system\<close>

text \<open>Descriptors 5 to 7 are handed out, reading yields two bytes, other calls succeed with 0.\<close>

definition spare_fd :: "os_trace \<Rightarrow> int" where
  "spare_fd tr = (if 5 \<notin> open_fds tr then 5 else if 6 \<notin> open_fds tr then 6 else if 7 \<notin> open_fds tr then 7 else -1)"

definition demo_data :: "int \<Rightarrow> bytes" where
  "demo_data n = take (nat n) [104, 105]"

definition answer :: "int \<Rightarrow> os_result" where
  "answer ret = \<lparr>os_ret = ret, os_errno = 0, os_data = [], os_addr = (0, 0), os_val = 0, os_val2 = 0\<rparr>"

fun demo_os :: os where
  "demo_os (Sys_socket b) tr = answer (spare_fd tr)"
| "demo_os (Sys_accept fd) tr = answer (spare_fd tr)"
| "demo_os Sys_timerfd_create tr = answer (spare_fd tr)"
| "demo_os Sys_pipe tr = (if 5 \<notin> open_fds tr \<and> 6 \<notin> open_fds tr then (answer 0)\<lparr>os_val := 5, os_val2 := 6\<rparr> else answer (-1))"
| "demo_os (Sys_read fd n) tr = (answer (int (length (demo_data n))))\<lparr>os_data := demo_data n\<rparr>"
| "demo_os (Sys_recvfrom fd n) tr = (answer (int (length (demo_data n))))\<lparr>os_data := demo_data n\<rparr>"
| "demo_os (Tls (Tls_read n) s) tr = (answer (int (length (demo_data n))))\<lparr>os_data := demo_data n\<rparr>"
| "demo_os _ tr = answer 0"

lemma spare_fd_ok: "spare_fd tr = -1 \<or> new_fd tr (spare_fd tr)"
  by (simp add: spare_fd_def new_fd_def FD_SETSIZE_def)

lemma demo_data_ok: "filled n ((answer (int (length (demo_data n))))\<lparr>os_data := demo_data n\<rparr>)"
  by (simp add: filled_def answer_def demo_data_def int_range_def INT_MIN_def INT_MAX_def min_def) linarith

lemma demo_os_ok: "os_ok demo_os"
proof -
  have "answer_ok tr c (demo_os c tr)" for c tr
  proof (cases "(c, tr)" rule: demo_os.cases)
    case (4 t)
    then show ?thesis by (simp add: answer_def new_fd_def FD_SETSIZE_def)
  qed (use spare_fd_ok demo_data_ok in \<open>auto simp: answer_def\<close>)
  then show ?thesis by (simp add: os_ok_def)
qed

end
