(* ===== verification/Io_Timer.thy ===== *)
theory Io_Timer
  imports Os_Calls
begin

text \<open>
  The timer service of \<open>src/src/io_timer.h\<close> and \<open>src/src/io_timer.c\<close>: a periodic timer descriptor
  watched by the event loop, each expiry of which drives the soft timers by one tick.

  The state extends the state of the driver, whose timer part is the member \<open>st\<close> of the service,
  by its other members. \<open>t\<close> is the address of its watcher.
\<close>

section \<open>State and operations\<close>

record io_timer_mem = os_mem +
  it_driver :: addr
  timerfd :: int

text \<open>\<open>tlist\<close> is the address of the local list of \<open>timer_tick\<close>, \<open>cb\<close> runs the callback of a soft timer.\<close>

definition io_timer_tick_callback ::
  "os \<Rightarrow> (addr \<Rightarrow> 'a io_timer_mem_scheme \<Rightarrow> 'a io_timer_mem_scheme option) \<Rightarrow> addr \<Rightarrow> addr \<Rightarrow> u8 \<Rightarrow>
   'a io_timer_mem_scheme \<Rightarrow> 'a io_timer_mem_scheme option" where
  "io_timer_tick_callback os cb tlist t e w = do {
     let (r, w) = os_do os (Sys_read (timerfd w) 8) w;
     if length (os_data r) > 8 then None
     else soft_timer_drive cb tlist w
   }"

definition io_timer_init ::
  "os \<Rightarrow> addr \<Rightarrow> addr \<Rightarrow> int \<Rightarrow> 'a io_timer_mem_scheme \<Rightarrow> 'a io_timer_mem_scheme option" where
  "io_timer_init os driver t tickrate w = do {
     let (fd, w) = sys os Sys_timerfd_create w;
     let w = w\<lparr>timerfd := fd\<rparr>;
     if timerfd w < 0 then Some w
     else do {
       let (_, w) = sys os (Sys_fcntl_setfd (timerfd w)) w;
       nsec \<leftarrow> c_mul tickrate 1000000;
       let (_, w) = sys os (Sys_timerfd_settime (timerfd w) nsec) w;
       let w = w\<lparr>it_driver := driver\<rparr>;
       (_, w) \<leftarrow> soft_timer_init tickrate w;
       w \<leftarrow> io_driver_watcher_init t (timerfd w) Io_timer_tick_callback w;
       io_driver_watch driver t IO_DRIVER_EVENT_RX w
     }
   }"

definition io_timer_deinit :: "os \<Rightarrow> addr \<Rightarrow> 'a io_timer_mem_scheme \<Rightarrow> 'a io_timer_mem_scheme option" where
  "io_timer_deinit os t w = do {
     w \<leftarrow> io_driver_no_watch (it_driver w) t IO_DRIVER_EVENT_RX w;
     let (_, w) = sys os (Sys_close (timerfd w)) w;
     Some w
   }"

definition io_timer_start :: "addr \<Rightarrow> int \<Rightarrow> 'a timer_mem_scheme \<Rightarrow> 'a timer_mem_scheme option" where
  "io_timer_start e expires w = soft_timer_add e expires w"

definition io_timer_stop :: "addr \<Rightarrow> 'a timer_mem_scheme \<Rightarrow> 'a timer_mem_scheme option" where
  "io_timer_stop e w = soft_timer_del e w"

definition io_timer_restart :: "addr \<Rightarrow> int \<Rightarrow> 'a timer_mem_scheme \<Rightarrow> 'a timer_mem_scheme option" where
  "io_timer_restart e expires w = do { w \<leftarrow> io_timer_stop e w; io_timer_start e expires w }"

section \<open>Restarting\<close>

lemma io_timer_stop_effect:
  fixes w :: "'a timer_mem_scheme"
  assumes "timer_inv E T w L" "e \<in> E" "e \<in> X"
  shows "\<exists>w' L'. io_timer_stop e w = Some w' \<and> call_effect E T X w L w' L' \<and> L' e = Some []"
  using soft_timer_del_effect[OF assms] by (simp add: io_timer_stop_def)

lemma io_timer_restart_effect:
  fixes w :: "'a timer_mem_scheme"
  assumes inv: "timer_inv E T w L" and e: "e \<in> E" "e \<in> X" and ms: "int_range ms"
  shows "\<exists>w' L'. io_timer_restart e ms w = Some w' \<and> call_effect E T X w L w' L'"
proof -
  obtain w1 L1 where w1: "io_timer_stop e w = Some w1" "call_effect E T X w L w1 L1"
    using io_timer_stop_effect[OF inv e] by blast
  have inv1: "timer_inv E T w1 L1" using w1(2) by (simp add: call_effect_def)
  obtain w2 L2 where "soft_timer_add e ms w1 = Some w2" "call_effect E T X w1 L1 w2 L2"
    using soft_timer_add_effect[OF inv1 e ms] by blast
  then show ?thesis using w1(1) call_effect_trans[OF w1(2)] by (auto simp: io_timer_restart_def io_timer_start_def)
qed

text \<open>\<open>io_timer_restart\<close> postpones a timer: whether the timer was running or not, and however soon
  it was due, it does not fire before the new time and fires once exactly then, at the drive whose
  number is the time divided by the tick, rounded up, whatever the callbacks of the other timers do.\<close>

theorem io_timer_restart_fires_on_time:
  fixes w :: "'a timer_mem_scheme" and f :: "addr \<Rightarrow> 'a timer_mem_scheme \<Rightarrow> timer_call list"
  assumes "timer_inv E {} w L" "fresh_for E tlist w" "e \<in> E" "0 \<le> ms" "ms \<le> INT_MAX"
    and "n \<le> drives_until (tick_rate (st w)) ms"
  shows "\<exists>w1 w'. io_timer_restart e ms w = Some w1
    \<and> soft_timer_drives (script_cb (E - {e}) f) tlist n w1 = Some w'
    \<and> firings e w' = (if n < drives_until (tick_rate (st w)) ms then firings e w
        else firings e w @ [tick (st w) + ticks_of (tick_rate (st w)) ms])"
proof -
  obtain w0 L0 where w0: "io_timer_stop e w = Some w0" "call_effect E {} UNIV w L w0 L0" "L0 e = Some []"
    using io_timer_stop_effect[OF assms(1,3) UNIV_I] by blast
  have same: "timer_inv E {} w0 L0" "st w0 = st w" "fired w0 = fired w" "dom (lheap w0) = dom (lheap w)"
    using w0(2) by (auto simp: call_effect_def)
  have fr: "fresh_for E tlist w0" using assms(2) same(4) by (auto simp: fresh_for_def domIff)
  have fi: "firings e w0 = firings e w" using same(3) by (simp add: firings_def)
  show ?thesis
    using soft_timer_add_fires[OF same(1) fr assms(3) w0(3) assms(4,5), of n f] assms(6) w0(1)
    unfolding same(2) fi by (simp add: io_timer_restart_def io_timer_start_def)
qed

theorem io_timer_restart_fires_on_time_witness:
  "\<exists>w1 w'. io_timer_restart 10 25 demo_running = Some w1
    \<and> soft_timer_drives (script_cb ({10, 11} - {10}) (\<lambda>p w. [Timer_add p 10])) 99 3 w1 = Some w' \<and> firings 10 w' = [8]"
proof -
  obtain L where L: "timer_inv {10, 11} {} demo_running L" "fresh_for {10, 11} 99 demo_running"
    "fired demo_running = []" "tick (st demo_running) = 5" "tick_rate (st demo_running) = 10"
    using demo_running_inv by blast
  then show ?thesis
    using io_timer_restart_fires_on_time[OF L(1,2), of 10 25 3 "\<lambda>p w. [Timer_add p 10]"]
    by (simp add: INT_MAX_def drives_until_def ticks_of_ceiling firings_def)
qed

section \<open>Frames\<close>

lemma driver_ok_frame:
  assumes "driver_ok W D ws L" "\<And>c. c \<in> W \<union> D \<Longrightarrow> L' c = L c"
  shows "driver_ok W D ws L'"
proof (rule driver_okI)
  fix x assume x: "x \<in> W"
  have "queued L' x c = queued L x c" if "c \<in> D" for c using assms(2) that by (simp add: queued_def)
  then show "if event_listening (ws x) = 0 then L' x = Some [] else \<exists>c\<in>D. queued L' x c"
    using driver_okD(4,5)[OF assms(1) x] assms(2) x by auto
qed (use driver_okD(1-3)[OF assms(1)] assms(2) in auto)

lemma wheel_frame:
  assumes "wheel E T bs et L" "\<And>c. c \<in> E \<union> set bs \<union> T \<Longrightarrow> L' c = L c"
  shows "wheel E T bs et L'"
proof -
  have "length bs = 8" using assms(1) by (simp add: wheel_def)
  then have "L' (bs ! i) = L (bs ! i)" if "i < 8" for i using assms(2) that by simp
  then show ?thesis using assms unfolding wheel_def by (simp add: Ball_def Bex_def)
qed

text \<open>The lists of the driver hold watchers only, those of the wheel timers only.\<close>

lemma driver_list_elems:
  assumes "driver_inv W D w L" "c \<in> W \<union> D" "L c = Some xs"
  shows "set xs \<subseteq> W"
proof (cases "c \<in> D")
  case True
  then show ?thesis using driver_okD(2)[OF driver_invD(2)[OF assms(1)]] assms(3) by fastforce
next
  case False
  then have cW: "c \<in> W" using assms(2) by blast
  have "event_listening (watchers w c) = 0"
  proof (rule ccontr)
    assume "event_listening (watchers w c) \<noteq> 0"
    then obtain b where "queued L c b" using driver_okD(5)[OF driver_invD(2)[OF assms(1)] cW] by blast
    then have "L c = None" using lists_elem_not_head[OF driver_invD(1)[OF assms(1)]] by (auto simp: queued_def)
    then show False using assms(3) by simp
  qed
  then show ?thesis using driver_okD(4)[OF driver_invD(2)[OF assms(1)] cW] assms(3) by simp
qed

lemma wheel_list_elems:
  assumes "timer_inv E T w L" "c \<in> E \<union> set (buckets (st w)) \<union> T" "L c = Some xs"
  shows "set xs \<subseteq> E"
proof -
  note wh = timer_invD(4)[OF assms(1)]
  consider "c \<in> T" | i where "i < 8" "c = buckets (st w) ! i" | "c \<in> E"
    using assms(2) wh by (auto simp: wheel_def in_set_conv_nth)
  then show ?thesis
  proof cases
    case 1
    then show ?thesis using wheel_due[OF wh] assms(3) by fastforce
  next
    case 2
    then show ?thesis using wheel_bucket(2)[OF wh 2(1)] assms(3) by auto
  next
    case 3
    show ?thesis
    proof (rule wheel_elem[OF wh 3])
      assume "L c = Some []"
      then show ?thesis using assms(3) by simp
    next
      fix b ys assume "L b = Some ys" "c \<in> set ys"
      then have "L c = None" using lists_elem_not_head[OF timer_invD(1)[OF assms(1)]] by blast
      then show ?thesis using assms(3) by simp
    qed
  qed
qed

lemma driver_in_cells: "driver_inv W D w L \<Longrightarrow> c \<in> W \<union> D \<Longrightarrow> c \<in> cells L"
proof -
  assume i: "driver_inv W D w L" and c: "c \<in> W \<union> D"
  note ok = driver_invD(2)[OF i]
  consider "L c \<noteq> None" | b where "queued L c b"
    using driver_okD(2,4,5)[OF ok, of c] c by (cases "c \<in> D"; cases "event_listening (watchers w c) = 0") auto
  then show "c \<in> cells L" by cases (auto simp: cells_def queued_def)
qed

section \<open>Starting and stopping the service\<close>

lemma driver_inv_io_timer [simp]:
  "driver_inv W D (w\<lparr>it_driver := a\<rparr>) L = driver_inv W D w L"
  "driver_inv W D (w\<lparr>timerfd := fd\<rparr>) L = driver_inv W D w L"
  by (simp_all add: driver_inv_def)

lemma soft_timer_init_state:
  fixes w :: "'a timer_mem_scheme"
  assumes "heap_lists (lheap w) L" "length (buckets (st w)) = SOFT_TIMER_NUM_BUCKETS" "distinct (buckets (st w))"
    "set (buckets (st w)) \<subseteq> dom (lheap w) - cells L" "0 < rate" "int_range rate" "\<And>e. e \<in> E \<Longrightarrow> L e = Some []"
  shows "\<exists>h. soft_timer_init rate w = Some (0, w\<lparr>lheap := h, st := (st w)\<lparr>tick_rate := rate, tick := 0\<rparr>\<rparr>)
    \<and> timer_inv E {} (w\<lparr>lheap := h, st := (st w)\<lparr>tick_rate := rate, tick := 0\<rparr>\<rparr>)
        (\<lambda>c. if c \<in> set (buckets (st w)) then Some [] else L c) \<and> dom h = dom (lheap w)"
proof -
  obtain h where h: "init_buckets (buckets (st w)) (lheap w) = Some h" "dom h = dom (lheap w)"
    using init_buckets_family[OF assms(1,3,4)] by blast
  have s: "soft_timer_init rate w = Some (0, w\<lparr>lheap := h, st := (st w)\<lparr>tick_rate := rate, tick := 0\<rparr>\<rparr>)"
    using h(1) by (simp add: soft_timer_init_def on_heap_def Let_def)
  obtain w' L' where w': "soft_timer_init rate w = Some (0, w')" "timer_inv E {} w' L'"
    "\<forall>c. L' c = (if c \<in> set (buckets (st w)) then Some [] else L c)"
    using soft_timer_init_wheel[OF assms(1-6), of E] assms(7) by blast
  have "L' = (\<lambda>c. if c \<in> set (buckets (st w)) then Some [] else L c)" using w'(3) by (intro ext) blast
  then show ?thesis using w'(1,2) s h(2) by auto
qed

text \<open>Where the service may be started: its buckets and its watcher are in memory of no list.\<close>

definition io_timer_memory :: "addr set \<Rightarrow> addr \<Rightarrow> addr \<Rightarrow> 'a io_timer_mem_scheme \<Rightarrow> family \<Rightarrow> bool" where
  "io_timer_memory W d t w L \<longleftrightarrow> driver_inv W {d} w L \<and> blank W {d} t w L
     \<and> length (buckets (st w)) = SOFT_TIMER_NUM_BUCKETS \<and> distinct (buckets (st w))
     \<and> set (buckets (st w)) \<subseteq> dom (lheap w) - cells L - {t}"

lemma io_timer_init_ok:
  fixes w :: "'a io_timer_mem_scheme"
  assumes os: "os_ok os" and m: "io_timer_memory W d t w L" and rate: "0 < rate" "rate * 1000000 \<le> INT_MAX"
    and E: "\<And>e. e \<in> E \<Longrightarrow> L e = Some [] \<and> e \<notin> W \<union> {d, t}"
  shows "\<exists>w' L'. io_timer_init os d t rate w = Some w'
    \<and> (if timerfd w' < 0
       then driver_inv W {d} w' L \<and> watchers w' = watchers w \<and> open_fds (trace w') = open_fds (trace w)
       else driver_inv (insert t W) {d} w' L' \<and> timer_inv E {} w' L' \<and> tick (st w') = 0 \<and> tick_rate (st w') = rate
         \<and> watchers w' = (watchers w)(t := \<lparr>wfd = timerfd w', event_listening = IO_DRIVER_EVENT_RX,
             callback = Io_timer_tick_callback\<rparr>)
         \<and> it_driver w' = d \<and> timerfd w' \<notin> open_fds (trace w)
         \<and> open_fds (trace w') = insert (timerfd w') (open_fds (trace w))
         \<and> Sys_timerfd_settime (timerfd w') (rate * 1000000) \<in> fst ` set (trace w'))"
proof -
  have inv: "driver_inv W {d} w L" and b: "blank W {d} t w L"
    and bs: "length (buckets (st w)) = SOFT_TIMER_NUM_BUCKETS" "distinct (buckets (st w))"
      "set (buckets (st w)) \<subseteq> dom (lheap w) - cells L - {t}"
    using m by (auto simp: io_timer_memory_def)
  obtain r0 where c: "sys os Sys_timerfd_create w
      = (os_ret r0, w\<lparr>trace := trace w @ [(Sys_timerfd_create, r0)], errno := os_errno r0\<rparr>)"
    and ans: "os_ret r0 = -1 \<or> new_fd (trace w) (os_ret r0)"
    using sys_step[OF os, of Sys_timerfd_create w] by auto
  let ?fd = "os_ret r0"
  let ?w0 = "w\<lparr>trace := trace w @ [(Sys_timerfd_create, r0)], errno := os_errno r0, timerfd := ?fd\<rparr>"
  show ?thesis
  proof (cases "?fd < 0")
    case True
    then have "io_timer_init os d t rate w = Some ?w0" by (simp add: io_timer_init_def c Let_def)
    then show ?thesis using True inv by (intro exI[of _ ?w0]) simp
  next
    case False
    then have fd: "0 \<le> ?fd" "?fd < FD_SETSIZE" "?fd \<notin> open_fds (trace w)" using ans by (auto simp: new_fd_def)
    obtain r1 where r1: "sys os (Sys_fcntl_setfd ?fd) ?w0
        = (os_ret r1, ?w0\<lparr>trace := trace ?w0 @ [(Sys_fcntl_setfd ?fd, r1)], errno := os_errno r1\<rparr>)"
      using sys_step[OF os, of "Sys_fcntl_setfd ?fd" ?w0] by blast
    let ?w1 = "?w0\<lparr>trace := trace ?w0 @ [(Sys_fcntl_setfd ?fd, r1)], errno := os_errno r1\<rparr>"
    let ?set = "Sys_timerfd_settime ?fd (rate * 1000000)"
    obtain r2 where r2: "sys os ?set ?w1 = (os_ret r2, ?w1\<lparr>trace := trace ?w1 @ [(?set, r2)], errno := os_errno r2\<rparr>)"
      using sys_step[OF os, of ?set ?w1] by blast
    let ?tr = "trace w @ [(Sys_timerfd_create, r0), (Sys_fcntl_setfd ?fd, r1), (?set, r2)]"
    define w3 where "w3 = w\<lparr>trace := ?tr, errno := os_errno r2, it_driver := d, timerfd := ?fd\<rparr>"
    have w3': "?w1\<lparr>trace := trace ?w1 @ [(?set, r2)], errno := os_errno r2, it_driver := d\<rparr> = w3"
      by (simp add: w3_def)
    have tr: "open_fds ?tr = insert ?fd (open_fds (trace w))" "?set \<in> fst ` set ?tr" using False by simp_all
    have r: "int_range rate" "c_mul rate 1000000 = Some (rate * 1000000)"
      using rate by (simp_all add: int_range_def INT_MIN_def INT_MAX_def c_mul_def)
    let ?L1 = "\<lambda>c. if c \<in> set (buckets (st w)) then Some [] else L c"
    let ?st = "(st w)\<lparr>tick_rate := rate, tick := 0\<rparr>"
    have s3: "lheap w3 = lheap w" "st w3 = st w" "watchers w3 = watchers w" "timerfd w3 = ?fd" "driver_inv W {d} w3 L"
      using inv by (simp_all add: w3_def)
    obtain h where h: "soft_timer_init rate w3 = Some (0, w3\<lparr>lheap := h, st := ?st\<rparr>)"
      "timer_inv E {} (w3\<lparr>lheap := h, st := ?st\<rparr>) ?L1" "dom h = dom (lheap w)"
      using soft_timer_init_state[of w3 L rate E] driver_invD(1)[OF inv] bs rate(1) r(1) E unfolding s3 by auto
    let ?w4 = "w3\<lparr>lheap := h, st := ?st\<rparr>"
    have same: "?L1 c = L c" if "c \<in> W \<union> {d}" for c
      using driver_in_cells[OF inv that] bs(3) by auto
    have i4: "driver_inv W {d} ?w4 ?L1"
      using driver_ok_frame[OF driver_invD(2)[OF inv] same] timer_invD(1)[OF h(2)] s3 by (simp add: driver_inv_def)
    have cl: "t \<notin> cells ?L1" if "t \<notin> cells L"
      using that bs(3) by (auto simp: cells_def split: if_splits)
    have b4: "blank W {d} t ?w4 ?L1"
      using b bs(3) cl s3 h(3) by (auto simp: blank_def loose_def)
    let ?wt = "\<lparr>wfd = ?fd, event_listening = 0, callback = Io_timer_tick_callback\<rparr>"
    let ?L5 = "?L1(t \<mapsto> [])"
    obtain h5 where h5: "io_driver_watcher_init t ?fd Io_timer_tick_callback ?w4
        = Some (?w4\<lparr>lheap := h5, watchers := (watchers ?w4)(t := ?wt)\<rparr>)"
      "io_effect (insert t W) d {} {t} (?w4\<lparr>lheap := h5\<rparr>) ?L5 (?w4\<lparr>lheap := h5, watchers := (watchers ?w4)(t := ?wt)\<rparr>) ?L5"
      using os_watcher_init[where cb = Io_timer_tick_callback, OF i4 b4 fd(1,2)] by blast
    let ?w5 = "?w4\<lparr>lheap := h5, watchers := (watchers ?w4)(t := ?wt)\<rparr>"
    obtain h6 L6 where h6: "io_driver_watch d t IO_DRIVER_EVENT_RX ?w5 = Some (?w5\<lparr>lheap := h6,
        watchers := (watchers ?w5)(t := ?wt\<lparr>event_listening := IO_DRIVER_EVENT_RX\<rparr>)\<rparr>)"
      "io_effect (insert t W) d {} {t} ?w5 ?L5 (?w5\<lparr>lheap := h6,
        watchers := (watchers ?w5)(t := ?wt\<lparr>event_listening := IO_DRIVER_EVENT_RX\<rparr>)\<rparr>) L6"
      using os_watch[OF io_effect_inv[OF h5(2)], of t IO_DRIVER_EVENT_RX] by auto
    let ?w6 = "?w5\<lparr>lheap := h6, watchers := (watchers ?w5)(t := ?wt\<lparr>event_listening := IO_DRIVER_EVENT_RX\<rparr>)\<rparr>"
    have init: "io_timer_init os d t rate w = Some ?w6"
      using False c r1 r2 h(1) h5(1) h6(1) r(2) s3(4) w3'
      by (simp add: io_timer_init_def Let_def)
    have ti: "timer_inv E {} ?w6 L6"
    proof -
      have keep: "L6 c = ?L1 c" if "c \<notin> insert t W \<union> {d}" for c
        using h6(2) that unfolding io_effect_def by simp
      have disj: "c \<notin> insert t W \<union> {d}" if "c \<in> E \<union> set (buckets (st w))" for c
        using that E[of c] driver_in_cells[OF inv, of c] bs(3) by auto
      have "wheel E {} (buckets (st w)) (elem_tick w3) L6"
        by (rule wheel_frame[where L = ?L1]) (use timer_invD(4)[OF h(2)] keep disj in auto)
      moreover have "heap_lists h6 L6" using driver_invD(1)[OF io_effect_inv[OF h6(2)]] by simp
      ultimately show ?thesis using timer_invD(2,3)[OF h(2)] by (simp add: timer_inv_def)
    qed
    show ?thesis using init io_effect_inv[OF h6(2)] ti fd tr False
      by (intro exI[of _ ?w6] exI[of _ L6]) (simp add: w3_def)
  qed
qed

text \<open>\<open>io_timer_init\<close> either fails without a trace or starts a running service. If the timer
  descriptor cannot be created, nothing is registered and no descriptor stays open; otherwise one
  new descriptor is open, armed with the tick period in nanoseconds, its watcher waits for input
  with the tick callback, the wheel is empty at tick 0 with all timers of the program idle, and the
  lists of the driver are well formed.\<close>

theorem io_timer_init_starts:
  fixes w :: "'a io_timer_mem_scheme"
  assumes "os_ok os" "io_timer_memory W d t w L" "0 < rate" "rate * 1000000 \<le> INT_MAX"
    and "\<forall>e\<in>E. L e = Some [] \<and> e \<notin> W \<union> {d, t}"
  shows "\<exists>w' L'. io_timer_init os d t rate w = Some w'
    \<and> (if timerfd w' < 0
       then driver_inv W {d} w' L \<and> watchers w' = watchers w \<and> open_fds (trace w') = open_fds (trace w)
       else driver_inv (insert t W) {d} w' L' \<and> timer_inv E {} w' L' \<and> tick (st w') = 0 \<and> tick_rate (st w') = rate
         \<and> watchers w' = (watchers w)(t := \<lparr>wfd = timerfd w', event_listening = IO_DRIVER_EVENT_RX,
             callback = Io_timer_tick_callback\<rparr>)
         \<and> it_driver w' = d \<and> timerfd w' \<notin> open_fds (trace w)
         \<and> open_fds (trace w') = insert (timerfd w') (open_fds (trace w))
         \<and> Sys_timerfd_settime (timerfd w') (rate * 1000000) \<in> fst ` set (trace w'))"
  by (rule io_timer_init_ok[OF assms(1-4)]) (use assms(5) in blast)

lemma io_timer_deinit_ok:
  fixes w :: "'a io_timer_mem_scheme"
  assumes os: "os_ok os" and inv: "driver_inv W {d} w L" and t: "t \<in> W" "it_driver w = d"
    and ev: "event_listening (watchers w t) AND NOT IO_DRIVER_EVENT_RX = 0"
  shows "\<exists>w' L'. io_timer_deinit os t w = Some w' \<and> driver_inv W {d} w' L' \<and> event_listening (watchers w' t) = 0
    \<and> L' t = Some [] \<and> (\<forall>x. x \<noteq> t \<longrightarrow> watchers w' x = watchers w x)
    \<and> open_fds (trace w') = open_fds (trace w) - {timerfd w}"
proof -
  obtain h L' where h: "io_driver_no_watch d t IO_DRIVER_EVENT_RX w = Some (w\<lparr>lheap := h,
      watchers := (watchers w)(t := (watchers w t)\<lparr>event_listening := 0\<rparr>)\<rparr>)"
    "io_effect W d {} {t} w L (w\<lparr>lheap := h, watchers := (watchers w)(t := (watchers w t)\<lparr>event_listening := 0\<rparr>)\<rparr>) L'"
    using os_no_watch[of W d "{}" w L t IO_DRIVER_EVENT_RX, OF inv t(1)] unfolding ev by blast
  let ?w1 = "w\<lparr>lheap := h, watchers := (watchers w)(t := (watchers w t)\<lparr>event_listening := 0\<rparr>)\<rparr>"
  obtain r where r: "sys os (Sys_close (timerfd w)) ?w1
      = (os_ret r, ?w1\<lparr>trace := trace ?w1 @ [(Sys_close (timerfd w), r)], errno := os_errno r\<rparr>)"
    using sys_step[OF os, of "Sys_close (timerfd w)" ?w1] by blast
  let ?w' = "?w1\<lparr>trace := trace ?w1 @ [(Sys_close (timerfd w), r)], errno := os_errno r\<rparr>"
  have i: "driver_inv W {d} ?w' L'" using io_effect_inv[OF h(2)] by simp
  have "L' t = Some []" by (rule driver_okD(4)[OF driver_invD(2)[OF i] t(1)]) simp
  moreover have "io_timer_deinit os t w = Some ?w'" using h(1) r t(2) by (simp add: io_timer_deinit_def Let_def)
  ultimately show ?thesis using i by (intro exI[of _ ?w'] exI[of _ L']) simp
qed

text \<open>Stopping the service undoes starting it. After \<open>io_timer_init\<close> and \<open>io_timer_deinit\<close> the same
  descriptors are open as before, the watcher of the service is idle and in no list, and the other
  watchers are unchanged.\<close>

theorem io_timer_deinit_undoes_init:
  fixes w :: "'a io_timer_mem_scheme"
  assumes "os_ok os" "io_timer_memory W d t w L" "0 < rate" "rate * 1000000 \<le> INT_MAX"
  shows "\<exists>w1. io_timer_init os d t rate w = Some w1
    \<and> (0 \<le> timerfd w1 \<longrightarrow> (\<exists>w' L'. io_timer_deinit os t w1 = Some w' \<and> driver_inv (insert t W) {d} w' L'
        \<and> open_fds (trace w') = open_fds (trace w) \<and> event_listening (watchers w' t) = 0 \<and> L' t = Some []
        \<and> (\<forall>x. x \<noteq> t \<longrightarrow> watchers w' x = watchers w x)))"
proof -
  obtain w1 L1 where w1: "io_timer_init os d t rate w = Some w1"
    "if timerfd w1 < 0
       then driver_inv W {d} w1 L \<and> watchers w1 = watchers w \<and> open_fds (trace w1) = open_fds (trace w)
       else driver_inv (insert t W) {d} w1 L1 \<and> timer_inv {} {} w1 L1 \<and> tick (st w1) = 0 \<and> tick_rate (st w1) = rate
         \<and> watchers w1 = (watchers w)(t := \<lparr>wfd = timerfd w1, event_listening = IO_DRIVER_EVENT_RX,
             callback = Io_timer_tick_callback\<rparr>)
         \<and> it_driver w1 = d \<and> timerfd w1 \<notin> open_fds (trace w)
         \<and> open_fds (trace w1) = insert (timerfd w1) (open_fds (trace w))
         \<and> Sys_timerfd_settime (timerfd w1) (rate * 1000000) \<in> fst ` set (trace w1)"
    using io_timer_init_ok[OF assms, of "{}"] by blast
  have "\<exists>w' L'. io_timer_deinit os t w1 = Some w' \<and> driver_inv (insert t W) {d} w' L'
      \<and> open_fds (trace w') = open_fds (trace w) \<and> event_listening (watchers w' t) = 0 \<and> L' t = Some []
      \<and> (\<forall>x. x \<noteq> t \<longrightarrow> watchers w' x = watchers w x)" if fd: "0 \<le> timerfd w1"
  proof -
    have i: "driver_inv (insert t W) {d} w1 L1" "it_driver w1 = d" "timerfd w1 \<notin> open_fds (trace w)"
      "open_fds (trace w1) = insert (timerfd w1) (open_fds (trace w))"
      "watchers w1 = (watchers w)(t := \<lparr>wfd = timerfd w1, event_listening = IO_DRIVER_EVENT_RX, callback = Io_timer_tick_callback\<rparr>)"
      using w1(2) fd by auto
    have "event_listening (watchers w1 t) AND NOT IO_DRIVER_EVENT_RX = 0" unfolding i(5) by simp
    from io_timer_deinit_ok[OF assms(1) i(1) insertI1 i(2) this] obtain w' L' where
      "io_timer_deinit os t w1 = Some w'" "driver_inv (insert t W) {d} w' L'" "event_listening (watchers w' t) = 0"
      "L' t = Some []" "\<forall>x. x \<noteq> t \<longrightarrow> watchers w' x = watchers w1 x"
      "open_fds (trace w') = open_fds (trace w1) - {timerfd w1}" by blast
    then show ?thesis using i(3-5) by (intro exI[of _ w'] exI[of _ L']) simp
  qed
  then show ?thesis using w1(1) by blast
qed

section \<open>A concrete instance\<close>

text \<open>A driver at 20, a timer service at 21 with buckets 1 to 8, and a timer at 10.\<close>

definition demo_io_timer :: io_timer_mem where
  "demo_io_timer = \<lparr>lheap = idle_heap (set [1..<9] \<union> {10, 20, 21}), st = \<lparr>tick_rate = 0, tick = 9, buckets = [1..<9]\<rparr>,
     elem_tick = (\<lambda>_. 0), fired = [], watchers = (\<lambda>_. \<lparr>wfd = 0, event_listening = 0, callback = Other_callback 0\<rparr>),
     calls = [], trace = [], errno = 0, bufs = (\<lambda>_. []), it_driver = 0, timerfd = 0\<rparr>"

lemma demo_io_timer_memory: "io_timer_memory {} 20 21 demo_io_timer (idle_lists {10, 20})"
proof -
  have "heap_lists (idle_heap (set [1..<9] \<union> {10, 20, 21})) (idle_lists {10, 20})"
    using idle_heap_lists[of "set [1..<9] \<union> {10, 20, 21}"] by (auto simp: heap_lists_def idle_lists_def NULL_def)
  moreover have "cells (idle_lists {10, 20}) = {10, 20}" by (auto simp: cells_def idle_lists_def split: if_splits)
  moreover have "10 \<notin> set [Suc 0..<9]" "20 \<notin> set [Suc 0..<9]" "21 \<notin> set [Suc 0..<9]" by simp_all
  ultimately show ?thesis
    by (auto simp add: io_timer_memory_def driver_inv_def driver_ok_def blank_def loose_def demo_io_timer_def idle_heap_def
        SOFT_TIMER_NUM_BUCKETS_def idle_lists_def simp del: set_upt split: if_splits)
qed

theorem io_timer_init_starts_witness:
  "\<exists>w'. io_timer_init demo_os 20 21 10 demo_io_timer = Some w' \<and> (timerfd w' < 0 \<or> tick_rate (st w') = 10)"
  using io_timer_init_starts[OF demo_os_ok demo_io_timer_memory, of 10 "{10}"]
  by (fastforce simp: INT_MAX_def idle_lists_def split: if_splits)

theorem io_timer_deinit_undoes_init_witness:
  "\<exists>w1. io_timer_init demo_os 20 21 10 demo_io_timer = Some w1
    \<and> (0 \<le> timerfd w1 \<longrightarrow> (\<exists>w'. io_timer_deinit demo_os 21 w1 = Some w' \<and> open_fds (trace w') = {}))"
  using io_timer_deinit_undoes_init[OF demo_os_ok demo_io_timer_memory, of 10]
  by (fastforce simp: INT_MAX_def demo_io_timer_def open_fds_def)

end
