(* ===== verification/Io_Net.thy ===== *)
theory Io_Net
  imports Io_Timer
begin

text \<open>
  The network service of \<open>src/src/io_net.h\<close> and \<open>src/src/io_net.c\<close>: TCP and UDP sockets, plain or
  with TLS, whose events are handed to a client callback.

  A connection is named by the address of its \<open>io_net_t\<close>, which is also the address of its
  watcher. A client callback is a function pointer: the names of the program's callbacks are a
  datatype, and the function \<open>cb\<close> that runs one is a parameter, which may change the event, as the
  callback of a listening socket does to hand over a new connection. \<open>net_log\<close> is a ghost record
  of the events delivered, which no operation reads. The TLS library is part of the system
  parameter \<open>os\<close>; its error codes are parameters.
\<close>

section \<open>State\<close>

unbundle bit_operations_syntax

datatype net_callback =
    Io_telnet_server_callback
  | Io_telnet_client_callback
  | Io_dns_rx_callback
  | User_net_callback nat

datatype io_net_event_enum =
    io_net_event_enum_alloc_connection
  | io_net_event_enum_connected
  | io_net_event_enum_handshaken
  | io_net_event_enum_rx
  | io_net_event_enum_tx
  | io_net_event_enum_closed

text \<open>The union of the event: not set, a new connection, received bytes.\<close>

datatype io_net_event_u = Ev_unset | Ev_c addr addr | Ev_r addr u32

record io_net_event =
  ev_enum :: io_net_event_enum
  ev_u :: io_net_event_u
  ev_from :: "sockaddr option"

datatype io_net_return = io_net_return_continue | io_net_return_stop

record io_net =
  sd :: int
  net_cb :: net_callback
  net_driver :: addr
  net_ssl :: addr
  net_rx_buf :: addr
  net_rx_size :: int

record io_ssl =
  mbed_fd :: int
  handshaking :: bool
  ssl_n :: addr

record net_mem = io_timer_mem +
  nets :: "addr \<Rightarrow> io_net"
  ssls :: "addr \<Rightarrow> io_ssl"
  net_log :: "(addr \<times> io_net_event) list"

record tls_codes =
  WANT_READ :: int
  WANT_WRITE :: int

type_synonym 'w net_client = "net_callback \<Rightarrow> addr \<Rightarrow> io_net_event \<Rightarrow> 'w \<Rightarrow> (io_net_return \<times> io_net_event \<times> 'w) option"

definition put_net :: "addr \<Rightarrow> io_net \<Rightarrow> 'a net_mem_scheme \<Rightarrow> 'a net_mem_scheme" where
  "put_net n v w = w\<lparr>nets := (nets w)(n := v)\<rparr>"

definition put_ssl :: "addr \<Rightarrow> io_ssl \<Rightarrow> 'a net_mem_scheme \<Rightarrow> 'a net_mem_scheme" where
  "put_ssl s v w = w\<lparr>ssls := (ssls w)(s := v)\<rparr>"

definition call_net_cb ::
  "'a net_mem_scheme net_client \<Rightarrow> addr \<Rightarrow> io_net_event \<Rightarrow> 'a net_mem_scheme \<Rightarrow>
   (io_net_return \<times> io_net_event \<times> 'a net_mem_scheme) option" where
  "call_net_cb cb n ev w = cb (net_cb (nets w n)) n ev (w\<lparr>net_log := net_log w @ [(n, ev)]\<rparr>)"

definition plain_event :: "io_net_event_enum \<Rightarrow> io_net_event" where
  "plain_event e = \<lparr>ev_enum = e, ev_u = Ev_unset, ev_from = None\<rparr>"

text \<open>The event after \<open>memset\<close> to zero.\<close>

definition zero_event :: io_net_event where
  "zero_event = \<lparr>ev_enum = io_net_event_enum_alloc_connection, ev_u = Ev_c NULL NULL, ev_from = None\<rparr>"

section \<open>Calls of the system\<close>

definition sock_util_put_nonblock :: "os \<Rightarrow> int \<Rightarrow> 'a os_mem_scheme \<Rightarrow> 'a os_mem_scheme" where
  "sock_util_put_nonblock os fd w = sys_all os [Sys_ioctl_nonblock fd] w"

text \<open>The initialisation of the library's contexts, with which the three functions below begin.\<close>

definition tls_contexts_init :: "os \<Rightarrow> addr \<Rightarrow> 'a net_mem_scheme \<Rightarrow> 'a net_mem_scheme" where
  "tls_contexts_init os s w =
     (let (r, w) = os_do os (Tls Tls_net_init s) w;
          w = put_ssl s ((ssls w s)\<lparr>mbed_fd := os_val r\<rparr>) w
      in sys_all os (List.map (\<lambda>c. Tls c s)
           [Tls_ssl_init, Tls_config_init, Tls_entropy_init, Tls_pk_init, Tls_crt_init, Tls_ctr_drbg_init]) w)"

definition io_ssl_mbedtls_init_server :: "os \<Rightarrow> addr \<Rightarrow> 'a net_mem_scheme \<Rightarrow> int \<times> 'a net_mem_scheme" where
  "io_ssl_mbedtls_init_server os s w =
     (let w = tls_contexts_init os s w;
          (ret, w) = sys_try os (List.map (\<lambda>c. Tls c s)
            [Tls_ctr_drbg_seed, Tls_crt_parse_srv, Tls_crt_parse_cas, Tls_pk_parse_srv_key, Tls_config_defaults True]) w
      in if ret \<noteq> 0 then (-1, w)
      else let w = sys_all os [Tls Tls_conf_rng s, Tls Tls_conf_ca_chain_next s] w;
               (ret, w) = sys_try os [Tls Tls_conf_own_cert s, Tls (Tls_ssl_setup s) s] w
           in if ret \<noteq> 0 then (-1, w) else (0, put_ssl s ((ssls w s)\<lparr>handshaking := False\<rparr>) w))"

definition io_ssl_mbedtls_init_client :: "os \<Rightarrow> addr \<Rightarrow> 'a net_mem_scheme \<Rightarrow> int \<times> 'a net_mem_scheme" where
  "io_ssl_mbedtls_init_client os s w =
     (let w = tls_contexts_init os s w;
          (ret, w) = sys_try os (List.map (\<lambda>c. Tls c s)
            [Tls_ctr_drbg_seed, Tls_crt_parse_cas, Tls_config_defaults False]) w
      in if ret \<noteq> 0 then (-1, w)
      else let w = sys_all os [Tls Tls_conf_authmode_none s, Tls Tls_conf_ca_chain s, Tls Tls_conf_rng s] w;
               (ret, w) = sys_try os [Tls (Tls_ssl_setup s) s] w
           in if ret \<noteq> 0 then (-1, w)
           else let w = sys_all os [Tls Tls_set_bio s] w
                in (0, put_ssl s ((ssls w s)\<lparr>handshaking := False\<rparr>) w))"

definition io_ssl_mbedtls_init_accepted :: "os \<Rightarrow> addr \<Rightarrow> addr \<Rightarrow> 'a net_mem_scheme \<Rightarrow> int \<times> 'a net_mem_scheme" where
  "io_ssl_mbedtls_init_accepted os l s w =
     (let w = tls_contexts_init os s w;
          w = put_ssl s ((ssls w s)\<lparr>mbed_fd := sd (nets w (ssl_n (ssls w s)))\<rparr>) w;
          (ret, w) = sys_try os [Tls Tls_ctr_drbg_seed s, Tls (Tls_ssl_setup l) s] w
      in if ret \<noteq> 0 then (-1, w)
      else let w = sys_all os [Tls Tls_set_bio s] w
           in (0, put_ssl s ((ssls w s)\<lparr>handshaking := False\<rparr>) w))"

definition io_ssl_mbedtls_deinit :: "os \<Rightarrow> addr \<Rightarrow> 'a net_mem_scheme \<Rightarrow> 'a net_mem_scheme" where
  "io_ssl_mbedtls_deinit os s w =
     (let (r, w) = os_do os (Tls (Tls_net_free (mbed_fd (ssls w s))) s) w;
          w = put_ssl s ((ssls w s)\<lparr>mbed_fd := os_val r\<rparr>) w
      in sys_all os (List.map (\<lambda>c. Tls c s)
           [Tls_crt_free, Tls_pk_free, Tls_ssl_free, Tls_config_free, Tls_ctr_drbg_free, Tls_entropy_free]) w)"

section \<open>Public operations\<close>

definition io_net_set_rx_buf :: "addr \<Rightarrow> addr \<Rightarrow> int \<Rightarrow> 'a net_mem_scheme \<Rightarrow> 'a net_mem_scheme" where
  "io_net_set_rx_buf n rx_buf rx_size w = put_net n ((nets w n)\<lparr>net_rx_buf := rx_buf, net_rx_size := rx_size\<rparr>) w"

text \<open>The code after the label \<open>socket_failed\<close>.\<close>

definition socket_failed :: "os \<Rightarrow> addr \<Rightarrow> 'a net_mem_scheme \<Rightarrow> int \<times> 'a net_mem_scheme" where
  "socket_failed os s w = (-1, if s \<noteq> NULL then io_ssl_mbedtls_deinit os s w else w)"

definition INADDR_ANY :: u32 where "INADDR_ANY = 0"

definition io_net_bind ::
  "os \<Rightarrow> addr \<Rightarrow> addr \<Rightarrow> addr \<Rightarrow> int \<Rightarrow> net_callback \<Rightarrow> 'a net_mem_scheme \<Rightarrow> (int \<times> 'a net_mem_scheme) option" where
  "io_net_bind os driver n s port cb w =
     (let (ret, w) = (if s \<noteq> NULL then io_ssl_mbedtls_init_server os s w else (0, w)) in
      if s \<noteq> NULL \<and> ret \<noteq> 0 then Some (-1, w)
      else let (fd, w) = sys os (Sys_socket True) w in
      if fd < 0 then Some (socket_failed os s w)
      else let w = sys_all os [Sys_fcntl_setfd fd] w;
               w = sock_util_put_nonblock os fd w;
               w = sys_all os [Sys_setsockopt_reuseaddr fd] w;
               (ret, w) = sys os (Sys_bind fd (INADDR_ANY, word_of_int port)) w in
      if ret \<noteq> 0 then Some (socket_failed os s (sys_all os [Sys_close fd] w))
      else do {
        let w = sys_all os [Sys_listen fd 5] w;
        let w = put_net n ((nets w n)\<lparr>sd := fd, net_cb := cb, net_driver := driver, net_ssl := s\<rparr>) w;
        if s \<noteq> NULL then do {
          w \<leftarrow> io_driver_watcher_init n fd Io_ssl_accept_callback w;
          w \<leftarrow> io_driver_watch driver n IO_DRIVER_EVENT_RX w;
          Some (0, put_ssl s ((ssls w s)\<lparr>mbed_fd := sd (nets w n), ssl_n := n\<rparr>) w)
        } else do {
          w \<leftarrow> io_driver_watcher_init n fd Io_net_accept_callback w;
          w \<leftarrow> io_driver_watch driver n IO_DRIVER_EVENT_RX w;
          Some (0, w)
        }
      })"

text \<open>\<open>to\<close> is the address that \<open>inet_addr\<close> makes of the text given.\<close>

definition io_net_connect ::
  "os \<Rightarrow> addr \<Rightarrow> addr \<Rightarrow> addr \<Rightarrow> u32 \<Rightarrow> int \<Rightarrow> net_callback \<Rightarrow> 'a net_mem_scheme \<Rightarrow> (int \<times> 'a net_mem_scheme) option" where
  "io_net_connect os driver n s to port cb w =
     (let (ret, w) = (if s \<noteq> NULL then io_ssl_mbedtls_init_client os s w else (0, w)) in
      if s \<noteq> NULL \<and> ret \<noteq> 0 then Some (-1, w)
      else let (fd, w) = sys os (Sys_socket True) w in
      if fd < 0 then Some (socket_failed os s w)
      else do {
        let w = sys_all os [Sys_fcntl_setfd fd] w;
        let w = sock_util_put_nonblock os fd w;
        let w = put_net n ((nets w n)\<lparr>sd := fd, net_cb := cb, net_driver := driver, net_ssl := s\<rparr>) w;
        w \<leftarrow> (if s \<noteq> NULL then do {
          w \<leftarrow> io_driver_watcher_init n fd Io_ssl_connect_callback w;
          w \<leftarrow> io_driver_watch driver n IO_DRIVER_EVENT_TX w;
          Some (put_ssl s ((ssls w s)\<lparr>ssl_n := n, mbed_fd := sd (nets w n)\<rparr>) w)
        } else do {
          w \<leftarrow> io_driver_watcher_init n fd Io_net_connect_callback w;
          io_driver_watch driver n IO_DRIVER_EVENT_TX w
        });
        Some (0, sys_all os [Sys_connect fd (to, word_of_int port)] w)
      })"

definition io_net_close :: "os \<Rightarrow> addr \<Rightarrow> 'a net_mem_scheme \<Rightarrow> 'a net_mem_scheme option" where
  "io_net_close os n w = do {
     w \<leftarrow> io_driver_no_watch (net_driver (nets w n)) n (IO_DRIVER_EVENT_RX OR IO_DRIVER_EVENT_TX OR IO_DRIVER_EVENT_EX) w;
     let w = (if net_ssl (nets w n) \<noteq> NULL then io_ssl_mbedtls_deinit os (net_ssl (nets w n)) w else w);
     Some (sys_all os [Sys_close (sd (nets w n))] w)
   }"

definition io_net_tx :: "os \<Rightarrow> tls_codes \<Rightarrow> addr \<Rightarrow> addr \<Rightarrow> int \<Rightarrow> 'a net_mem_scheme \<Rightarrow> (int \<times> 'a net_mem_scheme) option" where
  "io_net_tx os tc n buf len w = do {
     let s = net_ssl (nets w n);
     if s = NULL then do {
       bs \<leftarrow> bytes_at buf len w;
       let (ret, w) = sys os (Sys_write (sd (nets w n)) bs) w;
       if ret \<le> 0 then
         if \<not> (errno w = EWOULDBLOCK \<or> errno w = EAGAIN) then Some (-1, w)
         else do {
           w \<leftarrow> io_driver_watch (net_driver (nets w n)) n IO_DRIVER_EVENT_TX w;
           Some (0, w)
         }
       else Some (ret, w)
     } else if handshaking (ssls w s) then Some (-1, w)
     else do {
       bs \<leftarrow> bytes_at buf len w;
       let (ret, w) = sys os (Tls (Tls_write bs) s) w;
       if ret \<le> 0 then
         if ret \<noteq> WANT_WRITE tc then Some (-1, w)
         else do {
           w \<leftarrow> io_driver_watch (net_driver (nets w n)) n IO_DRIVER_EVENT_TX w;
           Some (ret, w)
         }
       else Some (ret, w)
     }
   }"

definition io_net_udp ::
  "os \<Rightarrow> addr \<Rightarrow> addr \<Rightarrow> int \<Rightarrow> net_callback \<Rightarrow> 'a net_mem_scheme \<Rightarrow> (int \<times> 'a net_mem_scheme) option" where
  "io_net_udp os driver n port cb w =
     (let (fd, w) = sys os (Sys_socket False) w in
      if fd < 0 then Some (-1, w)
      else let w = sys_all os [Sys_fcntl_setfd fd] w;
               w = sock_util_put_nonblock os fd w;
               (ret, w) = sys os (Sys_bind fd (INADDR_ANY, word_of_int port)) w in
      if ret \<noteq> 0 then Some (-1, sys_all os [Sys_close fd] w)
      else do {
        let w = put_net n ((nets w n)\<lparr>sd := fd, net_cb := cb, net_driver := driver\<rparr>) w;
        w \<leftarrow> io_driver_watcher_init n fd Io_net_udp_callback w;
        w \<leftarrow> io_driver_watch driver n IO_DRIVER_EVENT_RX w;
        Some (0, w)
      })"

definition io_net_udp_tx ::
  "os \<Rightarrow> addr \<Rightarrow> sockaddr \<Rightarrow> addr \<Rightarrow> int \<Rightarrow> 'a net_mem_scheme \<Rightarrow> (int \<times> 'a net_mem_scheme) option" where
  "io_net_udp_tx os n to buf len w = do {
     bs \<leftarrow> bytes_at buf len w;
     let (ret, w) = sys os (Sys_sendto (sd (nets w n)) to bs) w;
     Some (if ret = len then 0 else -1, w)
   }"

section \<open>Callbacks of the event loop\<close>

definition io_net_handle_data_rx_event ::
  "os \<Rightarrow> 'a net_mem_scheme net_client \<Rightarrow> addr \<Rightarrow> 'a net_mem_scheme \<Rightarrow> (io_net_return \<times> 'a net_mem_scheme) option" where
  "io_net_handle_data_rx_event os cb n w = do {
     let buf = net_rx_buf (nets w n);
     (r, w) \<leftarrow> sys_into os (Sys_read (sd (nets w n)) (net_rx_size (nets w n))) buf w;
     let e = (if os_ret r \<le> 0 then plain_event io_net_event_enum_closed
              else (plain_event io_net_event_enum_rx)\<lparr>ev_u := Ev_r buf (word_of_int (os_ret r))\<rparr>);
     (ret, _, w) \<leftarrow> call_net_cb cb n e w;
     Some (ret, w)
   }"

text \<open>The part of the generic callbacks for the output event.\<close>

definition net_tx_event ::
  "'a net_mem_scheme net_client \<Rightarrow> addr \<Rightarrow> u8 \<Rightarrow> 'a net_mem_scheme \<Rightarrow> 'a net_mem_scheme option" where
  "net_tx_event cb n e w =
     (if e AND IO_DRIVER_EVENT_TX \<noteq> 0 then do {
        w \<leftarrow> io_driver_no_watch (net_driver (nets w n)) n IO_DRIVER_EVENT_TX w;
        (_, _, w) \<leftarrow> call_net_cb cb n (plain_event io_net_event_enum_tx) w;
        Some w
      } else Some w)"

definition io_net_generic_callback ::
  "os \<Rightarrow> 'a net_mem_scheme net_client \<Rightarrow> addr \<Rightarrow> u8 \<Rightarrow> 'a net_mem_scheme \<Rightarrow> 'a net_mem_scheme option" where
  "io_net_generic_callback os cb n e w =
     (if e AND IO_DRIVER_EVENT_RX \<noteq> 0 then do {
        (ret, w) \<leftarrow> io_net_handle_data_rx_event os cb n w;
        if ret = io_net_return_stop then Some w else net_tx_event cb n e w
      } else net_tx_event cb n e w)"

definition io_net_accept_callback ::
  "os \<Rightarrow> 'a net_mem_scheme net_client \<Rightarrow> addr \<Rightarrow> u8 \<Rightarrow> 'a net_mem_scheme \<Rightarrow> 'a net_mem_scheme option" where
  "io_net_accept_callback os cb l e w =
     (if e \<noteq> IO_DRIVER_EVENT_RX then Some w
      else let (r, w) = os_do os (Sys_accept (sd (nets w l))) w; newsd = os_ret r in
      if newsd < 0 then Some w
      else do {
        (ret, ev, w) \<leftarrow> call_net_cb cb l (zero_event\<lparr>ev_from := Some (os_addr r)\<rparr>) w;
        if ret = io_net_return_stop then Some (sys_all os [Sys_close newsd] w)
        else do {
          let w = sock_util_put_nonblock os newsd w;
          n \<leftarrow> (case ev_u ev of Ev_c n s \<Rightarrow> if n = NULL then None else Some n | _ \<Rightarrow> None);
          let w = put_net n ((nets w n)\<lparr>sd := newsd, net_cb := net_cb (nets w l), net_driver := net_driver (nets w l)\<rparr>) w;
          w \<leftarrow> io_driver_watcher_init n newsd Io_net_generic_callback w;
          w \<leftarrow> io_driver_watch (net_driver (nets w n)) n IO_DRIVER_EVENT_RX w;
          (_, _, w) \<leftarrow> call_net_cb cb n (zero_event\<lparr>ev_enum := io_net_event_enum_connected, ev_from := Some (os_addr r)\<rparr>) w;
          Some w
        }
      })"

text \<open>
  The event set in either branch is lost in the \<open>memset\<close> that follows.
\<close>

definition io_net_connect_callback ::
  "os \<Rightarrow> 'a net_mem_scheme net_client \<Rightarrow> addr \<Rightarrow> u8 \<Rightarrow> 'a net_mem_scheme \<Rightarrow> 'a net_mem_scheme option" where
  "io_net_connect_callback os cb n e w =
     (if e \<noteq> IO_DRIVER_EVENT_TX then Some w
      else do {
        let (r, w) = os_do os (Sys_getsockopt_error (sd (nets w n))) w;
        (ev, w) \<leftarrow> (if os_val r \<noteq> 0 then Some (plain_event io_net_event_enum_closed, w)
          else do {
            let w = io_driver_watcher_set_cb n Io_net_generic_callback w;
            let ev = plain_event io_net_event_enum_connected;
            w \<leftarrow> io_driver_no_watch (net_driver (nets w n)) n IO_DRIVER_EVENT_TX w;
            w \<leftarrow> io_driver_watch (net_driver (nets w n)) n IO_DRIVER_EVENT_RX w;
            Some (ev, w)
          });
        let ev = zero_event;
        let ev = ev\<lparr>ev_u := Ev_c n NULL\<rparr>;
        (_, _, w) \<leftarrow> call_net_cb cb n ev w;
        Some w
      })"

definition io_net_udp_callback ::
  "os \<Rightarrow> 'a net_mem_scheme net_client \<Rightarrow> addr \<Rightarrow> u8 \<Rightarrow> 'a net_mem_scheme \<Rightarrow> 'a net_mem_scheme option" where
  "io_net_udp_callback os cb n e w =
     (if e = IO_DRIVER_EVENT_RX then do {
        let buf = net_rx_buf (nets w n);
        (r, w) \<leftarrow> sys_into os (Sys_recvfrom (sd (nets w n)) (net_rx_size (nets w n))) buf w;
        if os_ret r \<le> 0 then Some w
        else do {
          (_, _, w) \<leftarrow> call_net_cb cb n ((plain_event io_net_event_enum_rx)
             \<lparr>ev_u := Ev_r buf (word_of_int (os_ret r)), ev_from := Some (os_addr r)\<rparr>) w;
          Some w
        }
      } else Some w)"

text \<open>A member of the object at \<open>s\<close> is accessed: \<open>s\<close> must not be null.\<close>

definition deref :: "addr \<Rightarrow> unit option" where
  "deref s = (if s = NULL then None else Some ())"

definition io_ssl_generic_callback ::
  "os \<Rightarrow> tls_codes \<Rightarrow> 'a net_mem_scheme net_client \<Rightarrow> addr \<Rightarrow> u8 \<Rightarrow> 'a net_mem_scheme \<Rightarrow> 'a net_mem_scheme option" where
  "io_ssl_generic_callback os tc cb n e w = do {
     let s = net_ssl (nets w n);
     if e AND IO_DRIVER_EVENT_RX \<noteq> 0 then do {
       deref s;
       let buf = net_rx_buf (nets w n);
       (r, w) \<leftarrow> sys_into os (Tls (Tls_read (net_rx_size (nets w n))) s) buf w;
       if os_ret r \<le> 0 then
         if os_ret r = WANT_READ tc then net_tx_event cb n e w
         else if os_ret r = WANT_WRITE tc then io_driver_watch (net_driver (nets w n)) n IO_DRIVER_EVENT_TX w
         else do {
           (_, _, w) \<leftarrow> call_net_cb cb n (plain_event io_net_event_enum_closed) w;
           Some w
         }
       else do {
         (ret, _, w) \<leftarrow> call_net_cb cb n
            ((plain_event io_net_event_enum_rx)\<lparr>ev_u := Ev_r buf (word_of_int (os_ret r))\<rparr>) w;
         if ret = io_net_return_stop then Some w else net_tx_event cb n e w
       }
     } else net_tx_event cb n e w
   }"

definition io_ssl_handshake_callback ::
  "os \<Rightarrow> tls_codes \<Rightarrow> 'a net_mem_scheme net_client \<Rightarrow> addr \<Rightarrow> u8 \<Rightarrow> 'a net_mem_scheme \<Rightarrow> 'a net_mem_scheme option" where
  "io_ssl_handshake_callback os tc cb n e w = do {
     let s = net_ssl (nets w n);
     w \<leftarrow> io_driver_no_watch (net_driver (nets w n)) n IO_DRIVER_EVENT_TX w;
     deref s;
     let (ret, w) = sys os (Tls Tls_handshake s) w;
     if ret = 0 then do {
       let w = put_ssl s ((ssls w s)\<lparr>handshaking := False\<rparr>) w;
       let w = io_driver_watcher_set_cb n Io_ssl_generic_callback w;
       (ret, _, w) \<leftarrow> call_net_cb cb n (plain_event io_net_event_enum_handshaken) w;
       if ret \<noteq> io_net_return_stop then io_ssl_generic_callback os tc cb n e w else Some w
     }
     else if ret = WANT_READ tc then Some w
     else if ret = WANT_WRITE tc then io_driver_watch (net_driver (nets w n)) n IO_DRIVER_EVENT_TX w
     else do {
       (_, _, w) \<leftarrow> call_net_cb cb n (plain_event io_net_event_enum_closed) w;
       Some w
     }
   }"

definition io_ssl_accept_callback ::
  "os \<Rightarrow> 'a net_mem_scheme net_client \<Rightarrow> addr \<Rightarrow> u8 \<Rightarrow> 'a net_mem_scheme \<Rightarrow> 'a net_mem_scheme option" where
  "io_ssl_accept_callback os cb ln e w =
     (if e \<noteq> IO_DRIVER_EVENT_RX then Some w
      else let ls = net_ssl (nets w ln); (r, w) = os_do os (Sys_accept (sd (nets w ln))) w; newsd = os_ret r in
      if newsd < 0 then Some w
      else do {
        let w = sys_all os [Sys_fcntl_setfd newsd] w;
        (ret, ev, w) \<leftarrow> call_net_cb cb ln (zero_event\<lparr>ev_from := Some (os_addr r)\<rparr>) w;
        if ret = io_net_return_stop then Some (sys_all os [Sys_close newsd] w)
        else do {
          let w = sock_util_put_nonblock os newsd w;
          (n, s) \<leftarrow> (case ev_u ev of Ev_c n s \<Rightarrow> if n = NULL \<or> s = NULL then None else Some (n, s) | _ \<Rightarrow> None);
          let w = put_net n ((nets w n)\<lparr>sd := newsd, net_cb := net_cb (nets w ln),
                    net_driver := net_driver (nets w ln), net_ssl := s\<rparr>) w;
          let w = put_ssl s ((ssls w s)\<lparr>ssl_n := n\<rparr>) w;
          deref ls;
          let (_, w) = io_ssl_mbedtls_init_accepted os ls s w;
          let w = put_ssl s ((ssls w s)\<lparr>handshaking := True\<rparr>) w;
          w \<leftarrow> io_driver_watcher_init n newsd Io_ssl_handshake_callback w;
          w \<leftarrow> io_driver_watch (net_driver (nets w n)) n IO_DRIVER_EVENT_RX w;
          (_, _, w) \<leftarrow> call_net_cb cb n (zero_event\<lparr>ev_enum := io_net_event_enum_connected, ev_from := Some (os_addr r)\<rparr>) w;
          Some w
        }
      })"

definition io_ssl_connect_callback ::
  "os \<Rightarrow> tls_codes \<Rightarrow> 'a net_mem_scheme net_client \<Rightarrow> addr \<Rightarrow> u8 \<Rightarrow> 'a net_mem_scheme \<Rightarrow> 'a net_mem_scheme option" where
  "io_ssl_connect_callback os tc cb n e w =
     (if e \<noteq> IO_DRIVER_EVENT_TX then Some w
      else do {
        let s = net_ssl (nets w n);
        let (r, w) = os_do os (Sys_getsockopt_error (sd (nets w n))) w;
        (ev, w) \<leftarrow> (if os_val r \<noteq> 0 then Some (plain_event io_net_event_enum_closed, w)
          else do {
            let w = io_driver_watcher_set_cb n Io_ssl_generic_callback w;
            let ev = plain_event io_net_event_enum_connected;
            w \<leftarrow> io_driver_no_watch (net_driver (nets w n)) n IO_DRIVER_EVENT_TX w;
            w \<leftarrow> io_driver_watch (net_driver (nets w n)) n IO_DRIVER_EVENT_RX w;
            Some (ev, w)
          });
        deref s;
        let w = put_ssl s ((ssls w s)\<lparr>handshaking := True\<rparr>) w;
        let w = io_driver_watcher_set_cb n Io_ssl_handshake_callback w;
        let ev = zero_event;
        let ev = ev\<lparr>ev_u := Ev_c n NULL\<rparr>;
        (_, _, w) \<leftarrow> call_net_cb cb n ev w;
        io_ssl_handshake_callback os tc cb n 0 w
      })"

text \<open>The callbacks by name; \<open>other\<close> runs those of other components.\<close>

fun net_dispatch ::
  "os \<Rightarrow> tls_codes \<Rightarrow> 'a net_mem_scheme net_client \<Rightarrow>
   (io_callback \<Rightarrow> addr \<Rightarrow> u8 \<Rightarrow> 'a net_mem_scheme \<Rightarrow> 'a net_mem_scheme option) \<Rightarrow>
   io_callback \<Rightarrow> addr \<Rightarrow> u8 \<Rightarrow> 'a net_mem_scheme \<Rightarrow> 'a net_mem_scheme option" where
  "net_dispatch os tc cb other Io_net_generic_callback n e w = io_net_generic_callback os cb n e w"
| "net_dispatch os tc cb other Io_net_accept_callback n e w = io_net_accept_callback os cb n e w"
| "net_dispatch os tc cb other Io_net_connect_callback n e w = io_net_connect_callback os cb n e w"
| "net_dispatch os tc cb other Io_net_udp_callback n e w = io_net_udp_callback os cb n e w"
| "net_dispatch os tc cb other Io_ssl_generic_callback n e w = io_ssl_generic_callback os tc cb n e w"
| "net_dispatch os tc cb other Io_ssl_handshake_callback n e w = io_ssl_handshake_callback os tc cb n e w"
| "net_dispatch os tc cb other Io_ssl_accept_callback n e w = io_ssl_accept_callback os cb n e w"
| "net_dispatch os tc cb other Io_ssl_connect_callback n e w = io_ssl_connect_callback os tc cb n e w"
| "net_dispatch os tc cb other c n e w = other c n e w"

section \<open>What the operations leave alone\<close>

lemma driver_inv_net [simp]:
  "driver_inv W D (w\<lparr>nets := a\<rparr>) L = driver_inv W D w L"
  "driver_inv W D (w\<lparr>ssls := b\<rparr>) L = driver_inv W D w L"
  "driver_inv W D (w\<lparr>net_log := l\<rparr>) L = driver_inv W D w L"
  by (simp_all add: driver_inv_def)

lemma still_net [simp]:
  "still K w L (w'\<lparr>nets := a\<rparr>) L' = still K w L w' L'"
  "still K w L (w'\<lparr>ssls := b\<rparr>) L' = still K w L w' L'"
  "still K w L (w'\<lparr>net_log := l\<rparr>) L' = still K w L w' L'"
  by (simp_all add: still_def)

lemma io_effect_net [simp]:
  "io_effect W d R X w L (w'\<lparr>nets := a\<rparr>) L' = io_effect W d R X w L w' L'"
  "io_effect W d R X w L (w'\<lparr>ssls := b\<rparr>) L' = io_effect W d R X w L w' L'"
  "io_effect W d R X w L (w'\<lparr>net_log := l\<rparr>) L' = io_effect W d R X w L w' L'"
  by (simp_all add: io_effect_def)

lemma io_effect_from [simp]:
  "io_effect W d R X (w\<lparr>trace := t\<rparr>) L w' L' = io_effect W d R X w L w' L'"
  "io_effect W d R X (w\<lparr>errno := e\<rparr>) L w' L' = io_effect W d R X w L w' L'"
  "io_effect W d R X (w\<lparr>bufs := b\<rparr>) L w' L' = io_effect W d R X w L w' L'"
  by (simp_all add: io_effect_def still_def)

lemma io_effect_from_net [simp]:
  "io_effect W d R X (w\<lparr>nets := a\<rparr>) L w' L' = io_effect W d R X w L w' L'"
  "io_effect W d R X (w\<lparr>ssls := s\<rparr>) L w' L' = io_effect W d R X w L w' L'"
  "io_effect W d R X (w\<lparr>net_log := l\<rparr>) L w' L' = io_effect W d R X w L w' L'"
  by (simp_all add: io_effect_def still_def)

lemma io_effect_fields:
  assumes "io_effect W d R X v L v' L'"
    and "lheap w = lheap v" "watchers w = watchers v" "calls w = calls v" "st w = st v" "elem_tick w = elem_tick v" "fired w = fired v"
    and "lheap w' = lheap v'" "watchers w' = watchers v'" "calls w' = calls v'" "st w' = st v'" "elem_tick w' = elem_tick v'"
      "fired w' = fired v'"
  shows "io_effect W d R X w L w' L'"
  using assms by (simp add: io_effect_def driver_inv_def still_def)

text \<open>Only calls of the TLS library on the object \<open>s\<close>, and that object.\<close>

fun tls_on :: "addr \<Rightarrow> os_call \<Rightarrow> bool" where
  "tls_on s (Tls c a) = (a = s)"
| "tls_on s _ = False"

lemma tls_on_neutral: "tls_on s c \<Longrightarrow> neutral c"
  by (cases c) auto

lemma list_all_tls_neutral: "list_all (\<lambda>x. tls_on s (fst x)) tr \<Longrightarrow> list_all (\<lambda>x. neutral (fst x)) tr"
  by (auto simp: list_all_iff intro: tls_on_neutral)

definition tls_only :: "addr \<Rightarrow> 'a net_mem_scheme \<Rightarrow> 'a net_mem_scheme \<Rightarrow> bool" where
  "tls_only s w w' \<longleftrightarrow> (\<exists>tr e v. w' = w\<lparr>trace := trace w @ tr, errno := e, ssls := (ssls w)(s := v)\<rparr>
     \<and> list_all (\<lambda>x. tls_on s (fst x)) tr)"

lemma tls_only_trans: "tls_only s w w' \<Longrightarrow> tls_only s w' w'' \<Longrightarrow> tls_only s w w''"
proof -
  assume a: "tls_only s w w'" "tls_only s w' w''"
  obtain tr e v where 1: "w' = w\<lparr>trace := trace w @ tr, errno := e, ssls := (ssls w)(s := v)\<rparr>"
    "list_all (\<lambda>x. tls_on s (fst x)) tr" using a(1) unfolding tls_only_def by blast
  obtain tr' e' v' where 2: "w'' = w'\<lparr>trace := trace w' @ tr', errno := e', ssls := (ssls w')(s := v')\<rparr>"
    "list_all (\<lambda>x. tls_on s (fst x)) tr'" using a(2) unfolding tls_only_def by blast
  show ?thesis unfolding tls_only_def using 1 2
    by (intro exI[of _ "tr @ tr'"] exI[of _ e'] exI[of _ v']) simp
qed

lemma list_all_fst: "map fst tr = cs \<Longrightarrow> list_all P cs \<Longrightarrow> list_all (\<lambda>x. P (fst x)) tr"
  by (induction tr arbitrary: cs) auto

lemma tls_only_sys_all:
  assumes "list_all (tls_on s) cs"
  shows "tls_only s w (sys_all os cs w)"
proof -
  obtain tr e where t: "sys_all os cs w = w\<lparr>trace := trace w @ tr, errno := e\<rparr>" "map fst tr = cs"
    using sys_all_state by blast
  show ?thesis unfolding tls_only_def t(1) using list_all_fst[OF t(2) assms]
    by (intro exI[of _ tr] exI[of _ e] exI[of _ "ssls w s"]) simp
qed

lemma tls_only_sys_try:
  assumes "list_all (tls_on s) cs" "sys_try os cs w = (ret, w')"
  shows "tls_only s w w'" "ret = 0 \<or> ret = -1"
proof -
  obtain r tr e where t: "sys_try os cs w = (r, w\<lparr>trace := trace w @ tr, errno := e\<rparr>)" "prefix (map fst tr) cs"
    "r = 0 \<or> r = -1" using sys_try_state by blast
  obtain ds where "cs = map fst tr @ ds" using t(2) by (auto simp: prefix_def)
  then have "list_all (tls_on s) (map fst tr)" using assms(1) by simp
  then have "list_all (\<lambda>x. tls_on s (fst x)) tr" by (rule list_all_fst[OF refl])
  moreover have "w' = w\<lparr>trace := trace w @ tr, errno := e\<rparr>" using assms(2) t(1) by simp
  ultimately show "tls_only s w w'" unfolding tls_only_def
    by (intro exI[of _ tr] exI[of _ e] exI[of _ "ssls w s"]) simp
  show "ret = 0 \<or> ret = -1" using assms(2) t(1,3) by simp
qed

lemma tls_only_put_ssl: "tls_only s w (put_ssl s v w)"
  unfolding tls_only_def put_ssl_def by (intro exI[of _ "[]"] exI[of _ "errno w"] exI[of _ v]) simp

lemma tls_only_contexts_init: "tls_only s w (tls_contexts_init os s w)"
proof -
  let ?r = "os (Tls Tls_net_init s) (trace w)"
  let ?w = "w\<lparr>trace := trace w @ [(Tls Tls_net_init s, ?r)], errno := os_errno ?r\<rparr>"
  let ?w1 = "put_ssl s ((ssls ?w s)\<lparr>mbed_fd := os_val ?r\<rparr>) ?w"
  have t: "tls_only s w ?w1" unfolding tls_only_def put_ssl_def
    by (intro exI[of _ "[(Tls Tls_net_init s, ?r)]"] exI[of _ "os_errno ?r"] exI) simp
  have e: "tls_contexts_init os s w = sys_all os (List.map (\<lambda>c. Tls c s)
      [Tls_ssl_init, Tls_config_init, Tls_entropy_init, Tls_pk_init, Tls_crt_init, Tls_ctr_drbg_init]) ?w1"
    by (simp add: tls_contexts_init_def os_do_def Let_def)
  show ?thesis unfolding e by (rule tls_only_trans[OF t tls_only_sys_all]) simp
qed

lemma tls_only_init_server:
  assumes "io_ssl_mbedtls_init_server os s w = (ret, w')"
  shows "tls_only s w w'" "ret = 0 \<or> ret = -1"
proof -
  define w1 where "w1 = tls_contexts_init os s w"
  obtain r2 w2 where w2: "sys_try os (List.map (\<lambda>c. Tls c s)
      [Tls_ctr_drbg_seed, Tls_crt_parse_srv, Tls_crt_parse_cas, Tls_pk_parse_srv_key, Tls_config_defaults True]) w1 = (r2, w2)"
    by force
  have t2: "tls_only s w w2"
    by (rule tls_only_trans[OF _ tls_only_sys_try(1)[OF _ w2]]) (simp_all add: w1_def tls_only_contexts_init)
  define w3 where "w3 = sys_all os [Tls Tls_conf_rng s, Tls Tls_conf_ca_chain_next s] w2"
  have t3: "tls_only s w w3" unfolding w3_def by (rule tls_only_trans[OF t2 tls_only_sys_all]) simp
  obtain r4 w4 where w4: "sys_try os [Tls Tls_conf_own_cert s, Tls (Tls_ssl_setup s) s] w3 = (r4, w4)" by force
  have t4: "tls_only s w w4" by (rule tls_only_trans[OF t3 tls_only_sys_try(1)[OF _ w4]]) simp
  have e: "io_ssl_mbedtls_init_server os s w = (if r2 \<noteq> 0 then (-1, w2) else if r4 \<noteq> 0 then (-1, w4)
      else (0, put_ssl s ((ssls w4 s)\<lparr>handshaking := False\<rparr>) w4))"
    using w2 w4 by (simp add: io_ssl_mbedtls_init_server_def w1_def[symmetric] w3_def[symmetric] Let_def)
  show "tls_only s w w'" "ret = 0 \<or> ret = -1"
    using e assms t2 t4 tls_only_trans[OF t4 tls_only_put_ssl] by (auto split: if_splits)
qed

lemma tls_only_init_client:
  assumes "io_ssl_mbedtls_init_client os s w = (ret, w')"
  shows "tls_only s w w'" "ret = 0 \<or> ret = -1"
proof -
  define w1 where "w1 = tls_contexts_init os s w"
  obtain r2 w2 where w2: "sys_try os (List.map (\<lambda>c. Tls c s)
      [Tls_ctr_drbg_seed, Tls_crt_parse_cas, Tls_config_defaults False]) w1 = (r2, w2)"
    by force
  have t2: "tls_only s w w2"
    by (rule tls_only_trans[OF _ tls_only_sys_try(1)[OF _ w2]]) (simp_all add: w1_def tls_only_contexts_init)
  define w3 where "w3 = sys_all os [Tls Tls_conf_authmode_none s, Tls Tls_conf_ca_chain s, Tls Tls_conf_rng s] w2"
  have t3: "tls_only s w w3" unfolding w3_def by (rule tls_only_trans[OF t2 tls_only_sys_all]) simp
  obtain r4 w4 where w4: "sys_try os [Tls (Tls_ssl_setup s) s] w3 = (r4, w4)" by force
  have t4: "tls_only s w w4" by (rule tls_only_trans[OF t3 tls_only_sys_try(1)[OF _ w4]]) simp
  define w5 where "w5 = sys_all os [Tls Tls_set_bio s] w4"
  have t5: "tls_only s w w5" unfolding w5_def by (rule tls_only_trans[OF t4 tls_only_sys_all]) simp
  have e: "io_ssl_mbedtls_init_client os s w = (if r2 \<noteq> 0 then (-1, w2) else if r4 \<noteq> 0 then (-1, w4)
      else (0, put_ssl s ((ssls w5 s)\<lparr>handshaking := False\<rparr>) w5))"
    using w2 w4 by (simp add: io_ssl_mbedtls_init_client_def w1_def[symmetric] w3_def[symmetric] w5_def[symmetric] Let_def)
  show "tls_only s w w'" "ret = 0 \<or> ret = -1"
    using e assms t2 t4 tls_only_trans[OF t5 tls_only_put_ssl] by (auto split: if_splits)
qed

lemma tls_only_init_accepted:
  assumes "io_ssl_mbedtls_init_accepted os l s w = (ret, w')"
  shows "tls_only s w w'"
proof -
  define w0 where "w0 = tls_contexts_init os s w"
  define w1 where "w1 = put_ssl s ((ssls w0 s)\<lparr>mbed_fd := sd (nets w0 (ssl_n (ssls w0 s)))\<rparr>) w0"
  have t1: "tls_only s w w1" unfolding w1_def w0_def by (rule tls_only_trans[OF tls_only_contexts_init tls_only_put_ssl])
  obtain r2 w2 where w2: "sys_try os [Tls Tls_ctr_drbg_seed s, Tls (Tls_ssl_setup l) s] w1 = (r2, w2)" by force
  have t2: "tls_only s w w2" by (rule tls_only_trans[OF t1 tls_only_sys_try(1)[OF _ w2]]) simp
  define w3 where "w3 = sys_all os [Tls Tls_set_bio s] w2"
  have t3: "tls_only s w w3" unfolding w3_def by (rule tls_only_trans[OF t2 tls_only_sys_all]) simp
  have "io_ssl_mbedtls_init_accepted os l s w = (if r2 \<noteq> 0 then (-1, w2) else (0, put_ssl s ((ssls w3 s)\<lparr>handshaking := False\<rparr>) w3))"
    using w2 by (simp add: io_ssl_mbedtls_init_accepted_def w0_def[symmetric] w1_def[symmetric] w3_def[symmetric] Let_def)
  then show ?thesis using assms t2 tls_only_trans[OF t3 tls_only_put_ssl] by (auto split: if_splits)
qed

lemma tls_only_deinit: "tls_only s w (io_ssl_mbedtls_deinit os s w)"
proof -
  let ?c = "Tls (Tls_net_free (mbed_fd (ssls w s))) s"
  let ?r = "os ?c (trace w)"
  let ?w = "w\<lparr>trace := trace w @ [(?c, ?r)], errno := os_errno ?r\<rparr>"
  let ?w1 = "put_ssl s ((ssls ?w s)\<lparr>mbed_fd := os_val ?r\<rparr>) ?w"
  have t: "tls_only s w ?w1" unfolding tls_only_def put_ssl_def
    by (intro exI[of _ "[(?c, ?r)]"] exI[of _ "os_errno ?r"] exI) simp
  have e: "io_ssl_mbedtls_deinit os s w = sys_all os (List.map (\<lambda>c. Tls c s)
      [Tls_crt_free, Tls_pk_free, Tls_ssl_free, Tls_config_free, Tls_ctr_drbg_free, Tls_entropy_free]) ?w1"
    by (simp add: io_ssl_mbedtls_deinit_def os_do_def Let_def)
  show ?thesis unfolding e by (rule tls_only_trans[OF t tls_only_sys_all]) simp
qed

lemma tls_onlyE:
  assumes "tls_only s w w'"
  obtains tr e v where "w' = w\<lparr>trace := trace w @ tr, errno := e, ssls := (ssls w)(s := v)\<rparr>"
    "foldl fd_step S tr = S"
  using assms open_fds_neutral list_all_tls_neutral unfolding tls_only_def by blast

lemma blank_net [simp]:
  "blank W D p (w\<lparr>trace := t\<rparr>) L = blank W D p w L"
  "blank W D p (w\<lparr>errno := e\<rparr>) L = blank W D p w L"
  "blank W D p (w'\<lparr>nets := a\<rparr>) L = blank W D p w' L"
  "blank W D p (w'\<lparr>ssls := b\<rparr>) L = blank W D p w' L"
  by (simp_all add: blank_def)

section \<open>Opening a connection\<close>

text \<open>
  What the functions that open a socket guarantee: with 0, the connection \<open>n\<close> has a new descriptor
  and is watched for the event \<open>ev\<close> with the callback \<open>c\<close>; with -1, nothing is registered and no
  descriptor stays open.
\<close>

definition opened ::
  "addr set \<Rightarrow> addr \<Rightarrow> addr set \<Rightarrow> addr \<Rightarrow> io_callback \<Rightarrow> u8 \<Rightarrow> 'a net_mem_scheme \<Rightarrow> family \<Rightarrow>
   int \<Rightarrow> 'a net_mem_scheme \<Rightarrow> family \<Rightarrow> bool" where
  "opened W d R n c ev w L r w' L' \<longleftrightarrow>
     bufs w' = bufs w \<and> net_log w' = net_log w
     \<and> (if r = 0
        then io_effect (insert n W) d R {n} w (L(n \<mapsto> [])) w' L'
          \<and> watchers w' = (watchers w)(n := \<lparr>wfd = sd (nets w' n), event_listening = ev, callback = c\<rparr>)
          \<and> nets w' = (nets w)(n := nets w' n)
          \<and> sd (nets w' n) \<notin> open_fds (trace w) \<and> open_fds (trace w') = insert (sd (nets w' n)) (open_fds (trace w))
        else r = -1 \<and> L' = L \<and> io_effect W d R {} w L w' L \<and> watchers w' = watchers w \<and> nets w' = nets w
          \<and> open_fds (trace w') = open_fds (trace w))"

lemma io_effect_same:
  "driver_inv W (insert d R) w L \<Longrightarrow> io_effect W d R {} w L w L"
  by (rule io_effect_refl)

text \<open>
  States that differ in the calls made, \<open>errno\<close> and the TLS object \<open>s\<close> only; \<open>tr\<close> are the calls.
\<close>

definition grown :: "addr \<Rightarrow> os_trace \<Rightarrow> 'a net_mem_scheme \<Rightarrow> 'a net_mem_scheme \<Rightarrow> bool" where
  "grown s tr w w' \<longleftrightarrow> (\<exists>e v. w' = w\<lparr>trace := trace w @ tr, errno := e, ssls := (ssls w)(s := v)\<rparr>)"

lemma grown_refl: "grown s [] w w"
  unfolding grown_def by (intro exI[of _ "errno w"] exI[of _ "ssls w s"]) simp

lemma grown_trans: "grown s tr w w' \<Longrightarrow> grown s tr' w' w'' \<Longrightarrow> grown s (tr @ tr') w w''"
  unfolding grown_def by (elim exE) (rule exI, rule exI, simp)

lemma grown_same:
  assumes "grown s tr w w'"
  shows "trace w' = trace w @ tr" "watchers w' = watchers w" "nets w' = nets w" "bufs w' = bufs w" "net_log w' = net_log w"
    "lheap w' = lheap w" "io_timer_mem.timerfd w' = timerfd w" "x \<noteq> s \<Longrightarrow> ssls w' x = ssls w x"
  using assms unfolding grown_def by auto

lemma grown_sys: "\<exists>r w'. sys os c w = (os_ret r, w') \<and> grown s [(c, r)] w w' \<and> r = os c (trace w)"
proof -
  let ?r = "os c (trace w)"
  let ?w = "w\<lparr>trace := trace w @ [(c, ?r)], errno := os_errno ?r\<rparr>"
  have "grown s [(c, ?r)] w ?w" unfolding grown_def by (intro exI[of _ "os_errno ?r"] exI[of _ "ssls w s"]) simp
  then show ?thesis by (intro exI[of _ ?r] exI[of _ ?w]) (simp add: sys_def os_do_def Let_def)
qed

lemma grown_sys_neutral:
  assumes "neutral c"
  shows "\<exists>r w'. sys os c w = (os_ret r, w') \<and> grown s [(c, r)] w w' \<and> (\<forall>S. foldl fd_step S [(c, r)] = S)"
proof -
  obtain r w' where "sys os c w = (os_ret r, w')" "grown s [(c, r)] w w'" using grown_sys by blast
  moreover have "\<forall>S. foldl fd_step S [(c, r)] = S" using fd_step_neutral[OF assms] by simp
  ultimately show ?thesis by blast
qed

lemma grown_sys_all: "\<exists>tr. grown s tr w (sys_all os cs w) \<and> map fst tr = cs"
proof -
  obtain tr e where t: "sys_all os cs w = w\<lparr>trace := trace w @ tr, errno := e\<rparr>" "map fst tr = cs"
    using sys_all_state by blast
  then show ?thesis unfolding grown_def by (intro exI[of _ tr] conjI exI[of _ e] exI[of _ "ssls w s"]) simp_all
qed

lemma grown_neutral:
  assumes "list_all neutral cs"
  shows "\<exists>tr w'. sys_all os cs w = w' \<and> grown s tr w w' \<and> (\<forall>S. foldl fd_step S tr = S) \<and> map fst tr = cs"
proof -
  obtain tr where t: "grown s tr w (sys_all os cs w)" "map fst tr = cs" using grown_sys_all by blast
  then show ?thesis using open_fds_neutral[OF list_all_fst[OF t(2) assms]] t(2) by blast
qed

lemma grown_one_neutral:
  assumes "neutral c"
  shows "\<exists>tr w'. sys_all os [c] w = w' \<and> grown s tr w w' \<and> (\<forall>S. foldl fd_step S tr = S) \<and> map fst tr = [c]"
  by (rule grown_neutral) (simp add: assms)

lemmas grown_setfd = grown_one_neutral[where c = "Sys_fcntl_setfd fd" for fd, simplified neutral.simps, OF TrueI]
lemmas grown_reuseaddr = grown_one_neutral[where c = "Sys_setsockopt_reuseaddr fd" for fd, simplified neutral.simps, OF TrueI]
lemmas grown_listen = grown_one_neutral[where c = "Sys_listen fd n" for fd n, simplified neutral.simps, OF TrueI]
lemmas grown_connect = grown_one_neutral[where c = "Sys_connect fd a" for fd a, simplified neutral.simps, OF TrueI]
lemmas grown_bind = grown_sys_neutral[where c = "Sys_bind fd a" for fd a, simplified neutral.simps, OF TrueI]

lemma grown_nonblock:
  "\<exists>tr w'. sock_util_put_nonblock os fd w = w' \<and> grown s tr w w' \<and> (\<forall>S. foldl fd_step S tr = S)
     \<and> map fst tr = [Sys_ioctl_nonblock fd]"
  unfolding sock_util_put_nonblock_def by (rule grown_neutral) simp

lemma grown_close:
  "\<exists>tr w'. sys_all os [Sys_close fd] w = w' \<and> grown s tr w w' \<and> (\<forall>S. foldl fd_step S tr = S - {fd})"
proof -
  obtain tr where t: "grown s tr w (sys_all os [Sys_close fd] w)" "map fst tr = [Sys_close fd]" using grown_sys_all by blast
  have "\<forall>S. foldl fd_step S tr = S - {fd}" using t(2) by (auto simp: map_eq_Cons_conv)
  with t(1) show ?thesis by blast
qed

lemma grown_tls: "tls_only s w w' \<Longrightarrow> \<exists>tr. grown s tr w w' \<and> (\<forall>S. foldl fd_step S tr = S) \<and> list_all (\<lambda>x. tls_on s (fst x)) tr"
  unfolding tls_only_def grown_def using open_fds_neutral list_all_tls_neutral by blast

lemma opened_failed:
  assumes "driver_inv W (insert d R) w L" "grown s tr w w'" "foldl fd_step (open_fds (trace w)) tr = open_fds (trace w)"
  shows "opened W d R n c ev w L (-1) w' L"
proof -
  obtain e v where w': "w' = w\<lparr>trace := trace w @ tr, errno := e, ssls := (ssls w)(s := v)\<rparr>"
    using assms(2) unfolding grown_def by blast
  show ?thesis using assms(1,3) io_effect_same[OF assms(1)] unfolding opened_def w' by simp
qed

lemma socket_failed_opened:
  assumes "driver_inv W (insert d R) w L" "grown s tr w w1" "foldl fd_step (open_fds (trace w)) tr = open_fds (trace w)"
  shows "\<exists>w'. socket_failed os s w1 = (-1, w') \<and> opened W d R n c ev w L (-1) w' L"
proof (cases "s = NULL")
  case True
  then show ?thesis using opened_failed[OF assms] by (simp add: socket_failed_def)
next
  case False
  obtain tr' where t: "grown s tr' w1 (io_ssl_mbedtls_deinit os s w1)" "\<forall>S. foldl fd_step S tr' = S"
    using grown_tls[OF tls_only_deinit] by blast
  have "foldl fd_step (open_fds (trace w)) (tr @ tr') = open_fds (trace w)" using assms(3) t(2) by simp
  from opened_failed[OF assms(1) grown_trans[OF assms(2) t(1)] this] show ?thesis
    using False by (simp add: socket_failed_def)
qed

text \<open>Putting the new descriptor and the registration together.\<close>

lemma opened_registered:
  assumes inv: "driver_inv W (insert d R) w L" and b: "blank W (insert d R) n w L" and dR: "d \<notin> R"
    and fd: "new_fd (trace w) fd"
    and w0: "grown s tr w w0" and v: "sd v = fd"
    and tr: "foldl fd_step (open_fds (trace w)) tr = insert fd (open_fds (trace w))"
  shows "\<exists>w' w'' L'. io_driver_watcher_init n fd c (put_net n v w0) = Some w' \<and> io_driver_watch d n ev w' = Some w''
    \<and> (\<forall>tr' e' ss'. (\<forall>S. foldl fd_step S tr' = S) \<longrightarrow>
        opened W d R n c ev w L 0 (w''\<lparr>trace := trace w'' @ tr', errno := e', ssls := ss'\<rparr>) L')
    \<and> nets w'' n = v \<and> trace w'' = trace w @ tr"
proof -
  obtain e sv where w0': "w0 = w\<lparr>trace := trace w @ tr, errno := e, ssls := (ssls w)(s := sv)\<rparr>"
    using w0 unfolding grown_def by blast
  define w1 where "w1 = put_net n v w0"
  have w1: "w1 = w\<lparr>trace := trace w @ tr, errno := e, ssls := (ssls w)(s := sv), nets := (nets w)(n := v)\<rparr>"
    by (simp add: w1_def put_net_def w0')
  have i: "driver_inv W (insert d R) w1 L" "blank W (insert d R) n w1 L" using inv b by (simp_all add: w1)
  have f: "0 \<le> fd" "fd < FD_SETSIZE" "fd \<notin> open_fds (trace w)" using fd by (auto simp: new_fd_def)
  have ws: "watchers w1 = watchers w" by (simp add: w1)
  let ?w2 = "\<lambda>h'. w1\<lparr>lheap := h', watchers := (watchers w)(n := \<lparr>wfd = fd, event_listening = ev, callback = c\<rparr>)\<rparr>"
  obtain h h' L' where r: "io_driver_watcher_init n fd c w1
      = Some (w1\<lparr>lheap := h, watchers := (watchers w)(n := \<lparr>wfd = fd, event_listening = 0, callback = c\<rparr>)\<rparr>)"
    "io_driver_watch d n ev (w1\<lparr>lheap := h, watchers := (watchers w)(n := \<lparr>wfd = fd, event_listening = 0, callback = c\<rparr>)\<rparr>)
      = Some (?w2 h')"
    "io_effect (insert n W) d R {n} w1 (L(n \<mapsto> [])) (?w2 h') L'"
    using register_watcher[where c = c and ev = ev, OF i f(1,2) dR] unfolding ws by blast
  have e: "io_effect (insert n W) d R {n} w (L(n \<mapsto> [])) (?w2 h') L'" using r(3) unfolding w1 by simp
  have "opened W d R n c ev w L 0 (?w2 h'\<lparr>trace := trace (?w2 h') @ tr', errno := e', ssls := ss'\<rparr>) L'"
    if "\<forall>S. foldl fd_step S tr' = S" for tr' e' ss'
  proof -
    have "io_effect (insert n W) d R {n} w (L(n \<mapsto> [])) (?w2 h'\<lparr>trace := trace (?w2 h') @ tr', errno := e', ssls := ss'\<rparr>) L'"
      by (rule io_effect_fields[OF e]) simp_all
    then show ?thesis using f(3) tr that v unfolding opened_def by (simp add: w1)
  qed
  moreover have "nets (?w2 h') n = v" "trace (?w2 h') = trace w @ tr" by (simp_all add: w1)
  ultimately show ?thesis using r(1,2) unfolding w1_def by blast
qed

text \<open>The optional initialisation of the TLS contexts, and the socket.\<close>

lemma tls_start:
  fixes w :: "'a net_mem_scheme"
  assumes "s \<noteq> NULL \<Longrightarrow> tls_only s w (snd m) \<and> (fst m = 0 \<or> fst m = -1)"
  shows "\<exists>ret tr w'. (if s \<noteq> NULL then m else (0, w)) = (ret, w') \<and> grown s tr w w'
    \<and> (\<forall>S. foldl fd_step S tr = S) \<and> (ret = 0 \<or> ret = -1 \<and> s \<noteq> NULL)
    \<and> list_all (\<lambda>x. s \<noteq> NULL \<and> tls_on s (fst x)) tr"
proof (cases "s = NULL")
  case True
  then show ?thesis using grown_refl by (intro exI[of _ 0] exI[of _ "[]"] exI[of _ w]) simp
next
  case False
  obtain tr where "grown s tr w (snd m)" "\<forall>S. foldl fd_step S tr = S" "list_all (\<lambda>x. tls_on s (fst x)) tr"
    using grown_tls assms[OF False] by blast
  then show ?thesis using False assms[OF False]
    by (intro exI[of _ "fst m"] exI[of _ tr] exI[of _ "snd m"]) simp
qed

lemma socket_step:
  assumes "os_ok os"
  shows "\<exists>r w'. sys os (Sys_socket b) w = (os_ret r, w') \<and> grown s [(Sys_socket b, r)] w w'
    \<and> (os_ret r < 0 \<or> new_fd (trace w) (os_ret r))"
proof -
  obtain r w' where r: "sys os (Sys_socket b) w = (os_ret r, w')" "grown s [(Sys_socket b, r)] w w'" "r = os (Sys_socket b) (trace w)"
    using grown_sys by blast
  have "os_ret r < 0 \<or> new_fd (trace w) (os_ret r)" using os_okD[OF assms, of "trace w" "Sys_socket b"] r(3) by auto
  then show ?thesis using r by blast
qed

lemma new_fd_same: "open_fds tr' = open_fds tr \<Longrightarrow> new_fd tr' fd = new_fd tr fd"
  by (simp add: new_fd_def)

lemma io_net_bind_ok:
  fixes w :: "'a net_mem_scheme"
  assumes os: "os_ok os" and inv: "driver_inv W (insert d R) w L" and b: "blank W (insert d R) n w L" and dR: "d \<notin> R"
  shows "\<exists>r w' L'. io_net_bind os d n s port cb w = Some (r, w')
    \<and> opened W d R n (if s = NULL then Io_net_accept_callback else Io_ssl_accept_callback) IO_DRIVER_EVENT_RX w L r w' L'
    \<and> (r = 0 \<longrightarrow> nets w' n = (nets w n)\<lparr>sd := sd (nets w' n), net_cb := cb, net_driver := d, net_ssl := s\<rparr>)
    \<and> (r = 0 \<longrightarrow> (\<exists>pre tr. trace w' = trace w @ pre @ tr \<and> list_all (\<lambda>x. s \<noteq> NULL \<and> tls_on s (fst x)) pre
        \<and> map fst tr = [Sys_socket True, Sys_fcntl_setfd (sd (nets w' n)), Sys_ioctl_nonblock (sd (nets w' n)),
          Sys_setsockopt_reuseaddr (sd (nets w' n)), Sys_bind (sd (nets w' n)) (INADDR_ANY, word_of_int port), Sys_listen (sd (nets w' n)) 5]
        \<and> os_ret (snd (hd tr)) = sd (nets w' n) \<and> os_ret (snd (tr ! 4)) = 0)
      \<and> (s \<noteq> NULL \<longrightarrow> mbed_fd (ssls w' s) = sd (nets w' n) \<and> ssl_n (ssls w' s) = n))"
proof -
  let ?c = "if s = NULL then Io_net_accept_callback else Io_ssl_accept_callback"
  obtain ret0 tr0 w0 where w0: "(if s \<noteq> NULL then io_ssl_mbedtls_init_server os s w else (0, w)) = (ret0, w0)" "grown s tr0 w w0"
    "\<forall>S. foldl fd_step S tr0 = S" "ret0 = 0 \<or> ret0 = -1 \<and> s \<noteq> NULL"
    "list_all (\<lambda>x. s \<noteq> NULL \<and> tls_on s (fst x)) tr0"
    using tls_start[of s w "io_ssl_mbedtls_init_server os s w"] tls_only_init_server[OF prod.collapse[symmetric]] by blast
  have t0: "trace w0 = trace w @ tr0" by (rule grown_same(1)[OF w0(2)])
  show ?thesis
  proof (cases "ret0 = 0")
    case False
    then have "io_net_bind os d n s port cb w = Some (-1, w0)" using w0(1,4) by (simp add: io_net_bind_def)
    then show ?thesis using opened_failed[OF inv w0(2)] w0(3) by fastforce
  next
    case True
    obtain r w1 where r: "sys os (Sys_socket True) w0 = (os_ret r, w1)" "grown s [(Sys_socket True, r)] w0 w1"
      "os_ret r < 0 \<or> new_fd (trace w0) (os_ret r)" using socket_step[OF os] by blast
    let ?fd = "os_ret r"
    note g1 = grown_trans[OF w0(2) r(2)]
    show ?thesis
    proof (cases "?fd < 0")
      case neg: True
      have "foldl fd_step (open_fds (trace w)) (tr0 @ [(Sys_socket True, r)]) = open_fds (trace w)" using w0(3) neg by simp
      from socket_failed_opened[where n = n and c = ?c and ev = IO_DRIVER_EVENT_RX, OF inv g1 this] obtain w' where
        w': "socket_failed os s w1 = (-1, w')" "opened W d R n ?c IO_DRIVER_EVENT_RX w L (-1) w' L" by blast
      have "io_net_bind os d n s port cb w = Some (-1, w')"
        using True w0(1) r(1) neg w'(1) by (simp add: io_net_bind_def)
      then show ?thesis using w'(2) by fastforce
    next
      case pos: False
      then have fd: "new_fd (trace w) ?fd" using r(3) w0(3) t0 by (simp add: new_fd_def)
      obtain tr2 w2 where w2: "sys_all os [Sys_fcntl_setfd ?fd] w1 = w2" "grown s tr2 w1 w2" "\<forall>S. foldl fd_step S tr2 = S" "map fst tr2 = [Sys_fcntl_setfd ?fd]"
        using grown_setfd[where os = os and fd = ?fd and w = w1 and s = s] by (elim exE conjE) (rule that, assumption+)
      obtain tr3 w3 where w3: "sock_util_put_nonblock os ?fd w2 = w3" "grown s tr3 w2 w3" "\<forall>S. foldl fd_step S tr3 = S" "map fst tr3 = [Sys_ioctl_nonblock ?fd]"
        using grown_nonblock[where os = os and fd = ?fd and w = w2 and s = s] by (elim exE conjE) (rule that, assumption+)
      obtain tr4 w4 where w4: "sys_all os [Sys_setsockopt_reuseaddr ?fd] w3 = w4" "grown s tr4 w3 w4" "\<forall>S. foldl fd_step S tr4 = S" "map fst tr4 = [Sys_setsockopt_reuseaddr ?fd]"
        using grown_reuseaddr[where os = os and fd = ?fd and w = w3 and s = s] by (elim exE conjE) (rule that, assumption+)
      let ?bind = "Sys_bind ?fd (INADDR_ANY, word_of_int port)"
      obtain r5 w5 where w5: "sys os ?bind w4 = (os_ret r5, w5)" "grown s [(?bind, r5)] w4 w5"
        "\<forall>S. foldl fd_step S [(?bind, r5)] = S"
        using grown_bind by blast
      note g5 = grown_trans[OF grown_trans[OF grown_trans[OF grown_trans[OF g1 w2(2)] w3(2)] w4(2)] w5(2)]
      let ?tr5 = "((((tr0 @ [(Sys_socket True, r)]) @ tr2) @ tr3) @ tr4) @ [(?bind, r5)]"
      have f5: "foldl fd_step (open_fds (trace w)) ?tr5 = insert ?fd (open_fds (trace w))"
        using w0(3) w2(3) w3(3) w4(3) w5(3) pos by simp
      show ?thesis
      proof (cases "os_ret r5 = 0")
        case False
        obtain tr6 w6 where w6: "sys_all os [Sys_close ?fd] w5 = w6" "grown s tr6 w5 w6" "\<forall>S. foldl fd_step S tr6 = S - {?fd}"
          using grown_close by blast
        have "foldl fd_step (open_fds (trace w)) (?tr5 @ tr6) = open_fds (trace w)"
          using f5 w6(3) fd by (simp add: new_fd_def)
        from socket_failed_opened[where n = n and c = ?c and ev = IO_DRIVER_EVENT_RX, OF inv grown_trans[OF g5 w6(2)] this]
        obtain w' where w': "socket_failed os s w6 = (-1, w')" "opened W d R n ?c IO_DRIVER_EVENT_RX w L (-1) w' L" by blast
        have "io_net_bind os d n s port cb w = Some (-1, w')"
          using True w0(1) r(1) pos w2(1) w3(1) w4(1) w5(1) w6(1) False w'(1) by (simp add: io_net_bind_def Let_def)
        then show ?thesis using w'(2) by fastforce
      next
        case ok: True
        obtain tr6 w6 where w6: "sys_all os [Sys_listen ?fd 5] w5 = w6" "grown s tr6 w5 w6" "\<forall>S. foldl fd_step S tr6 = S" "map fst tr6 = [Sys_listen ?fd 5]"
          using grown_listen[where os = os and n = 5 and fd = ?fd and w = w5 and s = s] by (elim exE conjE) (rule that, assumption+)
        note g6 = grown_trans[OF g5 w6(2)]
        let ?v = "(nets w n)\<lparr>sd := ?fd, net_cb := cb, net_driver := d, net_ssl := s\<rparr>"
        have v: "(nets w6 n)\<lparr>sd := ?fd, net_cb := cb, net_driver := d, net_ssl := s\<rparr> = ?v" using grown_same(3)[OF g6] by simp
        have f6: "foldl fd_step (open_fds (trace w)) (?tr5 @ tr6) = insert ?fd (open_fds (trace w))"
          using f5 w6(3) by simp
        have sdv: "sd ?v = ?fd" by simp
        obtain w8 w9 L' where g: "io_driver_watcher_init n ?fd ?c (put_net n ?v w6) = Some w8"
          "io_driver_watch d n IO_DRIVER_EVENT_RX w8 = Some w9"
          "\<forall>tr' e' ss'. (\<forall>S. foldl fd_step S tr' = S) \<longrightarrow> opened W d R n ?c IO_DRIVER_EVENT_RX w L 0
            (w9\<lparr>trace := trace w9 @ tr', errno := e', ssls := ss'\<rparr>) L'" "nets w9 n = ?v" "trace w9 = trace w @ (?tr5 @ tr6)"
          using opened_registered[where v = ?v and c = ?c and ev = IO_DRIVER_EVENT_RX, OF inv b dR fd g6 sdv f6] by blast
        let ?w = "if s = NULL then w9 else put_ssl s ((ssls w9 s)\<lparr>mbed_fd := sd (nets w9 n), ssl_n := n\<rparr>) w9"
        have r0: "io_net_bind os d n s port cb w = Some (0, ?w)"
          using True w0(1) r(1) pos w2(1) w3(1) w4(1) w5(1) w6(1) ok g(1,2) v
          by (cases "s = NULL") (simp_all add: io_net_bind_def Let_def)
        have "w9\<lparr>trace := trace w9 @ [], errno := errno w9, ssls := ssls ?w\<rparr> = ?w" by (simp add: put_ssl_def)
        moreover have "opened W d R n ?c IO_DRIVER_EVENT_RX w L 0
            (w9\<lparr>trace := trace w9 @ [], errno := errno w9, ssls := ssls ?w\<rparr>) L'"
          by (rule g(3)[rule_format]) simp
        ultimately have "opened W d R n ?c IO_DRIVER_EVENT_RX w L 0 ?w L'" by (simp only:)
        moreover have "nets ?w n = (nets w n)\<lparr>sd := sd (nets ?w n), net_cb := cb, net_driver := d, net_ssl := s\<rparr>"
          using g(4) by (simp add: put_ssl_def)
        moreover have "trace ?w = trace w @ tr0 @ ([(Sys_socket True, r)] @ tr2 @ tr3 @ tr4 @ [(?bind, r5)] @ tr6)"
          using g(5) by (simp add: put_ssl_def)
        moreover have "s \<noteq> NULL \<longrightarrow> mbed_fd (ssls ?w s) = sd (nets ?w n) \<and> ssl_n (ssls ?w s) = n" "sd (nets ?w n) = ?fd"
          using g(4) by (simp_all add: put_ssl_def)
        moreover have "map fst ([(Sys_socket True, r)] @ tr2 @ tr3 @ tr4 @ [(?bind, r5)] @ tr6)
            = [Sys_socket True, Sys_fcntl_setfd ?fd, Sys_ioctl_nonblock ?fd, Sys_setsockopt_reuseaddr ?fd, ?bind, Sys_listen ?fd 5]"
          using w2(4) w3(4) w4(4) w6(4) by simp
        moreover have "snd (([(Sys_socket True, r)] @ tr2 @ tr3 @ tr4 @ [(?bind, r5)] @ tr6) ! 4) = r5"
          using w2(4) w3(4) w4(4) by (auto simp: map_eq_Cons_conv)
        moreover have "hd ([(Sys_socket True, r)] @ tr2 @ tr3 @ tr4 @ [(?bind, r5)] @ tr6) = (Sys_socket True, r)" by simp
        ultimately show ?thesis using r0 w0(5) ok
          by (intro exI[of _ 0] exI[of _ ?w] exI[of _ L'] conjI impI exI[of _ tr0]
              exI[of _ "[(Sys_socket True, r)] @ tr2 @ tr3 @ tr4 @ [(?bind, r5)] @ tr6"]) (simp_all only: snd_conv simp_thms)
      qed
    qed
  qed
qed

lemma io_net_connect_ok:
  fixes w :: "'a net_mem_scheme"
  assumes os: "os_ok os" and inv: "driver_inv W (insert d R) w L" and b: "blank W (insert d R) n w L" and dR: "d \<notin> R"
  shows "\<exists>r w' L'. io_net_connect os d n s to port cb w = Some (r, w')
    \<and> opened W d R n (if s = NULL then Io_net_connect_callback else Io_ssl_connect_callback) IO_DRIVER_EVENT_TX w L r w' L'
    \<and> (r = 0 \<longrightarrow> nets w' n = (nets w n)\<lparr>sd := sd (nets w' n), net_cb := cb, net_driver := d, net_ssl := s\<rparr>)
    \<and> (r = 0 \<longrightarrow> (\<exists>pre tr. trace w' = trace w @ pre @ tr \<and> list_all (\<lambda>x. s \<noteq> NULL \<and> tls_on s (fst x)) pre
        \<and> map fst tr = [Sys_socket True, Sys_fcntl_setfd (sd (nets w' n)), Sys_ioctl_nonblock (sd (nets w' n)),
          Sys_connect (sd (nets w' n)) (to, word_of_int port)]
        \<and> os_ret (snd (hd tr)) = sd (nets w' n))
      \<and> (s \<noteq> NULL \<longrightarrow> mbed_fd (ssls w' s) = sd (nets w' n) \<and> ssl_n (ssls w' s) = n))"
proof -
  let ?c = "if s = NULL then Io_net_connect_callback else Io_ssl_connect_callback"
  obtain ret0 tr0 w0 where w0: "(if s \<noteq> NULL then io_ssl_mbedtls_init_client os s w else (0, w)) = (ret0, w0)" "grown s tr0 w w0"
    "\<forall>S. foldl fd_step S tr0 = S" "ret0 = 0 \<or> ret0 = -1 \<and> s \<noteq> NULL"
    "list_all (\<lambda>x. s \<noteq> NULL \<and> tls_on s (fst x)) tr0"
    using tls_start[of s w "io_ssl_mbedtls_init_client os s w"] tls_only_init_client[OF prod.collapse[symmetric]] by blast
  have t0: "trace w0 = trace w @ tr0" by (rule grown_same(1)[OF w0(2)])
  show ?thesis
  proof (cases "ret0 = 0")
    case False
    then have "io_net_connect os d n s to port cb w = Some (-1, w0)" using w0(1,4) by (simp add: io_net_connect_def)
    then show ?thesis using opened_failed[OF inv w0(2)] w0(3) by fastforce
  next
    case True
    obtain r w1 where r: "sys os (Sys_socket True) w0 = (os_ret r, w1)" "grown s [(Sys_socket True, r)] w0 w1"
      "os_ret r < 0 \<or> new_fd (trace w0) (os_ret r)" using socket_step[OF os] by blast
    let ?fd = "os_ret r"
    note g1 = grown_trans[OF w0(2) r(2)]
    show ?thesis
    proof (cases "?fd < 0")
      case neg: True
      have "foldl fd_step (open_fds (trace w)) (tr0 @ [(Sys_socket True, r)]) = open_fds (trace w)" using w0(3) neg by simp
      from socket_failed_opened[where n = n and c = ?c and ev = IO_DRIVER_EVENT_TX, OF inv g1 this] obtain w' where
        w': "socket_failed os s w1 = (-1, w')" "opened W d R n ?c IO_DRIVER_EVENT_TX w L (-1) w' L" by blast
      have "io_net_connect os d n s to port cb w = Some (-1, w')"
        using True w0(1) r(1) neg w'(1) by (simp add: io_net_connect_def)
      then show ?thesis using w'(2) by fastforce
    next
      case pos: False
      then have fd: "new_fd (trace w) ?fd" using r(3) w0(3) t0 by (simp add: new_fd_def)
      obtain tr2 w2 where w2: "sys_all os [Sys_fcntl_setfd ?fd] w1 = w2" "grown s tr2 w1 w2" "\<forall>S. foldl fd_step S tr2 = S" "map fst tr2 = [Sys_fcntl_setfd ?fd]"
        using grown_setfd[where os = os and fd = ?fd and w = w1 and s = s] by (elim exE conjE) (rule that, assumption+)
      obtain tr3 w3 where w3: "sock_util_put_nonblock os ?fd w2 = w3" "grown s tr3 w2 w3" "\<forall>S. foldl fd_step S tr3 = S" "map fst tr3 = [Sys_ioctl_nonblock ?fd]"
        using grown_nonblock[where os = os and fd = ?fd and w = w2 and s = s] by (elim exE conjE) (rule that, assumption+)
      note g3 = grown_trans[OF grown_trans[OF g1 w2(2)] w3(2)]
      let ?tr3 = "((tr0 @ [(Sys_socket True, r)]) @ tr2) @ tr3"
      have f3: "foldl fd_step (open_fds (trace w)) ?tr3 = insert ?fd (open_fds (trace w))"
        using w0(3) w2(3) w3(3) pos by simp
      let ?v = "(nets w n)\<lparr>sd := ?fd, net_cb := cb, net_driver := d, net_ssl := s\<rparr>"
      have v: "(nets w3 n)\<lparr>sd := ?fd, net_cb := cb, net_driver := d, net_ssl := s\<rparr> = ?v" using grown_same(3)[OF g3] by simp
      have sdv: "sd ?v = ?fd" by simp
      obtain w8 w9 L' where g: "io_driver_watcher_init n ?fd ?c (put_net n ?v w3) = Some w8"
        "io_driver_watch d n IO_DRIVER_EVENT_TX w8 = Some w9"
        "\<forall>tr' e' ss'. (\<forall>S. foldl fd_step S tr' = S) \<longrightarrow> opened W d R n ?c IO_DRIVER_EVENT_TX w L 0
          (w9\<lparr>trace := trace w9 @ tr', errno := e', ssls := ss'\<rparr>) L'" "nets w9 n = ?v" "trace w9 = trace w @ ?tr3"
        using opened_registered[where v = ?v and c = ?c and ev = IO_DRIVER_EVENT_TX, OF inv b dR fd g3 sdv f3] by blast
      let ?w = "if s = NULL then w9 else put_ssl s ((ssls w9 s)\<lparr>ssl_n := n, mbed_fd := sd (nets w9 n)\<rparr>) w9"
      let ?conn = "Sys_connect ?fd (to, word_of_int port)"
      obtain tr10 e10 where w10: "sys_all os [?conn] ?w = ?w\<lparr>trace := trace ?w @ tr10, errno := e10\<rparr>" "map fst tr10 = [?conn]"
        using sys_all_state by blast
      have n10: "\<forall>S. foldl fd_step S tr10 = S" using w10(2) by (auto simp: map_eq_Cons_conv)
      have r0: "io_net_connect os d n s to port cb w = Some (0, sys_all os [?conn] ?w)"
        using True w0(1) r(1) pos w2(1) w3(1) g(1,2) v
        by (cases "s = NULL") (simp_all add: io_net_connect_def Let_def)
      have e: "w9\<lparr>trace := trace w9 @ tr10, errno := e10, ssls := ssls ?w\<rparr> = sys_all os [?conn] ?w"
        unfolding w10(1) by (simp add: put_ssl_def)
      have "opened W d R n ?c IO_DRIVER_EVENT_TX w L 0 (w9\<lparr>trace := trace w9 @ tr10, errno := e10, ssls := ssls ?w\<rparr>) L'"
        by (rule g(3)[rule_format]) (simp add: n10)
      then have o: "opened W d R n ?c IO_DRIVER_EVENT_TX w L 0 (sys_all os [?conn] ?w) L'" by (simp only: e)
      have "nets (sys_all os [?conn] ?w) n = ?v" unfolding w10(1) using g(4) by (simp add: put_ssl_def)
      then have "nets (sys_all os [?conn] ?w) n
        = (nets w n)\<lparr>sd := sd (nets (sys_all os [?conn] ?w) n), net_cb := cb, net_driver := d, net_ssl := s\<rparr>" by simp
      moreover have "trace (sys_all os [?conn] ?w) = trace w @ tr0 @ ([(Sys_socket True, r)] @ tr2 @ tr3 @ tr10)"
        unfolding w10(1) using g(5) by (simp add: put_ssl_def)
      moreover have "s \<noteq> NULL \<longrightarrow> mbed_fd (ssls (sys_all os [?conn] ?w) s) = sd (nets (sys_all os [?conn] ?w) n)
          \<and> ssl_n (ssls (sys_all os [?conn] ?w) s) = n" "sd (nets (sys_all os [?conn] ?w) n) = ?fd"
        unfolding w10(1) using g(4) by (simp_all add: put_ssl_def)
      moreover have "map fst ([(Sys_socket True, r)] @ tr2 @ tr3 @ tr10)
          = [Sys_socket True, Sys_fcntl_setfd ?fd, Sys_ioctl_nonblock ?fd, ?conn]"
        using w2(4) w3(4) w10(2) by simp
      moreover have "hd ([(Sys_socket True, r)] @ tr2 @ tr3 @ tr10) = (Sys_socket True, r)" by simp
      ultimately show ?thesis using r0 o w0(5)
        by (intro exI[of _ 0] exI[of _ "sys_all os [?conn] ?w"] exI[of _ L'] conjI impI exI[of _ tr0]
            exI[of _ "[(Sys_socket True, r)] @ tr2 @ tr3 @ tr10"]) (simp_all only: snd_conv simp_thms)
    qed
  qed
qed

lemma io_net_udp_ok:
  fixes w :: "'a net_mem_scheme"
  assumes os: "os_ok os" and inv: "driver_inv W (insert d R) w L" and b: "blank W (insert d R) n w L" and dR: "d \<notin> R"
  shows "\<exists>r w' L'. io_net_udp os d n port cb w = Some (r, w')
    \<and> opened W d R n Io_net_udp_callback IO_DRIVER_EVENT_RX w L r w' L'
    \<and> (r = 0 \<longrightarrow> nets w' n = (nets w n)\<lparr>sd := sd (nets w' n), net_cb := cb, net_driver := d\<rparr>) \<and> ssls w' = ssls w"
proof -
  let ?c = Io_net_udp_callback
  obtain r where r: "sys os (Sys_socket False) w = (os_ret r, w\<lparr>trace := trace w @ [(Sys_socket False, r)], errno := os_errno r\<rparr>)"
    "answer_ok (trace w) (Sys_socket False) r" using sys_step[OF os] by blast
  let ?fd = "os_ret r"
  define w1 where "w1 = w\<lparr>trace := trace w @ [(Sys_socket False, r)], errno := os_errno r\<rparr>"
  have g1: "grown NULL [(Sys_socket False, r)] w w1" unfolding grown_def w1_def
    by (intro exI[of _ "os_errno r"] exI[of _ "ssls w NULL"]) simp
  have fd: "?fd < 0 \<or> new_fd (trace w) ?fd" using r(2) by auto
  show ?thesis
  proof (cases "?fd < 0")
    case neg: True
    have "foldl fd_step (open_fds (trace w)) [(Sys_socket False, r)] = open_fds (trace w)" using neg by simp
    note o = opened_failed[where n = n and c = ?c and ev = IO_DRIVER_EVENT_RX, OF inv g1 this]
    have "io_net_udp os d n port cb w = Some (-1, w1)" using r(1) neg by (simp add: io_net_udp_def w1_def)
    moreover have "ssls w1 = ssls w" by (simp add: w1_def)
    ultimately show ?thesis using o by fastforce
  next
    case pos: False
    then have fd: "new_fd (trace w) ?fd" using fd by simp
    obtain tr2 e2 where w2: "sys_all os [Sys_fcntl_setfd ?fd] w1 = w1\<lparr>trace := trace w1 @ tr2, errno := e2\<rparr>"
      "map fst tr2 = [Sys_fcntl_setfd ?fd]" using sys_all_state by blast
    define w2 where "w2 = w1\<lparr>trace := trace w1 @ tr2, errno := e2\<rparr>"
    obtain tr3 e3 where w3: "sock_util_put_nonblock os ?fd w2 = w2\<lparr>trace := trace w2 @ tr3, errno := e3\<rparr>"
      "map fst tr3 = [Sys_ioctl_nonblock ?fd]" using sys_all_state unfolding sock_util_put_nonblock_def by blast
    define w3 where "w3 = w2\<lparr>trace := trace w2 @ tr3, errno := e3\<rparr>"
    let ?bind = "Sys_bind ?fd (INADDR_ANY, word_of_int port)"
    obtain r4 where r4: "sys os ?bind w3 = (os_ret r4, w3\<lparr>trace := trace w3 @ [(?bind, r4)], errno := os_errno r4\<rparr>)"
      using sys_state by blast
    define w4 where "w4 = w3\<lparr>trace := trace w3 @ [(?bind, r4)], errno := os_errno r4\<rparr>"
    let ?tr4 = "[(Sys_socket False, r)] @ tr2 @ tr3 @ [(?bind, r4)]"
    have n: "\<forall>S. foldl fd_step S tr2 = S" "\<forall>S. foldl fd_step S tr3 = S"
      using w2(2) w3(2) by (auto simp: map_eq_Cons_conv)
    have e4: "w4 = w\<lparr>trace := trace w @ ?tr4, errno := os_errno r4\<rparr>" by (simp add: w4_def w3_def w2_def w1_def)
    have g4: "grown NULL ?tr4 w w4" unfolding grown_def e4 by (intro exI[of _ "os_errno r4"] exI[of _ "ssls w NULL"]) simp
    have f4: "foldl fd_step (open_fds (trace w)) ?tr4 = insert ?fd (open_fds (trace w))" using n pos by simp
    show ?thesis
    proof (cases "os_ret r4 = 0")
      case False
      obtain tr5 e5 where w5: "sys_all os [Sys_close ?fd] w4 = w4\<lparr>trace := trace w4 @ tr5, errno := e5\<rparr>"
        "map fst tr5 = [Sys_close ?fd]" using sys_all_state by blast
      let ?w5 = "w4\<lparr>trace := trace w4 @ tr5, errno := e5\<rparr>"
      have g5: "grown NULL (?tr4 @ tr5) w ?w5" unfolding grown_def e4
        by (intro exI[of _ e5] exI[of _ "ssls w NULL"]) simp
      have "foldl fd_step S tr5 = S - {?fd}" for S using w5(2) by (auto simp: map_eq_Cons_conv)
      then have "foldl fd_step (open_fds (trace w)) (?tr4 @ tr5) = open_fds (trace w)"
        using f4 fd by (simp add: new_fd_def)
      note o = opened_failed[where n = n and c = ?c and ev = IO_DRIVER_EVENT_RX, OF inv g5 this]
      have r0: "io_net_udp os d n port cb w = Some (-1, ?w5)"
        using r(1) pos w2(1) w3(1) r4 False w5(1)
        by (simp add: io_net_udp_def Let_def w1_def[symmetric] w2_def[symmetric] w3_def[symmetric] w4_def[symmetric])
      have "ssls ?w5 = ssls w" by (simp add: e4)
      then show ?thesis using r0 o by fastforce
    next
      case ok: True
      let ?v = "(nets w n)\<lparr>sd := ?fd, net_cb := cb, net_driver := d\<rparr>"
      have v: "(nets w4 n)\<lparr>sd := ?fd, net_cb := cb, net_driver := d\<rparr> = ?v" by (simp add: e4)
      have sdv: "sd ?v = ?fd" by simp
      obtain w8 w9 L' where g: "io_driver_watcher_init n ?fd ?c (put_net n ?v w4) = Some w8"
        "io_driver_watch d n IO_DRIVER_EVENT_RX w8 = Some w9"
        "\<forall>tr' e' ss'. (\<forall>S. foldl fd_step S tr' = S) \<longrightarrow> opened W d R n ?c IO_DRIVER_EVENT_RX w L 0
          (w9\<lparr>trace := trace w9 @ tr', errno := e', ssls := ss'\<rparr>) L'" "nets w9 n = ?v"
        using opened_registered[where v = ?v and c = ?c and ev = IO_DRIVER_EVENT_RX, OF inv b dR fd g4 sdv f4] by blast
      have r0: "io_net_udp os d n port cb w = Some (0, w9)"
        using r(1) pos w2(1) w3(1) r4 ok g(1,2) v
        by (simp add: io_net_udp_def Let_def w1_def[symmetric] w2_def[symmetric] w3_def[symmetric] w4_def[symmetric])
      have "w9\<lparr>trace := trace w9 @ [], errno := errno w9, ssls := ssls w9\<rparr> = w9" by simp
      moreover have "opened W d R n ?c IO_DRIVER_EVENT_RX w L 0 (w9\<lparr>trace := trace w9 @ [], errno := errno w9, ssls := ssls w9\<rparr>) L'"
        by (rule g(3)[rule_format]) simp
      ultimately have o: "opened W d R n ?c IO_DRIVER_EVENT_RX w L 0 w9 L'" by (simp only:)
      have ss: "ssls w9 = ssls w"
        using g(1,2) by (auto simp: io_driver_watcher_init_def io_driver_watch_def on_heap_def put_watcher_def put_net_def e4 Let_def
            bind_eq_Some_conv split: if_splits)
      show ?thesis using r0 o g(4) ss by (intro exI[of _ 0] exI[of _ w9] exI[of _ L']) simp
    qed
  qed
qed

section \<open>Closing and sending\<close>

definition EVENTS :: u8 where
  "EVENTS = IO_DRIVER_EVENT_RX OR IO_DRIVER_EVENT_TX OR IO_DRIVER_EVENT_EX"

lemma io_net_close_ok:
  fixes w :: "'a net_mem_scheme"
  assumes inv: "driver_inv W (insert d R) w L" and n: "n \<in> W" "net_driver (nets w n) = d" and dR: "d \<notin> R"
  shows "\<exists>w' L'. io_net_close os n w = Some w' \<and> io_effect W d R {n} w L w' L'
    \<and> watchers w' = (watchers w)(n := (watchers w n)\<lparr>event_listening := event_listening (watchers w n) AND NOT EVENTS\<rparr>)
    \<and> nets w' = nets w \<and> bufs w' = bufs w \<and> net_log w' = net_log w
    \<and> (\<forall>x. x \<noteq> net_ssl (nets w n) \<longrightarrow> ssls w' x = ssls w x)
    \<and> open_fds (trace w') = open_fds (trace w) - {sd (nets w n)}"
proof -
  let ?ws = "(watchers w)(n := (watchers w n)\<lparr>event_listening := event_listening (watchers w n) AND NOT EVENTS\<rparr>)"
  obtain h L' where h: "io_driver_no_watch d n EVENTS w = Some (w\<lparr>lheap := h, watchers := ?ws\<rparr>)"
    "io_effect W d R {n} w L (w\<lparr>lheap := h, watchers := ?ws\<rparr>) L'"
    using os_no_watch[where ev = EVENTS, OF inv n(1) dR] by blast
  define w1 where "w1 = w\<lparr>lheap := h, watchers := ?ws\<rparr>"
  let ?s = "net_ssl (nets w n)"
  have n1: "nets w1 = nets w" by (simp add: w1_def)
  define w2 where "w2 = (if ?s \<noteq> NULL then io_ssl_mbedtls_deinit os ?s w1 else w1)"
  obtain tr where g: "grown ?s tr w1 w2" "\<forall>S. foldl fd_step S tr = S"
    using grown_tls[OF tls_only_deinit, of ?s w1 os] grown_refl[of ?s w1] unfolding w2_def by (cases "?s = NULL") auto
  obtain tr' w3 where w3: "sys_all os [Sys_close (sd (nets w n))] w2 = w3" "grown ?s tr' w2 w3"
    "\<forall>S. foldl fd_step S tr' = S - {sd (nets w n)}" using grown_close by blast
  note g3 = grown_trans[OF g(1) w3(2)]
  have n2: "nets w2 = nets w" using grown_same(3)[OF g(1)] n1 by simp
  have r: "io_net_close os n w = Some w3"
    unfolding io_net_close_def EVENTS_def[symmetric] n(2) h(1) w1_def[symmetric]
    unfolding bind.simps Let_def n1 w2_def[symmetric] n2 w3(1) by simp
  obtain e v where w3': "w3 = w1\<lparr>trace := trace w1 @ (tr @ tr'), errno := e, ssls := (ssls w1)(?s := v)\<rparr>"
    using g3 unfolding grown_def by blast
  note w3' = w3'[unfolded w1_def]
  have "io_effect W d R {n} w L w3 L'" using h(2) unfolding w3' by simp
  moreover have "open_fds (trace w3) = open_fds (trace w) - {sd (nets w n)}" using g(2) w3(3) unfolding w3' by simp
  moreover have "watchers w3 = ?ws" "nets w3 = nets w" "bufs w3 = bufs w" "net_log w3 = net_log w"
    "\<forall>x. x \<noteq> ?s \<longrightarrow> ssls w3 x = ssls w x" unfolding w3' by simp_all
  ultimately show ?thesis using r by blast
qed

text \<open>The calls that closing a connection with TLS makes: \<open>m\<close> is the descriptor that the context holds, \<open>fd\<close> that of the connection.\<close>

definition closing_calls :: "int \<Rightarrow> addr \<Rightarrow> int \<Rightarrow> os_call list" where
  "closing_calls m s fd = List.map (\<lambda>c. Tls c s)
     [Tls_net_free m, Tls_crt_free, Tls_pk_free, Tls_ssl_free, Tls_config_free, Tls_ctr_drbg_free, Tls_entropy_free] @ [Sys_close fd]"

lemma io_net_close_calls:
  fixes w :: "'a net_mem_scheme"
  assumes c: "io_net_close os n w = Some w'" and s: "net_ssl (nets w n) = s" "s \<noteq> NULL"
  shows "\<exists>tr. trace w' = trace w @ tr \<and> map fst tr = closing_calls (mbed_fd (ssls w s)) s (sd (nets w n))"
proof -
  let ?c = "Tls (Tls_net_free (mbed_fd (ssls w s))) s"
    and ?cs = "List.map (\<lambda>c. Tls c s) [Tls_crt_free, Tls_pk_free, Tls_ssl_free, Tls_config_free, Tls_ctr_drbg_free, Tls_entropy_free]"
  obtain u where u: "io_driver_no_watch (net_driver (nets w n)) n EVENTS w = Some u"
    "w' = sys_all os [Sys_close (sd (nets (if net_ssl (nets u n) \<noteq> NULL then io_ssl_mbedtls_deinit os (net_ssl (nets u n)) u else u) n))]
      (if net_ssl (nets u n) \<noteq> NULL then io_ssl_mbedtls_deinit os (net_ssl (nets u n)) u else u)"
    using c unfolding io_net_close_def EVENTS_def[symmetric] Let_def bind_eq_Some_conv option.inject by (elim exE conjE) (rule that, assumption, rule sym)
  have f: "trace u = trace w" "nets u = nets w" "ssls u = ssls w"
    using u(1) by (auto simp: io_driver_no_watch_def on_heap_def put_watcher_def Let_def bind_eq_Some_conv split: if_splits)
  obtain r u1 where 1: "os_do os ?c u = (r, u1)" "trace u1 = trace w @ [(?c, r)]" "nets u1 = nets w"
    using f by (simp add: os_do_def Let_def)
  define u2 where "u2 = put_ssl s ((ssls u1 s)\<lparr>mbed_fd := os_val r\<rparr>) u1"
  obtain tr e where 2: "sys_all os ?cs u2 = u2\<lparr>trace := trace u2 @ tr, errno := e\<rparr>" "map fst tr = ?cs" using sys_all_state by blast
  define u3 where "u3 = u2\<lparr>trace := trace u2 @ tr, errno := e\<rparr>"
  have 3: "io_ssl_mbedtls_deinit os s u = u3" using 1(1) 2(1) f(3) unfolding io_ssl_mbedtls_deinit_def u3_def u2_def by simp
  have g: "trace u3 = trace w @ (?c, r) # tr" "nets u3 = nets w" using 1(2,3) by (simp_all add: u3_def u2_def put_ssl_def)
  have w': "w' = sys_all os [Sys_close (sd (nets w n))] u3" using u(2) f(2) g(2) s 3 by simp
  obtain tr' e' where 4: "sys_all os [Sys_close (sd (nets w n))] u3 = u3\<lparr>trace := trace u3 @ tr', errno := e'\<rparr>"
    "map fst tr' = [Sys_close (sd (nets w n))]" using sys_all_state by blast
  show ?thesis unfolding w' 4(1) using g 2(2) 4(2) by (intro exI[of _ "((?c, r) # tr) @ tr'"]) (simp add: closing_calls_def)
qed

text \<open>The system call that \<open>io_net_tx\<close> makes, its answer, and what the return value says.\<close>

definition tx_call :: "addr \<Rightarrow> bytes \<Rightarrow> 'a net_mem_scheme \<Rightarrow> os_call" where
  "tx_call n bs w = (if net_ssl (nets w n) = NULL then Sys_write (sd (nets w n)) bs
     else Tls (Tls_write bs) (net_ssl (nets w n)))"

definition tx_blocked :: "tls_codes \<Rightarrow> addr \<Rightarrow> os_result \<Rightarrow> 'a net_mem_scheme \<Rightarrow> bool" where
  "tx_blocked tc n a w \<longleftrightarrow> os_ret a \<le> 0 \<and> (if net_ssl (nets w n) = NULL then os_errno a = EWOULDBLOCK \<or> os_errno a = EAGAIN
     else os_ret a = WANT_WRITE tc)"

lemma neutral_tx_call: "neutral (tx_call n bs w)"
  by (simp add: tx_call_def)

lemma io_net_tx_ok:
  fixes w :: "'a net_mem_scheme" and os :: os
  assumes inv: "driver_inv W (insert d R) w L" and n: "n \<in> W" "net_driver (nets w n) = d" and dR: "d \<notin> R"
    and bs: "bytes_at buf len w = Some bs"
    and hs: "net_ssl (nets w n) = NULL \<or> \<not> handshaking (ssls w (net_ssl (nets w n)))"
  defines "a \<equiv> os (tx_call n bs w) (trace w)"
  shows "\<exists>w' L'. io_net_tx os tc n buf len w = Some (if 0 < os_ret a then os_ret a
        else if \<not> tx_blocked tc n a w then -1 else if net_ssl (nets w n) = NULL then 0 else WANT_WRITE tc, w')
    \<and> io_effect W d R {n} w L w' L'
    \<and> watchers w' = (if tx_blocked tc n a w then (watchers w)(n := (watchers w n)\<lparr>event_listening := event_listening (watchers w n) OR IO_DRIVER_EVENT_TX\<rparr>)
        else watchers w)
    \<and> nets w' = nets w \<and> ssls w' = ssls w \<and> bufs w' = bufs w \<and> net_log w' = net_log w
    \<and> trace w' = trace w @ [(tx_call n bs w, a)]"
proof -
  let ?c = "tx_call n bs w"
  let ?w1 = "w\<lparr>trace := trace w @ [(?c, a)], errno := os_errno a\<rparr>"
  have s: "sys os ?c w = (os_ret a, ?w1)" by (simp add: sys_def os_do_def Let_def a_def)
  have inv1: "driver_inv W (insert d R) ?w1 L" using inv by simp
  show ?thesis
  proof (cases "tx_blocked tc n a w")
    case True
    let ?ws = "(watchers w)(n := (watchers w n)\<lparr>event_listening := event_listening (watchers w n) OR IO_DRIVER_EVENT_TX\<rparr>)"
    obtain h L' where h: "io_driver_watch d n IO_DRIVER_EVENT_TX ?w1 = Some (?w1\<lparr>lheap := h, watchers := ?ws\<rparr>)"
      "io_effect W d R {n} ?w1 L (?w1\<lparr>lheap := h, watchers := ?ws\<rparr>) L'"
      using os_watch[where ev = IO_DRIVER_EVENT_TX, OF inv1 n(1) dR] by auto
    let ?w2 = "?w1\<lparr>lheap := h, watchers := ?ws\<rparr>"
    have "io_net_tx os tc n buf len w = Some (if net_ssl (nets w n) = NULL then 0 else WANT_WRITE tc, ?w2)"
      using s bs hs n(2) True h(1)
      by (cases "net_ssl (nets w n) = NULL") (simp_all add: io_net_tx_def Let_def tx_call_def tx_blocked_def)
    moreover have "\<not> 0 < os_ret a" using True by (simp add: tx_blocked_def)
    ultimately show ?thesis using True h(2) by (intro exI[of _ ?w2] exI[of _ L']) simp
  next
    case False
    have "io_net_tx os tc n buf len w = Some (if 0 < os_ret a then os_ret a else -1, ?w1)"
      using s bs hs n(2) False
      by (cases "net_ssl (nets w n) = NULL"; cases "0 < os_ret a") (simp_all add: io_net_tx_def Let_def tx_call_def tx_blocked_def)
    then show ?thesis using False io_effect_refl[OF inv1] io_effect_mono[OF io_effect_refl[OF inv]]
      by (intro exI[of _ ?w1] exI[of _ L]) (simp add: io_effect_refl[OF inv])
  qed
qed

lemma io_net_tx_handshaking:
  "net_ssl (nets w n) \<noteq> NULL \<Longrightarrow> handshaking (ssls w (net_ssl (nets w n))) \<Longrightarrow> io_net_tx os tc n buf len w = Some (-1, w)"
  by (simp add: io_net_tx_def Let_def)

section \<open>The end of a connection attempt\<close>

lemma connect_callback_outcome:
  fixes w :: "'a net_mem_scheme"
  assumes "driver_inv W {d, rl} w L" "d \<noteq> rl" "n \<in> W" "net_driver (nets w n) = d"
    and "os_val (os (Sys_getsockopt_error (sd (nets w n))) (trace w)) = err"
  shows "\<exists>w1 ev. io_net_connect_callback os cb n IO_DRIVER_EVENT_TX w = map_option (\<lambda>x. snd (snd x)) (call_net_cb cb n ev w1)
    \<and> ev_enum ev = io_net_event_enum_alloc_connection \<and> ev_u ev = Ev_c n NULL
    \<and> (if err = 0
       then watchers w1 n = \<lparr>wfd = wfd (watchers w n),
           event_listening = (event_listening (watchers w n) AND NOT IO_DRIVER_EVENT_TX) OR IO_DRIVER_EVENT_RX,
           callback = Io_net_generic_callback\<rparr>
       else watchers w1 = watchers w)
    \<and> w1 = w\<lparr>lheap := lheap w1, watchers := watchers w1, trace := trace w1, errno := errno w1\<rparr>"
proof -
  let ?c = "Sys_getsockopt_error (sd (nets w n))"
  let ?r = "os ?c (trace w)"
  let ?ev = "zero_event\<lparr>ev_u := Ev_c n NULL\<rparr>"
  define w0 where "w0 = w\<lparr>trace := trace w @ [(?c, ?r)], errno := os_errno ?r\<rparr>"
  have o: "os_do os ?c w = (?r, w0)" by (simp add: os_do_def w0_def Let_def)
  have w0: "nets w0 = nets w" "watchers w0 = watchers w" "driver_inv W (insert d {rl}) w0 L"
    using assms(1) by (simp_all add: w0_def)
  have e: "ev_enum ?ev = io_net_event_enum_alloc_connection" "ev_u ?ev = Ev_c n NULL" by (simp_all add: zero_event_def)
  have fin: "do { (_, _, w) \<leftarrow> call_net_cb cb n ?ev w1; Some w } = map_option (\<lambda>x. snd (snd x)) (call_net_cb cb n ?ev w1)" for w1
    by (cases "call_net_cb cb n ?ev w1") auto
  show ?thesis
  proof (cases "err = 0")
    case False
    then have "io_net_connect_callback os cb n IO_DRIVER_EVENT_TX w = do { (_, _, w) \<leftarrow> call_net_cb cb n ?ev w0; Some w }"
      using o assms(5) by (simp add: io_net_connect_callback_def Let_def)
    then show ?thesis using False e w0(2) unfolding fin by (intro exI[of _ w0] exI[of _ ?ev]) (simp add: w0_def)
  next
    case True
    let ?ws = "io_driver_watcher_set_cb n Io_net_generic_callback w0"
    have s: "nets ?ws = nets w" "watchers ?ws n = (watchers w n)\<lparr>callback := Io_net_generic_callback\<rparr>"
      using w0(1,2) by (simp_all add: io_driver_watcher_set_cb_def put_watcher_def)
    have dR: "d \<notin> {rl}" using assms(2) by simp
    have i: "driver_inv W (insert d {rl}) ?ws L" by (rule io_effect_inv[OF os_set_cb[OF w0(3) assms(3)]])
    obtain h1 L1 where 1: "io_driver_no_watch d n IO_DRIVER_EVENT_TX ?ws = Some (?ws\<lparr>lheap := h1,
        watchers := (watchers ?ws)(n := (watchers ?ws n)\<lparr>event_listening := event_listening (watchers ?ws n) AND NOT IO_DRIVER_EVENT_TX\<rparr>)\<rparr>)"
      "io_effect W d {rl} {n} ?ws L (?ws\<lparr>lheap := h1,
        watchers := (watchers ?ws)(n := (watchers ?ws n)\<lparr>event_listening := event_listening (watchers ?ws n) AND NOT IO_DRIVER_EVENT_TX\<rparr>)\<rparr>) L1"
      using os_no_watch[where ev = IO_DRIVER_EVENT_TX, OF i assms(3) dR] by blast
    define w2 where "w2 = ?ws\<lparr>lheap := h1,
        watchers := (watchers ?ws)(n := (watchers ?ws n)\<lparr>event_listening := event_listening (watchers ?ws n) AND NOT IO_DRIVER_EVENT_TX\<rparr>)\<rparr>"
    have n2: "nets w2 = nets w" using s(1) by (simp add: w2_def)
    obtain h2 L2 where 2: "io_driver_watch d n IO_DRIVER_EVENT_RX w2 = Some (w2\<lparr>lheap := h2,
        watchers := (watchers w2)(n := (watchers w2 n)\<lparr>event_listening := event_listening (watchers w2 n) OR IO_DRIVER_EVENT_RX\<rparr>)\<rparr>)"
      using os_watch[where ev = IO_DRIVER_EVENT_RX, OF io_effect_inv[OF 1(2)] assms(3) dR] unfolding w2_def by blast
    define w3 where "w3 = w2\<lparr>lheap := h2,
        watchers := (watchers w2)(n := (watchers w2 n)\<lparr>event_listening := event_listening (watchers w2 n) OR IO_DRIVER_EVENT_RX\<rparr>)\<rparr>"
    have "io_net_connect_callback os cb n IO_DRIVER_EVENT_TX w = do { (_, _, w) \<leftarrow> call_net_cb cb n ?ev w3; Some w }"
      using True o assms(4,5) s(1) n2 1(1) 2 unfolding w2_def[symmetric] w3_def[symmetric]
      by (simp add: io_net_connect_callback_def Let_def)
    moreover have "watchers w3 n = \<lparr>wfd = wfd (watchers w n), event_listening = (event_listening (watchers w n) AND NOT IO_DRIVER_EVENT_TX) OR IO_DRIVER_EVENT_RX,
        callback = Io_net_generic_callback\<rparr>"
      using s(2) by (simp add: w3_def w2_def)
    moreover have "w3 = w\<lparr>lheap := lheap w3, watchers := watchers w3, trace := trace w3, errno := errno w3\<rparr>"
      by (simp add: w3_def w2_def w0_def io_driver_watcher_set_cb_def put_watcher_def)
    ultimately show ?thesis using True e unfolding fin by (intro exI[of _ w3] exI[of _ ?ev]) simp
  qed
qed

section \<open>Properties\<close>

text \<open>C21: \<open>io_net_bind\<close> either fails without a trace or leaves a socket that listens on the port. With 0, the calls made are
  those of the TLS library on \<open>s\<close>, if there is one, and then: a new socket, which is the only descriptor opened, is marked close-on-exec
  and non-blocking, may reuse its address, is bound to the given port on any address, to which the system answered 0, and is made to
  listen with a backlog of 5 (the answer to that last call is not looked at); the connection holds the descriptor, as does the TLS context, and is
  watched for input with the callback for its kind. With -1,
  the only other value, no descriptor stays open and no watcher and no connection has changed. The
  lists of the driver are well formed in both cases, whatever system call fails.\<close>

theorem io_net_bind_all_or_nothing:
  fixes w :: "'a net_mem_scheme"
  assumes "os_ok os" "driver_inv W {d} w L" "blank W {d} n w L"
  shows "\<exists>r w' L'. io_net_bind os d n s port cb w = Some (r, w')
    \<and> (if r = 0
       then driver_inv (insert n W) {d} w' L' \<and> nets w' = (nets w)(n := nets w' n)
         \<and> net_cb (nets w' n) = cb \<and> net_driver (nets w' n) = d \<and> net_ssl (nets w' n) = s
         \<and> watchers w' = (watchers w)(n := \<lparr>wfd = sd (nets w' n), event_listening = IO_DRIVER_EVENT_RX,
             callback = if s = NULL then Io_net_accept_callback else Io_ssl_accept_callback\<rparr>)
         \<and> sd (nets w' n) \<notin> open_fds (trace w) \<and> open_fds (trace w') = insert (sd (nets w' n)) (open_fds (trace w))
         \<and> (\<exists>pre tr. trace w' = trace w @ pre @ tr \<and> list_all (\<lambda>x. s \<noteq> NULL \<and> tls_on s (fst x)) pre
             \<and> map fst tr = [Sys_socket True, Sys_fcntl_setfd (sd (nets w' n)), Sys_ioctl_nonblock (sd (nets w' n)),
               Sys_setsockopt_reuseaddr (sd (nets w' n)), Sys_bind (sd (nets w' n)) (INADDR_ANY, word_of_int port), Sys_listen (sd (nets w' n)) 5]
             \<and> os_ret (snd (hd tr)) = sd (nets w' n) \<and> os_ret (snd (tr ! 4)) = 0)
         \<and> (s \<noteq> NULL \<longrightarrow> mbed_fd (ssls w' s) = sd (nets w' n) \<and> ssl_n (ssls w' s) = n)
       else r = -1 \<and> driver_inv W {d} w' L \<and> watchers w' = watchers w \<and> nets w' = nets w
         \<and> open_fds (trace w') = open_fds (trace w))"
proof -
  have dR: "d \<notin> {}" by simp
  let ?c = "if s = NULL then Io_net_accept_callback else Io_ssl_accept_callback"
  obtain r w' L' where b: "io_net_bind os d n s port cb w = Some (r, w')" "opened W d {} n ?c IO_DRIVER_EVENT_RX w L r w' L'"
    "r = 0 \<longrightarrow> nets w' n = (nets w n)\<lparr>sd := sd (nets w' n), net_cb := cb, net_driver := d, net_ssl := s\<rparr>"
    "r = 0 \<longrightarrow> (\<exists>pre tr. trace w' = trace w @ pre @ tr \<and> list_all (\<lambda>x. s \<noteq> NULL \<and> tls_on s (fst x)) pre
             \<and> map fst tr = [Sys_socket True, Sys_fcntl_setfd (sd (nets w' n)), Sys_ioctl_nonblock (sd (nets w' n)),
               Sys_setsockopt_reuseaddr (sd (nets w' n)), Sys_bind (sd (nets w' n)) (INADDR_ANY, word_of_int port), Sys_listen (sd (nets w' n)) 5]
             \<and> os_ret (snd (hd tr)) = sd (nets w' n) \<and> os_ret (snd (tr ! 4)) = 0)
         \<and> (s \<noteq> NULL \<longrightarrow> mbed_fd (ssls w' s) = sd (nets w' n) \<and> ssl_n (ssls w' s) = n)"
    using io_net_bind_ok[OF assms dR, of s port cb]
    by (elim exE conjE) (rule that, assumption+)
  show ?thesis
  proof (cases "r = 0")
    case True
    have "net_cb (nets w' n) = cb" "net_driver (nets w' n) = d" "net_ssl (nets w' n) = s"
      by (subst mp[OF b(3) True], simp)+
    then show ?thesis using b(1,2) mp[OF b(4) True] True unfolding opened_def io_effect_def
      by (intro exI[of _ r] exI[of _ w'] exI[of _ L']) simp
  next
    case False
    then show ?thesis using b(1,2) unfolding opened_def io_effect_def
      by (intro exI[of _ r] exI[of _ w'] exI[of _ L']) simp
  qed
qed

text \<open>\<open>io_net_connect\<close> likewise: with 0 a new socket, marked close-on-exec and non-blocking, has been told to connect to the address and port
  given (the answer is not looked at, the event loop will tell), the connection and the TLS context hold it and the connection waits for output with the
  connect callback for its kind; with -1 nothing stays open and nothing is registered.\<close>

theorem io_net_connect_all_or_nothing:
  fixes w :: "'a net_mem_scheme"
  assumes "os_ok os" "driver_inv W {d} w L" "blank W {d} n w L"
  shows "\<exists>r w' L'. io_net_connect os d n s to port cb w = Some (r, w')
    \<and> (if r = 0
       then driver_inv (insert n W) {d} w' L' \<and> nets w' = (nets w)(n := nets w' n)
         \<and> net_cb (nets w' n) = cb \<and> net_driver (nets w' n) = d \<and> net_ssl (nets w' n) = s
         \<and> watchers w' = (watchers w)(n := \<lparr>wfd = sd (nets w' n), event_listening = IO_DRIVER_EVENT_TX,
             callback = if s = NULL then Io_net_connect_callback else Io_ssl_connect_callback\<rparr>)
         \<and> sd (nets w' n) \<notin> open_fds (trace w) \<and> open_fds (trace w') = insert (sd (nets w' n)) (open_fds (trace w))
         \<and> (\<exists>pre tr. trace w' = trace w @ pre @ tr \<and> list_all (\<lambda>x. s \<noteq> NULL \<and> tls_on s (fst x)) pre
             \<and> map fst tr = [Sys_socket True, Sys_fcntl_setfd (sd (nets w' n)), Sys_ioctl_nonblock (sd (nets w' n)),
               Sys_connect (sd (nets w' n)) (to, word_of_int port)]
             \<and> os_ret (snd (hd tr)) = sd (nets w' n))
         \<and> (s \<noteq> NULL \<longrightarrow> mbed_fd (ssls w' s) = sd (nets w' n) \<and> ssl_n (ssls w' s) = n)
       else r = -1 \<and> driver_inv W {d} w' L \<and> watchers w' = watchers w \<and> nets w' = nets w
         \<and> open_fds (trace w') = open_fds (trace w))"
proof -
  have dR: "d \<notin> {}" by simp
  let ?c = "if s = NULL then Io_net_connect_callback else Io_ssl_connect_callback"
  obtain r w' L' where b: "io_net_connect os d n s to port cb w = Some (r, w')" "opened W d {} n ?c IO_DRIVER_EVENT_TX w L r w' L'"
    "r = 0 \<longrightarrow> nets w' n = (nets w n)\<lparr>sd := sd (nets w' n), net_cb := cb, net_driver := d, net_ssl := s\<rparr>"
    "r = 0 \<longrightarrow> (\<exists>pre tr. trace w' = trace w @ pre @ tr \<and> list_all (\<lambda>x. s \<noteq> NULL \<and> tls_on s (fst x)) pre
             \<and> map fst tr = [Sys_socket True, Sys_fcntl_setfd (sd (nets w' n)), Sys_ioctl_nonblock (sd (nets w' n)),
               Sys_connect (sd (nets w' n)) (to, word_of_int port)]
             \<and> os_ret (snd (hd tr)) = sd (nets w' n))
         \<and> (s \<noteq> NULL \<longrightarrow> mbed_fd (ssls w' s) = sd (nets w' n) \<and> ssl_n (ssls w' s) = n)"
    using io_net_connect_ok[OF assms dR, of s to port cb]
    by (elim exE conjE) (rule that, assumption+)
  show ?thesis
  proof (cases "r = 0")
    case True
    have "net_cb (nets w' n) = cb" "net_driver (nets w' n) = d" "net_ssl (nets w' n) = s"
      by (subst mp[OF b(3) True], simp)+
    then show ?thesis using b(1,2) mp[OF b(4) True] True unfolding opened_def io_effect_def
      by (intro exI[of _ r] exI[of _ w'] exI[of _ L']) simp
  next
    case False
    then show ?thesis using b(1,2) unfolding opened_def io_effect_def
      by (intro exI[of _ r] exI[of _ w'] exI[of _ L']) simp
  qed
qed

text \<open>\<open>io_net_close\<close> undoes \<open>io_net_bind\<close>: after a successful bind and a close, the same descriptors are open as
  before, the connection is watched for nothing and is in no list, and the other watchers are as they were.\<close>

theorem io_net_close_undoes_bind:
  fixes w :: "'a net_mem_scheme"
  assumes "os_ok os" "driver_inv W {d} w L" "blank W {d} n w L"
  shows "\<exists>r w1. io_net_bind os d n s port cb w = Some (r, w1)
    \<and> (r = 0 \<longrightarrow> (\<exists>w' L'. io_net_close os n w1 = Some w' \<and> driver_inv (insert n W) {d} w' L'
        \<and> event_listening (watchers w' n) = 0 \<and> L' n = Some [] \<and> (\<forall>x. x \<noteq> n \<longrightarrow> watchers w' x = watchers w x)
        \<and> open_fds (trace w') = open_fds (trace w)))"
proof -
  let ?c = "if s = NULL then Io_net_accept_callback else Io_ssl_accept_callback"
  obtain r w1 L1 where b: "io_net_bind os d n s port cb w = Some (r, w1)" "opened W d {} n ?c IO_DRIVER_EVENT_RX w L r w1 L1"
    "r = 0 \<longrightarrow> nets w1 n = (nets w n)\<lparr>sd := sd (nets w1 n), net_cb := cb, net_driver := d, net_ssl := s\<rparr>"
    using io_net_bind_ok[of os W d "{}" w L n s port cb] assms by auto
  have "\<exists>w' L'. io_net_close os n w1 = Some w' \<and> driver_inv (insert n W) {d} w' L'
        \<and> event_listening (watchers w' n) = 0 \<and> L' n = Some [] \<and> (\<forall>x. x \<noteq> n \<longrightarrow> watchers w' x = watchers w x)
        \<and> open_fds (trace w') = open_fds (trace w)" if r: "r = 0"
  proof -
    have o: "driver_inv (insert n W) {d} w1 L1" "open_fds (trace w1) = insert (sd (nets w1 n)) (open_fds (trace w))"
      "sd (nets w1 n) \<notin> open_fds (trace w)"
      "watchers w1 = (watchers w)(n := \<lparr>wfd = sd (nets w1 n), event_listening = IO_DRIVER_EVENT_RX, callback = ?c\<rparr>)"
      using b(2) r unfolding opened_def io_effect_def by simp_all
    have dr: "net_driver (nets w1 n) = d" by (subst mp[OF b(3) r]) simp
    obtain w' L' where c: "io_net_close os n w1 = Some w'" "io_effect (insert n W) d {} {n} w1 L1 w' L'"
      "watchers w' = (watchers w1)(n := (watchers w1 n)\<lparr>event_listening := event_listening (watchers w1 n) AND NOT EVENTS\<rparr>)"
      "open_fds (trace w') = open_fds (trace w1) - {sd (nets w1 n)}"
      using io_net_close_ok[of "insert n W" d "{}" w1 L1 n os] o(1) dr by auto
    have i: "driver_inv (insert n W) {d} w' L'" using io_effect_inv[OF c(2)] by simp
    have e: "event_listening (watchers w' n) = 0"
      unfolding c(3) o(4) by (simp add: EVENTS_def IO_DRIVER_EVENT_RX_def IO_DRIVER_EVENT_TX_def IO_DRIVER_EVENT_EX_def)
    then have "L' n = Some []" by (intro driver_okD(4)[OF driver_invD(2)[OF i]]) simp_all
    moreover have "\<forall>x. x \<noteq> n \<longrightarrow> watchers w' x = watchers w x" unfolding c(3) o(4) by simp
    moreover have "open_fds (trace w') = open_fds (trace w)" using c(4) o(2,3) by simp
    ultimately show ?thesis using c(1) i e by blast
  qed
  then show ?thesis using b(1) by blast
qed

text \<open>C3: A connection with TLS closes its descriptor twice. After a successful \<open>io_net_connect\<close> the context of the TLS library
  holds the descriptor of the connection; \<open>io_net_close\<close> first hands it to \<open>mbedtls_net_free\<close>, which closes it, and after the other
  contexts are freed closes it again, when the number may already be that of another file.\<close>

theorem io_net_close_closes_twice:
  fixes w :: "'a net_mem_scheme"
  assumes "os_ok os" "driver_inv W {d} w L" "blank W {d} n w L" "s \<noteq> NULL"
  shows "\<exists>r w1. io_net_connect os d n s to port cb w = Some (r, w1)
    \<and> (r = 0 \<longrightarrow> (\<exists>w' tr. io_net_close os n w1 = Some w' \<and> trace w' = trace w1 @ tr
        \<and> map fst tr = List.map (\<lambda>c. Tls c s)
            [Tls_net_free (sd (nets w1 n)), Tls_crt_free, Tls_pk_free, Tls_ssl_free, Tls_config_free, Tls_ctr_drbg_free, Tls_entropy_free]
            @ [Sys_close (sd (nets w1 n))]))"
proof -
  have dR: "d \<notin> {}" by simp
  obtain r w1 L1 where b: "io_net_connect os d n s to port cb w = Some (r, w1)"
    "opened W d {} n (if s = NULL then Io_net_connect_callback else Io_ssl_connect_callback) IO_DRIVER_EVENT_TX w L r w1 L1"
    "r = 0 \<longrightarrow> nets w1 n = (nets w n)\<lparr>sd := sd (nets w1 n), net_cb := cb, net_driver := d, net_ssl := s\<rparr>"
    "r = 0 \<longrightarrow> mbed_fd (ssls w1 s) = sd (nets w1 n)"
    using io_net_connect_ok[OF assms(1-3) dR, of s to port cb] assms(4) by fastforce
  have "\<exists>w' tr. io_net_close os n w1 = Some w' \<and> trace w' = trace w1 @ tr
        \<and> map fst tr = closing_calls (mbed_fd (ssls w1 s)) s (sd (nets w1 n))" if r: "r = 0"
  proof -
    have o: "driver_inv (insert n W) {d} w1 L1" using b(2) r unfolding opened_def io_effect_def by simp
    have n: "net_driver (nets w1 n) = d" "net_ssl (nets w1 n) = s" by (subst mp[OF b(3) r], simp)+
    obtain w' where "io_net_close os n w1 = Some w'" using io_net_close_ok[OF o insertI1 n(1) dR] by blast
    then show ?thesis using io_net_close_calls[OF _ n(2) assms(4)] by blast
  qed
  then show ?thesis using b(1,4) by (intro exI[of _ r] exI[of _ w1]) (simp add: closing_calls_def)
qed

text \<open>C22: \<open>io_net_tx\<close> makes one system call with exactly the bytes given and reports it: the number of bytes when
  some were taken; if the socket would block, the connection is watched for output, and the return
  value is 0 for a plain connection but the code of the TLS library for one with TLS; -1 on any
  other error, with no watcher changed.\<close>

theorem io_net_tx_reports:
  fixes w :: "'a net_mem_scheme" and os :: os
  assumes "driver_inv W {d} w L" "n \<in> W" "net_driver (nets w n) = d" "bytes_at buf len w = Some bs"
    and "net_ssl (nets w n) = NULL \<or> \<not> handshaking (ssls w (net_ssl (nets w n)))"
    and "os (if net_ssl (nets w n) = NULL then Sys_write (sd (nets w n)) bs else Tls (Tls_write bs) (net_ssl (nets w n))) (trace w) = a"
  shows "\<exists>r w' L'. io_net_tx os tc n buf len w = Some (r, w') \<and> driver_inv W {d} w' L'
    \<and> length (trace w') = length (trace w) + 1
    \<and> (if 0 < os_ret a then r = os_ret a \<and> watchers w' = watchers w
       else if net_ssl (nets w n) = NULL \<and> (os_errno a = EWOULDBLOCK \<or> os_errno a = EAGAIN)
       then r = 0 \<and> event_listening (watchers w' n) = event_listening (watchers w n) OR IO_DRIVER_EVENT_TX
       else if net_ssl (nets w n) \<noteq> NULL \<and> os_ret a = WANT_WRITE tc
       then r = WANT_WRITE tc \<and> event_listening (watchers w' n) = event_listening (watchers w n) OR IO_DRIVER_EVENT_TX
       else r = -1 \<and> watchers w' = watchers w)"
proof -
  let ?a = "os (tx_call n bs w) (trace w)"
  have a: "?a = a" using assms(6) by (simp add: tx_call_def)
  obtain w' L' where t: "io_net_tx os tc n buf len w = Some (if 0 < os_ret ?a then os_ret ?a
        else if \<not> tx_blocked tc n ?a w then -1 else if net_ssl (nets w n) = NULL then 0 else WANT_WRITE tc, w')"
    "io_effect W d {} {n} w L w' L'"
    "watchers w' = (if tx_blocked tc n ?a w then (watchers w)(n := (watchers w n)\<lparr>event_listening := event_listening (watchers w n) OR IO_DRIVER_EVENT_TX\<rparr>)
        else watchers w)"
    "trace w' = trace w @ [(tx_call n bs w, ?a)]"
    using io_net_tx_ok[of W d "{}" w L n buf len bs os tc] assms(1-5) by auto
  note t = t[unfolded a]
  have i: "driver_inv W {d} w' L'" using io_effect_inv[OF t(2)] by simp
  have l: "length (trace w') = length (trace w) + 1" using t(4) by simp
  show ?thesis
  proof (cases "tx_blocked tc n a w")
    case True
    then show ?thesis using t(1,3) i l by (auto simp: tx_blocked_def split: if_splits)
  next
    case False
    then show ?thesis using t(1,3) i l by (auto simp: tx_blocked_def split: if_splits)
  qed
qed

text \<open>C23: Input on a plain connection reaches its client exactly once and unchanged. The bytes that the system
  delivers, at most as many as the buffer holds, are in the buffer that the event names, with their number; when the peer
  has closed the connection or reading fails, the client gets the closed event instead. The rest of the buffers, the
  watchers and the connections are untouched when the client is called.\<close>

theorem io_net_generic_callback_delivers:
  fixes w :: "'a net_mem_scheme" and os :: os
  assumes "os_ok os" "0 \<le> net_rx_size (nets w n)" "net_rx_size (nets w n) \<le> int (length (bufs w (net_rx_buf (nets w n))))"
    and "os (Sys_read (sd (nets w n)) (net_rx_size (nets w n))) (trace w) = r"
  shows "\<exists>w1 ev. io_net_generic_callback os cb n IO_DRIVER_EVENT_RX w = map_option (\<lambda>x. snd (snd x)) (call_net_cb cb n ev w1)
    \<and> (if os_ret r \<le> 0 then ev_enum ev = io_net_event_enum_closed
       else \<exists>len. ev_enum ev = io_net_event_enum_rx \<and> ev_u ev = Ev_r (net_rx_buf (nets w n)) len \<and> uint len = os_ret r
         \<and> take (unat len) (bufs w1 (net_rx_buf (nets w n))) = os_data r)
    \<and> (\<forall>b. length (bufs w1 b) = length (bufs w b)) \<and> (\<forall>b. b \<noteq> net_rx_buf (nets w n) \<longrightarrow> bufs w1 b = bufs w b)
    \<and> watchers w1 = watchers w \<and> nets w1 = nets w \<and> net_log w1 = net_log w"
proof -
  let ?b = "net_rx_buf (nets w n)" and ?c = "Sys_read (sd (nets w n)) (net_rx_size (nets w n))"
  have "filled (net_rx_size (nets w n)) r" using os_okD[OF assms(1), of "trace w" ?c] assms(4) by simp
  then have r: "length (os_data r) = nat (os_ret r)" "os_ret r \<le> INT_MAX" "length (os_data r) \<le> length (bufs w ?b)"
    using assms(2,3) by (auto simp: filled_def int_range_def)
  let ?w1 = "w\<lparr>trace := trace w @ [(?c, r)], errno := os_errno r,
      bufs := (bufs w)(?b := os_data r @ drop (length (os_data r)) (bufs w ?b))\<rparr>"
  let ?ev = "if os_ret r \<le> 0 then plain_event io_net_event_enum_closed
     else (plain_event io_net_event_enum_rx)\<lparr>ev_u := Ev_r ?b (word_of_int (os_ret r))\<rparr>"
  have s: "sys_into os ?c ?b w = Some (r, ?w1)"
    using assms(4) r(3) by (simp add: sys_into_def os_do_def Let_def)
  have n: "IO_DRIVER_EVENT_RX AND IO_DRIVER_EVENT_RX \<noteq> 0" "IO_DRIVER_EVENT_RX AND IO_DRIVER_EVENT_TX = 0"
    by (simp_all add: IO_DRIVER_EVENT_RX_def IO_DRIVER_EVENT_TX_def)
  have c: "io_net_generic_callback os cb n IO_DRIVER_EVENT_RX w = map_option (\<lambda>x. snd (snd x)) (call_net_cb cb n ?ev ?w1)"
    using s n by (cases "call_net_cb cb n ?ev ?w1")
      (auto simp: io_net_generic_callback_def io_net_handle_data_rx_event_def net_tx_event_def Let_def)
  have "uint (word_of_int (os_ret r) :: u32) = os_ret r" if "0 < os_ret r"
    using r(2) that by (simp add: uint_word_of_int INT_MAX_def)
  then have "unat (word_of_int (os_ret r) :: u32) = length (os_data r)" if "0 < os_ret r"
    using that r(1) by (simp add: unat_eq_nat_uint)
  then have d: "if os_ret r \<le> 0 then ev_enum ?ev = io_net_event_enum_closed
       else \<exists>len. ev_enum ?ev = io_net_event_enum_rx \<and> ev_u ?ev = Ev_r ?b len \<and> uint len = os_ret r
         \<and> take (unat len) (bufs ?w1 ?b) = os_data r"
    using \<open>0 < os_ret r \<Longrightarrow> uint (word_of_int (os_ret r) :: u32) = os_ret r\<close> by (auto simp: plain_event_def)
  show ?thesis using c d r(3) by (intro exI[of _ ?w1] exI[of _ ?ev]) auto
qed

text \<open>C24: When a connection attempt ends, the client cannot tell how: success and failure both reach it as
  the same event, the one that asks for a new connection, because the code clears the event it has just filled
  in. On success the connection waits for input from then on; on failure it stays watched for output, so that the event comes
  again in every pass until the client closes it.\<close>

theorem io_net_connect_callback_loses_outcome:
  fixes w :: "'a net_mem_scheme"
  assumes "driver_inv W {d, rl} w L" "d \<noteq> rl" "n \<in> W" "net_driver (nets w n) = d"
    and "os_val (os (Sys_getsockopt_error (sd (nets w n))) (trace w)) = err"
  shows "\<exists>w1 ev. io_net_connect_callback os cb n IO_DRIVER_EVENT_TX w = map_option (\<lambda>x. snd (snd x)) (call_net_cb cb n ev w1)
    \<and> ev_enum ev = io_net_event_enum_alloc_connection \<and> ev_u ev = Ev_c n NULL
    \<and> (if err = 0
       then watchers w1 n = \<lparr>wfd = wfd (watchers w n),
           event_listening = (event_listening (watchers w n) AND NOT IO_DRIVER_EVENT_TX) OR IO_DRIVER_EVENT_RX,
           callback = Io_net_generic_callback\<rparr>
       else watchers w1 = watchers w)"
  using connect_callback_outcome[of W d rl w L n os err cb] assms by blast

section \<open>A concrete instance\<close>

text \<open>A driver at 20 with two idle connections, 30 and 31, the timer service with a timer at 10, at tick 5 of 10
  milliseconds, and buffers of four bytes.\<close>

definition demo_net :: net_mem where
  "demo_net = \<lparr>lheap = idle_heap (set [1..<9] \<union> {10, 20, 30, 31}), st = \<lparr>tick_rate = 10, tick = 5, buckets = [1..<9]\<rparr>,
     elem_tick = (\<lambda>_. 0), fired = [], watchers = (\<lambda>_. \<lparr>wfd = 0, event_listening = 0, callback = Other_callback 0\<rparr>),
     calls = [], trace = [], errno = 0, bufs = (\<lambda>_. [1, 2, 3, 4]), it_driver = 20, timerfd = 4,
     nets = (\<lambda>_. \<lparr>sd = 3, net_cb = User_net_callback 0, net_driver = 20, net_ssl = NULL, net_rx_buf = 0, net_rx_size = 4\<rparr>),
     ssls = (\<lambda>_. \<lparr>mbed_fd = -1, handshaking = False, ssl_n = NULL\<rparr>), net_log = []\<rparr>"

definition demo_net_lists :: family where
  "demo_net_lists = idle_lists (set [1..<9] \<union> {10, 20, 30, 31})"

definition demo_codes :: tls_codes where
  "demo_codes = \<lparr>WANT_READ = -1, WANT_WRITE = -2\<rparr>"

lemma demo_net_heap: "heap_lists (lheap demo_net) demo_net_lists"
proof -
  have "lheap demo_net = idle_heap (set [1..<9] \<union> {10, 20, 30, 31})" by (simp add: demo_net_def del: set_upt)
  then show ?thesis unfolding demo_net_lists_def by (simp only:) (rule idle_heap_lists, simp add: NULL_def)
qed

lemma demo_net_list: "demo_net_lists c = (if c \<in> set [1..<9] \<union> {10, 20, 30, 31} then Some [] else None)"
  by (simp add: demo_net_lists_def idle_lists_def del: set_upt)

lemma demo_net_inv: "D = {20} \<or> D = {20, 10} \<Longrightarrow> driver_inv {30, 31} D demo_net demo_net_lists"
  using demo_net_heap by (auto simp: driver_inv_def driver_ok_def demo_net_list demo_net_def FD_SETSIZE_def simp del: set_upt)

lemma demo_net_blank: "blank {30, 31} {20} 30 demo_net demo_net_lists"
  by (rule blank_idle) (simp_all add: demo_net_def)

theorem io_net_bind_all_or_nothing_witness:
  "\<exists>w' tr. io_net_bind demo_os 20 30 NULL 80 (User_net_callback 1) demo_net = Some (0, w') \<and> trace w' = tr
    \<and> map fst tr = [Sys_socket True, Sys_fcntl_setfd 5, Sys_ioctl_nonblock 5, Sys_setsockopt_reuseaddr 5, Sys_bind 5 (INADDR_ANY, 80), Sys_listen 5 5]"
proof -
  let ?b = "io_net_bind demo_os 20 30 NULL 80 (User_net_callback 1) demo_net"
  have c: "fst (the ?b) = 0" "sd (nets (snd (the ?b)) 30) = 5" by code_simp+
  obtain r w' where b: "?b = Some (r, w')" "r = 0 \<longrightarrow> (\<exists>pre tr. trace w' = trace demo_net @ pre @ tr \<and> list_all (\<lambda>x. (NULL :: addr) \<noteq> NULL \<and> tls_on NULL (fst x)) pre
      \<and> map fst tr = [Sys_socket True, Sys_fcntl_setfd (sd (nets w' 30)), Sys_ioctl_nonblock (sd (nets w' 30)),
          Sys_setsockopt_reuseaddr (sd (nets w' 30)), Sys_bind (sd (nets w' 30)) (INADDR_ANY, word_of_int 80), Sys_listen (sd (nets w' 30)) 5])"
    using io_net_bind_all_or_nothing[OF demo_os_ok demo_net_inv[OF disjI1[OF refl]] demo_net_blank, of NULL 80 "User_net_callback 1"]
    by (auto split: if_splits del: map_eq_Cons_D)
  have f: "list_all (\<lambda>x. False) pre \<Longrightarrow> pre = []" for pre :: os_trace by (cases pre) simp_all
  have "r = 0" "sd (nets w' 30) = 5" "trace demo_net = []" using c b(1) by (simp_all add: demo_net_def)
  then show ?thesis using b f by (auto del: map_eq_Cons_D)
qed

theorem io_net_connect_all_or_nothing_witness:
  "\<exists>r w'. io_net_connect demo_os 20 30 7 5 80 (User_net_callback 1) demo_net = Some (r, w') \<and> (r = 0 \<or> r = -1 \<and> nets w' = nets demo_net)"
  using io_net_connect_all_or_nothing[OF demo_os_ok demo_net_inv[OF disjI1[OF refl]] demo_net_blank, of 7 5 80 "User_net_callback 1"]
  by (auto split: if_splits)

theorem io_net_close_undoes_bind_witness:
  "\<exists>r w1. io_net_bind demo_os 20 30 NULL 80 (User_net_callback 1) demo_net = Some (r, w1)
    \<and> (r = 0 \<longrightarrow> (\<exists>w'. io_net_close demo_os 30 w1 = Some w' \<and> open_fds (trace w') = open_fds (trace demo_net)))"
  using io_net_close_undoes_bind[OF demo_os_ok demo_net_inv[OF disjI1[OF refl]] demo_net_blank, of NULL 80 "User_net_callback 1"]
  by blast

theorem io_net_close_closes_twice_witness:
  "\<exists>w1 w' tr. io_net_connect demo_os 20 30 7 5 80 (User_net_callback 1) demo_net = Some (0, w1)
    \<and> io_net_close demo_os 30 w1 = Some w' \<and> trace w' = trace w1 @ tr
    \<and> fst (hd tr) = Tls (Tls_net_free 5) 7 \<and> fst (last tr) = Sys_close 5"
proof -
  let ?c = "io_net_connect demo_os 20 30 7 5 80 (User_net_callback 1) demo_net"
  have s: "(7 :: addr) \<noteq> NULL" by (simp add: NULL_def)
  have e: "fst (hd tr) = f a \<and> fst (last tr) = b" if "map fst tr = List.map f (a # cs) @ [b]" for tr :: os_trace and f a b cs
  proof -
    have n: "tr \<noteq> []" using that by auto
    show ?thesis using hd_map[OF n, of fst] last_map[OF n, of fst] unfolding that by simp
  qed
  have c: "fst (the ?c) = 0" "sd (nets (snd (the ?c)) 30) = 5" by code_simp+
  obtain r w1 where r: "?c = Some (r, w1)" "r = 0 \<longrightarrow> (\<exists>w' tr. io_net_close demo_os 30 w1 = Some w' \<and> trace w' = trace w1 @ tr
        \<and> fst (hd tr) = Tls (Tls_net_free (sd (nets w1 30))) 7 \<and> fst (last tr) = Sys_close (sd (nets w1 30)))"
    using io_net_close_closes_twice[OF demo_os_ok demo_net_inv[OF disjI1[OF refl]] demo_net_blank s, of 5 80 "User_net_callback 1"] e by meson
  have "r = 0" "sd (nets w1 30) = 5" using c r(1) by simp_all
  then show ?thesis using r by auto
qed

theorem io_net_tx_reports_witness:
  "\<exists>r w'. io_net_tx demo_os demo_codes 31 0 2 demo_net = Some (r, w') \<and> r = -1"
  using io_net_tx_reports[OF demo_net_inv[OF disjI1[OF refl]], of 31 0 2 "[1, 2]" demo_os _ demo_codes]
  by (auto simp: demo_net_def bytes_at_def answer_def EWOULDBLOCK_def EAGAIN_def split: if_splits)

text \<open>A client that goes on whatever happens.\<close>

definition calm_client :: "'a net_mem_scheme net_client" where
  "calm_client c n ev w = Some (io_net_return_continue, ev, w)"

lemma demo_read: "demo_os (Sys_read (sd (nets demo_net 31)) (net_rx_size (nets demo_net 31))) (trace demo_net)
    = (answer 2)\<lparr>os_data := [104, 105]\<rparr>"
  by (simp add: demo_net_def demo_data_def)

theorem io_net_generic_callback_delivers_witness:
  "\<exists>w1 ev. io_net_generic_callback demo_os calm_client 31 IO_DRIVER_EVENT_RX demo_net
      = map_option (\<lambda>x. snd (snd x)) (call_net_cb calm_client 31 ev w1)
    \<and> ev_enum ev = io_net_event_enum_rx \<and> watchers w1 = watchers demo_net"
proof -
  have b: "0 \<le> net_rx_size (nets demo_net 31)"
    "net_rx_size (nets demo_net 31) \<le> int (length (bufs demo_net (net_rx_buf (nets demo_net 31))))"
    by (simp_all add: demo_net_def)
  have "\<not> os_ret ((answer 2)\<lparr>os_data := [104, 105]\<rparr>) \<le> 0" by (simp add: answer_def)
  then show ?thesis
    using io_net_generic_callback_delivers[OF demo_os_ok b demo_read, of calm_client] by (simp only: if_False) blast
qed

theorem io_net_connect_callback_loses_outcome_witness:
  "\<exists>w1 ev. io_net_connect_callback demo_os calm_client 31 IO_DRIVER_EVENT_TX demo_net
      = map_option (\<lambda>x. snd (snd x)) (call_net_cb calm_client 31 ev w1)
    \<and> ev_enum ev = io_net_event_enum_alloc_connection"
proof -
  have "(20 :: addr) \<noteq> 10" "(31 :: addr) \<in> {30, 31}" "net_driver (nets demo_net 31) = 20" by (simp_all add: demo_net_def)
  then show ?thesis
    using io_net_connect_callback_loses_outcome[OF demo_net_inv[OF disjI2[OF refl]], of 31 demo_os _ calm_client] by blast
qed

end
