(* ===== verification/Net_Client.thy ===== *)
theory Net_Client
  imports Io_Net
begin

text \<open>
  The network service and its clients. The locale \<open>net_client\<close> states what a client callback must
  keep so that the event loop can go on: the lists of the driver, the rule that every connection
  that is watched is ready for the callback it is watched with, and the connections of others. Under this
  contract every callback of the service returns and keeps the same; so the service is a client of
  the event loop in the sense of \<open>driver_client\<close>.

  A client that makes any sequence of calls of the interface, as long as it respects the rules the
  interface has, satisfies the contract.
\<close>

section \<open>Connections ready for their callback\<close>

definition rx_ok :: "'a net_mem_scheme \<Rightarrow> addr \<Rightarrow> bool" where
  "rx_ok w n \<longleftrightarrow> 0 \<le> net_rx_size (nets w n) \<and> net_rx_size (nets w n) \<le> int (length (bufs w (net_rx_buf (nets w n))))"

fun ready_for :: "addr \<Rightarrow> 'a net_mem_scheme \<Rightarrow> addr \<Rightarrow> io_callback \<Rightarrow> bool" where
  "ready_for d w n Io_net_accept_callback = (net_driver (nets w n) = d)"
| "ready_for d w n Io_ssl_accept_callback = (net_driver (nets w n) = d \<and> net_ssl (nets w n) \<noteq> NULL)"
| "ready_for d w n Io_net_generic_callback = (net_driver (nets w n) = d \<and> rx_ok w n)"
| "ready_for d w n Io_net_connect_callback = (net_driver (nets w n) = d \<and> rx_ok w n)"
| "ready_for d w n Io_net_udp_callback = (net_driver (nets w n) = d \<and> rx_ok w n)"
| "ready_for d w n Io_ssl_generic_callback = (net_driver (nets w n) = d \<and> rx_ok w n \<and> net_ssl (nets w n) \<noteq> NULL)"
| "ready_for d w n Io_ssl_handshake_callback = (net_driver (nets w n) = d \<and> rx_ok w n \<and> net_ssl (nets w n) \<noteq> NULL)"
| "ready_for d w n Io_ssl_connect_callback = (net_driver (nets w n) = d \<and> rx_ok w n \<and> net_ssl (nets w n) \<noteq> NULL)"
| "ready_for d w n c = True"

text \<open>All watched connections but those of \<open>S\<close>.\<close>

definition nets_ready :: "addr set \<Rightarrow> addr \<Rightarrow> 'a net_mem_scheme \<Rightarrow> addr set \<Rightarrow> bool" where
  "nets_ready W d w S \<longleftrightarrow> (\<forall>p\<in>W - S. event_listening (watchers w p) \<noteq> 0 \<longrightarrow> ready_for d w p (callback (watchers w p)))"

lemma ready_for_cong:
  "nets w' n = nets w n \<Longrightarrow> (\<And>b. length (bufs w' b) = length (bufs w b)) \<Longrightarrow> ready_for d w' n c = ready_for d w n c"
  by (cases c) (simp_all add: rx_ok_def)

lemma nets_ready_cong:
  assumes "nets_ready W d w S" "S \<subseteq> S'" "\<And>b. length (bufs w' b) = length (bufs w b)"
    and "\<And>p. p \<in> W - S' \<Longrightarrow> event_listening (watchers w' p) \<noteq> 0 \<Longrightarrow>
      event_listening (watchers w p) \<noteq> 0 \<and> callback (watchers w' p) = callback (watchers w p) \<and> nets w' p = nets w p"
  shows "nets_ready W d w' S'"
  unfolding nets_ready_def
proof (intro ballI impI)
  fix p assume p: "p \<in> W - S'" "event_listening (watchers w' p) \<noteq> 0"
  note o = assms(4)[OF p]
  have "ready_for d w p (callback (watchers w p))" using assms(1,2) p o unfolding nets_ready_def by blast
  then show "ready_for d w' p (callback (watchers w' p))"
    using o ready_for_cong[of w' p w d, OF _ assms(3)] by simp
qed

lemma nets_ready_add:
  assumes "nets_ready W d w (insert n S)" "event_listening (watchers w n) \<noteq> 0 \<Longrightarrow> ready_for d w n (callback (watchers w n))"
  shows "nets_ready W d w S"
  using assms unfolding nets_ready_def by blast

lemma ready_for_driver:
  "ready_for d w n c \<Longrightarrow> c \<in> {Io_net_accept_callback, Io_ssl_accept_callback, Io_net_generic_callback, Io_net_connect_callback,
      Io_net_udp_callback, Io_ssl_generic_callback, Io_ssl_handshake_callback, Io_ssl_connect_callback} \<Longrightarrow> net_driver (nets w n) = d"
  by auto

lemma queued_listening:
  assumes "driver_inv W D w L" "p \<in> W" "queued L p c"
  shows "event_listening (watchers w p) \<noteq> 0"
proof
  assume "event_listening (watchers w p) = 0"
  then have "L p = Some []" by (rule driver_okD(4)[OF driver_invD(2)[OF assms(1)] assms(2)])
  then show False using lists_elem_not_head[OF driver_invD(1)[OF assms(1)]] assms(3) by (fastforce simp: queued_def)
qed

text \<open>Receiving into the buffer of a connection.\<close>

definition filled_buffer :: "bytes \<Rightarrow> bytes \<Rightarrow> bytes" where
  "filled_buffer new old = new @ drop (length new) old"

lemma sys_into_ok:
  assumes "os_ok os" "\<And>tr r. answer_ok tr c r = filled n r" "0 \<le> n" "n \<le> int (length (bufs w buf))"
  shows "\<exists>r. sys_into os c buf w = Some (r, w\<lparr>trace := trace w @ [(c, r)], errno := os_errno r,
      bufs := (bufs w)(buf := filled_buffer (os_data r) (bufs w buf))\<rparr>)
    \<and> r = os c (trace w) \<and> os_ret r \<le> n \<and> length (os_data r) = nat (os_ret r) \<and> length (os_data r) \<le> length (bufs w buf)"
proof -
  let ?r = "os c (trace w)"
  have f: "filled n ?r" using os_okD[OF assms(1), of "trace w" c] assms(2) by simp
  then have "length (os_data ?r) \<le> length (bufs w buf)" "os_ret ?r \<le> n" "length (os_data ?r) = nat (os_ret ?r)"
    using assms(3,4) by (auto simp: filled_def)
  then show ?thesis by (intro exI[of _ ?r]) (simp add: sys_into_def os_do_def Let_def filled_buffer_def)
qed

lemma length_filled_buffer: "length (os_data r) \<le> length b \<Longrightarrow> length (filled_buffer (os_data r) b) = length b"
  by (simp add: filled_buffer_def)

section \<open>The contract\<close>

text \<open>A connection the client did not take apart.\<close>

definition stays :: "addr \<Rightarrow> 'a net_mem_scheme \<Rightarrow> 'a net_mem_scheme \<Rightarrow> addr \<Rightarrow> bool" where
  "stays d w w' n \<longleftrightarrow> net_driver (nets w' n) = d \<and> (rx_ok w n \<longrightarrow> rx_ok w' n)
     \<and> (net_ssl (nets w n) \<noteq> NULL \<longrightarrow> net_ssl (nets w' n) \<noteq> NULL)
     \<and> callback (watchers w' n) = callback (watchers w n)"

text \<open>A connection that may be handed over to a listening socket.\<close>

definition fresh_connection :: "addr set \<Rightarrow> addr set \<Rightarrow> bool \<Rightarrow> addr \<Rightarrow> 'a net_mem_scheme \<Rightarrow> io_net_event_u \<Rightarrow> bool" where
  "fresh_connection W K tls l w u \<longleftrightarrow> (\<exists>m s. u = Ev_c m s \<and> m \<noteq> NULL \<and> m \<in> W - K \<and> m \<noteq> l
     \<and> event_listening (watchers w m) = 0 \<and> (tls \<longrightarrow> s \<noteq> NULL))"

definition keeps_loop ::
  "addr set \<Rightarrow> addr set \<Rightarrow> addr \<Rightarrow> addr \<Rightarrow> addr \<Rightarrow> 'a net_mem_scheme \<Rightarrow> family \<Rightarrow> 'a net_mem_scheme \<Rightarrow> family \<Rightarrow> bool" where
  "keeps_loop W K d rl n w L w' L' \<longleftrightarrow> io_effect W d {rl} (- (K - {n})) w L w' L' \<and> nets_ready W d w' {}"

locale net_client =
  fixes cb :: "'a net_mem_scheme net_client" and W K :: "addr set" and d rl :: addr and os :: os
  assumes client: "\<lbrakk>os_ok os; n \<in> W; d \<noteq> rl; driver_inv W {d, rl} w L; net_driver (nets w n) = d;
      nets_ready W d w (if ev_enum ev = io_net_event_enum_connected then {n} else {})\<rbrakk> \<Longrightarrow>
    \<exists>r ev' w' L'. cb (net_cb (nets w n)) n ev w = Some (r, ev', w') \<and> keeps_loop W K d rl n w L w' L'
      \<and> (r = io_net_return_continue \<or> ev_u ev = Ev_c n NULL \<longrightarrow> stays d w w' n)
      \<and> (ev_enum ev = io_net_event_enum_alloc_connection \<and> ev_u ev = Ev_c NULL NULL \<and> r = io_net_return_continue \<longrightarrow>
          fresh_connection W K (net_ssl (nets w n) \<noteq> NULL) n w' (ev_u ev'))"
begin

lemma call_client:
  assumes "os_ok os" "n \<in> W" "d \<noteq> rl" "driver_inv W {d, rl} w L" "net_driver (nets w n) = d"
    "nets_ready W d w (if ev_enum ev = io_net_event_enum_connected then {n} else {})"
  shows "\<exists>r ev' w' L'. call_net_cb cb n ev w = Some (r, ev', w') \<and> keeps_loop W K d rl n w L w' L'
      \<and> (r = io_net_return_continue \<or> ev_u ev = Ev_c n NULL \<longrightarrow> stays d w w' n)
      \<and> (ev_enum ev = io_net_event_enum_alloc_connection \<and> ev_u ev = Ev_c NULL NULL \<and> r = io_net_return_continue \<longrightarrow>
          fresh_connection W K (net_ssl (nets w n) \<noteq> NULL) n w' (ev_u ev'))"
proof -
  let ?w = "w\<lparr>net_log := net_log w @ [(n, ev)]\<rparr>"
  have r: "nets_ready W d ?w (if ev_enum ev = io_net_event_enum_connected then {n} else {})"
    by (rule nets_ready_cong[OF assms(6) subset_refl]) simp_all
  have s: "stays d ?w w' n = stays d w w' n" for w' by (simp add: stays_def rx_ok_def)
  have k: "keeps_loop W K d rl n ?w L w' L' = keeps_loop W K d rl n w L w' L'" for w' L'
    by (simp add: keeps_loop_def)
  show ?thesis using client[of n ?w L ev] assms(1-5) r unfolding call_net_cb_def s k by simp
qed

end

section \<open>The callbacks under the contract\<close>

lemma keeps_loop_refl: "driver_inv W {d, rl} w L \<Longrightarrow> nets_ready W d w {} \<Longrightarrow> keeps_loop W K d rl n w L w L"
  using io_effect_refl[of W d "{rl}" w L] io_effect_mono by (auto simp: keeps_loop_def intro: io_effect_refl)

lemma keeps_loop_trans:
  "io_effect W d {rl} X w L w1 L1 \<Longrightarrow> X \<subseteq> - (K - {n}) \<Longrightarrow> keeps_loop W K d rl n w1 L1 w' L' \<Longrightarrow> keeps_loop W K d rl n w L w' L'"
  unfolding keeps_loop_def using io_effect_trans[OF io_effect_mono] by blast

lemma keeps_loopD:
  assumes "keeps_loop W K d rl n w L w' L'"
  shows "driver_inv W {d, rl} w' L'" "nets_ready W d w' {}" "io_effect W d {rl} (- (K - {n})) w L w' L'"
  using assms io_effect_inv unfolding keeps_loop_def by auto

lemma keeps_loop_trans2:
  "keeps_loop W K d rl n w L w1 L1 \<Longrightarrow> keeps_loop W K d rl n w1 L1 w' L' \<Longrightarrow> keeps_loop W K d rl n w L w' L'"
  using keeps_loop_trans[OF keeps_loopD(3)] by blast

lemma keeps_loopI:
  "io_effect W d {rl} X w L w' L' \<Longrightarrow> X \<subseteq> - (K - {n}) \<Longrightarrow> nets_ready W d w' {} \<Longrightarrow> keeps_loop W K d rl n w L w' L'"
  unfolding keeps_loop_def using io_effect_mono by blast

text \<open>Unwatching and watching an event of a connection.\<close>

lemma unwatch_keeps:
  assumes "n \<in> W" "d \<noteq> rl" "driver_inv W {d, rl} w L" "nets_ready W d w S"
  shows "\<exists>w' L'. io_driver_no_watch d n ev w = Some w' \<and> io_effect W d {rl} {n} w L w' L' \<and> nets_ready W d w' S
    \<and> nets w' = nets w \<and> ssls w' = ssls w \<and> bufs w' = bufs w \<and> callback (watchers w' n) = callback (watchers w n)"
proof -
  let ?wt = "(watchers w n)\<lparr>event_listening := event_listening (watchers w n) AND NOT ev\<rparr>"
  obtain h L' where h: "io_driver_no_watch d n ev w = Some (w\<lparr>lheap := h, watchers := (watchers w)(n := ?wt)\<rparr>)"
    "io_effect W d {rl} {n} w L (w\<lparr>lheap := h, watchers := (watchers w)(n := ?wt)\<rparr>) L'"
    using os_no_watch[of W d "{rl}" w L n ev] assms(1-3) by auto
  have "nets_ready W d (w\<lparr>lheap := h, watchers := (watchers w)(n := ?wt)\<rparr>) S"
    by (rule nets_ready_cong[OF assms(4) subset_refl]) (auto split: if_splits)
  then show ?thesis using h by fastforce
qed

lemma watch_keeps:
  assumes "n \<in> W" "d \<noteq> rl" "driver_inv W {d, rl} w L" "nets_ready W d w S"
    and "n \<in> S \<or> ready_for d w n (callback (watchers w n))"
  shows "\<exists>w' L'. io_driver_watch d n ev w = Some w' \<and> io_effect W d {rl} {n} w L w' L' \<and> nets_ready W d w' S
    \<and> nets w' = nets w \<and> ssls w' = ssls w \<and> bufs w' = bufs w \<and> callback (watchers w' n) = callback (watchers w n)"
proof -
  let ?wt = "(watchers w n)\<lparr>event_listening := event_listening (watchers w n) OR ev\<rparr>"
  obtain h L' where h: "io_driver_watch d n ev w = Some (w\<lparr>lheap := h, watchers := (watchers w)(n := ?wt)\<rparr>)"
    "io_effect W d {rl} {n} w L (w\<lparr>lheap := h, watchers := (watchers w)(n := ?wt)\<rparr>) L'"
    using os_watch[of W d "{rl}" w L n ev] assms(1-3) by auto
  let ?w = "w\<lparr>lheap := h, watchers := (watchers w)(n := ?wt)\<rparr>"
  have c: "ready_for d ?w p c = ready_for d w p c" for p c by (rule ready_for_cong) simp_all
  have "nets_ready W d ?w S"
    using assms(4,5) unfolding nets_ready_def c by auto
  then show ?thesis using h by fastforce
qed

context net_client
begin

lemma net_tx_event_ok:
  assumes os: "os_ok os" and n: "n \<in> W" "d \<noteq> rl" and inv: "driver_inv W {d, rl} w L" "nets_ready W d w {}" and dr: "net_driver (nets w n) = d"
  shows "\<exists>w' L'. net_tx_event cb n e w = Some w' \<and> keeps_loop W K d rl n w L w' L'"
proof (cases "e AND IO_DRIVER_EVENT_TX = 0")
  case True
  then show ?thesis using keeps_loop_refl[OF inv] by (auto simp: net_tx_event_def)
next
  case False
  obtain w1 L1 where w1: "io_driver_no_watch d n IO_DRIVER_EVENT_TX w = Some w1" "io_effect W d {rl} {n} w L w1 L1"
    "nets_ready W d w1 {}" "nets w1 = nets w" using unwatch_keeps[OF n inv] by blast
  have i1: "driver_inv W {d, rl} w1 L1" using io_effect_inv[OF w1(2)] by simp
  have d1: "net_driver (nets w1 n) = d" using w1(4) dr by simp
  obtain r ev' w' L' where c: "call_net_cb cb n (plain_event io_net_event_enum_tx) w1 = Some (r, ev', w')"
    "keeps_loop W K d rl n w1 L1 w' L'"
    using call_client[OF os n i1 d1, of "plain_event io_net_event_enum_tx"] w1(3) by (auto simp: plain_event_def)
  have "keeps_loop W K d rl n w L w' L'" by (rule keeps_loop_trans[OF w1(2) _ c(2)]) auto
  then show ?thesis using False w1(1) dr c(1) by (auto simp: net_tx_event_def)
qed

text \<open>Reading into the buffer of the connection and telling the client.\<close>

lemma receive_ok:
  assumes n: "n \<in> W" "d \<noteq> rl" and inv: "driver_inv W {d, rl} w L" "nets_ready W d w {}" and dr: "net_driver (nets w n) = d"
    and rx: "rx_ok w n" and os: "os_ok os" and c: "\<And>tr r. answer_ok tr c r = filled (net_rx_size (nets w n)) r"
  shows "\<exists>r w1. sys_into os c (net_rx_buf (nets w n)) w = Some (r, w1)
    \<and> io_effect W d {rl} {n} w L w1 L \<and> nets_ready W d w1 {} \<and> nets w1 = nets w \<and> ssls w1 = ssls w \<and> stays d w w1 n
    \<and> (\<forall>ev. ev_enum ev \<noteq> io_net_event_enum_connected \<longrightarrow> (\<exists>r' ev' w' L'. call_net_cb cb n ev w1 = Some (r', ev', w')
        \<and> keeps_loop W K d rl n w L w' L' \<and> (r' = io_net_return_continue \<longrightarrow> stays d w w' n)))"
proof -
  let ?b = "net_rx_buf (nets w n)"
  obtain r where r: "sys_into os c ?b w = Some (r, w\<lparr>trace := trace w @ [(c, r)], errno := os_errno r,
      bufs := (bufs w)(?b := filled_buffer (os_data r) (bufs w ?b))\<rparr>)" "length (os_data r) \<le> length (bufs w ?b)"
    using sys_into_ok[OF os c] rx unfolding rx_ok_def by blast
  define w1 where "w1 = w\<lparr>trace := trace w @ [(c, r)], errno := os_errno r, bufs := (bufs w)(?b := filled_buffer (os_data r) (bufs w ?b))\<rparr>"
  have len: "length (bufs w1 b) = length (bufs w b)" for b
    using length_filled_buffer[OF r(2)] by (simp add: w1_def)
  have w1: "nets w1 = nets w" "ssls w1 = ssls w" "watchers w1 = watchers w" by (simp_all add: w1_def)
  have e1: "io_effect W d {rl} {n} w L w1 L"
    unfolding w1_def using io_effect_mono[OF io_effect_refl[of W d "{rl}" w L], of "{n}" "{n}"] io_effect_refl[of W d "{rl}" w L] inv(1) by simp
  have n1: "nets_ready W d w1 {}" by (rule nets_ready_cong[OF inv(2) subset_refl len]) (simp add: w1)
  have s1: "stays d w w1 n" using dr by (simp add: stays_def rx_ok_def w1 len)
  have i1: "driver_inv W {d, rl} w1 L" using io_effect_inv[OF e1] by simp
  have s: "stays d w1 w' n \<Longrightarrow> stays d w w' n" for w' by (simp add: stays_def rx_ok_def w1 len)
  have "\<exists>r' ev' w' L'. call_net_cb cb n ev w1 = Some (r', ev', w')
        \<and> keeps_loop W K d rl n w L w' L' \<and> (r' = io_net_return_continue \<longrightarrow> stays d w w' n)"
    if "ev_enum ev \<noteq> io_net_event_enum_connected" for ev
  proof -
    have dr1: "net_driver (nets w1 n) = d" using w1(1) dr by simp
    have "nets_ready W d w1 (if ev_enum ev = io_net_event_enum_connected then {n} else {})" using that n1 by simp
    from call_client[OF os n i1 dr1 this] obtain r' ev' w' L' where
      c: "call_net_cb cb n ev w1 = Some (r', ev', w')" "keeps_loop W K d rl n w1 L w' L'"
        "r' = io_net_return_continue \<longrightarrow> stays d w1 w' n" by blast
    have "keeps_loop W K d rl n w L w' L'" by (rule keeps_loop_trans[OF e1 _ c(2)]) auto
    then show ?thesis using c(1,3) s by blast
  qed
  then show ?thesis using r(1) e1 n1 w1(1,2) s1 unfolding w1_def[symmetric] by blast
qed

lemma io_net_generic_ok:
  assumes n: "n \<in> W" "d \<noteq> rl" and inv: "driver_inv W {d, rl} w L" "nets_ready W d w {}" and os: "os_ok os"
    and rdy: "net_driver (nets w n) = d" "rx_ok w n"
  shows "\<exists>w' L'. io_net_generic_callback os cb n e w = Some w' \<and> keeps_loop W K d rl n w L w' L'"
proof (cases "e AND IO_DRIVER_EVENT_RX = 0")
  case True
  then show ?thesis using net_tx_event_ok[OF os n inv rdy(1)] by (simp add: io_net_generic_callback_def)
next
  case False
  let ?c = "Sys_read (sd (nets w n)) (net_rx_size (nets w n))"
  have ans: "answer_ok tr ?c r = filled (net_rx_size (nets w n)) r" for tr r by simp
  obtain r w1 where r: "sys_into os ?c (net_rx_buf (nets w n)) w = Some (r, w1)"
    "\<And>ev. ev_enum ev \<noteq> io_net_event_enum_connected \<Longrightarrow> \<exists>r' ev' w' L'. call_net_cb cb n ev w1 = Some (r', ev', w')
        \<and> keeps_loop W K d rl n w L w' L' \<and> (r' = io_net_return_continue \<longrightarrow> stays d w w' n)"
    using receive_ok[OF n inv rdy os ans] by blast
  let ?e = "if os_ret r \<le> 0 then plain_event io_net_event_enum_closed
     else (plain_event io_net_event_enum_rx)\<lparr>ev_u := Ev_r (net_rx_buf (nets w n)) (word_of_int (os_ret r))\<rparr>"
  have "ev_enum ?e \<noteq> io_net_event_enum_connected" by (simp add: plain_event_def)
  from r(2)[OF this] obtain r' ev' w2 L2 where c: "call_net_cb cb n ?e w1 = Some (r', ev', w2)"
    "keeps_loop W K d rl n w L w2 L2" "r' = io_net_return_continue \<longrightarrow> stays d w w2 n" by blast
  have h: "io_net_handle_data_rx_event os cb n w = Some (r', w2)"
    using r(1) c(1) by (simp add: io_net_handle_data_rx_event_def Let_def)
  show ?thesis
  proof (cases r')
    case io_net_return_stop
    then show ?thesis using h False c(2) by (auto simp: io_net_generic_callback_def)
  next
    case io_net_return_continue
    then have "net_driver (nets w2 n) = d" using c(3) by (simp add: stays_def)
    from net_tx_event_ok[OF os n keeps_loopD(1,2)[OF c(2)] this] obtain w' L' where
      "net_tx_event cb n e w2 = Some w'" "keeps_loop W K d rl n w2 L2 w' L'" by blast
    with keeps_loop_trans2[OF c(2)] show ?thesis
      using h False io_net_return_continue by (auto simp: io_net_generic_callback_def)
  qed
qed

lemma io_net_udp_cb_ok:
  assumes n: "n \<in> W" "d \<noteq> rl" and inv: "driver_inv W {d, rl} w L" "nets_ready W d w {}" and os: "os_ok os"
    and rdy: "net_driver (nets w n) = d" "rx_ok w n"
  shows "\<exists>w' L'. io_net_udp_callback os cb n e w = Some w' \<and> keeps_loop W K d rl n w L w' L'"
proof (cases "e = IO_DRIVER_EVENT_RX")
  case False
  then show ?thesis using keeps_loop_refl[OF inv] by (auto simp: io_net_udp_callback_def)
next
  case True
  let ?c = "Sys_recvfrom (sd (nets w n)) (net_rx_size (nets w n))"
  have ans: "answer_ok tr ?c r = filled (net_rx_size (nets w n)) r" for tr r by simp
  obtain r w1 where r: "sys_into os ?c (net_rx_buf (nets w n)) w = Some (r, w1)" "io_effect W d {rl} {n} w L w1 L" "nets_ready W d w1 {}"
    "\<And>ev. ev_enum ev \<noteq> io_net_event_enum_connected \<Longrightarrow> \<exists>r' ev' w' L'. call_net_cb cb n ev w1 = Some (r', ev', w')
        \<and> keeps_loop W K d rl n w L w' L' \<and> (r' = io_net_return_continue \<longrightarrow> stays d w w' n)"
    using receive_ok[OF n inv rdy os ans] by blast
  show ?thesis
  proof (cases "os_ret r \<le> 0")
    case neg: True
    have "keeps_loop W K d rl n w L w1 L" by (rule keeps_loopI[OF r(2) _ r(3)]) auto
    then show ?thesis using True neg r(1) by (auto simp: io_net_udp_callback_def Let_def)
  next
    case False
    let ?e = "(plain_event io_net_event_enum_rx)\<lparr>ev_u := Ev_r (net_rx_buf (nets w n)) (word_of_int (os_ret r)), ev_from := Some (os_addr r)\<rparr>"
    have "ev_enum ?e \<noteq> io_net_event_enum_connected" by (simp add: plain_event_def)
    from r(4)[OF this] show ?thesis using True False r(1) by (auto simp: io_net_udp_callback_def Let_def)
  qed
qed

end

text \<open>Changing the callback of a connection that is ready for the new one.\<close>

lemma set_cb_keeps:
  assumes "n \<in> W" "d \<noteq> rl" "driver_inv W {d, rl} w L" "nets_ready W d w S" "n \<in> S \<or> ready_for d w n c"
  shows "io_effect W d {rl} {n} w L (io_driver_watcher_set_cb n c w) L"
    "nets_ready W d (io_driver_watcher_set_cb n c w) S"
    "nets (io_driver_watcher_set_cb n c w) = nets w" "ssls (io_driver_watcher_set_cb n c w) = ssls w"
    "bufs (io_driver_watcher_set_cb n c w) = bufs w"
    "callback (watchers (io_driver_watcher_set_cb n c w) n) = c"
proof -
  let ?w = "io_driver_watcher_set_cb n c w"
  show "io_effect W d {rl} {n} w L ?w L" using os_set_cb[of W d "{rl}" w L n c] assms(1,3) by simp
  show same: "nets ?w = nets w" "ssls ?w = ssls w" "bufs ?w = bufs w" "callback (watchers ?w n) = c"
    by (simp_all add: io_driver_watcher_set_cb_def put_watcher_def)
  have c: "ready_for d ?w p c = ready_for d w p c" for p c by (rule ready_for_cong) (simp_all add: same)
  show "nets_ready W d ?w S"
    using assms(4,5) unfolding nets_ready_def c by (auto simp: io_driver_watcher_set_cb_def put_watcher_def)
qed

text \<open>A call of the system, and a change of a TLS object, that concern nobody else.\<close>

lemma calm_effect:
  assumes "driver_inv W {d, rl} w L" "nets_ready W d w S"
  shows "io_effect W d {rl} {n} w L (w\<lparr>trace := t, errno := e, ssls := ss\<rparr>) L"
    "nets_ready W d (w\<lparr>trace := t, errno := e, ssls := ss\<rparr>) S"
proof -
  have "io_effect W d {rl} {n} w L w L"
    by (rule io_effect_mono[OF io_effect_refl[where X = "{}"]]) (use assms(1) in auto)
  then show "io_effect W d {rl} {n} w L (w\<lparr>trace := t, errno := e, ssls := ss\<rparr>) L" by simp
  show "nets_ready W d (w\<lparr>trace := t, errno := e, ssls := ss\<rparr>) S"
    by (rule nets_ready_cong[OF assms(2) subset_refl]) simp_all
qed

lemma calm_grown:
  assumes "driver_inv W {d, rl} w L" "nets_ready W d w S" "grown s tr w w'"
  shows "io_effect W d {rl} {n} w L w' L" "nets_ready W d w' S"
  using calm_effect[OF assms(1,2)] assms(3) unfolding grown_def by auto

text \<open>The part of the connect callbacks that handles the outcome.\<close>

lemma connect_outcome_ok:
  assumes n: "n \<in> W" "d \<noteq> rl" and inv: "driver_inv W {d, rl} w L" "nets_ready W d w {}"
    and rdy: "ready_for d w n c" "net_driver (nets w n) = d"
  shows "\<exists>ev w' L'. (if err \<noteq> 0 then Some (plain_event io_net_event_enum_closed, w)
      else do {
        let w = io_driver_watcher_set_cb n c w;
        let ev = plain_event io_net_event_enum_connected;
        w \<leftarrow> io_driver_no_watch (net_driver (nets w n)) n IO_DRIVER_EVENT_TX w;
        w \<leftarrow> io_driver_watch (net_driver (nets w n)) n IO_DRIVER_EVENT_RX w;
        Some (ev, w)
      }) = Some (ev, w') \<and> io_effect W d {rl} {n} w L w' L' \<and> nets_ready W d w' {} \<and> nets w' = nets w \<and> ssls w' = ssls w \<and> bufs w' = bufs w"
proof (cases "err = 0")
  case False
  have "io_effect W d {rl} {n} w L w L"
    by (rule io_effect_mono[OF io_effect_refl[where X = "{}"]]) (use inv(1) in auto)
  then show ?thesis using False inv(2) by auto
next
  case True
  let ?w1 = "io_driver_watcher_set_cb n c w"
  note s = set_cb_keeps[OF n inv disjI2[OF rdy(1)]]
  have i1: "driver_inv W {d, rl} ?w1 L" using io_effect_inv[OF s(1)] by simp
  obtain w2 L2 where w2: "io_driver_no_watch d n IO_DRIVER_EVENT_TX ?w1 = Some w2" "io_effect W d {rl} {n} ?w1 L w2 L2"
    "nets_ready W d w2 {}" "nets w2 = nets ?w1" "ssls w2 = ssls ?w1" "bufs w2 = bufs ?w1" "callback (watchers w2 n) = callback (watchers ?w1 n)"
    using unwatch_keeps[OF n i1 s(2)] by blast
  have i2: "driver_inv W {d, rl} w2 L2" using io_effect_inv[OF w2(2)] by simp
  have "ready_for d w2 n (callback (watchers w2 n))"
    using rdy(1) ready_for_cong[of w2 n w d c] w2(4,6,7) s(3,5,6) by simp
  then obtain w3 L3 where w3: "io_driver_watch d n IO_DRIVER_EVENT_RX w2 = Some w3" "io_effect W d {rl} {n} w2 L2 w3 L3"
    "nets_ready W d w3 {}" "nets w3 = nets w2" "ssls w3 = ssls w2" "bufs w3 = bufs w2"
    using watch_keeps[OF n i2 w2(3)] by blast
  have "io_effect W d {rl} {n} w L w3 L3" using io_effect_trans[OF io_effect_trans[OF s(1) w2(2)] w3(2)] .
  then show ?thesis using True w2(1,4,5,6) w3(1,3-6) s(3-5) rdy(2) by (auto simp: Let_def)
qed

context net_client
begin

lemma io_net_connect_cb_ok:
  assumes os: "os_ok os" and n: "n \<in> W" "d \<noteq> rl" and inv: "driver_inv W {d, rl} w L" "nets_ready W d w {}"
    and rdy: "net_driver (nets w n) = d" "rx_ok w n"
  shows "\<exists>w' L'. io_net_connect_callback os cb n e w = Some w' \<and> keeps_loop W K d rl n w L w' L'"
proof (cases "e = IO_DRIVER_EVENT_TX")
  case False
  then show ?thesis using keeps_loop_refl[OF inv] by (auto simp: io_net_connect_callback_def)
next
  case True
  let ?c = "Sys_getsockopt_error (sd (nets w n))"
  define r where "r = os ?c (trace w)"
  define w1 where "w1 = w\<lparr>trace := trace w @ [(?c, r)], errno := os_errno r, ssls := ssls w\<rparr>"
  have d1: "os_do os ?c w = (r, w1)" by (simp add: os_do_def r_def w1_def Let_def)
  have e1: "io_effect W d {rl} {n} w L w1 L" "nets_ready W d w1 {}"
    unfolding w1_def by (rule calm_effect[OF inv])+
  have n1: "nets w1 = nets w" "bufs w1 = bufs w" by (simp_all add: w1_def)
  have i1: "driver_inv W {d, rl} w1 L" using io_effect_inv[OF e1(1)] by simp
  have rd: "ready_for d w1 n Io_net_generic_callback" "net_driver (nets w1 n) = d"
    using rdy by (simp_all add: n1 rx_ok_def)
  obtain ev w2 L2 where w2: "(if os_val r \<noteq> 0 then Some (plain_event io_net_event_enum_closed, w1)
      else do {
        let w = io_driver_watcher_set_cb n Io_net_generic_callback w1;
        let ev = plain_event io_net_event_enum_connected;
        w \<leftarrow> io_driver_no_watch (net_driver (nets w n)) n IO_DRIVER_EVENT_TX w;
        w \<leftarrow> io_driver_watch (net_driver (nets w n)) n IO_DRIVER_EVENT_RX w;
        Some (ev, w)
      }) = Some (ev, w2)" "io_effect W d {rl} {n} w1 L w2 L2" "nets_ready W d w2 {}" "nets w2 = nets w1"
    using connect_outcome_ok[OF n i1 e1(2) rd] by blast
  have i2: "driver_inv W {d, rl} w2 L2" using io_effect_inv[OF w2(2)] by simp
  have d2: "net_driver (nets w2 n) = d" using w2(4) n1 rdy(1) by simp
  let ?ev = "zero_event\<lparr>ev_u := Ev_c n NULL\<rparr>"
  have "nets_ready W d w2 (if ev_enum ?ev = io_net_event_enum_connected then {n} else {})"
    using w2(3) by (simp add: zero_event_def)
  from call_client[OF os n i2 d2 this] obtain r' ev' w' L' where c: "call_net_cb cb n ?ev w2 = Some (r', ev', w')"
    "keeps_loop W K d rl n w2 L2 w' L'" by blast
  have "keeps_loop W K d rl n w L w' L'"
    by (rule keeps_loop_trans[OF io_effect_trans[OF e1(1) w2(2)] _ c(2)]) auto
  moreover have "io_net_connect_callback os cb n e w = Some w'"
    using True d1 w2(1) c(1) by (simp only: io_net_connect_callback_def Let_def split_conv if_False bind.bind_lunit simp_thms)
  ultimately show ?thesis by blast
qed

lemma io_ssl_generic_ok:
  assumes n: "n \<in> W" "d \<noteq> rl" and inv: "driver_inv W {d, rl} w L" "nets_ready W d w {}" and os: "os_ok os"
    and rdy: "net_driver (nets w n) = d" "rx_ok w n" "net_ssl (nets w n) \<noteq> NULL"
    and lis: "ready_for d w n (callback (watchers w n))"
  shows "\<exists>w' L'. io_ssl_generic_callback os tc cb n e w = Some w' \<and> keeps_loop W K d rl n w L w' L'"
proof (cases "e AND IO_DRIVER_EVENT_RX = 0")
  case True
  then show ?thesis using net_tx_event_ok[OF os n inv rdy(1)] by (simp add: io_ssl_generic_callback_def Let_def)
next
  case False
  let ?s = "net_ssl (nets w n)" and ?b = "net_rx_buf (nets w n)"
  let ?c = "Tls (Tls_read (net_rx_size (nets w n))) ?s"
  have ans: "answer_ok tr ?c r = filled (net_rx_size (nets w n)) r" for tr r by simp
  obtain r w1 where r: "sys_into os ?c ?b w = Some (r, w1)" "io_effect W d {rl} {n} w L w1 L" "nets_ready W d w1 {}"
    "nets w1 = nets w" "stays d w w1 n"
    "\<And>ev. ev_enum ev \<noteq> io_net_event_enum_connected \<Longrightarrow> \<exists>r' ev' w' L'. call_net_cb cb n ev w1 = Some (r', ev', w')
        \<and> keeps_loop W K d rl n w L w' L' \<and> (r' = io_net_return_continue \<longrightarrow> stays d w w' n)"
    using receive_ok[OF n inv rdy(1,2) os ans] by blast
  have i1: "driver_inv W {d, rl} w1 L" using io_effect_inv[OF r(2)] by simp
  have d1: "net_driver (nets w1 n) = d" using r(4) rdy(1) by simp
  have w1w: "watchers w1 = watchers w" "\<And>b. length (bufs w1 b) = length (bufs w b)"
    using r(1) by (auto simp: sys_into_def os_do_def Let_def split: if_splits)
  have de: "deref ?s = Some ()" using rdy(3) by (simp add: deref_def)
  consider "os_ret r \<le> 0" "os_ret r = WANT_READ tc" | "os_ret r \<le> 0" "os_ret r \<noteq> WANT_READ tc" "os_ret r = WANT_WRITE tc"
    | "os_ret r \<le> 0" "os_ret r \<noteq> WANT_READ tc" "os_ret r \<noteq> WANT_WRITE tc" | "0 < os_ret r" by linarith
  then show ?thesis
  proof cases
    case 1
    obtain w' L' where t: "net_tx_event cb n e w1 = Some w'" "keeps_loop W K d rl n w1 L w' L'"
      using net_tx_event_ok[OF os n i1 r(3) d1] by blast
    have "keeps_loop W K d rl n w L w' L'" by (rule keeps_loop_trans[OF r(2) _ t(2)]) auto
    then show ?thesis using False de r(1) 1 t(1) by (auto simp: io_ssl_generic_callback_def Let_def)
  next
    case 2
    have "ready_for d w1 n (callback (watchers w1 n))"
      using lis ready_for_cong[of w1 n w d, OF _ w1w(2)] r(4) w1w(1) by simp
    then obtain w' L' where t: "io_driver_watch d n IO_DRIVER_EVENT_TX w1 = Some w'" "io_effect W d {rl} {n} w1 L w' L'"
      "nets_ready W d w' {}" using watch_keeps[OF n i1 r(3)] by blast
    have "keeps_loop W K d rl n w L w' L'" by (rule keeps_loopI[OF io_effect_trans[OF r(2) t(2)] _ t(3)]) auto
    then show ?thesis using False de r(1) 2 t(1) d1 by (auto simp: io_ssl_generic_callback_def Let_def)
  next
    case 3
    obtain r' ev' w' L' where "call_net_cb cb n (plain_event io_net_event_enum_closed) w1 = Some (r', ev', w')"
      "keeps_loop W K d rl n w L w' L'" using r(6)[of "plain_event io_net_event_enum_closed"] by (auto simp: plain_event_def)
    then show ?thesis using False de r(1) 3 by (auto simp: io_ssl_generic_callback_def Let_def)
  next
    case 4
    let ?e = "(plain_event io_net_event_enum_rx)\<lparr>ev_u := Ev_r ?b (word_of_int (os_ret r))\<rparr>"
    have "ev_enum ?e \<noteq> io_net_event_enum_connected" by (simp add: plain_event_def)
    from r(6)[OF this] obtain r' ev' w2 L2 where c: "call_net_cb cb n ?e w1 = Some (r', ev', w2)"
      "keeps_loop W K d rl n w L w2 L2" "r' = io_net_return_continue \<longrightarrow> stays d w w2 n" by blast
    show ?thesis
    proof (cases r')
      case io_net_return_stop
      then show ?thesis using False de r(1) 4 c(1,2) by (auto simp: io_ssl_generic_callback_def Let_def)
    next
      case io_net_return_continue
      then have "net_driver (nets w2 n) = d" using c(3) by (simp add: stays_def)
      from net_tx_event_ok[OF os n keeps_loopD(1,2)[OF c(2)] this] obtain w' L' where
        "net_tx_event cb n e w2 = Some w'" "keeps_loop W K d rl n w2 L2 w' L'" by blast
      with keeps_loop_trans2[OF c(2)] show ?thesis
        using False de r(1) 4 c(1) io_net_return_continue by (auto simp: io_ssl_generic_callback_def Let_def)
    qed
  qed
qed

end

section \<open>Handing a new connection over\<close>

lemma keeps_loop_other: "m \<notin> K \<Longrightarrow> keeps_loop W K d rl m w L w' L' \<Longrightarrow> keeps_loop W K d rl n w L w' L'"
  unfolding keeps_loop_def using io_effect_mono[of W d "{rl}" "- (K - {m})" w L w' L' "- (K - {n})"] by blast

lemma hand_over:
  assumes m: "m \<in> W" "d \<noteq> rl" and inv: "driver_inv W {d, rl} w L" "nets_ready W d w {m}"
    and idle: "event_listening (watchers w m) = 0" and fd: "0 \<le> fd" "fd < FD_SETSIZE"
  shows "\<exists>w1 w2 L'. io_driver_watcher_init m fd c w = Some w1 \<and> io_driver_watch d m ev w1 = Some w2
    \<and> io_effect W d {rl} {m} w L w2 L' \<and> nets_ready W d w2 {m} \<and> nets w1 = nets w \<and> nets w2 = nets w \<and> ssls w2 = ssls w
    \<and> bufs w2 = bufs w \<and> trace w2 = trace w
    \<and> watchers w2 = (watchers w)(m := \<lparr>wfd = fd, event_listening = ev, callback = c\<rparr>)"
proof -
  have mD: "m \<notin> {d, rl}" using driver_okD(1)[OF driver_invD(2)[OF inv(1)]] m(1) by auto
  have Lm: "L(m \<mapsto> []) = L" by (rule blank_idle_lists[OF inv(1) m(1) idle])
  have W: "insert m W = W" using m(1) by auto
  have dR: "d \<notin> {rl}" using m(2) by simp
  obtain h h' L' where h: "io_driver_watcher_init m fd c w
      = Some (w\<lparr>lheap := h, watchers := (watchers w)(m := \<lparr>wfd = fd, event_listening = 0, callback = c\<rparr>)\<rparr>)"
    "io_driver_watch d m ev (w\<lparr>lheap := h, watchers := (watchers w)(m := \<lparr>wfd = fd, event_listening = 0, callback = c\<rparr>)\<rparr>)
      = Some (w\<lparr>lheap := h', watchers := (watchers w)(m := \<lparr>wfd = fd, event_listening = ev, callback = c\<rparr>)\<rparr>)"
    "io_effect W d {rl} {m} w L
        (w\<lparr>lheap := h', watchers := (watchers w)(m := \<lparr>wfd = fd, event_listening = ev, callback = c\<rparr>)\<rparr>) L'"
    using register_watcher[where c = c and ev = ev, OF inv(1) blank_idle[OF m(1) mD idle] fd dR] unfolding Lm W by blast
  let ?w2 = "w\<lparr>lheap := h', watchers := (watchers w)(m := \<lparr>wfd = fd, event_listening = ev, callback = c\<rparr>)\<rparr>"
  have "nets_ready W d ?w2 {m}" by (rule nets_ready_cong[OF inv(2) subset_refl]) (auto split: if_splits)
  with h show ?thesis by (intro exI conjI) (assumption | simp)+
qed

lemma nets_ready_put_net:
  "nets_ready W d w S \<Longrightarrow> m \<in> S \<Longrightarrow> nets_ready W d (put_net m v w) S"
  by (rule nets_ready_cong[OF _ subset_refl]) (auto simp: put_net_def)

lemma nets_ready_mono: "nets_ready W d w S \<Longrightarrow> S \<subseteq> T \<Longrightarrow> nets_ready W d w T"
  unfolding nets_ready_def by blast

lemma put_net_effect: "io_effect W d R X w L (put_net m v w') L' = io_effect W d R X w L w' L'"
  by (simp add: put_net_def)

lemma put_ssl_effect: "io_effect W d R X w L (put_ssl m v w') L' = io_effect W d R X w L w' L'"
  by (simp add: put_ssl_def)

lemma nets_ready_put_ssl: "nets_ready W d w S \<Longrightarrow> nets_ready W d (put_ssl m v w) S"
  by (rule nets_ready_cong[OF _ subset_refl]) (simp_all add: put_ssl_def)

lemma freshE:
  assumes "fresh_connection W K tls l w u"
  obtains m s where "u = Ev_c m s" "m \<noteq> NULL" "m \<in> W" "m \<notin> K" "m \<noteq> l" "event_listening (watchers w m) = 0" "tls \<Longrightarrow> s \<noteq> NULL"
  using assms unfolding fresh_connection_def by blast

context net_client
begin

text \<open>The accepted connection is watched and its owner told.\<close>

lemma register_accepted:
  assumes os: "os_ok os" and m: "m \<in> W" "m \<notin> K" "d \<noteq> rl" and inv: "driver_inv W {d, rl} w L" "nets_ready W d w {m}"
    and idle: "event_listening (watchers w m) = 0" and fd: "0 \<le> fd" "fd < FD_SETSIZE" and dr: "net_driver (nets w m) = d"
  shows "\<exists>w1 w2 r ev' w' L'. io_driver_watcher_init m fd c w = Some w1 \<and> nets w1 = nets w \<and> io_driver_watch d m ev w1 = Some w2
    \<and> call_net_cb cb m (zero_event\<lparr>ev_enum := io_net_event_enum_connected, ev_from := a\<rparr>) w2 = Some (r, ev', w')
    \<and> keeps_loop W K d rl n w L w' L'"
proof -
  obtain w1 w2 L2 where h: "io_driver_watcher_init m fd c w = Some w1" "io_driver_watch d m ev w1 = Some w2"
    "io_effect W d {rl} {m} w L w2 L2" "nets_ready W d w2 {m}" "nets w1 = nets w" "nets w2 = nets w"
    using hand_over[OF m(1,3) inv idle fd, of c ev] by blast
  have i2: "driver_inv W {d, rl} w2 L2" using io_effect_inv[OF h(3)] by simp
  have d2: "net_driver (nets w2 m) = d" using h(6) dr by simp
  let ?ev = "zero_event\<lparr>ev_enum := io_net_event_enum_connected, ev_from := a\<rparr>"
  have "nets_ready W d w2 (if ev_enum ?ev = io_net_event_enum_connected then {m} else {})" using h(4) by simp
  from call_client[OF os m(1,3) i2 d2 this] obtain r' ev' w' L' where c: "call_net_cb cb m ?ev w2 = Some (r', ev', w')"
    "keeps_loop W K d rl m w2 L2 w' L'" by blast
  have "keeps_loop W K d rl n w2 L2 w' L'" by (rule keeps_loop_other[OF m(2) c(2)])
  from keeps_loop_trans[OF h(3) _ this] have "keeps_loop W K d rl n w L w' L'" using m(2) by auto
  then show ?thesis using h(1,2,5) c(1) by blast
qed

text \<open>Asking the listening client for a connection.\<close>

lemma ask_connection:
  assumes os: "os_ok os" and l: "l \<in> W" "d \<noteq> rl" and inv: "driver_inv W {d, rl} w L" "nets_ready W d w {}" and dr: "net_driver (nets w l) = d"
  shows "\<exists>r ev' w' L'. call_net_cb cb l (zero_event\<lparr>ev_from := a\<rparr>) w = Some (r, ev', w')
    \<and> keeps_loop W K d rl l w L w' L'
    \<and> (r = io_net_return_continue \<longrightarrow> fresh_connection W K (net_ssl (nets w l) \<noteq> NULL) l w' (ev_u ev')
        \<and> net_driver (nets w' l) = d)"
proof -
  let ?e = "zero_event\<lparr>ev_from := a\<rparr>"
  have e: "ev_enum ?e = io_net_event_enum_alloc_connection" "ev_u ?e = Ev_c NULL NULL" by (simp_all add: zero_event_def)
  have "nets_ready W d w (if ev_enum ?e = io_net_event_enum_connected then {l} else {})" using inv(2) e by simp
  from call_client[OF os l inv(1) dr this] show ?thesis unfolding e stays_def by blast
qed

lemma calm_os:
  assumes "driver_inv W {d, rl} w L" "nets_ready W d w {}"
  shows "keeps_loop W K d rl n w L (w\<lparr>trace := t, errno := e\<rparr>) L"
proof -
  have "io_effect W d {rl} {n} w L w L" by (rule io_effect_refl) (use assms(1) in simp)
  then have "io_effect W d {rl} {n} w L (w\<lparr>trace := t, errno := e\<rparr>) L" by simp
  moreover have "nets_ready W d (w\<lparr>trace := t, errno := e\<rparr>) {}"
    by (rule nets_ready_cong[OF assms(2) subset_refl]) simp_all
  ultimately show ?thesis by (intro keeps_loopI) auto
qed

lemma io_net_accept_cb_ok:
  assumes l: "l \<in> W" "d \<noteq> rl" and inv: "driver_inv W {d, rl} w L" "nets_ready W d w {}" and os: "os_ok os"
    and dr: "net_driver (nets w l) = d"
  shows "\<exists>w' L'. io_net_accept_callback os cb l e w = Some w' \<and> keeps_loop W K d rl l w L w' L'"
proof (cases "e = IO_DRIVER_EVENT_RX")
  case False
  then show ?thesis using keeps_loop_refl[OF inv] by (auto simp: io_net_accept_callback_def)
next
  case True
  let ?c = "Sys_accept (sd (nets w l))"
  define r where "r = os ?c (trace w)"
  have fd: "os_ret r = -1 \<or> new_fd (trace w) (os_ret r)" using os_okD[OF os, of "trace w" ?c] by (simp add: r_def)
  define w1 where "w1 = w\<lparr>trace := trace w @ [(?c, r)], errno := os_errno r\<rparr>"
  have k1: "keeps_loop W K d rl l w L w1 L" unfolding w1_def by (rule calm_os[OF inv])
  have o: "os_do os ?c w = (r, w1)" by (simp add: os_do_def r_def w1_def Let_def)
  show ?thesis
  proof (cases "os_ret r < 0")
    case neg: True
    then show ?thesis using True k1 o by (auto simp: io_net_accept_callback_def Let_def)
  next
    case pos: False
    then have fd: "0 \<le> os_ret r" "os_ret r < FD_SETSIZE" using fd by (auto simp: new_fd_def)
    have d1: "net_driver (nets w1 l) = d" using dr by (simp add: w1_def)
    obtain ret ev w2 L2 where c: "call_net_cb cb l (zero_event\<lparr>ev_from := Some (os_addr r)\<rparr>) w1 = Some (ret, ev, w2)"
      "keeps_loop W K d rl l w1 L w2 L2"
      "ret = io_net_return_continue \<longrightarrow> fresh_connection W K (net_ssl (nets w1 l) \<noteq> NULL) l w2 (ev_u ev) \<and> net_driver (nets w2 l) = d"
      using ask_connection[OF os l keeps_loopD(1,2)[OF k1] d1] by blast
    note k2 = keeps_loop_trans2[OF k1 c(2)] and i2 = keeps_loopD(1,2)[OF c(2)]
    show ?thesis
    proof (cases "ret = io_net_return_stop")
      case stop: True
      obtain t e where s: "sys_all os [Sys_close (os_ret r)] w2 = w2\<lparr>trace := trace w2 @ t, errno := e\<rparr>" using sys_all_state by blast
      have "keeps_loop W K d rl l w2 L2 (w2\<lparr>trace := trace w2 @ t, errno := e\<rparr>) L2" by (rule calm_os[OF i2])
      from keeps_loop_trans2[OF k2 this] show ?thesis
        using True pos stop o c(1) s by (auto simp: io_net_accept_callback_def Let_def)
    next
      case False
      then have cont: "ret = io_net_return_continue" by (cases ret) auto
      with c(3) have fr: "fresh_connection W K (net_ssl (nets w1 l) \<noteq> NULL) l w2 (ev_u ev)" and d2: "net_driver (nets w2 l) = d" by auto
      from fr obtain m s where m: "ev_u ev = Ev_c m s" "m \<noteq> NULL" "m \<in> W" "m \<notin> K" "m \<noteq> l" "event_listening (watchers w2 m) = 0"
        by (rule freshE)
      obtain t3 e3 where s3: "sock_util_put_nonblock os (os_ret r) w2 = w2\<lparr>trace := trace w2 @ t3, errno := e3\<rparr>"
        using sys_all_state unfolding sock_util_put_nonblock_def by blast
      define w3 where "w3 = w2\<lparr>trace := trace w2 @ t3, errno := e3\<rparr>"
      have k3: "keeps_loop W K d rl l w2 L2 w3 L2" unfolding w3_def by (rule calm_os[OF i2])
      have n3: "nets w3 = nets w2" "watchers w3 = watchers w2" by (simp_all add: w3_def)
      let ?v = "(nets w3 m)\<lparr>sd := os_ret r, net_cb := net_cb (nets w3 l), net_driver := net_driver (nets w3 l)\<rparr>"
      define w4 where "w4 = put_net m ?v w3"
      have e4: "io_effect W d {rl} {m} w3 L2 w4 L2"
        unfolding w4_def put_net_effect by (rule io_effect_refl) (use keeps_loopD(1)[OF k3] in simp)
      have r4: "nets_ready W d w4 {m}"
        unfolding w4_def by (rule nets_ready_put_net[OF nets_ready_mono[OF keeps_loopD(2)[OF k3]]]) auto
      have i4: "driver_inv W {d, rl} w4 L2" using io_effect_inv[OF e4] by simp
      have l4: "event_listening (watchers w4 m) = 0" using m(6) n3 by (simp add: w4_def put_net_def)
      have d4: "net_driver (nets w4 m) = d" using d2 n3 by (simp add: w4_def put_net_def)
      obtain w5 w6 r' ev' w' L' where f: "io_driver_watcher_init m (os_ret r) Io_net_generic_callback w4 = Some w5" "nets w5 = nets w4"
        "io_driver_watch d m IO_DRIVER_EVENT_RX w5 = Some w6"
        "call_net_cb cb m (zero_event\<lparr>ev_enum := io_net_event_enum_connected, ev_from := Some (os_addr r)\<rparr>) w6 = Some (r', ev', w')"
        "keeps_loop W K d rl l w4 L2 w' L'"
        using register_accepted[OF os m(3,4) l(2) i4 r4 l4 fd d4] by blast
      have d5: "net_driver (nets w5 m) = d" using d4 f(2) by simp
      have "keeps_loop W K d rl l w3 L2 w' L'" by (rule keeps_loop_trans[OF e4 _ f(5)]) (use m(4) in auto)
      then have k: "keeps_loop W K d rl l w L w' L'" using keeps_loop_trans2[OF keeps_loop_trans2[OF k2 k3]] by blast
      have "io_net_accept_callback os cb l e w = Some w'"
        using True pos o c(1) cont m(1,2) s3 f(1,3,4) d5
        by (simp add: io_net_accept_callback_def Let_def w3_def[symmetric] w4_def[symmetric])
      then show ?thesis using k by blast
    qed
  qed
qed

end

section \<open>The handshake\<close>

context net_client
begin

lemma put_ssl_calm:
  assumes "driver_inv W {d, rl} w L" "nets_ready W d w {}"
  shows "keeps_loop W K d rl n w L (put_ssl s v w) L"
proof -
  have "io_effect W d {rl} {n} w L w L" by (rule io_effect_refl) (use assms(1) in simp)
  then have "io_effect W d {rl} {n} w L (put_ssl s v w) L" by (simp only: put_ssl_effect)
  then show ?thesis by (rule keeps_loopI) (use nets_ready_put_ssl[OF assms(2)] in auto)
qed

lemma io_ssl_handshake_ok:
  assumes n: "n \<in> W" "d \<noteq> rl" and inv: "driver_inv W {d, rl} w L" "nets_ready W d w {}" and os: "os_ok os"
    and rdy: "net_driver (nets w n) = d" "rx_ok w n" "net_ssl (nets w n) \<noteq> NULL"
    and lis: "ready_for d w n (callback (watchers w n))"
  shows "\<exists>w' L'. io_ssl_handshake_callback os tc cb n e w = Some w' \<and> keeps_loop W K d rl n w L w' L'"
proof -
  let ?s = "net_ssl (nets w n)"
  let ?c = "Tls Tls_handshake ?s"
  have de: "deref ?s = Some ()" using rdy(3) by (simp add: deref_def)
  obtain w1 L1 where w1: "io_driver_no_watch d n IO_DRIVER_EVENT_TX w = Some w1" "io_effect W d {rl} {n} w L w1 L1"
    "nets_ready W d w1 {}" "nets w1 = nets w" "bufs w1 = bufs w" "callback (watchers w1 n) = callback (watchers w n)"
    using unwatch_keeps[OF n inv] by blast
  have k1: "keeps_loop W K d rl n w L w1 L1" by (rule keeps_loopI[OF w1(2) _ w1(3)]) auto
  obtain r where r: "sys os ?c w1 = (os_ret r, w1\<lparr>trace := trace w1 @ [(?c, r)], errno := os_errno r\<rparr>)" using sys_state by blast
  define w2 where "w2 = w1\<lparr>trace := trace w1 @ [(?c, r)], errno := os_errno r\<rparr>"
  have k2: "keeps_loop W K d rl n w L w2 L1"
    unfolding w2_def by (rule keeps_loop_trans2[OF k1 calm_os[OF keeps_loopD(1,2)[OF k1]]])
  have s2: "nets w2 = nets w" "bufs w2 = bufs w" "watchers w2 = watchers w1" using w1(4,5) by (simp_all add: w2_def)
  have rd2: "ready_for d w2 n c = ready_for d w n c" for c by (rule ready_for_cong) (simp_all add: s2)
  have h: "io_ssl_handshake_callback os tc cb n e w = (if os_ret r = 0 then do {
       let w = put_ssl ?s ((ssls w2 ?s)\<lparr>handshaking := False\<rparr>) w2;
       let w = io_driver_watcher_set_cb n Io_ssl_generic_callback w;
       (ret, _, w) \<leftarrow> call_net_cb cb n (plain_event io_net_event_enum_handshaken) w;
       if ret \<noteq> io_net_return_stop then io_ssl_generic_callback os tc cb n e w else Some w
     }
     else if os_ret r = WANT_READ tc then Some w2
     else if os_ret r = WANT_WRITE tc then io_driver_watch d n IO_DRIVER_EVENT_TX w2
     else do {
       (_, _, w) \<leftarrow> call_net_cb cb n (plain_event io_net_event_enum_closed) w2;
       Some w
     })"
    using w1(1) r de rdy(1) s2(1) by (simp only: io_ssl_handshake_callback_def Let_def split_conv bind.bind_lunit w2_def[symmetric])
  consider "os_ret r = 0" | "os_ret r \<noteq> 0" "os_ret r = WANT_READ tc" | "os_ret r \<noteq> 0" "os_ret r \<noteq> WANT_READ tc" "os_ret r = WANT_WRITE tc"
    | "os_ret r \<noteq> 0" "os_ret r \<noteq> WANT_READ tc" "os_ret r \<noteq> WANT_WRITE tc" by blast
  then show ?thesis
  proof cases
    case 1
    define w3 where "w3 = put_ssl ?s ((ssls w2 ?s)\<lparr>handshaking := False\<rparr>) w2"
    have k3: "keeps_loop W K d rl n w L w3 L1"
      unfolding w3_def by (rule keeps_loop_trans2[OF k2 put_ssl_calm[OF keeps_loopD(1,2)[OF k2]]])
    have s3: "nets w3 = nets w" "bufs w3 = bufs w" using s2 by (simp_all add: w3_def put_ssl_def)
    have "ready_for d w3 n Io_ssl_generic_callback" using rdy s3 by (simp add: rx_ok_def)
    note sc = set_cb_keeps[OF n keeps_loopD(1,2)[OF k3] disjI2[OF this]]
    let ?w4 = "io_driver_watcher_set_cb n Io_ssl_generic_callback w3"
    have i4: "driver_inv W {d, rl} ?w4 L1" using io_effect_inv[OF sc(1)] by simp
    have d4: "net_driver (nets ?w4 n) = d" using sc(3) s3 rdy(1) by simp
    have k4: "keeps_loop W K d rl n w L ?w4 L1" by (rule keeps_loop_trans2[OF k3 keeps_loopI[OF sc(1) _ sc(2)]]) auto
    let ?ev = "plain_event io_net_event_enum_handshaken"
    have "nets_ready W d ?w4 (if ev_enum ?ev = io_net_event_enum_connected then {n} else {})" using sc(2) by (simp add: plain_event_def)
    from call_client[OF os n i4 d4 this] obtain r' ev' w5 L5 where c: "call_net_cb cb n ?ev ?w4 = Some (r', ev', w5)"
      "keeps_loop W K d rl n ?w4 L1 w5 L5" "r' = io_net_return_continue \<longrightarrow> stays d ?w4 w5 n" by blast
    note k5 = keeps_loop_trans2[OF k4 c(2)]
    show ?thesis
    proof (cases r')
      case io_net_return_stop
      then show ?thesis using 1 c(1) k5 unfolding h w3_def by auto
    next
      case io_net_return_continue
      with c(3) have st: "stays d ?w4 w5 n" by blast
      have "rx_ok ?w4 n" "net_ssl (nets ?w4 n) \<noteq> NULL" using rdy(2,3) sc(3,5) s3 by (simp_all add: rx_ok_def)
      with st have rd5: "net_driver (nets w5 n) = d" "rx_ok w5 n" "net_ssl (nets w5 n) \<noteq> NULL"
        "callback (watchers w5 n) = Io_ssl_generic_callback" using sc(6) by (auto simp: stays_def)
      then have "ready_for d w5 n (callback (watchers w5 n))" by simp
      from io_ssl_generic_ok[OF n keeps_loopD(1,2)[OF k5] os rd5(1-3) this] obtain w' L' where
        g: "io_ssl_generic_callback os tc cb n e w5 = Some w'" "keeps_loop W K d rl n w5 L5 w' L'" by blast
      show ?thesis using 1 c(1) io_net_return_continue g(1) keeps_loop_trans2[OF k5 g(2)] unfolding h w3_def by auto
    qed
  next
    case 2
    then show ?thesis using k2 unfolding h by auto
  next
    case 3
    have "ready_for d w2 n (callback (watchers w2 n))" using lis w1(6) s2(3) unfolding rd2 by simp
    then obtain w' L' where t: "io_driver_watch d n IO_DRIVER_EVENT_TX w2 = Some w'" "io_effect W d {rl} {n} w2 L1 w' L'"
      "nets_ready W d w' {}" using watch_keeps[OF n keeps_loopD(1,2)[OF k2]] by blast
    have "keeps_loop W K d rl n w L w' L'" by (rule keeps_loop_trans2[OF k2 keeps_loopI[OF t(2) _ t(3)]]) auto
    then show ?thesis using 3 t(1) unfolding h by auto
  next
    case 4
    let ?ev = "plain_event io_net_event_enum_closed"
    have "nets_ready W d w2 (if ev_enum ?ev = io_net_event_enum_connected then {n} else {})"
      using keeps_loopD(2)[OF k2] by (simp add: plain_event_def)
    moreover have "net_driver (nets w2 n) = d" using rdy(1) s2 by simp
    ultimately obtain r' ev' w' L' where "call_net_cb cb n ?ev w2 = Some (r', ev', w')" "keeps_loop W K d rl n w2 L1 w' L'"
      using call_client[OF os n keeps_loopD(1)[OF k2]] by blast
    then show ?thesis using 4 keeps_loop_trans2[OF k2] unfolding h by auto
  qed
qed

end

section \<open>Connecting and accepting with TLS\<close>

context net_client
begin

lemma io_ssl_connect_ok:
  assumes n: "n \<in> W" "d \<noteq> rl" and inv: "driver_inv W {d, rl} w L" "nets_ready W d w {}" and os: "os_ok os"
    and rdy: "net_driver (nets w n) = d" "rx_ok w n" "net_ssl (nets w n) \<noteq> NULL"
  shows "\<exists>w' L'. io_ssl_connect_callback os tc cb n e w = Some w' \<and> keeps_loop W K d rl n w L w' L'"
proof (cases "e = IO_DRIVER_EVENT_TX")
  case False
  then show ?thesis using keeps_loop_refl[OF inv] by (auto simp: io_ssl_connect_callback_def)
next
  case True
  let ?s = "net_ssl (nets w n)"
  let ?c = "Sys_getsockopt_error (sd (nets w n))"
  have de: "deref ?s = Some ()" using rdy(3) by (simp add: deref_def)
  define r where "r = os ?c (trace w)"
  define w1 where "w1 = w\<lparr>trace := trace w @ [(?c, r)], errno := os_errno r\<rparr>"
  have d1: "os_do os ?c w = (r, w1)" by (simp add: os_do_def r_def w1_def Let_def)
  have k1: "keeps_loop W K d rl n w L w1 L" unfolding w1_def by (rule calm_os[OF inv])
  have n1: "nets w1 = nets w" "bufs w1 = bufs w" by (simp_all add: w1_def)
  have rd: "ready_for d w1 n Io_ssl_generic_callback" "net_driver (nets w1 n) = d"
    using rdy by (simp_all add: n1 rx_ok_def)
  obtain ev w2 L2 where w2: "(if os_val r \<noteq> 0 then Some (plain_event io_net_event_enum_closed, w1)
      else do {
        let w = io_driver_watcher_set_cb n Io_ssl_generic_callback w1;
        let ev = plain_event io_net_event_enum_connected;
        w \<leftarrow> io_driver_no_watch (net_driver (nets w n)) n IO_DRIVER_EVENT_TX w;
        w \<leftarrow> io_driver_watch (net_driver (nets w n)) n IO_DRIVER_EVENT_RX w;
        Some (ev, w)
      }) = Some (ev, w2)" "io_effect W d {rl} {n} w1 L w2 L2" "nets_ready W d w2 {}" "nets w2 = nets w1" "bufs w2 = bufs w1"
    using connect_outcome_ok[OF n keeps_loopD(1,2)[OF k1] rd] by blast
  have k2: "keeps_loop W K d rl n w L w2 L2" by (rule keeps_loop_trans2[OF k1 keeps_loopI[OF w2(2) _ w2(3)]]) auto
  define w3 where "w3 = put_ssl ?s ((ssls w2 ?s)\<lparr>handshaking := True\<rparr>) w2"
  have k3: "keeps_loop W K d rl n w L w3 L2"
    unfolding w3_def by (rule keeps_loop_trans2[OF k2 put_ssl_calm[OF keeps_loopD(1,2)[OF k2]]])
  have s3: "nets w3 = nets w" "bufs w3 = bufs w" using w2(4,5) n1 by (simp_all add: w3_def put_ssl_def)
  have "ready_for d w3 n Io_ssl_handshake_callback" using rdy s3 by (simp add: rx_ok_def)
  note sc = set_cb_keeps[OF n keeps_loopD(1,2)[OF k3] disjI2[OF this]]
  define w4 where "w4 = io_driver_watcher_set_cb n Io_ssl_handshake_callback w3"
  note sc = sc[folded w4_def]
  have i4: "driver_inv W {d, rl} w4 L2" using io_effect_inv[OF sc(1)] by simp
  have d4: "net_driver (nets w4 n) = d" using sc(3) s3 rdy(1) by simp
  have k4: "keeps_loop W K d rl n w L w4 L2" by (rule keeps_loop_trans2[OF k3 keeps_loopI[OF sc(1) _ sc(2)]]) auto
  let ?ev = "zero_event\<lparr>ev_u := Ev_c n NULL\<rparr>"
  have "nets_ready W d w4 (if ev_enum ?ev = io_net_event_enum_connected then {n} else {})" using sc(2) by (simp add: zero_event_def)
  moreover have "ev_u ?ev = Ev_c n NULL" by simp
  ultimately obtain r' ev' w5 L5 where c: "call_net_cb cb n ?ev w4 = Some (r', ev', w5)" "keeps_loop W K d rl n w4 L2 w5 L5"
    "stays d w4 w5 n" using call_client[OF os n i4 d4, of ?ev] by blast
  note k5 = keeps_loop_trans2[OF k4 c(2)]
  have "rx_ok w4 n" "net_ssl (nets w4 n) \<noteq> NULL" using rdy(2,3) sc(3,5) s3 by (simp_all add: rx_ok_def)
  with c(3) have rd5: "net_driver (nets w5 n) = d" "rx_ok w5 n" "net_ssl (nets w5 n) \<noteq> NULL"
    "callback (watchers w5 n) = Io_ssl_handshake_callback" using sc(6) by (auto simp: stays_def)
  then have "ready_for d w5 n (callback (watchers w5 n))" by simp
  from io_ssl_handshake_ok[OF n keeps_loopD(1,2)[OF k5] os rd5(1-3) this] obtain w' L' where
    h: "io_ssl_handshake_callback os tc cb n 0 w5 = Some w'" "keeps_loop W K d rl n w5 L5 w' L'" by blast
  have "io_ssl_connect_callback os tc cb n e w = Some w'"
    using True d1 w2(1) c(1) de h(1)
    by (simp only: io_ssl_connect_callback_def Let_def split_conv if_False bind.bind_lunit simp_thms w3_def[symmetric] w4_def[symmetric])
  then show ?thesis using keeps_loop_trans2[OF k5 h(2)] by blast
qed

lemma io_ssl_accept_ok:
  assumes l: "l \<in> W" "d \<noteq> rl" and inv: "driver_inv W {d, rl} w L" "nets_ready W d w {}" and os: "os_ok os"
    and rdy: "net_driver (nets w l) = d" "net_ssl (nets w l) \<noteq> NULL"
  shows "\<exists>w' L'. io_ssl_accept_callback os cb l e w = Some w' \<and> keeps_loop W K d rl l w L w' L'"
proof (cases "e = IO_DRIVER_EVENT_RX")
  case False
  then show ?thesis using keeps_loop_refl[OF inv] by (auto simp: io_ssl_accept_callback_def)
next
  case True
  let ?c = "Sys_accept (sd (nets w l))" and ?ls = "net_ssl (nets w l)"
  have de: "deref ?ls = Some ()" using rdy(2) by (simp add: deref_def)
  define r where "r = os ?c (trace w)"
  have fd: "os_ret r = -1 \<or> new_fd (trace w) (os_ret r)" using os_okD[OF os, of "trace w" ?c] by (simp add: r_def)
  define w0 where "w0 = w\<lparr>trace := trace w @ [(?c, r)], errno := os_errno r\<rparr>"
  have k0: "keeps_loop W K d rl l w L w0 L" unfolding w0_def by (rule calm_os[OF inv])
  have o: "os_do os ?c w = (r, w0)" by (simp add: os_do_def r_def w0_def Let_def)
  show ?thesis
  proof (cases "os_ret r < 0")
    case neg: True
    then show ?thesis using True k0 o by (auto simp: io_ssl_accept_callback_def Let_def)
  next
    case pos: False
    then have fd: "0 \<le> os_ret r" "os_ret r < FD_SETSIZE" using fd by (auto simp: new_fd_def)
    obtain t1 e1 where s1: "sys_all os [Sys_fcntl_setfd (os_ret r)] w0 = w0\<lparr>trace := trace w0 @ t1, errno := e1\<rparr>"
      using sys_all_state by blast
    define w1 where "w1 = w0\<lparr>trace := trace w0 @ t1, errno := e1\<rparr>"
    have k1: "keeps_loop W K d rl l w L w1 L"
      unfolding w1_def by (rule keeps_loop_trans2[OF k0 calm_os[OF keeps_loopD(1,2)[OF k0]]])
    have n1: "nets w1 = nets w" by (simp add: w1_def w0_def)
    have d1: "net_driver (nets w1 l) = d" using rdy(1) n1 by simp
    obtain ret ev w2 L2 where c: "call_net_cb cb l (zero_event\<lparr>ev_from := Some (os_addr r)\<rparr>) w1 = Some (ret, ev, w2)"
      "keeps_loop W K d rl l w1 L w2 L2"
      "ret = io_net_return_continue \<longrightarrow> fresh_connection W K (net_ssl (nets w1 l) \<noteq> NULL) l w2 (ev_u ev) \<and> net_driver (nets w2 l) = d"
      using ask_connection[OF os l keeps_loopD(1,2)[OF k1] d1] by blast
    note k2 = keeps_loop_trans2[OF k1 c(2)] and i2 = keeps_loopD(1,2)[OF c(2)]
    show ?thesis
    proof (cases "ret = io_net_return_stop")
      case stop: True
      obtain t e where s: "sys_all os [Sys_close (os_ret r)] w2 = w2\<lparr>trace := trace w2 @ t, errno := e\<rparr>" using sys_all_state by blast
      have "keeps_loop W K d rl l w2 L2 (w2\<lparr>trace := trace w2 @ t, errno := e\<rparr>) L2" by (rule calm_os[OF i2])
      from keeps_loop_trans2[OF k2 this] show ?thesis
        using True pos stop o s1 c(1) s by (auto simp: io_ssl_accept_callback_def Let_def w1_def[symmetric])
    next
      case False
      then have cont: "ret = io_net_return_continue" by (cases ret) auto
      with c(3) n1 rdy(2) have fr: "fresh_connection W K True l w2 (ev_u ev)" and d2: "net_driver (nets w2 l) = d" by auto
      from fr obtain m s where m: "ev_u ev = Ev_c m s" "m \<noteq> NULL" "m \<in> W" "m \<notin> K" "m \<noteq> l" "event_listening (watchers w2 m) = 0" "s \<noteq> NULL"
        by (rule freshE) simp
      obtain t3 e3 where s3: "sock_util_put_nonblock os (os_ret r) w2 = w2\<lparr>trace := trace w2 @ t3, errno := e3\<rparr>"
        using sys_all_state unfolding sock_util_put_nonblock_def by blast
      define w3 where "w3 = w2\<lparr>trace := trace w2 @ t3, errno := e3\<rparr>"
      have k3: "keeps_loop W K d rl l w2 L2 w3 L2" unfolding w3_def by (rule calm_os[OF i2])
      have n3: "nets w3 = nets w2" "watchers w3 = watchers w2" by (simp_all add: w3_def)
      let ?v = "(nets w3 m)\<lparr>sd := os_ret r, net_cb := net_cb (nets w3 l), net_driver := net_driver (nets w3 l), net_ssl := s\<rparr>"
      define w4 where "w4 = put_net m ?v w3"
      define w5 where "w5 = put_ssl s ((ssls w4 s)\<lparr>ssl_n := m\<rparr>) w4"
      obtain ar w6 where ar: "io_ssl_mbedtls_init_accepted os ?ls s w5 = (ar, w6)" by force
      define w7 where "w7 = put_ssl s ((ssls w6 s)\<lparr>handshaking := True\<rparr>) w6"
      have "tls_only s w4 w7" unfolding w7_def
        by (rule tls_only_trans[OF tls_only_trans[OF _ tls_only_init_accepted[OF ar]] tls_only_put_ssl])
           (simp add: w5_def tls_only_put_ssl)
      then obtain tr where g7: "grown s tr w4 w7" using grown_tls by blast
      have e4: "io_effect W d {rl} {m} w3 L2 w4 L2"
        unfolding w4_def put_net_effect by (rule io_effect_refl) (use keeps_loopD(1)[OF k3] in simp)
      have r4: "nets_ready W d w4 {m}"
        unfolding w4_def by (rule nets_ready_put_net[OF nets_ready_mono[OF keeps_loopD(2)[OF k3]]]) auto
      have i4: "driver_inv W {d, rl} w4 L2" using io_effect_inv[OF e4] by simp
      note e7 = io_effect_trans[OF e4 calm_grown(1)[OF i4 r4 g7]] and r7 = calm_grown(2)[OF i4 r4 g7]
      have i7: "driver_inv W {d, rl} w7 L2" using io_effect_inv[OF e7] by simp
      have n7: "nets w7 = nets w4" "watchers w7 = watchers w4" using grown_same(2,3)[OF g7] by simp_all
      have l7: "event_listening (watchers w7 m) = 0" using m(6) n3 n7 by (simp add: w4_def put_net_def)
      have d7: "net_driver (nets w7 m) = d" using d2 n3 n7 by (simp add: w4_def put_net_def)
      obtain w8 w9 r' ev' w' L' where f: "io_driver_watcher_init m (os_ret r) Io_ssl_handshake_callback w7 = Some w8" "nets w8 = nets w7"
        "io_driver_watch d m IO_DRIVER_EVENT_RX w8 = Some w9"
        "call_net_cb cb m (zero_event\<lparr>ev_enum := io_net_event_enum_connected, ev_from := Some (os_addr r)\<rparr>) w9 = Some (r', ev', w')"
        "keeps_loop W K d rl l w7 L2 w' L'"
        using register_accepted[OF os m(3,4) l(2) i7 r7 l7 fd d7] by blast
      have d8: "net_driver (nets w8 m) = d" using d7 f(2) by simp
      have "keeps_loop W K d rl l w3 L2 w' L'" by (rule keeps_loop_trans[OF e7 _ f(5)]) (use m(4) in auto)
      then have k: "keeps_loop W K d rl l w L w' L'" using keeps_loop_trans2[OF keeps_loop_trans2[OF k2 k3]] by blast
      have "io_ssl_accept_callback os cb l e w = Some w'"
        using True pos o s1 c(1) cont m(1,2,7) s3 f(1,3,4) d8 ar de n1
        by (simp add: io_ssl_accept_callback_def Let_def w1_def[symmetric] w3_def[symmetric] w4_def[symmetric] w5_def[symmetric] w7_def[symmetric])
      then show ?thesis using k by blast
    qed
  qed
qed

end

section \<open>The service as a client of the event loop\<close>

lemma nets_ready_frame [simp]:
  "nets_ready W d (w\<lparr>calls := c\<rparr>) S = nets_ready W d w S"
  "nets_ready W d (w\<lparr>lheap := h\<rparr>) S = nets_ready W d w S"
  unfolding nets_ready_def
  by (intro ball_cong arg_cong2[where f = "(\<longrightarrow>)"] refl ready_for_cong | simp)+

text \<open>\<open>ext\<close> is the invariant of the rest of the program, \<open>other\<close> runs its callbacks.\<close>

definition net_callbacks :: "io_callback set" where
  "net_callbacks = {Io_net_generic_callback, Io_net_accept_callback, Io_net_connect_callback, Io_net_udp_callback,
     Io_ssl_generic_callback, Io_ssl_handshake_callback, Io_ssl_accept_callback, Io_ssl_connect_callback}"

locale net_loop = net_client cb W K d rl os
  for cb :: "'a net_mem_scheme net_client" and W K :: "addr set" and d rl :: addr and os :: os +
  fixes tc :: tls_codes
    and other :: "io_callback \<Rightarrow> addr \<Rightarrow> u8 \<Rightarrow> 'a net_mem_scheme \<Rightarrow> 'a net_mem_scheme option"
    and ext :: "'a net_mem_scheme \<Rightarrow> family \<Rightarrow> bool"
  assumes other: "\<lbrakk>os_ok os; d \<noteq> rl; p \<in> W; e \<noteq> 0; driver_inv W {d, rl} w L; L rl = Some q; queued L p d; nets_ready W d w {};
      calls w = cs @ [(p, watchers w p, e)]; callback (watchers w p) \<notin> net_callbacks;
      ext (w\<lparr>calls := cs\<rparr>) (driver_others W d rl L)\<rbrakk> \<Longrightarrow>
    \<exists>w' L' q'. other (callback (watchers w p)) p e w = Some w' \<and> driver_inv W {d, rl} w' L'
      \<and> calls w' = calls w \<and> L' rl = Some q' \<and> subseq q' q \<and> nets_ready W d w' {} \<and> ext w' (driver_others W d rl L')
      \<and> still (K - {p}) w L w' L'"
    and ext_service: "\<lbrakk>calls w = cs @ [(p, watchers w p, e)]; callback (watchers w p) \<in> net_callbacks;
      ext (w\<lparr>calls := cs\<rparr>) (driver_others W d rl L); io_effect W d {rl} X w L w' L'\<rbrakk> \<Longrightarrow> ext w' (driver_others W d rl L')"
    and ext_list: "ext w M \<Longrightarrow> dom h - {rl} = dom (lheap w) - {rl} \<Longrightarrow> ext (w\<lparr>lheap := h\<rparr>) M"
begin

text \<open>What a callback of the service has, it keeps.\<close>

lemma service_call:
  assumes q: "L rl = Some q"
    and x: "calls w = cs @ [(p, watchers w p, e)]" "callback (watchers w p) \<in> net_callbacks" "ext (w\<lparr>calls := cs\<rparr>) (driver_others W d rl L)"
    and c: "\<exists>w' L'. f w = Some w' \<and> keeps_loop W K d rl p w L w' L'"
  shows "\<exists>w' L' q'. f w = Some w' \<and> driver_inv W {d, rl} w' L'
      \<and> calls w' = calls w \<and> L' rl = Some q' \<and> subseq q' q \<and> nets_ready W d w' {} \<and> ext w' (driver_others W d rl L')
      \<and> still (K - {p}) w L w' L'"
proof -
  obtain w' L' where c: "f w = Some w'" "keeps_loop W K d rl p w L w' L'" using c by blast
  note k = keeps_loopD[OF c(2)]
  have f: "calls w' = calls w" "\<forall>c\<in>{rl}. \<exists>q q'. L c = Some q \<and> L' c = Some q' \<and> subseq q' q"
    "still (- (- (K - {p}))) w L w' L'" using k(3) unfolding io_effect_def by blast+
  have "\<exists>q'. L' rl = Some q' \<and> subseq q' q" using f(2) q by auto
  moreover have "still (K - {p}) w L w' L'" using f(3) by (simp only: double_complement)
  moreover have "ext w' (driver_others W d rl L')" by (rule ext_service[OF x k(3)])
  ultimately show ?thesis using f(1) c(1) k(1,2) by blast
qed

lemma dispatch_keeps:
  assumes os: "os_ok os" and d: "d \<noteq> rl" and p: "p \<in> W" and e: "e \<noteq> 0" and inv: "driver_inv W {d, rl} w L" and q: "L rl = Some q"
    and qd: "queued L p d" and cs: "calls w = cs @ [(p, watchers w p, e)]" and rdy: "nets_ready W d w {}"
    and ext: "ext (w\<lparr>calls := cs\<rparr>) (driver_others W d rl L)"
  shows "\<exists>w' L' q'. net_dispatch os tc cb other (callback (watchers w p)) p e w = Some w' \<and> driver_inv W {d, rl} w' L'
      \<and> calls w' = calls w \<and> L' rl = Some q' \<and> subseq q' q \<and> nets_ready W d w' {} \<and> ext w' (driver_others W d rl L')
      \<and> still (K - {p}) w L w' L'"
proof -
  have rd: "ready_for d w p (callback (watchers w p))"
    using rdy queued_listening[OF inv p qd] p unfolding nets_ready_def by blast
  note S = service_call[OF q cs _ ext]
  note net = net_callbacks_def
  show ?thesis
  proof (cases "callback (watchers w p)")
    case Io_net_generic_callback
    then show ?thesis using rd by (simp only: net_dispatch.simps) (intro S io_net_generic_ok[OF p d inv rdy os]; simp add: net)
  next
    case Io_net_accept_callback
    then show ?thesis using rd by (simp only: net_dispatch.simps) (intro S io_net_accept_cb_ok[OF p d inv rdy os]; simp add: net)
  next
    case Io_net_connect_callback
    then show ?thesis using rd by (simp only: net_dispatch.simps) (intro S io_net_connect_cb_ok[OF os p d inv rdy]; simp add: net)
  next
    case Io_net_udp_callback
    then show ?thesis using rd by (simp only: net_dispatch.simps) (intro S io_net_udp_cb_ok[OF p d inv rdy os]; simp add: net)
  next
    case Io_ssl_generic_callback
    then show ?thesis using rd by (simp only: net_dispatch.simps) (intro S io_ssl_generic_ok[OF p d inv rdy os]; simp add: net)
  next
    case Io_ssl_handshake_callback
    then show ?thesis using rd by (simp only: net_dispatch.simps) (intro S io_ssl_handshake_ok[OF p d inv rdy os]; simp add: net)
  next
    case Io_ssl_accept_callback
    then show ?thesis using rd by (simp only: net_dispatch.simps) (intro S io_ssl_accept_ok[OF p d inv rdy os]; simp add: net)
  next
    case Io_ssl_connect_callback
    then show ?thesis using rd by (simp only: net_dispatch.simps) (intro S io_ssl_connect_ok[OF p d inv rdy os]; simp add: net)
  qed (use other[OF os d p e inv q qd rdy cs _ ext] in \<open>simp_all add: net\<close>)
qed

end

sublocale net_loop \<subseteq> service: driver_client "net_dispatch os tc cb other" W K d rl
  "\<lambda>w M. os_ok os \<and> nets_ready W d w {} \<and> ext w M"
proof (unfold_locales, goal_cases)
  case (1 p e w L q cs)
  then show ?case using dispatch_keeps[of p e w L q cs] by simp
next
  case (2 w M h)
  then show ?case using ext_list by simp
qed

end
