(* ===== verification/Net_Loop.thy ===== *)
theory Net_Loop
  imports Net_Client
begin

text \<open>
  A client of the network service that makes any sequence of calls of the interface of \<open>src/src/io_net.h\<close>: a
  script chooses them for every event, and each call is made only when the conditions that the
  interface asks for hold. It meets the contract \<open>net_client\<close>, so the event loop with the network
  service and this client runs safely: the main result, for the pass of the event loop with all of its
  callbacks.
\<close>

section \<open>Scripts\<close>

datatype net_call =
    Net_set_rx_buf addr int
  | Net_tx addr addr int
  | Net_udp_tx addr sockaddr addr int
  | Net_close addr
  | Net_bind addr addr int net_callback
  | Net_connect addr addr u32 int net_callback
  | Net_udp addr int net_callback

text \<open>The calls that a callback for the connection \<open>n\<close> may make.\<close>

fun net_legal :: "addr set \<Rightarrow> addr set \<Rightarrow> addr \<Rightarrow> addr \<Rightarrow> net_call \<Rightarrow> 'a net_mem_scheme \<Rightarrow> bool" where
  "net_legal W K d n (Net_set_rx_buf b z) w = (0 \<le> z \<and> z \<le> int (length (bufs w b)))"
| "net_legal W K d n (Net_tx m b len) w = (m \<in> W \<and> (m \<in> K \<longrightarrow> m = n) \<and> net_driver (nets w m) = d
     \<and> ready_for d w m (callback (watchers w m)) \<and> bytes_at b len w \<noteq> None)"
| "net_legal W K d n (Net_udp_tx m to b len) w = (bytes_at b len w \<noteq> None)"
| "net_legal W K d n (Net_close m) w = (m \<in> W \<and> (m \<in> K \<longrightarrow> m = n) \<and> net_driver (nets w m) = d)"
| "net_legal W K d n (Net_bind m s port cb) w = (m \<in> W - K - {n} \<and> event_listening (watchers w m) = 0)"
| "net_legal W K d n (Net_connect m s to port cb) w = (m \<in> W - K - {n} \<and> event_listening (watchers w m) = 0 \<and> rx_ok w m)"
| "net_legal W K d n (Net_udp m port cb) w = (m \<in> W - K - {n} \<and> event_listening (watchers w m) = 0 \<and> rx_ok w m)"

fun do_net_call :: "os \<Rightarrow> tls_codes \<Rightarrow> addr \<Rightarrow> addr \<Rightarrow> net_call \<Rightarrow> 'a net_mem_scheme \<Rightarrow> 'a net_mem_scheme option" where
  "do_net_call os tc d n (Net_set_rx_buf b z) w = Some (io_net_set_rx_buf n b z w)"
| "do_net_call os tc d n (Net_tx m b len) w = map_option snd (io_net_tx os tc m b len w)"
| "do_net_call os tc d n (Net_udp_tx m to b len) w = map_option snd (io_net_udp_tx os m to b len w)"
| "do_net_call os tc d n (Net_close m) w = io_net_close os m w"
| "do_net_call os tc d n (Net_bind m s port cb) w = map_option snd (io_net_bind os d m s port cb w)"
| "do_net_call os tc d n (Net_connect m s to port cb) w = map_option snd (io_net_connect os d m s to port cb w)"
| "do_net_call os tc d n (Net_udp m port cb) w = map_option snd (io_net_udp os d m port cb w)"

fun do_net_calls ::
  "addr set \<Rightarrow> addr set \<Rightarrow> os \<Rightarrow> tls_codes \<Rightarrow> addr \<Rightarrow> addr \<Rightarrow> net_call list \<Rightarrow> 'a net_mem_scheme \<Rightarrow> 'a net_mem_scheme option" where
  "do_net_calls W K os tc d n [] w = Some w"
| "do_net_calls W K os tc d n (c # cs) w =
     (if net_legal W K d n c w then do { w \<leftarrow> do_net_call os tc d n c w; do_net_calls W K os tc d n cs w } else Some w)"

text \<open>
  The client: it makes its calls, gives a connection up that is not ready for its events (and drops any
  event it is still watched for), and offers a
  connection for an accepted one when it has a fresh one.
\<close>

definition offers :: "addr set \<Rightarrow> addr set \<Rightarrow> bool \<Rightarrow> addr \<Rightarrow> 'a net_mem_scheme \<Rightarrow> addr \<Rightarrow> addr \<Rightarrow> bool" where
  "offers W K tls n w m s \<longleftrightarrow> m \<noteq> NULL \<and> m \<in> W - K \<and> m \<noteq> n \<and> event_listening (watchers w m) = 0 \<and> (tls \<longrightarrow> s \<noteq> NULL)"

definition script_client ::
  "addr set \<Rightarrow> addr set \<Rightarrow> os \<Rightarrow> tls_codes \<Rightarrow> addr \<Rightarrow>
   (net_callback \<Rightarrow> addr \<Rightarrow> io_net_event \<Rightarrow> 'a net_mem_scheme \<Rightarrow> net_call list \<times> io_net_return \<times> addr \<times> addr) \<Rightarrow>
   'a net_mem_scheme net_client" where
  "script_client W K os tc d sc cb n ev w =
     (let (cs, ret, m, s) = sc cb n ev w in do {
        w \<leftarrow> do_net_calls W K os tc d n cs w;
        if event_listening (watchers w n) \<noteq> 0 \<and> \<not> ready_for d w n (callback (watchers w n)) then do {
          w \<leftarrow> io_net_close os n w;
          w \<leftarrow> io_driver_no_watch d n (NOT 0) w;
          Some (io_net_return_stop, ev, w)
        } else if ev_enum ev = io_net_event_enum_alloc_connection \<and> \<not> offers W K (net_ssl (nets w n) \<noteq> NULL) n w m s
        then Some (io_net_return_stop, ev, w)
        else Some (ret, ev\<lparr>ev_u := Ev_c m s\<rparr>, w)
      })"

section \<open>The calls keep the loop\<close>

lemma opened_keeps:
  assumes m: "m \<in> W" "d \<noteq> rl" and inv: "driver_inv W {d, rl} w L" "nets_ready W d w S" and idle: "event_listening (watchers w m) = 0"
    and o: "opened W d {rl} m c ev w L r w' L'" and rdy: "r = 0 \<Longrightarrow> ready_for d w' m c"
  shows "io_effect W d {rl} {m} w L w' L'" "nets_ready W d w' S" "x \<noteq> m \<Longrightarrow> nets w' x = nets w x" "bufs w' = bufs w"
proof -
  have Lm: "L(m \<mapsto> []) = L" by (rule blank_idle_lists[OF inv(1) m(1) idle])
  have W: "insert m W = W" using m(1) by auto
  show b: "bufs w' = bufs w" using o by (simp add: opened_def)
  have *: "io_effect W d {rl} {m} w L w' L' \<and> nets_ready W d w' S \<and> (x \<noteq> m \<longrightarrow> nets w' x = nets w x)"
  proof (cases "r = 0")
    case True
    have f: "io_effect W d {rl} {m} w L w' L'" "watchers w' = (watchers w)(m := \<lparr>wfd = sd (nets w' m), event_listening = ev, callback = c\<rparr>)"
      "nets w' = (nets w)(m := nets w' m)"
      using o True unfolding opened_def Lm W by auto
    have same: "nets w' x = nets w x" if "x \<noteq> m" for x using f(3) that by (metis fun_upd_other)
    have "nets_ready W d w' (insert m S)"
      by (rule nets_ready_cong[OF inv(2) subset_insertI]) (auto simp: f(2) b same)
    then have "nets_ready W d w' S"
      using nets_ready_add[of W d w' m S] rdy[OF True] by (simp add: f(2))
    then show ?thesis using f(1) same by blast
  next
    case False
    have f: "io_effect W d {rl} {} w L w' L'" "watchers w' = watchers w" "nets w' = nets w"
      using o False unfolding opened_def by auto
    have "nets_ready W d w' S" by (rule nets_ready_cong[OF inv(2) subset_refl]) (simp_all add: f b)
    then show ?thesis using io_effect_mono[OF f(1)] f(3) by simp
  qed
  then show "io_effect W d {rl} {m} w L w' L'" "nets_ready W d w' S" "x \<noteq> m \<Longrightarrow> nets w' x = nets w x" by blast+
qed

lemma stays_refl: "net_driver (nets w n) = d \<Longrightarrow> stays d w w n"
  by (simp add: stays_def)

lemma stays_trans: "stays d w w1 n \<Longrightarrow> stays d w1 w2 n \<Longrightarrow> stays d w w2 n"
  by (auto simp: stays_def)

text \<open>An effect that leaves the connections alone, and the callbacks and buffers.\<close>

lemma stays_same:
  assumes "net_driver (nets w n) = d" "nets w' n = nets w n" "bufs w' = bufs w" "callback (watchers w' n) = callback (watchers w n)"
  shows "stays d w w' n"
  using assms by (simp add: stays_def rx_ok_def)

lemma net_call_ok:
  fixes w :: "'a net_mem_scheme"
  assumes n: "n \<in> W" "d \<noteq> rl" and inv: "driver_inv W {d, rl} w L" "nets_ready W d w S" "net_driver (nets w n) = d" and S: "S \<subseteq> {n}"
    and os: "os_ok os" and leg: "net_legal W K d n c w"
  shows "\<exists>w' L'. do_net_call os tc d n c w = Some w' \<and> io_effect W d {rl} (- (K - {n})) w L w' L'
    \<and> nets_ready W d w' S \<and> stays d w w' n"
proof -
  have dR: "d \<notin> {rl}" using n(2) by simp
  have others: "io_effect W d {rl} (- (K - {n})) w L w' L'" if "io_effect W d {rl} {m} w L w' L'" "m \<in> K \<longrightarrow> m = n" for m w' L'
    by (rule io_effect_mono[OF that(1)]) (use that(2) in auto)
  have W: "m \<notin> {d, rl}" if "m \<in> W" for m using driver_okD(1)[OF driver_invD(2)[OF inv(1)]] that by auto
  show ?thesis
  proof (cases c)
    case (Net_set_rx_buf b z)
    let ?w = "io_net_set_rx_buf n b z w"
    have rx: "rx_ok ?w n" using leg Net_set_rx_buf by (simp add: io_net_set_rx_buf_def put_net_def rx_ok_def)
    have i: "io_effect W d {rl} {n} w L ?w L"
      unfolding io_net_set_rx_buf_def put_net_effect by (rule io_effect_refl) (use inv(1) in simp)
    have "nets_ready W d ?w (insert n S)"
      by (rule nets_ready_cong[OF inv(2) subset_insertI]) (auto simp: io_net_set_rx_buf_def put_net_def)
    moreover have "ready_for d ?w n (callback (watchers ?w n))" if "n \<notin> S" "event_listening (watchers ?w n) \<noteq> 0"
    proof -
      have "ready_for d w n (callback (watchers w n))"
        using inv(2) n(1) that unfolding nets_ready_def by (simp add: io_net_set_rx_buf_def put_net_def)
      then show ?thesis using rx
        by (cases "callback (watchers w n)") (simp_all add: io_net_set_rx_buf_def put_net_def rx_ok_def)
    qed
    ultimately have "nets_ready W d ?w S" using nets_ready_add[of W d ?w n S] by (cases "n \<in> S") (auto simp: insert_absorb)
    moreover have "stays d w ?w n" using inv(3) rx by (simp add: stays_def io_net_set_rx_buf_def put_net_def)
    ultimately show ?thesis using others[OF i] Net_set_rx_buf by auto
  next
    case (Net_tx m b len)
    have m: "m \<in> W" "m \<in> K \<longrightarrow> m = n" "net_driver (nets w m) = d" "ready_for d w m (callback (watchers w m))"
      and b: "bytes_at b len w \<noteq> None" using leg Net_tx by auto
    show ?thesis
    proof (cases "net_ssl (nets w m) = NULL \<or> \<not> handshaking (ssls w (net_ssl (nets w m)))")
      case True
      obtain r w' L' B where t: "io_net_tx os tc m b len w = Some (r, w')" "io_effect W d {rl} {m} w L w' L'"
        "watchers w' = (if B then (watchers w)(m := (watchers w m)\<lparr>event_listening := event_listening (watchers w m) OR IO_DRIVER_EVENT_TX\<rparr>)
          else watchers w)" "nets w' = nets w" "bufs w' = bufs w"
        using io_net_tx_ok[OF inv(1) m(1,3) dR _ True, of b len _ os tc] b by blast
      have rd: "ready_for d w' p c = ready_for d w p c" for p c by (rule ready_for_cong) (simp_all add: t)
      have "nets_ready W d w' S" using inv(2) m(4) unfolding nets_ready_def rd t(3) by auto
      moreover have "stays d w w' n" by (rule stays_same[OF inv(3)]) (simp_all add: t)
      ultimately show ?thesis using others[OF t(2) m(2)] t(1) Net_tx by auto
    next
      case False
      then have "io_net_tx os tc m b len w = Some (-1, w)" using io_net_tx_handshaking by blast
      then show ?thesis using Net_tx inv io_effect_refl[of W d "{rl}" w L] stays_refl[OF inv(3)] by auto
    qed
  next
    case (Net_udp_tx m to b len)
    then obtain bs where bs: "bytes_at b len w = Some bs" using leg by auto
    obtain r where r: "sys os (Sys_sendto (sd (nets w m)) to bs) w = (os_ret r, w\<lparr>trace := trace w @ [(Sys_sendto (sd (nets w m)) to bs, r)], errno := os_errno r\<rparr>)"
      using sys_state by blast
    let ?w = "w\<lparr>trace := trace w @ [(Sys_sendto (sd (nets w m)) to bs, r)], errno := os_errno r\<rparr>"
    have "nets_ready W d ?w S" by (rule nets_ready_cong[OF inv(2) subset_refl]) simp_all
    moreover have "stays d w ?w n" by (rule stays_same[OF inv(3)]) simp_all
    moreover have "do_net_call os tc d n c w = Some ?w" using Net_udp_tx bs r by (simp add: io_net_udp_tx_def)
    ultimately show ?thesis using io_effect_refl[of W d "{rl}" w L "- (K - {n})"] inv(1) by auto
  next
    case (Net_close m)
    have m: "m \<in> W" "m \<in> K \<longrightarrow> m = n" "net_driver (nets w m) = d" using leg Net_close by auto
    obtain w' L' where t: "io_net_close os m w = Some w'" "io_effect W d {rl} {m} w L w' L'"
      "watchers w' = (watchers w)(m := (watchers w m)\<lparr>event_listening := event_listening (watchers w m) AND NOT EVENTS\<rparr>)"
      "nets w' = nets w" "bufs w' = bufs w" using io_net_close_ok[OF inv(1) m(1,3) dR] by blast
    have "nets_ready W d w' S" by (rule nets_ready_cong[OF inv(2) subset_refl]) (auto simp: t split: if_splits)
    moreover have "stays d w w' n" by (rule stays_same[OF inv(3)]) (simp_all add: t)
    ultimately show ?thesis using others[OF t(2) m(2)] t(1) Net_close by auto
  next
    case (Net_bind m s port cb)
    have m: "m \<in> W" "m \<notin> K" "m \<noteq> n" "event_listening (watchers w m) = 0" using leg Net_bind by auto
    let ?c = "if s = NULL then Io_net_accept_callback else Io_ssl_accept_callback"
    obtain r w' L' where t: "io_net_bind os d m s port cb w = Some (r, w')"
      "opened W d {rl} m ?c IO_DRIVER_EVENT_RX w L r w' L'"
      "r = 0 \<longrightarrow> nets w' m = (nets w m)\<lparr>sd := sd (nets w' m), net_cb := cb, net_driver := d, net_ssl := s\<rparr>"
      using io_net_bind_ok[OF os inv(1) blank_idle[OF m(1) W[OF m(1)] m(4)] dR] by blast
    have "ready_for d w' m ?c" if "r = 0"
    proof -
      have "net_driver (nets w' m) = d" "net_ssl (nets w' m) = s" by (subst mp[OF t(3) that], simp)+
      then show ?thesis by simp
    qed
    note k = opened_keeps[OF m(1) n(2) inv(1,2) m(4) t(2) this]
    have x: "nets w' n = nets w n" using k(3)[of n] m(3) by simp
    have "watchers w' n = watchers w n" using t(2) m(3) by (auto simp: opened_def split: if_splits)
    from stays_same[OF inv(3) x k(4) arg_cong[OF this]] have "stays d w w' n" .
    then show ?thesis using others[OF k(1)] k(2) t(1) Net_bind m(2) by auto
  next
    case (Net_connect m s to port cb)
    have m: "m \<in> W" "m \<notin> K" "m \<noteq> n" "event_listening (watchers w m) = 0" "rx_ok w m" using leg Net_connect by auto
    let ?c = "if s = NULL then Io_net_connect_callback else Io_ssl_connect_callback"
    obtain r w' L' where t: "io_net_connect os d m s to port cb w = Some (r, w')"
      "opened W d {rl} m ?c IO_DRIVER_EVENT_TX w L r w' L'"
      "r = 0 \<longrightarrow> nets w' m = (nets w m)\<lparr>sd := sd (nets w' m), net_cb := cb, net_driver := d, net_ssl := s\<rparr>"
      using io_net_connect_ok[OF os inv(1) blank_idle[OF m(1) W[OF m(1)] m(4)] dR] by blast
    have "ready_for d w' m ?c" if "r = 0"
    proof -
      have "net_driver (nets w' m) = d" "net_ssl (nets w' m) = s" "net_rx_buf (nets w' m) = net_rx_buf (nets w m)"
        "net_rx_size (nets w' m) = net_rx_size (nets w m)" by (subst mp[OF t(3) that], simp)+
      moreover have "bufs w' = bufs w" using t(2) by (simp add: opened_def)
      ultimately show ?thesis using m(5) by (simp add: rx_ok_def)
    qed
    note k = opened_keeps[OF m(1) n(2) inv(1,2) m(4) t(2) this]
    have x: "nets w' n = nets w n" using k(3)[of n] m(3) by simp
    have "watchers w' n = watchers w n" using t(2) m(3) by (auto simp: opened_def split: if_splits)
    from stays_same[OF inv(3) x k(4) arg_cong[OF this]] have "stays d w w' n" .
    then show ?thesis using others[OF k(1)] k(2) t(1) Net_connect m(2) by auto
  next
    case (Net_udp m port cb)
    have m: "m \<in> W" "m \<notin> K" "m \<noteq> n" "event_listening (watchers w m) = 0" "rx_ok w m" using leg Net_udp by auto
    obtain r w' L' where t: "io_net_udp os d m port cb w = Some (r, w')"
      "opened W d {rl} m Io_net_udp_callback IO_DRIVER_EVENT_RX w L r w' L'"
      "r = 0 \<longrightarrow> nets w' m = (nets w m)\<lparr>sd := sd (nets w' m), net_cb := cb, net_driver := d\<rparr>"
      using io_net_udp_ok[OF os inv(1) blank_idle[OF m(1) W[OF m(1)] m(4)] dR] by blast
    have "ready_for d w' m Io_net_udp_callback" if "r = 0"
    proof -
      have "net_driver (nets w' m) = d" "net_rx_buf (nets w' m) = net_rx_buf (nets w m)"
        "net_rx_size (nets w' m) = net_rx_size (nets w m)" by (subst mp[OF t(3) that], simp)+
      moreover have "bufs w' = bufs w" using t(2) by (simp add: opened_def)
      ultimately show ?thesis using m(5) by (simp add: rx_ok_def)
    qed
    note k = opened_keeps[OF m(1) n(2) inv(1,2) m(4) t(2) this]
    have x: "nets w' n = nets w n" using k(3)[of n] m(3) by simp
    have "watchers w' n = watchers w n" using t(2) m(3) by (auto simp: opened_def split: if_splits)
    from stays_same[OF inv(3) x k(4) arg_cong[OF this]] have "stays d w w' n" .
    then show ?thesis using others[OF k(1)] k(2) t(1) Net_udp m(2) by auto
  qed
qed

lemma net_calls_ok:
  fixes w :: "'a net_mem_scheme"
  assumes n: "n \<in> W" "d \<noteq> rl" and S: "S \<subseteq> {n}" and os: "os_ok os"
  shows "driver_inv W {d, rl} w L \<Longrightarrow> nets_ready W d w S \<Longrightarrow> net_driver (nets w n) = d \<Longrightarrow>
    \<exists>w' L'. do_net_calls W K os tc d n cs w = Some w' \<and> io_effect W d {rl} (- (K - {n})) w L w' L'
      \<and> nets_ready W d w' S \<and> stays d w w' n"
proof (induction cs arbitrary: w L)
  case Nil
  then show ?case using io_effect_refl[of W d "{rl}" w L "- (K - {n})"] stays_refl[OF Nil(3)] by auto
next
  case (Cons c cs)
  show ?case
  proof (cases "net_legal W K d n c w")
    case False
    then show ?thesis using Cons.prems io_effect_refl[of W d "{rl}" w L "- (K - {n})"] stays_refl[OF Cons.prems(3)] by auto
  next
    case True
    obtain w1 L1 where c: "do_net_call os tc d n c w = Some w1" "io_effect W d {rl} (- (K - {n})) w L w1 L1"
      "nets_ready W d w1 S" "stays d w w1 n"
      using net_call_ok[OF n Cons.prems S os True] by blast
    have i: "driver_inv W {d, rl} w1 L1" using io_effect_inv[OF c(2)] by simp
    have d1: "net_driver (nets w1 n) = d" using c(4) by (simp add: stays_def)
    obtain w' L' where r: "do_net_calls W K os tc d n cs w1 = Some w'" "io_effect W d {rl} (- (K - {n})) w1 L1 w' L'"
      "nets_ready W d w' S" "stays d w1 w' n" using Cons.IH[OF i c(3) d1] by blast
    have e: "io_effect W d {rl} (- (K - {n})) w L w' L'" by (rule io_effect_trans[OF c(2) r(2)])
    have s: "stays d w w' n" by (rule stays_trans[OF c(4) r(4)])
    have "do_net_calls W K os tc d n (c # cs) w = Some w'" using True c(1) r(1) by simp
    then show ?thesis using e s r(3) by blast
  qed
qed

text \<open>The contract holds for every script.\<close>

lemma offers_fresh: "offers W K tls n w m s \<Longrightarrow> fresh_connection W K tls n w (Ev_c m s)"
  unfolding offers_def fresh_connection_def by (intro exI conjI refl) auto

lemma script_client_ok:
  fixes w :: "'a net_mem_scheme"
  assumes os: "os_ok os" and n: "n \<in> W" "d \<noteq> rl" and inv: "driver_inv W {d, rl} w L" "net_driver (nets w n) = d"
    and rdy: "nets_ready W d w (if ev_enum ev = io_net_event_enum_connected then {n} else {})"
  shows "\<exists>r ev' w' L'. script_client W K os tc d sc cb n ev w = Some (r, ev', w') \<and> keeps_loop W K d rl n w L w' L'
      \<and> stays d w w' n
      \<and> (ev_enum ev = io_net_event_enum_alloc_connection \<and> r = io_net_return_continue \<longrightarrow>
          fresh_connection W K (net_ssl (nets w' n) \<noteq> NULL) n w' (ev_u ev'))"
proof -
  let ?S = "if ev_enum ev = io_net_event_enum_connected then {n} else {}"
  obtain cs ret m s where sc: "sc cb n ev w = (cs, ret, m, s)" by (metis prod_cases4)
  have S: "?S \<subseteq> {n}" by simp
  obtain w1 L1 where c: "do_net_calls W K os tc d n cs w = Some w1" "io_effect W d {rl} (- (K - {n})) w L w1 L1"
    "nets_ready W d w1 ?S" "stays d w w1 n" using net_calls_ok[OF n S os inv(1) rdy inv(2)] by blast
  have i1: "driver_inv W {d, rl} w1 L1" using io_effect_inv[OF c(2)] by simp
  show ?thesis
  proof (cases "event_listening (watchers w1 n) \<noteq> 0 \<and> \<not> ready_for d w1 n (callback (watchers w1 n))")
    case True
    have d1: "net_driver (nets w1 n) = d" using c(4) by (simp add: stays_def)
    have dR: "d \<notin> {rl}" using n(2) by simp
    obtain w' L' where t: "io_net_close os n w1 = Some w'" "io_effect W d {rl} {n} w1 L1 w' L'"
      "watchers w' = (watchers w1)(n := (watchers w1 n)\<lparr>event_listening := event_listening (watchers w1 n) AND NOT EVENTS\<rparr>)"
      "nets w' = nets w1" "bufs w' = bufs w1" using io_net_close_ok[OF i1 n(1) d1 dR] by blast
    have i': "driver_inv W {d, rl} w' L'" using io_effect_inv[OF t(2)] by simp
    have r': "nets_ready W d w' (insert n ?S)"
      by (rule nets_ready_cong[OF c(3) subset_insertI]) (auto simp: t)
    obtain w2 L2 where u: "io_driver_no_watch d n (NOT 0) w' = Some w2" "io_effect W d {rl} {n} w' L' w2 L2"
      "nets_ready W d w2 (insert n ?S)" "nets w2 = nets w'" "bufs w2 = bufs w'" "callback (watchers w2 n) = callback (watchers w' n)"
      using unwatch_keeps[OF n i' r'] by blast
    have "event_listening (watchers w2 n) = 0"
    proof -
      have "driver_inv W (insert d {rl}) w' L'" using i' by simp
      from os_no_watch[OF this n(1) dR, of "NOT 0"] u(1) show ?thesis by auto
    qed
    then have "nets_ready W d w2 ?S" "nets_ready W d w2 {}"
      using nets_ready_add[of W d w2 n] u(3) by (auto split: if_splits)
    moreover have e: "io_effect W d {rl} (- (K - {n})) w L w2 L2"
      by (rule io_effect_trans[OF io_effect_trans[OF c(2) io_effect_mono[OF t(2)]] io_effect_mono[OF u(2)]]) auto
    ultimately have k: "keeps_loop W K d rl n w L w2 L2" by (simp add: keeps_loop_def)
    have "stays d w1 w2 n" by (rule stays_same[OF d1]) (simp_all add: u t)
    then have "stays d w w2 n" by (rule stays_trans[OF c(4)])
    moreover have "script_client W K os tc d sc cb n ev w = Some (io_net_return_stop, ev, w2)"
      using True c(1) t(1) u(1) by (simp add: script_client_def sc)
    ultimately show ?thesis using k by blast
  next
    case False
    have rd: "nets_ready W d w1 {}"
      using c(3) False nets_ready_add[of W d w1 n "{}"] by (auto split: if_splits)
    have k: "keeps_loop W K d rl n w L w1 L1" using c(2) rd by (simp add: keeps_loop_def)
    have "ev_enum ev = io_net_event_enum_alloc_connection \<and> \<not> offers W K (net_ssl (nets w1 n) \<noteq> NULL) n w1 m s \<or>
      \<not> (ev_enum ev = io_net_event_enum_alloc_connection \<and> \<not> offers W K (net_ssl (nets w1 n) \<noteq> NULL) n w1 m s)" by blast
    then show ?thesis
    proof
      assume "ev_enum ev = io_net_event_enum_alloc_connection \<and> \<not> offers W K (net_ssl (nets w1 n) \<noteq> NULL) n w1 m s"
      then have "script_client W K os tc d sc cb n ev w = Some (io_net_return_stop, ev, w1)"
        using c(1) False by (auto simp: script_client_def sc)
      then show ?thesis using k c(4) by blast
    next
      assume o: "\<not> (ev_enum ev = io_net_event_enum_alloc_connection \<and> \<not> offers W K (net_ssl (nets w1 n) \<noteq> NULL) n w1 m s)"
      then have r: "script_client W K os tc d sc cb n ev w = Some (ret, ev\<lparr>ev_u := Ev_c m s\<rparr>, w1)"
        using c(1) False by (auto simp: script_client_def sc)
      have "fresh_connection W K (net_ssl (nets w1 n) \<noteq> NULL) n w1 (ev_u (ev\<lparr>ev_u := Ev_c m s\<rparr>))"
        if "ev_enum ev = io_net_event_enum_alloc_connection" using o that offers_fresh by simp
      then show ?thesis using r k c(4) by blast
    qed
  qed
qed


interpretation script_client: net_client "script_client W K os tc d sc" W K d rl os
  for W K d rl os tc
    and sc :: "net_callback \<Rightarrow> addr \<Rightarrow> io_net_event \<Rightarrow> 'a net_mem_scheme \<Rightarrow> net_call list \<times> io_net_return \<times> addr \<times> addr"
proof
  fix n L and ev :: io_net_event and w :: "'a net_mem_scheme"
  assume a: "os_ok os" "n \<in> W" "d \<noteq> rl" "driver_inv W {d, rl} w L" "net_driver (nets w n) = d"
    "nets_ready W d w (if ev_enum ev = io_net_event_enum_connected then {n} else {})"
  obtain r ev' w' L' where s: "script_client W K os tc d sc (net_cb (nets w n)) n ev w = Some (r, ev', w')"
    "keeps_loop W K d rl n w L w' L'" "stays d w w' n"
    "ev_enum ev = io_net_event_enum_alloc_connection \<and> r = io_net_return_continue \<longrightarrow>
          fresh_connection W K (net_ssl (nets w' n) \<noteq> NULL) n w' (ev_u ev')"
    using script_client_ok[OF a] by blast
  have "net_ssl (nets w n) \<noteq> NULL \<Longrightarrow> net_ssl (nets w' n) \<noteq> NULL" using s(3) by (simp add: stays_def)
  then have "fresh_connection W K (net_ssl (nets w' n) \<noteq> NULL) n w' u \<Longrightarrow> fresh_connection W K (net_ssl (nets w n) \<noteq> NULL) n w' u" for u
    unfolding fresh_connection_def by blast
  then show "\<exists>r ev' w' L'. script_client W K os tc d sc (net_cb (nets w n)) n ev w = Some (r, ev', w') \<and> keeps_loop W K d rl n w L w' L'
      \<and> (r = io_net_return_continue \<or> ev_u ev = Ev_c n NULL \<longrightarrow> stays d w w' n)
      \<and> (ev_enum ev = io_net_event_enum_alloc_connection \<and> ev_u ev = Ev_c NULL NULL \<and> r = io_net_return_continue \<longrightarrow>
          fresh_connection W K (net_ssl (nets w n) \<noteq> NULL) n w' (ev_u ev'))"
    using s by blast
qed

end
