(* ===== verification/Event_Loop.thy ===== *)
theory Event_Loop
  imports Net_Loop
begin

text \<open>
  The whole program: the event loop of \<open>src/src/io_driver.c\<close> with the network service, the timer
  service and the callbacks of the user as its clients. \<open>loop_other\<close> runs what is not the network
  service's, \<open>loop_ext\<close> is the invariant of the timers, which says when a given timer has fired. The
  property is that the loop runs for ever and fires a timer exactly when its time has come, whatever
  the network, the clients and the other timers do.
\<close>

section \<open>Clients beside the network service\<close>

fun keeps_off :: "driver_call \<Rightarrow> bool" where
  "keeps_off (Driver_set_cb p cb) = (cb \<notin> net_callbacks)"
| "keeps_off c = True"

text \<open>
  The tick of the timers, and callbacks of the user that make any calls of the driver on the
  watchers that are not of the network service.
\<close>

definition loop_other ::
  "os \<Rightarrow> (addr \<Rightarrow> 'a net_mem_scheme \<Rightarrow> 'a net_mem_scheme option) \<Rightarrow> addr \<Rightarrow> addr set \<Rightarrow> addr \<Rightarrow>
   (io_callback \<Rightarrow> addr \<Rightarrow> u8 \<Rightarrow> 'a net_mem_scheme \<Rightarrow> driver_call list) \<Rightarrow>
   io_callback \<Rightarrow> addr \<Rightarrow> u8 \<Rightarrow> 'a net_mem_scheme \<Rightarrow> 'a net_mem_scheme option" where
  "loop_other os cb tlist X d f c p e w =
     (if c = Io_timer_tick_callback then io_timer_tick_callback os cb tlist p e w
      else do_driver_calls d (filter (\<lambda>a. driver_call_on a \<in> insert p X
        \<and> callback (watchers w (driver_call_on a)) \<notin> net_callbacks \<and> keeps_off a) (f c p e w)) w)"

lemma ready_for_other: "c \<notin> net_callbacks \<Longrightarrow> ready_for d w p c"
  by (cases c) (simp_all add: net_callbacks_def)

lemma driver_effect_mono: "driver_effect W d R X w L w' L' \<Longrightarrow> X \<subseteq> Y \<Longrightarrow> driver_effect W d R Y w L w' L'"
  unfolding driver_effect_def using still_mono[of "- X" w L w' L' "- Y"] by blast

lemma do_driver_calls_callbacks:
  fixes w :: "'a driver_mem_scheme"
  assumes "driver_inv W (insert d R) w L" "X \<subseteq> W" "d \<notin> R" "\<forall>c\<in>set cs. driver_call_on c \<in> X \<and> keeps_off c"
    and "\<forall>x\<in>X. callback (watchers w x) \<notin> net_callbacks"
  shows "\<exists>w' L'. do_driver_calls d cs w = Some w' \<and> driver_effect W d R X w L w' L'
    \<and> (\<forall>x\<in>X. callback (watchers w' x) \<notin> net_callbacks)"
  using assms
proof (induction cs arbitrary: w L)
  case Nil
  then show ?case using driver_effect_refl[OF Nil.prems(1)] by auto
next
  case (Cons c cs)
  have on: "driver_call_on c \<in> X" "driver_call_on c \<in> W" "keeps_off c" using Cons.prems(2,4) by auto
  have "\<exists>w1 L1. do_driver_call d c w = Some w1 \<and> driver_effect W d R X w L w1 L1
    \<and> callback (watchers w1 (driver_call_on c)) \<notin> net_callbacks
    \<and> (\<forall>x. x \<noteq> driver_call_on c \<longrightarrow> watchers w1 x = watchers w x)"
  proof (cases c)
    case (Driver_watch p ev)
    obtain w1 L1 where 1: "io_driver_watch d p ev w = Some w1" "driver_effect W d R {p} w L w1 L1"
      "watchers w1 p = (watchers w p)\<lparr>event_listening := event_listening (watchers w p) OR ev\<rparr>"
      using io_driver_watch_effect[OF Cons.prems(1), of p "{p}" ev] on Cons.prems(3) Driver_watch by auto
    have "driver_effect W d R X w L w1 L1" by (rule driver_effect_mono[OF 1(2)]) (use on Driver_watch in auto)
    then show ?thesis using 1 Cons.prems(5) on Driver_watch by (auto simp: driver_effect_def still_def)
  next
    case (Driver_no_watch p ev)
    obtain w1 L1 where 1: "io_driver_no_watch d p ev w = Some w1" "driver_effect W d R {p} w L w1 L1"
      "watchers w1 p = (watchers w p)\<lparr>event_listening := event_listening (watchers w p) AND NOT ev\<rparr>"
      using io_driver_no_watch_effect[OF Cons.prems(1), of p "{p}" ev] on Cons.prems(3) Driver_no_watch by auto
    have "driver_effect W d R X w L w1 L1" by (rule driver_effect_mono[OF 1(2)]) (use on Driver_no_watch in auto)
    then show ?thesis using 1 Cons.prems(5) on Driver_no_watch by (auto simp: driver_effect_def still_def)
  next
    case (Driver_set_cb p cb)
    then show ?thesis using io_driver_watcher_set_cb_effect[OF Cons.prems(1), of p X cb] on
      by (auto simp: io_driver_watcher_set_cb_def put_watcher_def)
  qed
  then obtain w1 L1 where 1: "do_driver_call d c w = Some w1" "driver_effect W d R X w L w1 L1"
    "\<forall>x\<in>X. callback (watchers w1 x) \<notin> net_callbacks" using Cons.prems(5) by metis
  obtain w' L' where 2: "do_driver_calls d cs w1 = Some w'" "driver_effect W d R X w1 L1 w' L'"
    "\<forall>x\<in>X. callback (watchers w' x) \<notin> net_callbacks"
    using Cons.IH[OF driver_effect_inv(1)[OF 1(2)]] Cons.prems(2-4) 1(3) by auto
  show ?case using 1(1) 2(1,3) driver_effect_trans[OF 1(2) 2(2)] by auto
qed

section \<open>The timers in the loop\<close>

definition ticks_in :: "(addr \<times> io_watcher \<times> u8) list \<Rightarrow> nat" where
  "ticks_in cs = length (filter (\<lambda>(p, wt, e). callback wt = Io_timer_tick_callback) cs)"

lemma ticks_in_simps [simp]:
  "ticks_in [] = 0"
  "ticks_in (cs @ [(p, wt, e)]) = ticks_in cs + (if callback wt = Io_timer_tick_callback then 1 else 0)"
  by (simp_all add: ticks_in_def)

text \<open>
  Since the calls \<open>c0\<close>, when the counter was \<open>tk\<close>, every call of the tick callback has counted one tick;
  timer \<open>x\<close>, which had fired at the ticks \<open>F\<close>, waits for the tick \<open>T\<close> and fires at the \<open>n\<close>th call. \<open>V\<close>
  is the memory of the driver.
\<close>

definition on_time ::
  "(addr \<times> io_watcher \<times> u8) list \<Rightarrow> u32 \<Rightarrow> addr \<Rightarrow> nat \<Rightarrow> u32 list \<Rightarrow> u32 \<Rightarrow> 'a driver_mem_scheme \<Rightarrow> family \<Rightarrow> bool" where
  "on_time c0 tk x n F T w M \<longleftrightarrow> (\<exists>cs. calls w = c0 @ cs \<and> tick (st w) = tk + of_nat (ticks_in cs)
     \<and> (if ticks_in cs < n then firings x w = F \<and> armed w M x \<and> elem_tick w x = T \<and> ticks_left x w = n - ticks_in cs
        else prefix (F @ [T]) (firings x w)) \<and> (ticks_in cs = n \<longrightarrow> firings x w = F @ [T]))"

definition loop_timers ::
  "addr set \<Rightarrow> addr list \<Rightarrow> addr set \<Rightarrow> addr set \<Rightarrow> addr \<Rightarrow> 'a driver_mem_scheme \<Rightarrow> family \<Rightarrow> bool" where
  "loop_timers E bs V K tlist w M \<longleftrightarrow> fresh_for E tlist w \<and> tlist \<notin> V \<and> (E \<union> set bs) \<inter> V = {} \<and> E \<inter> K = {}
     \<and> 0 < tick_rate (st w) \<and> int_range (tick_rate (st w)) \<and> buckets (st w) = bs \<and> wheel E {} bs (elem_tick w) M"

definition loop_ext where
  "loop_ext E bs V K tlist c0 tk x n F T w M \<longleftrightarrow> loop_timers E bs V K tlist w M \<and> on_time c0 tk x n F T w M"

text \<open>A call that is not a tick, and that leaves the timers alone.\<close>

lemma loop_ext_frame:
  assumes "loop_ext E bs V K tlist c0 tk x n F T (w\<lparr>calls := cs\<rparr>) M"
    and "calls w' = cs @ [(p, wt, e)]" "callback wt \<noteq> Io_timer_tick_callback"
    and "st w' = st w" "elem_tick w' = elem_tick w" "fired w' = fired w" "lheap w' tlist = None \<longleftrightarrow> lheap w tlist = None"
  shows "loop_ext E bs V K tlist c0 tk x n F T w' M"
proof -
  have l: "loop_timers E bs V K tlist w' M" and o: "on_time c0 tk x n F T (w\<lparr>calls := cs\<rparr>) M"
    using assms unfolding loop_ext_def loop_timers_def fresh_for_def by simp_all
  have c: "firings x (w\<lparr>calls := cs\<rparr>) = firings x w" "armed (w\<lparr>calls := cs\<rparr>) M x = armed w M x"
    "ticks_left x (w\<lparr>calls := cs\<rparr>) = ticks_left x w" "elem_tick (w\<lparr>calls := cs\<rparr>) x = elem_tick w x" by (simp_all add: firings_def armed_def ticks_left_def)
  obtain ds where "calls (w\<lparr>calls := cs\<rparr>) = c0 @ ds" "tick (st (w\<lparr>calls := cs\<rparr>)) = tk + of_nat (ticks_in ds)"
    "if ticks_in ds < n then firings x w = F \<and> armed w M x \<and> elem_tick w x = T \<and> ticks_left x w = n - ticks_in ds
        else prefix (F @ [T]) (firings x w)" "ticks_in ds = n \<longrightarrow> firings x w = F @ [T]"
    using o unfolding on_time_def c by blast
  then have ds: "cs = c0 @ ds" "tick (st w) = tk + of_nat (ticks_in ds)"
    "if ticks_in ds < n then firings x w = F \<and> armed w M x \<and> elem_tick w x = T \<and> ticks_left x w = n - ticks_in ds
        else prefix (F @ [T]) (firings x w)" "ticks_in ds = n \<longrightarrow> firings x w = F @ [T]" by simp_all
  have "calls w' = c0 @ (ds @ [(p, wt, e)])" using assms(2) ds(1) by simp
  moreover have "ticks_in (ds @ [(p, wt, e)]) = ticks_in ds" using assms(3) by simp
  moreover have "firings x w' = firings x w" "armed w' M x = armed w M x" "ticks_left x w' = ticks_left x w"
    using assms(4-6) by (simp_all add: firings_def armed_def ticks_left_def)
  ultimately have "on_time c0 tk x n F T w' M" unfolding on_time_def using ds(2-4) assms(4,5)
    by (intro exI[of _ "ds @ [(p, wt, e)]"]) simp
  then show ?thesis using l by (simp add: loop_ext_def)
qed

lemma loop_ext_heap:
  assumes "loop_ext E bs V K tlist c0 tk x n F T w M" "lheap w' tlist = None \<longleftrightarrow> lheap w tlist = None"
    and "st w' = st w" "elem_tick w' = elem_tick w" "fired w' = fired w" "calls w' = calls w"
  shows "loop_ext E bs V K tlist c0 tk x n F T w' M"
proof -
  have "firings x w' = firings x w" "armed w' M x = armed w M x" "ticks_left x w' = ticks_left x w"
    using assms(3-5) by (simp_all add: firings_def armed_def ticks_left_def)
  then have "on_time c0 tk x n F T w' M = on_time c0 tk x n F T w M" unfolding on_time_def assms(3,4,6) by simp
  then show ?thesis using assms unfolding loop_ext_def loop_timers_def fresh_for_def by simp
qed

section \<open>The tick callback in the loop\<close>

lemma more_same:
  fixes w v :: "'a net_mem_scheme"
  assumes "timer_mem.more w = timer_mem.more v"
  shows "watchers w = watchers v" "calls w = calls v" "trace w = trace v" "bufs w = bufs v" "nets w = nets v"
  using assms by (cases w; cases v; simp)+

lemma armed_others:
  assumes "\<And>c. c \<in> set (buckets (st w)) \<Longrightarrow> M c = L c"
  shows "armed w M e = armed w L e"
  using assms by (auto simp: armed_def queued_def)

lemma no_head:
  assumes "heap_lists h L" "h c = None"
  shows "L c = None"
proof (cases "L c")
  case (Some xs)
  have "c \<in> dom h" using ring_dom[OF listsD(2)[OF assms(1) Some]] by simp
  then show ?thesis using assms(2) by (simp add: domIff)
qed

text \<open>The drive of the timers, with callbacks that make any calls of the timers.\<close>

lemma drive_in_loop:
  fixes w :: "'a net_mem_scheme"
  assumes inv: "timer_inv E {} w L" and fr: "fresh_for E tlist w" and di: "driver_inv W D w L"
    and dis: "(E \<union> set (buckets (st w))) \<inter> (W \<union> D) = {}" "tlist \<notin> W \<union> D" "E \<inter> K = {}"
  shows "\<exists>w' L'. soft_timer_drive (script_cb (E - {x}) g) tlist w = Some w' \<and> timer_inv E {} w' L' \<and> fresh_for E tlist w'
    \<and> driver_inv W D w' L' \<and> (\<forall>c\<in>W \<union> D. L' c = L c) \<and> still K w L w' L' \<and> timer_mem.more w' = timer_mem.more w
    \<and> st w' = (st w)\<lparr>tick := tick (st w) + 1\<rparr> \<and> prefix (firings x w) (firings x w')
    \<and> (armed w L x \<longrightarrow> (if ticks_left x w = 1 then firings x w' = firings x w @ [elem_tick w x]
       else firings x w' = firings x w \<and> armed w' L' x \<and> elem_tick w' x = elem_tick w x
         \<and> ticks_left x w = Suc (ticks_left x w')))"
proof -
  let ?bs = "buckets (st w)"
  obtain w' L' where t: "soft_timer_drive (script_cb (E - {x}) g) tlist w = Some w'" "timer_inv E {} w' L'" "fresh_for E tlist w'"
    "st w' = (st w)\<lparr>tick := tick (st w) + 1\<rparr>" "timer_mem.more w' = timer_mem.more w" "others E ?bs tlist L' = others E ?bs tlist L"
    "prefix (firings x w) (firings x w')"
    "armed w L x \<longrightarrow> (if ticks_left x w = 1 then firings x w' = firings x w @ [elem_tick w x]
       else firings x w' = firings x w \<and> armed w' L' x \<and> elem_tick w' x = elem_tick w x
         \<and> ticks_left x w = Suc (ticks_left x w'))"
    using script.drive_step[where ext = "\<lambda>m M. m = timer_mem.more w \<and> M = others E ?bs tlist L" and K = "{x}" and f = g,
        OF inv fr refl conjI[OF refl refl] insertI1] by blast
  have o: "L' c = L c" if "c \<notin> E \<union> set ?bs \<union> {tlist}" for c
    using fun_cong[OF t(6), of c] that by (simp add: others_def)
  have same: "\<forall>c\<in>W \<union> D. L' c = L c"
  proof
    fix c assume "c \<in> W \<union> D"
    then have "c \<notin> E \<union> set ?bs \<union> {tlist}" using dis(1,2) by auto
    then show "L' c = L c" by (rule o)
  qed
  have ws: "watchers w' = watchers w" using more_same(1)[OF t(5)] .
  have "driver_ok W D (watchers w') L'"
    unfolding ws by (rule driver_ok_frame[OF driver_invD(2)[OF di]]) (use same in blast)
  then have "driver_inv W D w' L'" using timer_invD(1)[OF t(2)] by (simp add: driver_inv_def)
  moreover have "still K w L w' L'"
  proof -
    have tl: "L tlist = None" "L' tlist = None"
      using no_head[OF timer_invD(1)[OF inv]] no_head[OF timer_invD(1)[OF t(2)]] fr t(3) by (simp_all add: fresh_for_def)
    have "queued L' y c = queued L y c" if y: "y \<in> K" for y c
    proof (cases "c \<in> E \<union> set ?bs")
      case True
      have nE: "y \<notin> E" using y dis(3) by auto
      have b: "buckets (st w') = ?bs" using t(4) by simp
      have "\<not> queued L y c" using wheel_list_elems[OF inv, of c] True nE by (auto simp: queued_def)
      moreover have "\<not> queued L' y c" using wheel_list_elems[OF t(2), of c] True nE b by (auto simp: queued_def)
      ultimately show ?thesis by simp
    next
      case False
      then show ?thesis using o[of c] tl by (cases "c = tlist") (auto simp: queued_def)
    qed
    then show ?thesis by (simp add: still_def ws)
  qed
  ultimately show ?thesis using t same by blast
qed

lemma tick_in_loop:
  fixes w :: "'a net_mem_scheme"
  assumes os: "os_ok os" and di: "driver_inv W D w L" and D: "D = {d, rl}"
    and cs: "calls w = cs @ [(p, wt, e)]" "callback wt = Io_timer_tick_callback"
    and rdy: "nets_ready W d w {}"
    and ext: "loop_ext E bs (W \<union> D) K tlist c0 tk x n F T (w\<lparr>calls := cs\<rparr>) (driver_others W d rl L)"
  shows "\<exists>w' L'. io_timer_tick_callback os (script_cb (E - {x}) g) tlist p e w = Some w' \<and> driver_inv W D w' L'
    \<and> calls w' = calls w \<and> (\<forall>c\<in>W \<union> D. L' c = L c) \<and> nets_ready W d w' {}
    \<and> loop_ext E bs (W \<union> D) K tlist c0 tk x n F T w' (driver_others W d rl L') \<and> still K w L w' L'"
proof -
  let ?r = "os (Sys_read (timerfd w) 8) (trace w)"
  let ?w1 = "w\<lparr>trace := trace w @ [(Sys_read (timerfd w) 8, ?r)], errno := os_errno ?r\<rparr>"
  have len: "length (os_data ?r) \<le> 8" using os_okD[OF os, of "trace w" "Sys_read (timerfd w) 8"] by (auto simp: filled_def)
  let ?M = "driver_others W d rl L"
  have lt: "loop_timers E bs (W \<union> D) K tlist w ?M" and ot: "on_time c0 tk x n F T (w\<lparr>calls := cs\<rparr>) ?M"
    using ext unfolding loop_ext_def loop_timers_def fresh_for_def by simp_all
  have same: "?M c = L c" if "c \<in> E \<union> set bs" for c
  proof -
    have "c \<notin> W \<union> D" using that lt unfolding loop_timers_def by blast
    then show ?thesis by (simp add: driver_others_def D)
  qed
  have b: "buckets (st w) = bs" using lt by (simp add: loop_timers_def)
  have wl: "wheel E {} bs (elem_tick w) L"
    by (rule wheel_frame[of E "{}" bs "elem_tick w" ?M]) (use lt same in \<open>auto simp: loop_timers_def\<close>)
  have ti: "timer_inv E {} ?w1 L"
    using lt wl driver_invD(1)[OF di] by (simp add: timer_inv_def loop_timers_def)
  have fr: "fresh_for E tlist ?w1" using lt by (simp add: loop_timers_def fresh_for_def)
  have di1: "driver_inv W D ?w1 L" using di by simp
  have dis: "(E \<union> set (buckets (st ?w1))) \<inter> (W \<union> D) = {}" "tlist \<notin> W \<union> D" "E \<inter> K = {}"
    using lt by (auto simp: loop_timers_def)
  obtain w' L' where t: "soft_timer_drive (script_cb (E - {x}) g) tlist ?w1 = Some w'" "timer_inv E {} w' L'" "fresh_for E tlist w'"
    "driver_inv W D w' L'" "\<forall>c\<in>W \<union> D. L' c = L c" "still K ?w1 L w' L'" "timer_mem.more w' = timer_mem.more ?w1"
    "st w' = (st ?w1)\<lparr>tick := tick (st ?w1) + 1\<rparr>" "prefix (firings x ?w1) (firings x w')"
    "armed ?w1 L x \<longrightarrow> (if ticks_left x ?w1 = 1 then firings x w' = firings x ?w1 @ [elem_tick ?w1 x]
       else firings x w' = firings x ?w1 \<and> armed w' L' x \<and> elem_tick w' x = elem_tick ?w1 x
         \<and> ticks_left x ?w1 = Suc (ticks_left x w'))"
    using drive_in_loop[where x = x and g = g, OF ti fr di1 dis] by blast
  have w1: "firings x ?w1 = firings x w" "armed ?w1 L x = armed w L x" "ticks_left x ?w1 = ticks_left x w"
    "elem_tick ?w1 x = elem_tick w x" "st ?w1 = st w" "watchers ?w1 = watchers w" "calls ?w1 = calls w" "bufs ?w1 = bufs w" "nets ?w1 = nets w"
    by (simp_all add: firings_def armed_def ticks_left_def)
  note m = more_same[OF t(7), unfolded w1]
  note t' = t(8-10)[unfolded w1]
  let ?M' = "driver_others W d rl L'"
  have same': "?M' c = L' c" if "c \<in> E \<union> set bs" for c
  proof -
    have "c \<notin> W \<union> D" using that lt unfolding loop_timers_def by blast
    then show ?thesis by (simp add: driver_others_def D)
  qed
  have b': "buckets (st w') = bs" using t'(1) b by simp
  have ar: "armed w ?M x = armed w L x" by (rule armed_others) (use same b in auto)
  have ar': "armed w' ?M' x = armed w' L' x" by (rule armed_others) (use same' b' in auto)
  have "loop_timers E bs (W \<union> D) K tlist w' ?M'"
  proof -
    have "wheel E {} bs (elem_tick w') ?M'"
      by (rule wheel_frame[of E "{}" bs "elem_tick w'" L']) (use timer_invD(4)[OF t(2)] b' same' in auto)
    then show ?thesis using lt t(3) timer_invD(2,3)[OF t(2)] b' by (simp add: loop_timers_def)
  qed
  moreover have "on_time c0 tk x n F T w' ?M'"
  proof -
    have c: "firings x (w\<lparr>calls := cs\<rparr>) = firings x w" "armed (w\<lparr>calls := cs\<rparr>) ?M x = armed w L x"
      "ticks_left x (w\<lparr>calls := cs\<rparr>) = ticks_left x w" "elem_tick (w\<lparr>calls := cs\<rparr>) x = elem_tick w x"
      "st (w\<lparr>calls := cs\<rparr>) = st w"
      using ar by (simp_all add: firings_def armed_def ticks_left_def)
    obtain ds where ds: "calls (w\<lparr>calls := cs\<rparr>) = c0 @ ds" "tick (st w) = tk + of_nat (ticks_in ds)"
      "if ticks_in ds < n then firings x w = F \<and> armed w L x \<and> elem_tick w x = T \<and> ticks_left x w = n - ticks_in ds
        else prefix (F @ [T]) (firings x w)" "ticks_in ds = n \<longrightarrow> firings x w = F @ [T]"
      using ot unfolding on_time_def c by blast
    let ?ds = "ds @ [(p, wt, e)]"
    have k: "ticks_in ?ds = ticks_in ds + 1" using cs(2) by simp
    have 1: "calls w' = c0 @ ?ds" using cs(1) ds(1) m(2) by simp
    have 2: "tick (st w') = tk + of_nat (ticks_in ?ds)" using t'(1) ds(2) k by simp
    have 3: "if ticks_in ?ds < n then firings x w' = F \<and> armed w' ?M' x \<and> elem_tick w' x = T \<and> ticks_left x w' = n - ticks_in ?ds
        else prefix (F @ [T]) (firings x w')"
    proof (cases "ticks_in ds < n")
      case True
      then have a: "firings x w = F" "armed w L x" "elem_tick w x = T" "ticks_left x w = n - ticks_in ds" using ds(3) by simp_all
      note s = mp[OF t'(3) a(2)]
      show ?thesis
      proof (cases "ticks_in ?ds < n")
        case less: True
        then have "ticks_left x w \<noteq> 1" using a(4) k by simp
        then have s': "firings x w' = firings x w" "armed w' L' x" "elem_tick w' x = elem_tick w x" "ticks_left x w = Suc (ticks_left x w')"
          using s by simp_all
        have "ticks_left x w' = n - ticks_in ?ds" using s'(4) a(4) unfolding k by linarith
        then show ?thesis using less s'(1-3) a unfolding ar' by simp
      next
        case False
        then have "ticks_left x w = 1" using True a(4) k by simp
        then show ?thesis using s a False by simp
      qed
    next
      case False
      then have "prefix (F @ [T]) (firings x w')" using ds(3) t'(2) prefix_order.trans by auto
      then show ?thesis using False k by simp
    qed
    have 4: "ticks_in ?ds = n \<longrightarrow> firings x w' = F @ [T]"
    proof
      assume "ticks_in ?ds = n"
      then have l: "ticks_in ds < n" "n - ticks_in ds = 1" using k by simp_all
      then have a: "firings x w = F" "armed w L x" "elem_tick w x = T" "ticks_left x w = 1" using ds(3) by simp_all
      then show "firings x w' = F @ [T]" using mp[OF t'(3) a(2)] by simp
    qed
    show ?thesis unfolding on_time_def using 1 2 3 4 by blast
  qed
  ultimately have "loop_ext E bs (W \<union> D) K tlist c0 tk x n F T w' ?M'" by (simp add: loop_ext_def)
  moreover have "io_timer_tick_callback os (script_cb (E - {x}) g) tlist p e w = Some w'"
    using t(1) len by (simp add: io_timer_tick_callback_def os_do_def Let_def)
  moreover have "nets_ready W d w' {}"
    by (rule nets_ready_cong[OF rdy subset_refl]) (simp_all add: m)
  moreover have "still K w L w' L'" using t(6) by (simp add: still_def)
  ultimately show ?thesis using t(4,5) m(2) by blast
qed

section \<open>The loop\<close>

interpretation whole: net_loop "script_client W K os tc d sc" W K d rl os tc
    "loop_other os (script_cb (E - {x}) g) tlist (W - K) d f" "loop_ext E bs (W \<union> {d, rl}) K tlist c0 tk x n F T"
  for W K d rl os tc E bs tlist c0 tk x n F T
    and sc :: "net_callback \<Rightarrow> addr \<Rightarrow> io_net_event \<Rightarrow> 'a net_mem_scheme \<Rightarrow> net_call list \<times> io_net_return \<times> addr \<times> addr"
    and g :: "addr \<Rightarrow> 'a net_mem_scheme \<Rightarrow> timer_call list"
    and f :: "io_callback \<Rightarrow> addr \<Rightarrow> u8 \<Rightarrow> 'a net_mem_scheme \<Rightarrow> driver_call list"
proof (unfold_locales, goal_cases)
  case (1 p e w L q cs)
  let ?c = "callback (watchers w p)"
  have inv: "driver_inv W (insert d {rl}) w L" using 1(5) by simp
  show ?case
  proof (cases "?c = Io_timer_tick_callback")
    case True
    obtain w' L' where t: "io_timer_tick_callback os (script_cb (E - {x}) g) tlist p e w = Some w'" "driver_inv W {d, rl} w' L'"
      "calls w' = calls w" "\<forall>c\<in>W \<union> {d, rl}. L' c = L c" "nets_ready W d w' {}"
      "loop_ext E bs (W \<union> {d, rl}) K tlist c0 tk x n F T w' (driver_others W d rl L')" "still K w L w' L'"
      using tick_in_loop[where g = g, OF 1(1,5) refl 1(9) True 1(8,11)] by blast
    have "L' rl = Some q" using t(4) 1(6) by simp
    moreover have "still (K - {p}) w L w' L'" by (rule still_mono[OF t(7)]) auto
    ultimately show ?thesis using t(1-3,5,6) True by (auto simp: loop_other_def)
  next
    case False
    let ?X = "{y \<in> insert p (W - K). callback (watchers w y) \<notin> net_callbacks}"
    let ?cs = "filter (\<lambda>a. driver_call_on a \<in> insert p (W - K) \<and> callback (watchers w (driver_call_on a)) \<notin> net_callbacks \<and> keeps_off a)
        (f ?c p e w)"
    have X: "?X \<subseteq> W" using 1(3) by auto
    have on: "\<forall>a\<in>set ?cs. driver_call_on a \<in> ?X \<and> keeps_off a" by auto
    have dR: "d \<notin> {rl}" using 1(2) by simp
    obtain w' L' where t: "do_driver_calls d ?cs w = Some w'" "driver_effect W d {rl} ?X w L w' L'"
      "\<forall>y\<in>?X. callback (watchers w' y) \<notin> net_callbacks"
      using do_driver_calls_callbacks[OF inv X dR on] by blast
    have e: "io_effect W d {rl} ?X w L w' L'" by (rule io_effect_driver[OF t(2)])
    have i: "driver_inv W {d, rl} w' L'" using io_effect_inv[OF e] by simp
    have fr: "calls w' = calls w" "dom (lheap w') = dom (lheap w)" "st w' = st w" "elem_tick w' = elem_tick w" "fired w' = fired w"
      "\<And>c. c \<notin> W \<union> {d, rl} \<Longrightarrow> L' c = L c" "\<exists>q'. L' rl = Some q' \<and> subseq q' q" "still (- ?X) w L w' L'"
      using e 1(6) by (auto simp: io_effect_def)
    have st: "still (K - {p}) w L w' L'" by (rule still_mono[OF fr(8)]) auto
    have o: "driver_others W d rl L' = driver_others W d rl L"
      using fr(6) by (intro ext) (simp add: driver_others_def restrict_map_def)
    obtain hw where w': "w' = w\<lparr>lheap := lheap w', watchers := hw\<rparr>" using t(2) unfolding driver_effect_def by auto
    have nb: "nets w' = nets w" "bufs w' = bufs w" by (subst w', simp)+
    have "nets_ready W d w' {}" unfolding nets_ready_def
    proof (intro ballI impI)
      fix y assume y: "y \<in> W - {}" "event_listening (watchers w' y) \<noteq> 0"
      show "ready_for d w' y (callback (watchers w' y))"
      proof (cases "y \<in> ?X")
        case True
        then show ?thesis using t(3) ready_for_other by blast
      next
        case False
        then have "watchers w' y = watchers w y" using fr(8) by (simp add: still_def)
        then show ?thesis using 1(8) y ready_for_cong[of w' y w d] unfolding nets_ready_def by (simp add: nb)
      qed
    qed
    moreover have "loop_ext E bs (W \<union> {d, rl}) K tlist c0 tk x n F T w' (driver_others W d rl L')"
      unfolding o by (rule loop_ext_frame[OF 1(11) _ False fr(3-5)]) (use fr(1,2) 1(9) in \<open>auto simp: domIff\<close>)
    ultimately show ?thesis using t(1) i fr(1,7) st False by (auto simp: loop_other_def)
  qed
next
  case (2 w cs p e L X w' L')
  have "callback (watchers w p) \<noteq> Io_timer_tick_callback" using 2(2) by (auto simp: net_callbacks_def)
  note f = loop_ext_frame[OF 2(3) _ this, of w' p e]
  have fr: "calls w' = calls w" "dom (lheap w') = dom (lheap w)" "st w' = st w" "elem_tick w' = elem_tick w" "fired w' = fired w"
    "\<And>c. c \<notin> W \<union> {d, rl} \<Longrightarrow> L' c = L c" using 2(4) by (auto simp: io_effect_def)
  have "driver_others W d rl L' = driver_others W d rl L"
    using fr(6) by (intro ext) (simp add: driver_others_def restrict_map_def)
  then show ?case using f fr(1-5) 2(1) by (auto simp: domIff)
next
  case (3 w M h)
  have "tlist \<noteq> rl" using 3(1) by (auto simp: loop_ext_def loop_timers_def)
  then have "h tlist = None \<longleftrightarrow> lheap w tlist = None" using 3(2) by (auto simp: domIff)
  then show ?case by (intro loop_ext_heap[OF 3(1)]) simp_all
qed

text \<open>The program's main loop: one pass after another; the answers of \<open>select\<close> differ from pass to pass.\<close>

fun event_loop ::
  "(io_callback \<Rightarrow> addr \<Rightarrow> u8 \<Rightarrow> 'a driver_mem_scheme \<Rightarrow> 'a driver_mem_scheme option) \<Rightarrow> addr \<Rightarrow> addr \<Rightarrow>
   'a driver_mem_scheme select_fun list \<Rightarrow> 'a driver_mem_scheme \<Rightarrow> 'a driver_mem_scheme option" where
  "event_loop dispatch rl d [] w = Some w"
| "event_loop dispatch rl d (select # ss) w = do { w \<leftarrow> io_driver_run dispatch select rl d w; event_loop dispatch rl d ss w }"

context driver_client
begin

lemma loop_ok:
  assumes "rl \<noteq> NULL"
  shows "driver_inv W {d} w L \<Longrightarrow> lheap w rl = None \<Longrightarrow> ext w (driver_others W d rl L) \<Longrightarrow>
    \<exists>w' L'. event_loop dispatch rl d ss w = Some w' \<and> driver_inv W {d} w' L' \<and> ext w' (driver_others W d rl L')"
proof (induction ss arbitrary: w L)
  case Nil
  then show ?case by auto
next
  case (Cons s ss)
  obtain xs where xs: "L d = Some xs" using driver_okD(2)[OF driver_invD(2)[OF Cons.prems(1)], of d] by auto
  obtain w1 L1 where 1: "io_driver_run dispatch s rl d w = Some w1" "driver_inv W {d} w1 L1" "lheap w1 rl = None"
    "ext w1 (driver_others W d rl L1)"
    using run_ok[OF Cons.prems(1,2) assms xs Cons.prems(3), of s] by blast
  then show ?case using Cons.IH[OF 1(2-4)] by simp
qed

end

section \<open>Properties\<close>

text \<open>A state in which the loop may run, with the timers \<open>E\<close>; \<open>rl\<close> and \<open>tlist\<close> are the local lists.\<close>

definition loop_ready ::
  "addr set \<Rightarrow> addr set \<Rightarrow> addr \<Rightarrow> addr \<Rightarrow> addr set \<Rightarrow> addr \<Rightarrow> 'a net_mem_scheme \<Rightarrow> family \<Rightarrow> bool" where
  "loop_ready W K d rl E tlist w L \<longleftrightarrow> driver_inv W {d} w L \<and> lheap w rl = None \<and> rl \<noteq> NULL \<and> nets_ready W d w {}
     \<and> timer_inv E {} w L \<and> fresh_for E tlist w \<and> tlist \<noteq> rl \<and> (E \<union> set (buckets (st w))) \<inter> (W \<union> {d}) = {} \<and> K \<subseteq> W"

lemma in_dom: "heap_lists h L \<Longrightarrow> a \<in> cells L \<Longrightarrow> a \<in> dom h"
  unfolding cells_def using listsD(2) ring_dom by blast

lemma driver_others_out: "c \<notin> W \<union> {d, rl} \<Longrightarrow> driver_others W d rl L c = L c"
  by (simp add: driver_others_def)

lemma wheel_cells:
  assumes "timer_inv E {} w L" "c \<in> E \<union> set (buckets (st w))"
  shows "c \<in> cells L"
proof (cases "c \<in> E")
  case True
  show ?thesis by (rule wheel_elem[OF timer_invD(4)[OF assms(1)] True]) (auto simp: cells_def)
next
  case False
  then obtain i where i: "i < 8" "c = buckets (st w) ! i"
    using assms(2) timer_invD(4)[OF assms(1)] by (auto simp: wheel_def in_set_conv_nth)
  then obtain xs where "L c = Some xs" using wheel_bucket(2)[OF timer_invD(4)[OF assms(1)] i(1)] by blast
  then show ?thesis by (auto simp: cells_def)
qed

lemma started:
  fixes w :: "'a net_mem_scheme"
  assumes rdy: "loop_ready W K d rl E tlist w L" and x: "x \<in> E" "L x = Some []" and ms: "0 \<le> ms" "ms \<le> INT_MAX"
  shows "\<exists>w1 L1. io_timer_start x ms w = Some w1 \<and> driver_inv W {d} w1 L1 \<and> lheap w1 rl = None \<and> nets_ready W d w1 {}
    \<and> calls w1 = calls w
    \<and> loop_ext E (buckets (st w)) (W \<union> {d, rl}) K tlist (calls w) (tick (st w)) x (drives_until (tick_rate (st w)) ms)
        (firings x w) (tick (st w) + ticks_of (tick_rate (st w)) ms) w1 (driver_others W d rl L1)"
proof -
  have inv: "driver_inv W {d} w L" "timer_inv E {} w L" "lheap w rl = None" "rl \<noteq> NULL" "nets_ready W d w {}" "fresh_for E tlist w"
    "tlist \<noteq> rl" "(E \<union> set (buckets (st w))) \<inter> (W \<union> {d}) = {}" "K \<subseteq> W" using rdy by (auto simp: loop_ready_def)
  let ?t = "tick (st w) + ticks_of (tick_rate (st w)) ms" and ?bs = "buckets (st w)"
  let ?b = "?bs ! slot ?t"
  obtain h xs where a: "soft_timer_add x ms w = Some (w\<lparr>lheap := h, elem_tick := (elem_tick w)(x := ?t)\<rparr>)"
    "timer_inv E {} (w\<lparr>lheap := h, elem_tick := (elem_tick w)(x := ?t)\<rparr>) (L(x := None, ?b \<mapsto> xs @ [x]))"
    "dom h = dom (lheap w)"
    using soft_timer_add_idle[OF inv(2) x, of ms] ms by (auto simp: int_range_def INT_MIN_def)
  let ?w1 = "w\<lparr>lheap := h, elem_tick := (elem_tick w)(x := ?t)\<rparr>" and ?L1 = "L(x := None, ?b \<mapsto> xs @ [x])"
  have b: "?b \<in> set ?bs" using wheel_bucket(1)[OF timer_invD(4)[OF inv(2)] slot_less] .
  have same: "?L1 c = L c" if "c \<in> W \<union> {d}" for c using that inv(8) b x(1) by auto
  have "driver_ok W {d} (watchers w) ?L1" by (rule driver_ok_frame[OF driver_invD(2)[OF inv(1)] same])
  then have i1: "driver_inv W {d} ?w1 ?L1" using timer_invD(1)[OF a(2)] by (simp add: driver_inv_def)
  have h0: "h rl = None" "h tlist = None" using a(3) inv(3,6) by (auto simp: fresh_for_def)
  have nr: "nets_ready W d ?w1 {}" by (rule nets_ready_cong[OF inv(5) subset_refl]) simp_all
  have rl: "rl \<notin> E \<union> set ?bs" using in_dom[OF driver_invD(1)[OF inv(1)] wheel_cells[OF inv(2)]] inv(3) by blast
  have tl: "tlist \<notin> W \<union> {d}" using in_dom[OF driver_invD(1)[OF inv(1)] driver_in_cells[OF inv(1)]] inv(6)
    unfolding fresh_for_def by blast
  have dis: "c \<notin> W \<union> {d, rl}" if "c \<in> E \<union> set ?bs" for c using that inv(8) rl by auto
  have M: "driver_others W d rl ?L1 c = ?L1 c" if "c \<in> E \<union> set ?bs" for c
    by (rule driver_others_out[OF dis[OF that]])
  have "wheel E {} ?bs (elem_tick ?w1) (driver_others W d rl ?L1)"
    by (rule wheel_frame[of E "{}" ?bs "elem_tick ?w1" ?L1]) (use timer_invD(4)[OF a(2)] M in auto)
  then have "loop_timers E ?bs (W \<union> {d, rl}) K tlist ?w1 (driver_others W d rl ?L1)"
    using h0 tl inv(6,7,8,9) dis timer_invD(2,3)[OF inv(2)] unfolding loop_timers_def fresh_for_def by auto
  moreover have "on_time (calls w) (tick (st w)) x (drives_until (tick_rate (st w)) ms) (firings x w) ?t ?w1 (driver_others W d rl ?L1)"
  proof -
    have "armed ?w1 ?L1 x" using b by (auto simp: armed_def queued_def)
    moreover have "armed ?w1 (driver_others W d rl ?L1) x = armed ?w1 ?L1 x" by (rule armed_others) (use M in auto)
    moreover have tl: "ticks_left x ?w1 = drives_until (tick_rate (st w)) ms"
      using drives_until_ticks[OF ms, of "tick_rate (st w)"] timer_invD(2)[OF inv(2)] by (simp add: ticks_left_def)
    moreover have "firings x ?w1 = firings x w" by (simp add: firings_def)
    moreover have "0 < drives_until (tick_rate (st w)) ms" unfolding tl[symmetric] by (simp add: ticks_left_def)
    ultimately show ?thesis unfolding on_time_def by (intro exI[of _ "[]"]) simp
  qed
  ultimately have "loop_ext E ?bs (W \<union> {d, rl}) K tlist (calls w) (tick (st w)) x (drives_until (tick_rate (st w)) ms)
        (firings x w) ?t ?w1 (driver_others W d rl ?L1)" by (simp add: loop_ext_def)
  moreover have "io_timer_start x ms w = Some ?w1" using a(1) by (simp add: io_timer_start_def)
  moreover have "lheap ?w1 rl = None" "calls ?w1 = calls w" using h0 by simp_all
  ultimately show ?thesis using i1 nr by blast
qed

text \<open>The start of a timer, and then any number of passes.\<close>

lemma loop_runs:
  fixes w :: "'a net_mem_scheme" and ss :: "'a net_mem_scheme select_fun list"
  assumes "os_ok os" "loop_ready W K d rl E tlist w L" "x \<in> E" "L x = Some []" "0 \<le> ms" "ms \<le> INT_MAX"
  shows "\<exists>w1 w' L'. io_timer_start x ms w = Some w1
    \<and> event_loop (net_dispatch os tc (script_client W K os tc d sc) (loop_other os (script_cb (E - {x}) g) tlist (W - K) d f)) rl d ss w1
        = Some w'
    \<and> driver_inv W {d} w' L' \<and> nets_ready W d w' {}
    \<and> loop_ext E (buckets (st w)) (W \<union> {d, rl}) K tlist (calls w) (tick (st w)) x (drives_until (tick_rate (st w)) ms)
        (firings x w) (tick (st w) + ticks_of (tick_rate (st w)) ms) w' (driver_others W d rl L')"
proof -
  let ?n = "drives_until (tick_rate (st w)) ms" and ?T = "tick (st w) + ticks_of (tick_rate (st w)) ms"
  obtain w1 L1 where 1: "io_timer_start x ms w = Some w1" "driver_inv W {d} w1 L1" "lheap w1 rl = None" "nets_ready W d w1 {}"
    "calls w1 = calls w"
    "loop_ext E (buckets (st w)) (W \<union> {d, rl}) K tlist (calls w) (tick (st w)) x ?n (firings x w) ?T w1 (driver_others W d rl L1)"
    using started[OF assms(2-6)] by blast
  have rl: "rl \<noteq> NULL" using assms(2) by (simp add: loop_ready_def)
  obtain w' L' where w': "event_loop (net_dispatch os tc (script_client W K os tc d sc)
        (loop_other os (script_cb (E - {x}) g) tlist (W - K) d f)) rl d ss w1 = Some w'"
    "driver_inv W {d} w' L'" "nets_ready W d w' {}"
    "loop_ext E (buckets (st w)) (W \<union> {d, rl}) K tlist (calls w) (tick (st w)) x ?n (firings x w) ?T w' (driver_others W d rl L')"
    using whole.service.loop_ok[OF rl 1(2,3), of os E "buckets (st w)" K tlist "calls w" "tick (st w)" x ?n "firings x w" ?T]
      assms(1) 1(4,6) by blast
  then show ?thesis using 1(1) by blast
qed

text \<open>C2: The whole program is safe and a timer fires on time. With any number of passes of the event
  loop, whatever \<open>select\<close> and the system answer and whatever calls the clients of the network, the other
  timers and the user's callbacks make within the rules of the interfaces, every pass returns, the lists of the driver
  stay well formed and every watched connection stays ready for its callback; the counter has advanced by
  exactly the number of calls of the tick callback; and a timer that was started with \<open>ms\<close> milliseconds has not
  fired while fewer than \<open>ms\<close> divided by the tick, rounded up, of these calls were made, and fires
  exactly at that one.\<close>

theorem event_loop_fires_on_time:
  fixes w :: "'a net_mem_scheme" and ss :: "'a net_mem_scheme select_fun list"
  assumes "os_ok os" "loop_ready W K d rl E tlist w L" "x \<in> E" "L x = Some []" "0 \<le> ms" "ms \<le> INT_MAX"
  shows "\<exists>w1 w' L' cs. io_timer_start x ms w = Some w1
    \<and> event_loop (net_dispatch os tc (script_client W K os tc d sc) (loop_other os (script_cb (E - {x}) g) tlist (W - K) d f)) rl d ss w1
        = Some w'
    \<and> driver_inv W {d} w' L' \<and> nets_ready W d w' {} \<and> calls w' = calls w @ cs
    \<and> tick (st w') = tick (st w) + of_nat (ticks_in cs)
    \<and> (ticks_in cs < drives_until (tick_rate (st w)) ms \<longrightarrow> firings x w' = firings x w)
    \<and> (ticks_in cs = drives_until (tick_rate (st w)) ms \<longrightarrow>
        firings x w' = firings x w @ [tick (st w) + ticks_of (tick_rate (st w)) ms])"
proof -
  let ?n = "drives_until (tick_rate (st w)) ms" and ?T = "tick (st w) + ticks_of (tick_rate (st w)) ms"
  obtain w1 w' L' where w': "io_timer_start x ms w = Some w1"
    "event_loop (net_dispatch os tc (script_client W K os tc d sc)
        (loop_other os (script_cb (E - {x}) g) tlist (W - K) d f)) rl d ss w1 = Some w'"
    "driver_inv W {d} w' L'" "nets_ready W d w' {}"
    "loop_ext E (buckets (st w)) (W \<union> {d, rl}) K tlist (calls w) (tick (st w)) x ?n (firings x w) ?T w' (driver_others W d rl L')"
    using loop_runs[OF assms] by blast
  obtain cs where "calls w' = calls w @ cs" "tick (st w') = tick (st w) + of_nat (ticks_in cs)"
    "if ticks_in cs < ?n then firings x w' = firings x w \<and> armed w' (driver_others W d rl L') x \<and> elem_tick w' x = ?T
       \<and> ticks_left x w' = ?n - ticks_in cs else prefix (firings x w @ [?T]) (firings x w')"
    "ticks_in cs = ?n \<longrightarrow> firings x w' = firings x w @ [?T]"
    using w'(5) unfolding loop_ext_def on_time_def by blast
  then show ?thesis using w'(1-4) by (intro exI[of _ w1] exI[of _ w'] exI[of _ L'] exI[of _ cs]) simp
qed

section \<open>A concrete instance\<close>

lemma demo_loop_ready: "loop_ready {30, 31} {30} 20 99 {10} 98 demo_net demo_net_lists"
proof -
  have "timer_inv {10} {} demo_net demo_net_lists"
    using demo_net_heap by (simp add: timer_inv_def wheel_def demo_net_list demo_net_def int_range_def INT_MIN_def INT_MAX_def)
  moreover have "nets_ready {30, 31} 20 demo_net {}" by (simp add: nets_ready_def demo_net_def)
  ultimately show ?thesis using demo_net_inv[OF disjI1[OF refl]]
    by (auto simp: loop_ready_def fresh_for_def demo_net_def idle_heap_def NULL_def)
qed

text \<open>The same with the tick descriptor 4 registered, and \<open>select\<close> reporting it ready in each of three passes.\<close>

declare list_for_each.simps [code] list_for_each_safe.simps [code] while_not_empty.simps [code]

definition demo_ticking :: net_mem where
  "demo_ticking = the (do {
     w \<leftarrow> io_driver_watcher_init 31 4 Io_timer_tick_callback demo_net;
     io_driver_watch 20 31 IO_DRIVER_EVENT_RX w
   })"

definition demo_select :: "net_mem select_fun" where
  "demo_select = (\<lambda>_ _ _ _ _. (1, {4}, {}, {}))"

lemma demo_ticking_ready: "\<exists>L. loop_ready {30, 31} {30} 20 99 {10} 98 demo_ticking L \<and> L 10 = Some []"
proof -
  note r = demo_loop_ready[unfolded loop_ready_def]
  have dR: "(20 :: addr) \<notin> {}" by simp
  obtain w1 where 1: "io_driver_watcher_init 31 4 Io_timer_tick_callback demo_net = Some w1"
    "driver_effect {30, 31} 20 {} {31} demo_net demo_net_lists w1 demo_net_lists"
    "watchers w1 31 = \<lparr>wfd = 4, event_listening = 0, callback = Io_timer_tick_callback\<rparr>"
    using io_driver_watcher_init_effect[of "{30, 31}" 20 "{}" demo_net demo_net_lists 31 "{31}" 4 Io_timer_tick_callback]
      demo_net_inv[OF disjI1[OF refl]] by (auto simp: demo_net_def FD_SETSIZE_def)
  then have "driver_inv {30, 31} {20} w1 demo_net_lists" by (simp add: driver_effect_def)
  then obtain w2 L where 2: "io_driver_watch 20 31 IO_DRIVER_EVENT_RX w1 = Some w2"
    "driver_effect {30, 31} 20 {} {31} w1 demo_net_lists w2 L"
    "watchers w2 31 = (watchers w1 31)\<lparr>event_listening := event_listening (watchers w1 31) OR IO_DRIVER_EVENT_RX\<rparr>"
    using io_driver_watch_effect[of "{30, 31}" 20 "{}" w1 demo_net_lists 31 "{31}" IO_DRIVER_EVENT_RX] by auto
  have w: "demo_ticking = w2" using 1(1) 2(1) by (simp add: demo_ticking_def)
  obtain h ws where e: "w2 = demo_net\<lparr>lheap := h, watchers := ws\<rparr>" "dom h = dom (lheap demo_net)"
    using 1(2) 2(2) by (fastforce simp: driver_effect_def)
  have i: "driver_inv {30, 31} {20} w2 L" and L: "\<And>c. c \<notin> {30, 31, 20} \<Longrightarrow> L c = demo_net_lists c"
    using 2(2) by (simp_all add: driver_effect_def)
  have "wheel {10} {} (buckets (st demo_net)) (elem_tick demo_net) L"
    by (rule wheel_frame[OF timer_invD(4)[of "{10}" "{}" demo_net demo_net_lists]]) (use r L in \<open>auto simp: demo_net_def\<close>)
  then have t: "timer_inv {10} {} w2 L" using driver_invD(1)[OF i] r by (simp add: timer_inv_def e(1))
  have "watchers w2 30 = watchers demo_net 30" using 1(2) 2(2) by (simp add: driver_effect_def still_def)
  then have "nets_ready {30, 31} 20 w2 {}"
    using 1(3) 2(3) by (auto simp: nets_ready_def demo_net_def intro: ready_for_other simp: net_callbacks_def)
  moreover have "h 99 = None" "h 98 = None" using r e(2) by (auto simp: fresh_for_def)
  ultimately have "loop_ready {30, 31} {30} 20 99 {10} 98 w2 L"
    using i t r by (simp add: loop_ready_def fresh_for_def e(1))
  moreover have "L 10 = Some []" using L[of 10] by (simp add: demo_net_list)
  ultimately show ?thesis unfolding w by blast
qed

text \<open>The timer, started for 25 milliseconds at tick 5 of 10 milliseconds each, fires at tick 8.\<close>

theorem event_loop_fires_on_time_witness:
  "\<exists>w1 w' cs. io_timer_start 10 25 demo_ticking = Some w1
    \<and> event_loop (net_dispatch demo_os demo_codes (script_client {30, 31} {30} demo_os demo_codes 20 (\<lambda>_ _ _ _. ([Net_close 30], io_net_return_stop, 0, 0)))
        (loop_other demo_os (script_cb ({10} - {10}) (\<lambda>_ _. [])) 98 ({30, 31} - {30}) 20 (\<lambda>_ _ _ _. [])))
        99 20 [demo_select, demo_select, demo_select] w1 = Some w'
    \<and> calls w' = cs \<and> ticks_in cs = 3 \<and> tick (st w') = 8 \<and> firings 10 w' = [8]"
proof -
  let ?run = "\<lambda>w1. event_loop (net_dispatch demo_os demo_codes (script_client {30, 31} {30} demo_os demo_codes 20 (\<lambda>_ _ _ _. ([Net_close 30], io_net_return_stop, 0, 0)))
        (loop_other demo_os (script_cb ({10} - {10}) (\<lambda>_ _. [])) 98 ({30, 31} - {30}) 20 (\<lambda>_ _ _ _. [])))
        99 20 [demo_select, demo_select, demo_select] w1"
  have three: "map_option (\<lambda>w. ticks_in (calls w)) (do { w1 \<leftarrow> io_timer_start 10 25 demo_ticking; ?run w1 }) = Some 3"
    by code_simp
  have d: "calls demo_ticking = []" "tick (st demo_ticking) = 5" "tick_rate (st demo_ticking) = 10" "fired demo_ticking = []"
    by code_simp+
  obtain L where L: "loop_ready {30, 31} {30} 20 99 {10} 98 demo_ticking L" "L 10 = Some []"
    using demo_ticking_ready by blast
  have n: "drives_until 10 25 = 3" "5 + ticks_of 10 25 = 8" by (simp_all add: drives_until_def ticks_of_ceiling)
  obtain w1 w' cs where r: "io_timer_start 10 25 demo_ticking = Some w1" "?run w1 = Some w'" "calls w' = calls demo_ticking @ cs"
    "tick (st w') = tick (st demo_ticking) + of_nat (ticks_in cs)"
    "ticks_in cs = drives_until (tick_rate (st demo_ticking)) 25 \<longrightarrow>
      firings 10 w' = firings 10 demo_ticking @ [tick (st demo_ticking) + ticks_of (tick_rate (st demo_ticking)) 25]"
    using event_loop_fires_on_time[OF demo_os_ok L(1) insertI1 L(2), of 25 demo_codes
      "\<lambda>_ _ _ _. ([Net_close 30], io_net_return_stop, 0, 0)" "\<lambda>_ _. []" "\<lambda>_ _ _ _. []" "[demo_select, demo_select, demo_select]"]
    by (auto simp: INT_MAX_def)
  have "ticks_in cs = 3" using three r(1-3) d(1) by simp
  then show ?thesis using r d n by (simp add: firings_def)
qed

end
