(* ===== verification/Telnet_Reader.thy ===== *)
theory Telnet_Reader
  imports Prelude
begin

text \<open>
  The telnet protocol reader of \<open>src/src/telnet_reader.h\<close> and \<open>src/src/telnet_reader.c\<close>, with
  the protocol constants it takes from \<open>src/src/telnet.h\<close>.

  The reader is part of a larger state: \<open>get\<close> and \<open>put\<close> read it and write it there. The two
  callbacks are functions on that state and may change all of it, the reader included. A write
  outside the 32 byte buffer is undefined.

  The specification is a language of protocol items with its encoding; the reader is shown to
  read back exactly the items that were encoded.
\<close>

section \<open>State and operations\<close>

definition IAC :: u8 where "IAC = 255"
definition DONT :: u8 where "DONT = 254"
definition DO :: u8 where "DO = 253"
definition WONT :: u8 where "WONT = 252"
definition WILL :: u8 where "WILL = 251"
definition SB :: u8 where "SB = 250"
definition SE :: u8 where "SE = 240"

lemmas telnet_codes = IAC_def DONT_def DO_def WONT_def WILL_def SB_def SE_def

definition TELNET_READER_BUFFER_SIZE :: nat where
  "TELNET_READER_BUFFER_SIZE = 32"

datatype telnet_reader_state =
    telnet_reader_state_start
  | telnet_reader_state_rx_iac
  | telnet_reader_state_rx_do_dont_will_wont
  | telnet_reader_state_rx_sb
  | telnet_reader_state_wait_for_se

record telnet_reader =
  tr_buffer :: bytes
  buf_ndx :: u8
  tr_state :: telnet_reader_state
  command :: u8
  tr_opt :: u8

definition telnet_reader_move_state :: "telnet_reader_state \<Rightarrow> telnet_reader \<Rightarrow> telnet_reader" where
  "telnet_reader_move_state s tr = tr\<lparr>tr_state := s\<rparr>"

definition telnet_reader_handle_command :: "u8 \<Rightarrow> telnet_reader \<Rightarrow> bool \<times> telnet_reader" where
  "telnet_reader_handle_command d tr =
     (let tr = tr\<lparr>command := d\<rparr>
      in if d = DO \<or> d = DONT \<or> d = WILL \<or> d = WONT
         then (True, telnet_reader_move_state telnet_reader_state_rx_do_dont_will_wont tr)
         else if d = SB then (True, telnet_reader_move_state telnet_reader_state_rx_sb (tr\<lparr>buf_ndx := 0\<rparr>))
         else (False, tr))"

definition telnet_reader_handle_subcommand :: "u8 \<Rightarrow> telnet_reader \<Rightarrow> (bool \<times> telnet_reader) option" where
  "telnet_reader_handle_subcommand d tr =
     (if d = IAC then Some (True, telnet_reader_move_state telnet_reader_state_wait_for_se tr)
      else if unat (buf_ndx tr) < TELNET_READER_BUFFER_SIZE
      then (if unat (buf_ndx tr) < length (tr_buffer tr)
            then Some (True, tr\<lparr>tr_buffer := (tr_buffer tr)[unat (buf_ndx tr) := d], buf_ndx := buf_ndx tr + 1\<rparr>)
            else None)
      else Some (False, tr))"

definition telnet_reader_state_machine ::
  "('s \<Rightarrow> telnet_reader) \<Rightarrow> (telnet_reader \<Rightarrow> 's \<Rightarrow> 's) \<Rightarrow> (u8 \<Rightarrow> 's \<Rightarrow> (int \<times> 's) option) \<Rightarrow>
   ('s \<Rightarrow> (int \<times> 's) option) \<Rightarrow> u8 \<Rightarrow> 's \<Rightarrow> (int \<times> 's) option" where
  "telnet_reader_state_machine get put databack cmdback d s =
     (let move = (\<lambda>x s. put (telnet_reader_move_state x (get s)) s)
      in case tr_state (get s) of
        telnet_reader_state_start \<Rightarrow>
          if d = IAC then Some (0, move telnet_reader_state_rx_iac s)
          else databack d s
      | telnet_reader_state_rx_iac \<Rightarrow>
          if d = IAC then databack IAC (move telnet_reader_state_start s)
          else (let (ok, tr) = telnet_reader_handle_command d (get s); s = put tr s
                in Some (0, if ok then s else move telnet_reader_state_start s))
      | telnet_reader_state_rx_do_dont_will_wont \<Rightarrow> do {
          let s = put ((get s)\<lparr>tr_opt := d\<rparr>) s;
          (ret, s) \<leftarrow> cmdback s;
          Some (ret, move telnet_reader_state_start s)
        }
      | telnet_reader_state_rx_sb \<Rightarrow> do {
          (ok, tr) \<leftarrow> telnet_reader_handle_subcommand d (get s);
          let s = put tr s;
          Some (0, if ok then s else move telnet_reader_state_start s)
        }
      | telnet_reader_state_wait_for_se \<Rightarrow> do {
          (ret, s) \<leftarrow> (if d = SE then cmdback s else Some (0, s));
          Some (ret, move telnet_reader_state_start s)
        })"

definition telnet_reader_init :: "telnet_reader \<Rightarrow> telnet_reader" where
  "telnet_reader_init tr = tr\<lparr>tr_state := telnet_reader_state_start, buf_ndx := 0\<rparr>"

definition telnet_reader_deinit :: "telnet_reader \<Rightarrow> telnet_reader" where
  "telnet_reader_deinit tr = tr"

definition telnet_reader_feed ::
  "('s \<Rightarrow> telnet_reader) \<Rightarrow> (telnet_reader \<Rightarrow> 's \<Rightarrow> 's) \<Rightarrow> (u8 \<Rightarrow> 's \<Rightarrow> (int \<times> 's) option) \<Rightarrow>
   ('s \<Rightarrow> (int \<times> 's) option) \<Rightarrow> u8 \<Rightarrow> 's \<Rightarrow> (int \<times> 's) option" where
  "telnet_reader_feed get put databack cmdback c s = telnet_reader_state_machine get put databack cmdback c s"

text \<open>Feeding a received block byte by byte, until a callback asks to stop.\<close>

fun telnet_feed_block ::
  "('s \<Rightarrow> telnet_reader) \<Rightarrow> (telnet_reader \<Rightarrow> 's \<Rightarrow> 's) \<Rightarrow> (u8 \<Rightarrow> 's \<Rightarrow> (int \<times> 's) option) \<Rightarrow>
   ('s \<Rightarrow> (int \<times> 's) option) \<Rightarrow> bytes \<Rightarrow> 's \<Rightarrow> (int \<times> 's) option" where
  "telnet_feed_block get put databack cmdback [] s = Some (0, s)"
| "telnet_feed_block get put databack cmdback (b # bs) s = do {
     (ret, s) \<leftarrow> telnet_reader_feed get put databack cmdback b s;
     if ret \<noteq> 0 then Some (ret, s) else telnet_feed_block get put databack cmdback bs s
   }"

section \<open>Memory safety\<close>

definition reader_ok :: "telnet_reader \<Rightarrow> bool" where
  "reader_ok tr \<longleftrightarrow> length (tr_buffer tr) = TELNET_READER_BUFFER_SIZE \<and> unat (buf_ndx tr) \<le> TELNET_READER_BUFFER_SIZE"

lemma unat_inc: "unat (n :: u8) < 32 \<Longrightarrow> unat (n + 1) = unat n + 1"
  by (simp add: unat_word_ariths)

lemma handle_subcommand_ok:
  assumes "reader_ok tr"
  shows "\<exists>ok tr'. telnet_reader_handle_subcommand d tr = Some (ok, tr') \<and> reader_ok tr'"
  using assms unat_inc[of "buf_ndx tr"]
  by (auto simp: telnet_reader_handle_subcommand_def reader_ok_def TELNET_READER_BUFFER_SIZE_def
      telnet_reader_move_state_def)

text \<open>A client whose callbacks return and keep the reader usable.\<close>

locale reader_client =
  fixes get :: "'s \<Rightarrow> telnet_reader" and put :: "telnet_reader \<Rightarrow> 's \<Rightarrow> 's"
    and databack :: "u8 \<Rightarrow> 's \<Rightarrow> (int \<times> 's) option" and cmdback :: "'s \<Rightarrow> (int \<times> 's) option"
    and good :: "'s \<Rightarrow> bool"
  assumes good_ok: "good s \<Longrightarrow> reader_ok (get s)"
    and put_good: "good s \<Longrightarrow> reader_ok tr \<Longrightarrow> good (put tr s)"
    and databack_good: "good s \<Longrightarrow> \<exists>r s'. databack d s = Some (r, s') \<and> good s'"
    and cmdback_good: "good s \<Longrightarrow> \<exists>r s'. cmdback s = Some (r, s') \<and> good s'"
begin

lemma move_good: "good s \<Longrightarrow> good (put (telnet_reader_move_state x (get s)) s)"
  using good_ok by (intro put_good) (auto simp: reader_ok_def telnet_reader_move_state_def)

lemma feed_good:
  assumes g: "good s"
  shows "\<exists>r s'. telnet_reader_feed get put databack cmdback d s = Some (r, s') \<and> good s'"
proof (cases "tr_state (get s)")
  case telnet_reader_state_start
  then show ?thesis using databack_good[OF g] move_good[OF g]
    by (auto simp: telnet_reader_feed_def telnet_reader_state_machine_def Let_def)
next
  case telnet_reader_state_rx_iac
  obtain ok tr where hc: "telnet_reader_handle_command d (get s) = (ok, tr)" by force
  then have "reader_ok tr" using good_ok[OF g]
    by (auto simp: telnet_reader_handle_command_def reader_ok_def Let_def telnet_reader_move_state_def split: if_splits)
  then have "good (put tr s)" by (rule put_good[OF g])
  then show ?thesis using telnet_reader_state_rx_iac hc move_good databack_good[OF move_good[OF g], of IAC]
    by (auto simp: telnet_reader_feed_def telnet_reader_state_machine_def Let_def)
next
  case telnet_reader_state_rx_do_dont_will_wont
  have "good (put ((get s)\<lparr>tr_opt := d\<rparr>) s)"
    using good_ok[OF g] by (intro put_good[OF g]) (simp add: reader_ok_def)
  from cmdback_good[OF this] show ?thesis using telnet_reader_state_rx_do_dont_will_wont move_good
    by (auto simp: telnet_reader_feed_def telnet_reader_state_machine_def Let_def)
next
  case telnet_reader_state_rx_sb
  obtain ok tr where "telnet_reader_handle_subcommand d (get s) = Some (ok, tr)" "reader_ok tr"
    using handle_subcommand_ok[OF good_ok[OF g]] by blast
  then show ?thesis using telnet_reader_state_rx_sb move_good put_good[OF g]
    by (auto simp: telnet_reader_feed_def telnet_reader_state_machine_def Let_def)
next
  case telnet_reader_state_wait_for_se
  then show ?thesis using move_good g cmdback_good[OF g]
    by (auto simp: telnet_reader_feed_def telnet_reader_state_machine_def Let_def)
qed

lemma feed_block_good:
  "good s \<Longrightarrow> \<exists>r s'. telnet_feed_block get put databack cmdback bs s = Some (r, s') \<and> good s'"
proof (induction bs arbitrary: s)
  case (Cons b bs)
  obtain r s1 where "telnet_reader_feed get put databack cmdback b s = Some (r, s1)" "good s1"
    using feed_good[OF Cons.prems] by blast
  then show ?case using Cons.IH[of s1] by auto
qed simp

end

section \<open>The protocol items\<close>

datatype telnet_item = T_data u8 | T_option u8 u8 | T_sub bytes | T_ignored u8

fun encode_item :: "telnet_item \<Rightarrow> bytes" where
  "encode_item (T_data d) = (if d = IAC then [IAC, IAC] else [d])"
| "encode_item (T_option c opt) = [IAC, c, opt]"
| "encode_item (T_sub bs) = IAC # SB # bs @ [IAC, SE]"
| "encode_item (T_ignored c) = [IAC, c]"

fun item_ok :: "telnet_item \<Rightarrow> bool" where
  "item_ok (T_data d) = True"
| "item_ok (T_option c opt) = (c \<in> {DO, DONT, WILL, WONT})"
| "item_ok (T_sub bs) = (IAC \<notin> set bs \<and> length bs \<le> TELNET_READER_BUFFER_SIZE)"
| "item_ok (T_ignored c) = (c \<notin> {IAC, DO, DONT, WILL, WONT, SB})"

text \<open>What the callbacks are told: the discarded commands are not reported.\<close>

fun reported_items :: "telnet_item list \<Rightarrow> telnet_item list" where
  "reported_items [] = []"
| "reported_items (T_ignored c # xs) = reported_items xs"
| "reported_items (x # xs) = x # reported_items xs"

text \<open>The client that logs what it is told. Its state is the reader and the log.\<close>

definition put_reader :: "telnet_reader \<Rightarrow> telnet_reader \<times> telnet_item list \<Rightarrow> telnet_reader \<times> telnet_item list" where
  "put_reader tr s = (tr, snd s)"

definition log_data :: "u8 \<Rightarrow> telnet_reader \<times> telnet_item list \<Rightarrow> (int \<times> telnet_reader \<times> telnet_item list) option" where
  "log_data d s = Some (0, fst s, snd s @ [T_data d])"

definition log_cmd :: "telnet_reader \<times> telnet_item list \<Rightarrow> (int \<times> telnet_reader \<times> telnet_item list) option" where
  "log_cmd s = (let tr = fst s in Some (0, tr, snd s @
     [if command tr = SB then T_sub (take (unat (buf_ndx tr)) (tr_buffer tr)) else T_option (command tr) (tr_opt tr)]))"

definition read_block :: "bytes \<Rightarrow> telnet_reader \<times> telnet_item list \<Rightarrow> (int \<times> telnet_reader \<times> telnet_item list) option" where
  "read_block = telnet_feed_block fst put_reader log_data log_cmd"

interpretation logging: reader_client fst put_reader log_data log_cmd "\<lambda>s. reader_ok (fst s)"
  by unfold_locales (auto simp: put_reader_def log_data_def log_cmd_def Let_def)

lemma read_block_simps:
  "read_block [] s = Some (0, s)"
  "read_block (b # bs) s = do {
     (ret, s) \<leftarrow> telnet_reader_state_machine fst put_reader log_data log_cmd b s;
     if ret \<noteq> 0 then Some (ret, s) else read_block bs s }"
  by (simp_all add: read_block_def telnet_reader_feed_def cong: if_cong)

lemma read_block_append: "read_block xs s = Some (0, s') \<Longrightarrow> read_block (xs @ ys) s = read_block ys s'"
proof (induction xs arbitrary: s)
  case (Cons x xs)
  then show ?case by (auto simp: read_block_simps bind_eq_Some_conv split: if_splits)
qed (simp add: read_block_simps)

lemmas step_defs = telnet_reader_state_machine_def Let_def put_reader_def log_data_def log_cmd_def
  telnet_reader_move_state_def telnet_reader_handle_command_def

lemma read_sub_data:
  assumes "tr_state tr = telnet_reader_state_rx_sb" "reader_ok tr" "IAC \<notin> set bs"
    "unat (buf_ndx tr) + length bs \<le> TELNET_READER_BUFFER_SIZE"
  shows "\<exists>tr'. read_block bs (tr, log) = Some (0, tr', log) \<and> reader_ok tr'
    \<and> tr_state tr' = telnet_reader_state_rx_sb \<and> command tr' = command tr
    \<and> unat (buf_ndx tr') = unat (buf_ndx tr) + length bs
    \<and> take (unat (buf_ndx tr')) (tr_buffer tr') = take (unat (buf_ndx tr)) (tr_buffer tr) @ bs"
  using assms
proof (induction bs arbitrary: tr)
  case (Cons b bs)
  let ?n = "unat (buf_ndx tr)"
  let ?tr = "tr\<lparr>tr_buffer := (tr_buffer tr)[?n := b], buf_ndx := buf_ndx tr + 1\<rparr>"
  have n: "?n < TELNET_READER_BUFFER_SIZE" "length (tr_buffer tr) = TELNET_READER_BUFFER_SIZE"
    using Cons.prems by (simp_all add: reader_ok_def)
  then have n': "unat (buf_ndx tr + 1) = ?n + 1" using unat_inc by (simp add: TELNET_READER_BUFFER_SIZE_def)
  have sub: "telnet_reader_handle_subcommand b tr = Some (True, ?tr)"
    using Cons.prems(3) n by (auto simp: telnet_reader_handle_subcommand_def)
  from sub have step: "telnet_reader_state_machine fst put_reader log_data log_cmd b (tr, log) = Some (0, ?tr, log)"
    using Cons.prems(1) by (simp add: telnet_reader_state_machine_def put_reader_def)
  have "reader_ok ?tr" using n n' by (simp add: reader_ok_def)
  from Cons.IH[of ?tr, OF _ this] obtain tr' where tr': "read_block bs (?tr, log) = Some (0, tr', log)" "reader_ok tr'"
    "tr_state tr' = telnet_reader_state_rx_sb" "command tr' = command tr"
    "unat (buf_ndx tr') = ?n + 1 + length bs"
    "take (unat (buf_ndx tr')) (tr_buffer tr') = take (?n + 1) ((tr_buffer tr)[?n := b]) @ bs"
    using Cons.prems n' by auto
  moreover have "take (?n + 1) ((tr_buffer tr)[?n := b]) = take ?n (tr_buffer tr) @ [b]"
    using n by (simp add: take_Suc_conv_app_nth)
  ultimately show ?case using step by (simp add: read_block_simps)
qed (simp add: read_block_simps)

lemma read_item:
  assumes "tr_state tr = telnet_reader_state_start" "reader_ok tr" "item_ok x"
  shows "\<exists>tr'. read_block (encode_item x) (tr, log) = Some (0, tr', log @ reported_items [x])
    \<and> reader_ok tr' \<and> tr_state tr' = telnet_reader_state_start"
proof (cases x)
  case (T_data d)
  then show ?thesis using assms by (auto simp: read_block_simps step_defs reader_ok_def)
next
  case (T_option c opt)
  then have c: "c \<noteq> IAC" "c \<noteq> SB" "c = DO \<or> c = DONT \<or> c = WILL \<or> c = WONT" using assms(3) by (auto simp: telnet_codes)
  then show ?thesis using T_option assms(1,2) by (auto simp: read_block_simps step_defs reader_ok_def)
next
  case (T_ignored c)
  then show ?thesis using assms by (auto simp: read_block_simps step_defs reader_ok_def)
next
  case (T_sub bs)
  let ?tr = "tr\<lparr>command := SB, buf_ndx := 0, tr_state := telnet_reader_state_rx_sb\<rparr>"
  have ne: "SB \<noteq> IAC" "SB \<noteq> DO" "SB \<noteq> DONT" "SB \<noteq> WILL" "SB \<noteq> WONT" "SE \<noteq> IAC" by (simp_all add: telnet_codes)
  have 1: "read_block [IAC, SB] (tr, log) = Some (0, ?tr, log)"
    using assms(1) ne by (simp add: read_block_simps step_defs)
  obtain tr2 where 2: "read_block bs (?tr, log) = Some (0, tr2, log)" "reader_ok tr2"
    "tr_state tr2 = telnet_reader_state_rx_sb" "command tr2 = SB" "take (unat (buf_ndx tr2)) (tr_buffer tr2) = bs"
    using read_sub_data[of ?tr bs log] assms T_sub by (auto simp: reader_ok_def)
  let ?tr3 = "tr2\<lparr>tr_state := telnet_reader_state_start\<rparr>"
  have 3: "read_block [IAC, SE] (tr2, log) = Some (0, ?tr3, log @ [T_sub bs])"
    using 2(3-5) by (simp add: read_block_simps step_defs telnet_reader_handle_subcommand_def)
  have "read_block ([IAC, SB] @ bs @ [IAC, SE]) (tr, log) = Some (0, ?tr3, log @ [T_sub bs])"
    using read_block_append[OF 1] read_block_append[OF 2(1)] 3 by simp
  then show ?thesis using T_sub 2(2) by (auto simp: reader_ok_def)
qed

lemma reported_items_append: "reported_items (xs @ ys) = reported_items xs @ reported_items ys"
  by (induction xs rule: reported_items.induct) auto

lemma read_items:
  assumes "tr_state tr = telnet_reader_state_start" "reader_ok tr" "\<forall>x\<in>set xs. item_ok x"
  shows "\<exists>tr'. read_block (concat (map encode_item xs)) (tr, log) = Some (0, tr', log @ reported_items xs)
    \<and> reader_ok tr' \<and> tr_state tr' = telnet_reader_state_start"
  using assms
proof (induction xs arbitrary: tr log)
  case (Cons x xs)
  obtain tr1 where 1: "read_block (encode_item x) (tr, log) = Some (0, tr1, log @ reported_items [x])"
    "reader_ok tr1" "tr_state tr1 = telnet_reader_state_start"
    using read_item[of tr x log] Cons.prems by auto
  obtain tr' where "read_block (concat (map encode_item xs)) (tr1, log @ reported_items [x])
      = Some (0, tr', (log @ reported_items [x]) @ reported_items xs)" "reader_ok tr'" "tr_state tr' = telnet_reader_state_start"
    using Cons.IH[of tr1 "log @ reported_items [x]"] 1 Cons.prems by auto
  then show ?case using read_block_append[OF 1(1)] reported_items_append[of "[x]" xs] by auto
qed (simp add: read_block_simps)

section \<open>Properties\<close>

text \<open>C18: The reader reads back what was encoded: fed with the encoding of any sequence of data
  bytes (255 doubled), option negotiations, subnegotiations of up to 32 bytes without a 255 and
  unknown commands, it reports exactly these items in order, the unknown commands discarded, and
  is ready for the next one.\<close>

theorem telnet_reader_reads_back:
  assumes "tr_state tr = telnet_reader_state_start" "reader_ok tr" "\<forall>x\<in>set xs. item_ok x"
  shows "\<exists>tr'. read_block (concat (map encode_item xs)) (tr, log) = Some (0, tr', log @ reported_items xs)
    \<and> reader_ok tr' \<and> tr_state tr' = telnet_reader_state_start"
  by (rule read_items[OF assms])

text \<open>C19: Whatever bytes arrive, the reader never writes outside its buffer and handles the whole
  block; what it logs never shrinks.\<close>

theorem telnet_reader_never_overruns:
  assumes "reader_ok tr"
  shows "\<exists>tr' log'. read_block bs (tr, log) = Some (0, tr', log') \<and> reader_ok tr' \<and> prefix log log'"
  using assms
proof (induction bs arbitrary: tr log)
  case (Cons b bs)
  obtain r s1 where 1: "telnet_reader_feed fst put_reader log_data log_cmd b (tr, log) = Some (r, s1)" "reader_ok (fst s1)"
    using logging.feed_good[of "(tr, log)" b] Cons.prems by auto
  then have "r = 0 \<and> prefix log (snd s1)"
    by (auto simp: telnet_reader_feed_def step_defs bind_eq_Some_conv split: telnet_reader_state.splits if_splits)
  moreover obtain tr' log' where "read_block bs s1 = Some (0, tr', log')" "reader_ok tr'" "prefix (snd s1) log'"
    using Cons.IH[OF 1(2), of "snd s1"] by auto
  ultimately show ?case using 1(1) prefix_order.trans
    by (fastforce simp: read_block_simps telnet_reader_feed_def)
qed (simp add: read_block_simps)

text \<open>C20: A subnegotiation is abandoned without a report when a 33rd byte arrives, or when a 255 is
  followed by anything but the end marker, a doubled 255 included; the reader is then back in its
  start state, where the bytes that follow count as data.\<close>

theorem telnet_reader_abandons_sub:
  assumes "tr_state tr = telnet_reader_state_start" "reader_ok tr" "IAC \<notin> set bs"
    and "length bs = TELNET_READER_BUFFER_SIZE \<and> c \<noteq> IAC \<and> rest = [c]
      \<or> length bs \<le> TELNET_READER_BUFFER_SIZE \<and> c \<noteq> SE \<and> rest = [IAC, c]"
  shows "\<exists>tr'. read_block (IAC # SB # bs @ rest) (tr, log) = Some (0, tr', log)
    \<and> tr_state tr' = telnet_reader_state_start"
proof -
  let ?tr = "tr\<lparr>command := SB, buf_ndx := 0, tr_state := telnet_reader_state_rx_sb\<rparr>"
  have ne: "SB \<noteq> IAC" "SB \<noteq> DO" "SB \<noteq> DONT" "SB \<noteq> WILL" "SB \<noteq> WONT" by (simp_all add: telnet_codes)
  have 1: "read_block [IAC, SB] (tr, log) = Some (0, ?tr, log)"
    using assms(1) ne by (simp add: read_block_simps step_defs)
  obtain tr2 where 2: "read_block bs (?tr, log) = Some (0, tr2, log)" "reader_ok tr2"
    "tr_state tr2 = telnet_reader_state_rx_sb" "unat (buf_ndx tr2) = length bs"
    using read_sub_data[of ?tr bs log] assms by (auto simp: reader_ok_def)
  have "\<exists>tr'. read_block rest (tr2, log) = Some (0, tr', log) \<and> tr_state tr' = telnet_reader_state_start"
    using assms(4) 2(3,4) by (auto simp: read_block_simps step_defs telnet_reader_handle_subcommand_def)
  then show ?thesis using read_block_append[OF 1, of "bs @ rest"] read_block_append[OF 2(1), of rest] by auto
qed

section \<open>Concrete instances\<close>

definition demo_reader :: telnet_reader where
  "demo_reader = \<lparr>tr_buffer = replicate 32 0, buf_ndx = 0, tr_state = telnet_reader_state_start, command = 0, tr_opt = 0\<rparr>"

lemma demo_reader_ok: "reader_ok demo_reader" "tr_state demo_reader = telnet_reader_state_start"
  by (simp_all add: demo_reader_def reader_ok_def TELNET_READER_BUFFER_SIZE_def)

theorem telnet_reader_reads_back_witness:
  "\<exists>tr'. read_block [104, 255, 255, 255, 251, 31, 255, 250, 31, 0, 80, 255, 240, 255, 241, 105] (demo_reader, [])
    = Some (0, tr', [T_data 104, T_data 255, T_option 251 31, T_sub [31, 0, 80], T_data 105])"
  using telnet_reader_reads_back[OF demo_reader_ok(2,1), of
      "[T_data 104, T_data 255, T_option 251 31, T_sub [31, 0, 80], T_ignored 241, T_data 105]" "[]"]
  by (auto simp: telnet_codes TELNET_READER_BUFFER_SIZE_def)

theorem telnet_reader_never_overruns_witness:
  "\<exists>tr' log'. read_block (255 # 250 # replicate 100 7) (demo_reader, []) = Some (0, tr', log') \<and> reader_ok tr'"
  using telnet_reader_never_overruns[OF demo_reader_ok(1), of "255 # 250 # replicate 100 7" "[]"] by blast

theorem telnet_reader_abandons_sub_witness:
  "\<exists>tr'. read_block [255, 250, 1, 255, 255] (demo_reader, []) = Some (0, tr', [])"
  using telnet_reader_abandons_sub[OF demo_reader_ok(2,1), of "[1]" IAC "[IAC, IAC]" "[]"]
  by (auto simp: telnet_codes TELNET_READER_BUFFER_SIZE_def)

end
