(* ===== verification/Io_Telnet.thy ===== *)
theory Io_Telnet
  imports Io_Net Telnet_Reader
begin

text \<open>
  The telnet service of \<open>src/src/io_telnet.h\<close> and \<open>src/src/io_telnet.c\<close>: a client of the network
  service that passes the received bytes through a telnet reader and hands the data to its user.

  A telnet object is named by the address of its member \<open>n\<close>, the network connection. The user's
  callback is a parameter \<open>ucb\<close>, which gets the number of the callback, as the network clients do; \<open>tel_log\<close> is a
  ghost record of the events delivered to users, which no operation reads.
\<close>

section \<open>State\<close>

unbundle bit_operations_syntax

definition IO_TELNET_RX_BUF_SIZE :: int where "IO_TELNET_RX_BUF_SIZE = 128"

text \<open>The union of the event: not set, a new connection, received bytes.\<close>

datatype io_telnet_event_u = Tev_unset | Tev_n addr | Tev_r bytes

record io_telnet_event =
  tev_enum :: io_net_event_enum
  tev_u :: io_telnet_event_u
  tev_from :: "sockaddr option"

text \<open>\<open>tel_rx_buf\<close> is the address of the member array.\<close>

record io_telnet =
  tel_cb :: nat
  treader :: telnet_reader
  tel_rx_buf :: addr

record telnet_mem = net_mem +
  telnets :: "addr \<Rightarrow> io_telnet"
  tel_log :: "(addr \<times> io_telnet_event) list"

type_synonym 'w telnet_user = "nat \<Rightarrow> addr \<Rightarrow> io_telnet_event \<Rightarrow> 'w \<Rightarrow> (io_net_return \<times> io_telnet_event \<times> 'w) option"

definition put_telnet :: "addr \<Rightarrow> io_telnet \<Rightarrow> 'a telnet_mem_scheme \<Rightarrow> 'a telnet_mem_scheme" where
  "put_telnet t v w = w\<lparr>telnets := (telnets w)(t := v)\<rparr>"

definition reader_of :: "addr \<Rightarrow> 'a telnet_mem_scheme \<Rightarrow> telnet_reader" where
  "reader_of t w = treader (telnets w t)"

definition set_reader :: "addr \<Rightarrow> telnet_reader \<Rightarrow> 'a telnet_mem_scheme \<Rightarrow> 'a telnet_mem_scheme" where
  "set_reader t tr w = put_telnet t ((telnets w t)\<lparr>treader := tr\<rparr>) w"

definition call_telnet_cb ::
  "'a telnet_mem_scheme telnet_user \<Rightarrow> addr \<Rightarrow> io_telnet_event \<Rightarrow> 'a telnet_mem_scheme \<Rightarrow>
   (io_net_return \<times> io_telnet_event \<times> 'a telnet_mem_scheme) option" where
  "call_telnet_cb ucb t ev w = ucb (tel_cb (telnets w t)) t ev (w\<lparr>tel_log := tel_log w @ [(t, ev)]\<rparr>)"

section \<open>Operations\<close>

definition io_telnet_connection_init :: "addr \<Rightarrow> 'a telnet_mem_scheme \<Rightarrow> 'a telnet_mem_scheme" where
  "io_telnet_connection_init t w =
     (let w = io_net_set_rx_buf t (tel_rx_buf (telnets w t)) IO_TELNET_RX_BUF_SIZE w
      in set_reader t (telnet_reader_init (reader_of t w)) w)"

definition io_telnet_data_back ::
  "'a telnet_mem_scheme telnet_user \<Rightarrow> addr \<Rightarrow> u8 \<Rightarrow> 'a telnet_mem_scheme \<Rightarrow> (int \<times> 'a telnet_mem_scheme) option" where
  "io_telnet_data_back ucb t data w = do {
     let e = \<lparr>tev_enum = io_net_event_enum_rx, tev_u = Tev_r [data], tev_from = None\<rparr>;
     (r, _, w) \<leftarrow> call_telnet_cb ucb t e w;
     Some (if r = io_net_return_stop then -1 else 0, w)
   }"

definition io_telnet_cmd_back :: "'a telnet_mem_scheme \<Rightarrow> (int \<times> 'a telnet_mem_scheme) option" where
  "io_telnet_cmd_back w = Some (0, w)"

text \<open>The loop over the received bytes; \<open>k\<close> of them are left, from the \<open>i\<close>th on.\<close>

fun telnet_rx_loop ::
  "'a telnet_mem_scheme telnet_user \<Rightarrow> addr \<Rightarrow> addr \<Rightarrow> nat \<Rightarrow> nat \<Rightarrow> 'a telnet_mem_scheme \<Rightarrow>
   (io_net_return \<times> 'a telnet_mem_scheme) option" where
  "telnet_rx_loop ucb t buf i 0 w = Some (io_net_return_continue, w)"
| "telnet_rx_loop ucb t buf i (Suc k) w =
     (if i < length (bufs w buf) then do {
        (ret, w) \<leftarrow> telnet_reader_feed (reader_of t) (set_reader t) (io_telnet_data_back ucb t) io_telnet_cmd_back (bufs w buf ! i) w;
        if ret \<noteq> 0 then Some (io_net_return_stop, w) else telnet_rx_loop ucb t buf (i + 1) k w
      } else None)"

text \<open>Telling the user about an event of the connection.\<close>

definition pass_on ::
  "'a telnet_mem_scheme telnet_user \<Rightarrow> addr \<Rightarrow> io_net_event_enum \<Rightarrow> sockaddr option \<Rightarrow> io_net_event \<Rightarrow> 'a telnet_mem_scheme \<Rightarrow>
   (io_net_return \<times> io_net_event \<times> 'a telnet_mem_scheme) option" where
  "pass_on ucb t what from e w = do {
     (r, _, w) \<leftarrow> call_telnet_cb ucb t \<lparr>tev_enum = what, tev_u = Tev_n NULL, tev_from = from\<rparr> w;
     Some (r, e, w)
   }"

definition telnet_rx_event ::
  "'a telnet_mem_scheme telnet_user \<Rightarrow> addr \<Rightarrow> io_net_event \<Rightarrow> 'a telnet_mem_scheme \<Rightarrow>
   (io_net_return \<times> io_net_event \<times> 'a telnet_mem_scheme) option" where
  "telnet_rx_event ucb t e w = (case ev_u e of
       Ev_r buf len \<Rightarrow> do { (r, w) \<leftarrow> telnet_rx_loop ucb t buf 0 (unat len) w; Some (r, e, w) }
     | _ \<Rightarrow> None)"

definition io_telnet_server_callback ::
  "'a telnet_mem_scheme telnet_user \<Rightarrow> addr \<Rightarrow> io_net_event \<Rightarrow> 'a telnet_mem_scheme \<Rightarrow>
   (io_net_return \<times> io_net_event \<times> 'a telnet_mem_scheme) option" where
  "io_telnet_server_callback ucb t e w = (case ev_enum e of
       io_net_event_enum_alloc_connection \<Rightarrow> do {
         (r, ev, w) \<leftarrow> call_telnet_cb ucb t \<lparr>tev_enum = io_net_event_enum_alloc_connection, tev_u = Tev_n NULL, tev_from = ev_from e\<rparr> w;
         if r = io_net_return_stop then Some (io_net_return_stop, e, w)
         else do {
           nt \<leftarrow> (case tev_u ev of Tev_n nt \<Rightarrow> if nt = NULL then None else Some nt | _ \<Rightarrow> None);
           let w = put_telnet nt ((telnets w nt)\<lparr>tel_cb := tel_cb (telnets w t)\<rparr>) w;
           Some (io_net_return_continue, e\<lparr>ev_u := Ev_c nt (case ev_u e of Ev_c n s \<Rightarrow> s | _ \<Rightarrow> NULL)\<rparr>, w)
         }
       }
     | io_net_event_enum_connected \<Rightarrow>
         pass_on ucb t io_net_event_enum_connected (ev_from e) e (io_telnet_connection_init t w)
     | io_net_event_enum_rx \<Rightarrow> telnet_rx_event ucb t e w
     | io_net_event_enum_tx \<Rightarrow> pass_on ucb t io_net_event_enum_tx None e w
     | io_net_event_enum_closed \<Rightarrow> pass_on ucb t io_net_event_enum_closed None e w
     | io_net_event_enum_handshaken \<Rightarrow> Some (io_net_return_continue, e, w))"

definition io_telnet_client_callback ::
  "'a telnet_mem_scheme telnet_user \<Rightarrow> addr \<Rightarrow> io_net_event \<Rightarrow> 'a telnet_mem_scheme \<Rightarrow>
   (io_net_return \<times> io_net_event \<times> 'a telnet_mem_scheme) option" where
  "io_telnet_client_callback ucb t e w = (case ev_enum e of
       io_net_event_enum_connected \<Rightarrow> pass_on ucb t io_net_event_enum_connected None e w
     | io_net_event_enum_rx \<Rightarrow> telnet_rx_event ucb t e w
     | io_net_event_enum_tx \<Rightarrow> pass_on ucb t io_net_event_enum_tx None e w
     | io_net_event_enum_closed \<Rightarrow> pass_on ucb t io_net_event_enum_closed None e w
     | _ \<Rightarrow> Some (io_net_return_continue, e, w))"

text \<open>The clients of the network service by name; \<open>other\<close> runs those of other components.\<close>

fun telnet_dispatch ::
  "'a telnet_mem_scheme telnet_user \<Rightarrow> 'a telnet_mem_scheme net_client \<Rightarrow> 'a telnet_mem_scheme net_client" where
  "telnet_dispatch ucb other Io_telnet_server_callback t e w = io_telnet_server_callback ucb t e w"
| "telnet_dispatch ucb other Io_telnet_client_callback t e w = io_telnet_client_callback ucb t e w"
| "telnet_dispatch ucb other c t e w = other c t e w"

definition io_telnet_bind :: "os \<Rightarrow> addr \<Rightarrow> addr \<Rightarrow> int \<Rightarrow> nat \<Rightarrow> 'a telnet_mem_scheme \<Rightarrow> (int \<times> 'a telnet_mem_scheme) option" where
  "io_telnet_bind os driver t port cb w = do {
     (r, w) \<leftarrow> io_net_bind os driver t NULL port Io_telnet_server_callback w;
     if r \<noteq> 0 then Some (-1, w)
     else do {
       let w = io_telnet_connection_init t w;
       Some (0, put_telnet t ((telnets w t)\<lparr>tel_cb := cb\<rparr>) w)
     }
   }"

definition io_telnet_connect :: "os \<Rightarrow> addr \<Rightarrow> addr \<Rightarrow> u32 \<Rightarrow> int \<Rightarrow> nat \<Rightarrow> 'a telnet_mem_scheme \<Rightarrow> (int \<times> 'a telnet_mem_scheme) option" where
  "io_telnet_connect os driver t to port cb w = do {
     (r, w) \<leftarrow> io_net_connect os driver t NULL to port Io_telnet_client_callback w;
     if r \<noteq> 0 then Some (-1, w)
     else do {
       let w = io_telnet_connection_init t w;
       Some (0, put_telnet t ((telnets w t)\<lparr>tel_cb := cb\<rparr>) w)
     }
   }"

definition io_telnet_close :: "os \<Rightarrow> addr \<Rightarrow> 'a telnet_mem_scheme \<Rightarrow> 'a telnet_mem_scheme option" where
  "io_telnet_close os t w = io_net_close os t w"

definition io_telnet_tx :: "os \<Rightarrow> tls_codes \<Rightarrow> addr \<Rightarrow> addr \<Rightarrow> int \<Rightarrow> 'a telnet_mem_scheme \<Rightarrow> (int \<times> 'a telnet_mem_scheme) option" where
  "io_telnet_tx os tc t buf len w = io_net_tx os tc t buf len w"

section \<open>What the user receives\<close>

text \<open>
  A user that always goes on, and leaves the reader of the connection \<open>t\<close> and the buffer \<open>b\<close> alone.
\<close>

definition goes_on :: "'a telnet_mem_scheme telnet_user \<Rightarrow> addr \<Rightarrow> addr \<Rightarrow> bool" where
  "goes_on ucb t b \<longleftrightarrow> (\<forall>c ev w. \<exists>ev' w'. ucb c t ev w = Some (io_net_return_continue, ev', w')
     \<and> reader_of t w' = reader_of t w \<and> bufs w' b = bufs w b \<and> tel_log w' = tel_log w)"

definition data_event :: "u8 \<Rightarrow> io_telnet_event" where
  "data_event d = \<lparr>tev_enum = io_net_event_enum_rx, tev_u = Tev_r [d], tev_from = None\<rparr>"

fun data_of :: "telnet_item list \<Rightarrow> bytes" where
  "data_of [] = []"
| "data_of (T_data d # xs) = d # data_of xs"
| "data_of (x # xs) = data_of xs"

lemma data_of_append [simp]: "data_of (xs @ ys) = data_of xs @ data_of ys"
  by (induction xs rule: data_of.induct) simp_all

lemma data_of_reported: "data_of (reported_items xs) = data_of xs"
  by (induction xs rule: data_of.induct) simp_all

text \<open>The reader in the connection follows the reader of the logging client.\<close>

definition follows :: "addr \<Rightarrow> addr \<Rightarrow> 'a telnet_mem_scheme \<Rightarrow> telnet_reader \<times> telnet_item list \<Rightarrow> 'a telnet_mem_scheme \<Rightarrow> bool" where
  "follows t b w0 s w \<longleftrightarrow> reader_of t w = fst s \<and> bufs w b = bufs w0 b
     \<and> tel_log w = tel_log w0 @ map (\<lambda>d. (t, data_event d)) (data_of (snd s))"

lemma follows_put: "follows t b w0 s w \<Longrightarrow> follows t b w0 (put_reader tr s) (set_reader t tr w)"
  by (simp add: follows_def put_reader_def set_reader_def put_telnet_def reader_of_def)

lemma follows_reader: "follows t b w0 s w \<Longrightarrow> reader_of t w = fst s"
  by (simp add: follows_def)

lemma follows_data:
  assumes "goes_on ucb t b" "follows t b w0 s w"
  shows "\<exists>w'. io_telnet_data_back ucb t d w = Some (0, w') \<and> follows t b w0 (snd (the (log_data d s))) w'"
proof -
  let ?w = "w\<lparr>tel_log := tel_log w @ [(t, data_event d)]\<rparr>"
  obtain ev' w' where u: "ucb (tel_cb (telnets w t)) t (data_event d) ?w = Some (io_net_return_continue, ev', w')"
    "reader_of t w' = reader_of t ?w" "bufs w' b = bufs ?w b" "tel_log w' = tel_log ?w"
    using assms(1) unfolding goes_on_def by blast
  have "io_telnet_data_back ucb t d w = Some (0, w')"
    using u(1) by (simp add: io_telnet_data_back_def call_telnet_cb_def data_event_def)
  moreover have "follows t b w0 (snd (the (log_data d s))) w'"
    using assms(2) u(2-4) by (simp add: follows_def log_data_def reader_of_def)
  ultimately show ?thesis by blast
qed

lemma follows_cmd:
  assumes "follows t b w0 s w"
  shows "follows t b w0 (snd (the (log_cmd s))) w"
  using assms by (simp add: follows_def log_cmd_def Let_def)

text \<open>One byte: the reader in the connection does what the reader of the logging client does.\<close>

lemma follows_feed:
  assumes g: "goes_on ucb t b" and f: "follows t b w0 s w"
    and l: "telnet_reader_state_machine fst put_reader log_data log_cmd d s = Some (r, s')"
  shows "\<exists>w'. telnet_reader_state_machine (reader_of t) (set_reader t) (io_telnet_data_back ucb t) io_telnet_cmd_back d w
    = Some (r, w') \<and> follows t b w0 s' w'"
proof -
  note get = follows_reader[OF f]
  have move: "follows t b w0 (put_reader (telnet_reader_move_state x (fst s1)) s1) (set_reader t (telnet_reader_move_state x (reader_of t w1)) w1)"
    if "follows t b w0 s1 w1" for x s1 w1
    using follows_put[OF that] follows_reader[OF that] by simp
  note sm = telnet_reader_state_machine_def Let_def
  show ?thesis
  proof (cases "tr_state (fst s)")
    case telnet_reader_state_start
    show ?thesis
    proof (cases "d = IAC")
      case True
      then show ?thesis using l telnet_reader_state_start move[OF f] get by (auto simp: sm)
    next
      case False
      obtain w' where "io_telnet_data_back ucb t d w = Some (0, w')" "follows t b w0 (snd (the (log_data d s))) w'"
        using follows_data[OF g f] by blast
      then show ?thesis using l telnet_reader_state_start False get by (auto simp: sm log_data_def)
    qed
  next
    case telnet_reader_state_rx_iac
    show ?thesis
    proof (cases "d = IAC")
      case True
      let ?m = "telnet_reader_move_state telnet_reader_state_start"
      obtain w' where "io_telnet_data_back ucb t IAC (set_reader t (?m (reader_of t w)) w) = Some (0, w')"
        "follows t b w0 (snd (the (log_data IAC (put_reader (?m (fst s)) s)))) w'"
        using follows_data[OF g move[OF f]] by blast
      then show ?thesis using l telnet_reader_state_rx_iac True get by (auto simp: sm log_data_def)
    next
      case False
      obtain ok tr where h: "telnet_reader_handle_command d (fst s) = (ok, tr)" by force
      note f1 = follows_put[OF f, of tr]
      show ?thesis using l telnet_reader_state_rx_iac False get h f1 move[OF f1] by (auto simp: sm)
    qed
  next
    case telnet_reader_state_rx_do_dont_will_wont
    note f1 = follows_cmd[OF follows_put[OF f, of "(fst s)\<lparr>tr_opt := d\<rparr>"]]
    show ?thesis using l telnet_reader_state_rx_do_dont_will_wont get f1 move[OF f1]
      by (auto simp: sm log_cmd_def io_telnet_cmd_back_def put_reader_def)
  next
    case telnet_reader_state_rx_sb
    then obtain ok tr where h: "telnet_reader_handle_subcommand d (fst s) = Some (ok, tr)"
      using l by (auto simp: sm bind_eq_Some_conv)
    note f1 = follows_put[OF f, of tr]
    show ?thesis using l telnet_reader_state_rx_sb get h f1 move[OF f1] by (auto simp: sm)
  next
    case telnet_reader_state_wait_for_se
    note f1 = follows_cmd[OF f]
    show ?thesis using l telnet_reader_state_wait_for_se get f f1 move[OF f] move[OF f1]
      by (auto simp: sm log_cmd_def io_telnet_cmd_back_def split: if_splits)
  qed
qed

lemma read_block_fails_not: "read_block (b # bs) s = Some (0, s') \<Longrightarrow>
    \<exists>s1. telnet_reader_state_machine fst put_reader log_data log_cmd b s = Some (0, s1) \<and> read_block bs s1 = Some (0, s')"
  by (auto simp: read_block_simps bind_eq_Some_conv split: if_splits)

lemma follows_loop:
  assumes g: "goes_on ucb t b"
  shows "follows t b w0 s w \<Longrightarrow> i + k \<le> length (bufs w0 b) \<Longrightarrow> read_block (take k (drop i (bufs w0 b))) s = Some (0, s') \<Longrightarrow>
    \<exists>w'. telnet_rx_loop ucb t b i k w = Some (io_net_return_continue, w') \<and> follows t b w0 s' w'"
proof (induction k arbitrary: i s w)
  case 0
  then show ?case by (simp add: read_block_simps)
next
  case (Suc k)
  have i: "i < length (bufs w0 b)" using Suc.prems(2) by simp
  have eq: "take (Suc k) (drop i (bufs w0 b)) = bufs w0 b ! i # take k (drop (i + 1) (bufs w0 b))"
    using i by (simp add: Cons_nth_drop_Suc[symmetric])
  obtain s1 where s1: "telnet_reader_state_machine fst put_reader log_data log_cmd (bufs w0 b ! i) s = Some (0, s1)"
    "read_block (take k (drop (i + 1) (bufs w0 b))) s1 = Some (0, s')"
    using read_block_fails_not Suc.prems(3) unfolding eq by blast
  have bw: "bufs w b = bufs w0 b" using Suc.prems(1) by (simp add: follows_def)
  obtain w1 where w1: "telnet_reader_state_machine (reader_of t) (set_reader t) (io_telnet_data_back ucb t) io_telnet_cmd_back
      (bufs w0 b ! i) w = Some (0, w1)" "follows t b w0 s1 w1"
    using follows_feed[OF g Suc.prems(1) s1(1)] by blast
  obtain w' where "telnet_rx_loop ucb t b (i + 1) k w1 = Some (io_net_return_continue, w')" "follows t b w0 s' w'"
    using Suc.IH[OF w1(2) _ s1(2)] Suc.prems(2) by auto
  then show ?case using w1(1) i bw by (simp add: telnet_reader_feed_def)
qed

text \<open>
  Blocks of bytes that arrive one after the other on a connection with the buffer \<open>b\<close>: each is stored at the start of the buffer and
  announced with its length, as \<open>io_net_handle_data_rx_event\<close> does, to the callback \<open>cb\<close> of the connection, until that asks to stop (\<open>None\<close>).
\<close>

fun receive_blocks ::
  "(io_net_event \<Rightarrow> 'a telnet_mem_scheme \<Rightarrow> (io_net_return \<times> io_net_event \<times> 'a telnet_mem_scheme) option) \<Rightarrow> addr \<Rightarrow>
   bytes list \<Rightarrow> 'a telnet_mem_scheme \<Rightarrow> 'a telnet_mem_scheme option" where
  "receive_blocks cb b [] w = Some w"
| "receive_blocks cb b (bs # bss) w = do {
     (r, _, w) \<leftarrow> cb ((plain_event io_net_event_enum_rx)\<lparr>ev_u := Ev_r b (of_nat (length bs))\<rparr>)
       (w\<lparr>bufs := (bufs w)(b := bs @ drop (length bs) (bufs w b))\<rparr>);
     if r = io_net_return_stop then None else receive_blocks cb b bss w
   }"

lemma read_block_split:
  "read_block (xs @ ys) s = Some (0, s') \<Longrightarrow> \<exists>s1. read_block xs s = Some (0, s1) \<and> read_block ys s1 = Some (0, s')"
proof (induction xs arbitrary: s)
  case (Cons x xs)
  then show ?case using read_block_fails_not[of x "xs @ ys" s s'] by (auto simp: read_block_simps)
qed (simp add: read_block_simps)

lemma telnet_rx_event_block:
  fixes w :: "'a telnet_mem_scheme"
  assumes g: "goes_on ucb t b" and e: "ev_u e = Ev_r b (of_nat (length bs))" and l: "length bs < 2 ^ 32"
    and b: "prefix bs (bufs w b)" and r: "reader_of t w = fst s" "tel_log w = lg @ map (\<lambda>d. (t, data_event d)) (data_of (snd s))"
    and x: "read_block bs s = Some (0, s1)"
  shows "\<exists>w'. telnet_rx_event ucb t e w = Some (io_net_return_continue, e, w') \<and> bufs w' b = bufs w b
    \<and> reader_of t w' = fst s1 \<and> tel_log w' = lg @ map (\<lambda>d. (t, data_event d)) (data_of (snd s1))"
proof -
  have f: "follows t b (w\<lparr>tel_log := lg\<rparr>) s w" using r by (simp add: follows_def)
  have tk: "take (length bs) (drop 0 (bufs w b)) = bs" "length bs \<le> length (bufs w b)" using b by (auto simp: prefix_def)
  obtain w' where "telnet_rx_loop ucb t b 0 (length bs) w = Some (io_net_return_continue, w')" "follows t b (w\<lparr>tel_log := lg\<rparr>) s1 w'"
    using follows_loop[OF g f, of 0 "length bs"] tk x by auto
  moreover have "unat (of_nat (length bs) :: u32) = length bs" using l by (simp add: unat_of_nat take_bit_nat_eq_self)
  ultimately show ?thesis using e by (auto simp: telnet_rx_event_def follows_def)
qed

text \<open>The reader keeps its state between the blocks, so the cuts do not matter.\<close>

lemma receive_blocks_read:
  fixes w :: "'a telnet_mem_scheme"
  assumes g: "goes_on ucb t b" and cb: "\<And>e w. ev_enum e = io_net_event_enum_rx \<Longrightarrow> cb e w = telnet_rx_event ucb t e w"
  shows "\<forall>bs\<in>set bss. length bs \<le> length (bufs w b) \<Longrightarrow> length (bufs w b) < 2 ^ 32 \<Longrightarrow> reader_of t w = fst s \<Longrightarrow>
    tel_log w = lg @ map (\<lambda>d. (t, data_event d)) (data_of (snd s)) \<Longrightarrow> read_block (concat bss) s = Some (0, s') \<Longrightarrow>
    \<exists>w'. receive_blocks cb b bss w = Some w' \<and> reader_of t w' = fst s'
      \<and> tel_log w' = lg @ map (\<lambda>d. (t, data_event d)) (data_of (snd s'))"
proof (induction bss arbitrary: w s)
  case Nil
  then show ?case by (simp add: read_block_simps)
next
  case (Cons bs bss)
  obtain s1 where s1: "read_block bs s = Some (0, s1)" "read_block (concat bss) s1 = Some (0, s')"
    using read_block_split[of bs "concat bss" s s'] Cons.prems(5) by auto
  let ?e = "(plain_event io_net_event_enum_rx)\<lparr>ev_u := Ev_r b (of_nat (length bs))\<rparr>"
    and ?w = "w\<lparr>bufs := (bufs w)(b := bs @ drop (length bs) (bufs w b))\<rparr>"
  have p: "prefix bs (bufs ?w b)" "reader_of t ?w = fst s" "tel_log ?w = lg @ map (\<lambda>d. (t, data_event d)) (data_of (snd s))"
    "length bs < 2 ^ 32" "ev_u ?e = Ev_r b (of_nat (length bs))" "ev_enum ?e = io_net_event_enum_rx"
    using Cons.prems by (simp_all add: reader_of_def plain_event_def)
  obtain w1 where w1: "telnet_rx_event ucb t ?e ?w = Some (io_net_return_continue, ?e, w1)" "bufs w1 b = bufs ?w b"
    "reader_of t w1 = fst s1" "tel_log w1 = lg @ map (\<lambda>d. (t, data_event d)) (data_of (snd s1))"
    using telnet_rx_event_block[OF g p(5,4,1-3) s1(1)] by blast
  have l: "length (bufs w1 b) = length (bufs w b)" unfolding w1(2) using Cons.prems(1) by simp
  obtain w' where "receive_blocks cb b bss w1 = Some w'" "reader_of t w' = fst s'"
    "tel_log w' = lg @ map (\<lambda>d. (t, data_event d)) (data_of (snd s'))"
    using Cons.IH[OF _ _ w1(3,4) s1(2)] Cons.prems(1,2) l by auto
  then show ?case using w1(1) cb[OF p(6)] by simp
qed

section \<open>Properties\<close>

text \<open>C27: The user of a telnet connection receives exactly the data, however the stream is cut into blocks. Take the encoding of any
  sequence of data bytes, option negotiations, subnegotiations of at most 32 bytes without a 255, and unknown commands; cut it anywhere, also inside an item, into
  blocks that fit into the receive buffer, and let them arrive one after the other at a connection whose reader is at its start. For a user that goes on and leaves reader and
  buffer alone, both callbacks of the service
  deliver one event per data byte, in order and with the doubled 255 bytes halved, and nothing for the rest, never ask to stop, and leave the reader
  at its start.\<close>

theorem io_telnet_delivers_data:
  fixes w :: "'a telnet_mem_scheme"
  assumes "goes_on ucb t b" "reader_ok (reader_of t w)" "tr_state (reader_of t w) = telnet_reader_state_start"
    and "\<forall>x\<in>set xs. item_ok x" "concat bss = concat (map encode_item xs)"
    and "\<forall>bs\<in>set bss. length bs \<le> length (bufs w b)" "length (bufs w b) < 2 ^ 32"
  shows "\<exists>w'. receive_blocks (io_telnet_server_callback ucb t) b bss w = Some w'
    \<and> receive_blocks (io_telnet_client_callback ucb t) b bss w = Some w'
    \<and> tel_log w' = tel_log w @ map (\<lambda>d. (t, data_event d)) (data_of xs)
    \<and> tr_state (reader_of t w') = telnet_reader_state_start"
proof -
  obtain tr' where r: "read_block (concat bss) (reader_of t w, []) = Some (0, tr', [] @ reported_items xs)"
    "tr_state tr' = telnet_reader_state_start"
    using read_items[OF assms(3,2,4)] unfolding assms(5) by blast
  have s: "reader_of t w = fst (reader_of t w, [] :: telnet_item list)"
    "tel_log w = tel_log w @ map (\<lambda>d. (t, data_event d)) (data_of (snd (reader_of t w, [] :: telnet_item list)))" by simp_all
  have cb: "io_telnet_server_callback ucb t e v = telnet_rx_event ucb t e v" "io_telnet_client_callback ucb t e v = telnet_rx_event ucb t e v"
    if "ev_enum e = io_net_event_enum_rx" for e and v :: "'a telnet_mem_scheme"
    using that by (simp_all add: io_telnet_server_callback_def io_telnet_client_callback_def)
  note go = receive_blocks_read[OF assms(1) _ assms(6,7) s r(1)]
  obtain w1 where 1: "receive_blocks (telnet_rx_event ucb t) b bss w = Some w1" "reader_of t w1 = tr'"
    "tel_log w1 = tel_log w @ map (\<lambda>d. (t, data_event d)) (data_of (reported_items xs))"
    using go[of "telnet_rx_event ucb t"] by auto
  have same: "receive_blocks c b bss v = receive_blocks (telnet_rx_event ucb t) b bss v"
    if "\<And>e v. ev_enum e = io_net_event_enum_rx \<Longrightarrow> c e v = telnet_rx_event ucb t e v" for c and v :: "'a telnet_mem_scheme"
    by (induction bss arbitrary: v) (simp_all add: that plain_event_def split: bind_splits)
  show ?thesis using 1 r(2) same[OF cb(1)] same[OF cb(2)] data_of_reported[of xs] by (intro exI[of _ w1]) simp
qed

text \<open>C28: The user of \<open>io_telnet_connect\<close> never hears how the attempt ended. Whatever the system answers, the callback
  of the connection ends without a call of the user; after a failure the connection stays watched for
  output.\<close>

theorem io_telnet_connect_never_reports:
  fixes w :: "'a telnet_mem_scheme"
  assumes "driver_inv W {d, rl} w L" "d \<noteq> rl" "t \<in> W" "net_driver (nets w t) = d" "net_cb (nets w t) = Io_telnet_client_callback"
    and "os_val (os (Sys_getsockopt_error (sd (nets w t))) (trace w)) = err"
  shows "\<exists>w'. io_net_connect_callback os (telnet_dispatch ucb other) t IO_DRIVER_EVENT_TX w = Some w' \<and> tel_log w' = tel_log w
    \<and> (err \<noteq> 0 \<longrightarrow> watchers w' = watchers w)"
proof -
  obtain w1 ev where o: "io_net_connect_callback os (telnet_dispatch ucb other) t IO_DRIVER_EVENT_TX w
      = map_option (\<lambda>x. snd (snd x)) (call_net_cb (telnet_dispatch ucb other) t ev w1)"
    "ev_enum ev = io_net_event_enum_alloc_connection" "err \<noteq> 0 \<longrightarrow> watchers w1 = watchers w"
    "w1 = w\<lparr>lheap := lheap w1, watchers := watchers w1, trace := trace w1, errno := errno w1\<rparr>"
    using connect_callback_outcome[of W d rl w L t os err "telnet_dispatch ucb other"] assms(1-4,6) by (auto split: if_splits)
  have same: "nets w1 = nets w" "tel_log w1 = tel_log w" by (subst o(4), simp)+
  let ?w' = "w1\<lparr>net_log := net_log w1 @ [(t, ev)]\<rparr>"
  have "call_net_cb (telnet_dispatch ucb other) t ev w1 = Some (io_net_return_continue, ev, ?w')"
    using o(2) assms(5) same(1) by (simp add: call_net_cb_def io_telnet_client_callback_def)
  then show ?thesis using o(1,3) same(2) by (intro exI[of _ ?w']) simp
qed

section \<open>A concrete instance\<close>

text \<open>The connections 30 and 31 of the network instance as telnet connections; buffer 1 holds an encoded block.\<close>

definition demo_telnet :: telnet_mem where
  "demo_telnet = net_mem.extend (demo_net\<lparr>bufs := (\<lambda>_. [104, 255, 255, 255, 251, 31, 105]),
       nets := (\<lambda>_. (nets demo_net 31)\<lparr>net_cb := Io_telnet_client_callback\<rparr>)\<rparr>)
     (telnet_mem.fields (\<lambda>_. \<lparr>tel_cb = 0, treader = demo_reader, tel_rx_buf = 1\<rparr>) [])"

definition calm_user :: "'a telnet_mem_scheme telnet_user" where
  "calm_user c t ev w = Some (io_net_return_continue, ev, w)"

lemma calm_user_goes_on: "goes_on calm_user t b"
  by (simp add: goes_on_def calm_user_def)

text \<open>Three blocks, cut inside the doubled 255 and inside the option.\<close>

theorem io_telnet_delivers_data_witness:
  "\<exists>w'. receive_blocks (io_telnet_server_callback calm_user 31) 1 [[104, 255], [255, 255, 251], [31, 105]] demo_telnet = Some w'
    \<and> tel_log w' = [(31, data_event 104), (31, data_event 255), (31, data_event 105)]"
proof -
  let ?xs = "[T_data 104, T_data 255, T_option 251 31, T_data 105]"
  have b: "length (bufs demo_telnet 1) = 7" "reader_of 31 demo_telnet = demo_reader" "tel_log demo_telnet = []"
    by (simp_all add: demo_telnet_def net_mem.defs telnet_mem.defs reader_of_def)
  have x: "concat [[104, 255], [255, 255, 251], [31, 105]] = concat (map encode_item ?xs)" "\<forall>x\<in>set ?xs. item_ok x"
    by (simp_all add: telnet_codes)
  have l: "\<forall>bs\<in>set [[104, 255], [255, 255, 251], [31, 105 :: u8]]. length bs \<le> length (bufs demo_telnet 1)"
    "length (bufs demo_telnet 1) < 2 ^ 32" "reader_ok (reader_of 31 demo_telnet)" "tr_state (reader_of 31 demo_telnet) = telnet_reader_state_start"
    unfolding b using demo_reader_ok by simp_all
  from io_telnet_delivers_data[OF calm_user_goes_on l(3,4) x(2,1) l(1,2)] show ?thesis using b(3) by auto
qed

theorem io_telnet_connect_never_reports_witness:
  "\<exists>w'. io_net_connect_callback demo_os (telnet_dispatch calm_user calm_client) 31 IO_DRIVER_EVENT_TX demo_telnet = Some w'
    \<and> tel_log w' = []"
proof -
  have "driver_inv {30, 31} {20, 10} demo_telnet demo_net_lists"
    using demo_net_inv[OF disjI2[OF refl]] by (simp add: demo_telnet_def driver_inv_def net_mem.defs)
  moreover have "net_driver (nets demo_telnet 31) = 20" "net_cb (nets demo_telnet 31) = Io_telnet_client_callback" "tel_log demo_telnet = []"
    by (simp_all add: demo_telnet_def net_mem.defs telnet_mem.defs demo_net_def)
  ultimately show ?thesis
    using io_telnet_connect_never_reports[of "{30, 31}" 20 10 demo_telnet demo_net_lists 31 demo_os _ calm_user calm_client] by auto
qed

end
