(* ===== verification/Cli.thy ===== *)
theory Cli
  imports Io_Telnet
begin

text \<open>
  The command line interpreter of \<open>src/test/cli.h\<close> and \<open>src/test/cli.c\<close>, which the sample server runs on
  every telnet connection: it echoes what is typed into a line buffer, splits a finished line into words
  with \<open>strtok_r\<close> and runs the command that the first word names.

  An interface is named by the address of its list cell. Its function pointers are the parameters
  \<open>put\<close> and \<open>exit\<close>, the handlers of the user's commands are the parameter \<open>user\<close>, by number. \<open>printf\<close> formats are
  written out: the argument of \<open>cli_printf\<close> is the formatted text.
\<close>

section \<open>State\<close>

unbundle bit_operations_syntax

definition CLI_COMMAND_MAX_ARGS :: nat where "CLI_COMMAND_MAX_ARGS = 32"
definition CLI_MAX_COMMAND_LEN :: nat where "CLI_MAX_COMMAND_LEN = 252"
definition CLI_MAX_COLUMNS_PER_LINE :: nat where "CLI_MAX_COLUMNS_PER_LINE = 512"
definition CLI_EOL_CHAR :: u8 where "CLI_EOL_CHAR = 13"

definition CLI_EOL :: bytes where "CLI_EOL = [13, 10]"

definition prompt_text :: bytes where "prompt_text = CLI_EOL @ text_of ''pRTP> ''"

definition VERSION :: bytes where "VERSION = text_of ''RTP Server CLI V1.0''"

record cli_intf =
  cmd_buffer_ndx :: u8
  cmd_buffer :: bytes

datatype cli_handler =
    Cli_command_help | Cli_command_version | Cli_command_cli_connections | Cli_command_exit
  | User_handler nat

record cli_command =
  command :: bytes
  help_str :: bytes
  handler :: cli_handler

text \<open>\<open>cmd_log\<close> is a ghost record of the commands run, with the words of the line; no operation reads it.\<close>

record cli_mem = telnet_mem +
  clis :: "addr \<Rightarrow> cli_intf"
  user_commands :: "cli_command list"
  num_user_commands :: int
  cmd_log :: "(addr \<times> bytes list) list"

text \<open>The addresses of the static variables.\<close>

record cli_statics =
  print_buffer :: addr
  prompt :: addr
  cli_intf_list :: addr

definition core_commands :: "cli_command list" where
  "core_commands =
    [\<lparr>command = text_of ''help'', help_str = text_of ''show this command'', handler = Cli_command_help\<rparr>,
     \<lparr>command = text_of ''version'', help_str = text_of ''show version'', handler = Cli_command_version\<rparr>,
     \<lparr>command = text_of ''cli_conn'', help_str = text_of ''show current CLI connections'', handler = Cli_command_cli_connections\<rparr>,
     \<lparr>command = text_of ''exit'', help_str = text_of ''exit cli'', handler = Cli_command_exit\<rparr>]"

definition put_cli :: "addr \<Rightarrow> cli_intf \<Rightarrow> 'a cli_mem_scheme \<Rightarrow> 'a cli_mem_scheme" where
  "put_cli i v w = w\<lparr>clis := (clis w)(i := v)\<rparr>"

type_synonym 'w put_data = "addr \<Rightarrow> addr \<Rightarrow> int \<Rightarrow> 'w \<Rightarrow> 'w option"
type_synonym 'w cli_exit = "addr \<Rightarrow> 'w \<Rightarrow> 'w option"
type_synonym 'w cli_user = "nat \<Rightarrow> addr \<Rightarrow> nat list \<Rightarrow> 'w \<Rightarrow> (int \<times> 'w) option"

section \<open>C strings\<close>

text \<open>The string at index \<open>p\<close> of an array ends before its first zero; without one the access leaves the array.\<close>

definition c_string :: "bytes \<Rightarrow> nat \<Rightarrow> bytes option" where
  "c_string b p = (if 0 \<in> set (drop p b) then Some (takeWhile (\<lambda>x. x \<noteq> 0) (drop p b)) else None)"

definition is_delim :: "u8 \<Rightarrow> bool" where
  "is_delim x \<longleftrightarrow> x = 32 \<or> x = 9"

text \<open>
  \<open>strtok_r\<close> from position \<open>p\<close>: the array with the end of the token marked, and the positions of the token
  and of the rest, if there is a token.
\<close>

definition strtok_r :: "bytes \<Rightarrow> nat \<Rightarrow> (bytes \<times> (nat \<times> nat) option) option" where
  "strtok_r b p = do {
     s \<leftarrow> c_string b p;
     let q = p + length (takeWhile is_delim s);
     let s = dropWhile is_delim s;
     let e = q + length (takeWhile (\<lambda>x. \<not> is_delim x) s);
     if s = [] then Some (b, None)
     else if length (takeWhile (\<lambda>x. \<not> is_delim x) s) = length s then Some (b, Some (q, e))
     else Some (b[e := 0], Some (q, e + 1))
   }"

text \<open>The loop that splits the line: \<open>None\<close> in the result when there are too many words.\<close>

function split_line :: "bytes \<Rightarrow> nat \<Rightarrow> nat list \<Rightarrow> (bytes \<times> nat list option) option" where
  "split_line b p argv = do {
     (b, r) \<leftarrow> strtok_r b p;
     case r of
       None \<Rightarrow> Some (b, Some argv)
     | Some (s, t) \<Rightarrow>
         if length argv \<ge> CLI_COMMAND_MAX_ARGS then Some (b, None) else split_line b t (argv @ [s])
   }"
  by pat_completeness auto
termination
  by (relation "measure (\<lambda>(b, p, argv). CLI_COMMAND_MAX_ARGS - length argv)") auto

declare split_line.simps [simp del]

section \<open>Output\<close>

text \<open>
  The text goes through the print buffer: \<open>vsnprintf\<close> cuts it to \<open>CLI_MAX_COLUMNS_PER_LINE - 1\<close> bytes and a zero, but
  the length passed on is that of the whole text.
\<close>

definition cli_printf :: "'a cli_mem_scheme put_data \<Rightarrow> cli_statics \<Rightarrow> addr \<Rightarrow> bytes \<Rightarrow> 'a cli_mem_scheme \<Rightarrow> 'a cli_mem_scheme option" where
  "cli_printf put g i out w = do {
     let s = take (CLI_MAX_COLUMNS_PER_LINE - 1) out @ [0];
     b \<leftarrow> memcpy (bufs w (print_buffer g)) 0 s 0 (int (length s));
     put i (print_buffer g) (int (length out)) (w\<lparr>bufs := (bufs w)(print_buffer g := b)\<rparr>)
   }"

definition cli_prompt :: "'a cli_mem_scheme put_data \<Rightarrow> cli_statics \<Rightarrow> addr \<Rightarrow> 'a cli_mem_scheme \<Rightarrow> 'a cli_mem_scheme option" where
  "cli_prompt put g i w = do {
     s \<leftarrow> c_string (bufs w (prompt g)) 0;
     put i (prompt g) (int (length s)) w
   }"

text \<open>The format \<open>%-20s\<close>.\<close>

definition left20 :: "bytes \<Rightarrow> bytes" where
  "left20 s = s @ replicate (20 - length s) 32"

section \<open>Commands\<close>

definition help_line :: "'a cli_mem_scheme put_data \<Rightarrow> cli_statics \<Rightarrow> addr \<Rightarrow> cli_command \<Rightarrow> 'a cli_mem_scheme \<Rightarrow> 'a cli_mem_scheme option" where
  "help_line put g i c w = do {
     w \<leftarrow> cli_printf put g i (left20 (command c) @ [58, 32]) w;
     cli_printf put g i (help_str c @ CLI_EOL) w
   }"

fun help_core :: "'a cli_mem_scheme put_data \<Rightarrow> cli_statics \<Rightarrow> addr \<Rightarrow> cli_command list \<Rightarrow> 'a cli_mem_scheme \<Rightarrow> 'a cli_mem_scheme option" where
  "help_core put g i [] w = Some w"
| "help_core put g i (c # cs) w = do { w \<leftarrow> help_line put g i c w; help_core put g i cs w }"

text \<open>
  The entry \<open>j\<close> of the user's commands; \<open>k\<close> entries are left. The number of entries is compared as a \<open>size_t\<close>.
\<close>

definition user_count :: "'a cli_mem_scheme \<Rightarrow> nat" where
  "user_count w = unat (word_of_int (num_user_commands w) :: 64 word)"

definition user_command :: "nat \<Rightarrow> 'a cli_mem_scheme \<Rightarrow> cli_command option" where
  "user_command j w = (if j < length (user_commands w) then Some (user_commands w ! j) else None)"

fun help_user :: "'a cli_mem_scheme put_data \<Rightarrow> cli_statics \<Rightarrow> addr \<Rightarrow> nat \<Rightarrow> nat \<Rightarrow> 'a cli_mem_scheme \<Rightarrow> 'a cli_mem_scheme option" where
  "help_user put g i j 0 w = Some w"
| "help_user put g i j (Suc k) w = do {
     c \<leftarrow> user_command j w;
     w \<leftarrow> help_line put g i c w;
     help_user put g i (j + 1) k w
   }"

definition cli_command_help :: "'a cli_mem_scheme put_data \<Rightarrow> cli_statics \<Rightarrow> addr \<Rightarrow> 'a cli_mem_scheme \<Rightarrow> (int \<times> 'a cli_mem_scheme) option" where
  "cli_command_help put g i w = do {
     w \<leftarrow> cli_printf put g i CLI_EOL w;
     w \<leftarrow> help_core put g i core_commands w;
     w \<leftarrow> help_user put g i 0 (user_count w) w;
     Some (0, w)
   }"

definition cli_command_version :: "'a cli_mem_scheme put_data \<Rightarrow> cli_statics \<Rightarrow> addr \<Rightarrow> 'a cli_mem_scheme \<Rightarrow> (int \<times> 'a cli_mem_scheme) option" where
  "cli_command_version put g i w = do {
     w \<leftarrow> cli_printf put g i CLI_EOL w;
     w \<leftarrow> cli_printf put g i (VERSION @ CLI_EOL) w;
     Some (0, w)
   }"

definition cli_command_cli_connections :: "'a cli_mem_scheme \<Rightarrow> (int \<times> 'a cli_mem_scheme) option" where
  "cli_command_cli_connections w = Some (0, w)"

definition cli_command_exit :: "'a cli_mem_scheme cli_exit \<Rightarrow> addr \<Rightarrow> 'a cli_mem_scheme \<Rightarrow> (int \<times> 'a cli_mem_scheme) option" where
  "cli_command_exit exit i w = do { w \<leftarrow> exit i w; Some (-1, w) }"

fun run_handler ::
  "'a cli_mem_scheme put_data \<Rightarrow> 'a cli_mem_scheme cli_exit \<Rightarrow> 'a cli_mem_scheme cli_user \<Rightarrow> cli_statics \<Rightarrow>
   cli_handler \<Rightarrow> addr \<Rightarrow> nat list \<Rightarrow> 'a cli_mem_scheme \<Rightarrow> (int \<times> 'a cli_mem_scheme) option" where
  "run_handler put exit user g Cli_command_help i argv w = cli_command_help put g i w"
| "run_handler put exit user g Cli_command_version i argv w = cli_command_version put g i w"
| "run_handler put exit user g Cli_command_cli_connections i argv w = cli_command_cli_connections w"
| "run_handler put exit user g Cli_command_exit i argv w = cli_command_exit exit i w"
| "run_handler put exit user g (User_handler k) i argv w = user k i argv w"

text \<open>The search of both tables for a command, in this order; \<open>k\<close> entries of the second are left.\<close>

fun find_core :: "bytes \<Rightarrow> cli_command list \<Rightarrow> cli_handler option" where
  "find_core s [] = None"
| "find_core s (c # cs) = (if command c = s then Some (handler c) else find_core s cs)"

fun find_user :: "bytes \<Rightarrow> nat \<Rightarrow> nat \<Rightarrow> 'a cli_mem_scheme \<Rightarrow> cli_handler option option" where
  "find_user s j 0 w = Some None"
| "find_user s j (Suc k) w = do {
     c \<leftarrow> user_command j w;
     if command c = s then Some (Some (handler c)) else find_user s (j + 1) k w
   }"

definition line_of :: "addr \<Rightarrow> 'a cli_mem_scheme \<Rightarrow> bytes" where
  "line_of i w = cmd_buffer (clis w i)"

definition run_command ::
  "'a cli_mem_scheme put_data \<Rightarrow> 'a cli_mem_scheme cli_exit \<Rightarrow> 'a cli_mem_scheme cli_user \<Rightarrow> cli_statics \<Rightarrow>
   cli_handler \<Rightarrow> bytes \<Rightarrow> addr \<Rightarrow> nat list \<Rightarrow> 'a cli_mem_scheme \<Rightarrow> (int \<times> 'a cli_mem_scheme) option" where
  "run_command put exit user g h name i argv w = do {
     w \<leftarrow> cli_printf put g i (CLI_EOL @ text_of ''Executing '' @ name @ CLI_EOL) w;
     run_handler put exit user g h i argv (w\<lparr>cmd_log := cmd_log w @ [(i, map (\<lambda>p. the (c_string (line_of i w) p)) argv)]\<rparr>)
   }"

definition cli_execute_command ::
  "'a cli_mem_scheme put_data \<Rightarrow> 'a cli_mem_scheme cli_exit \<Rightarrow> 'a cli_mem_scheme cli_user \<Rightarrow> cli_statics \<Rightarrow>
   addr \<Rightarrow> 'a cli_mem_scheme \<Rightarrow> (int \<times> 'a cli_mem_scheme) option" where
  "cli_execute_command put exit user g i w = do {
     (b, r) \<leftarrow> split_line (line_of i w) 0 [];
     let w = put_cli i ((clis w i)\<lparr>cmd_buffer := b\<rparr>) w;
     case r of
       None \<Rightarrow> do {
         w \<leftarrow> cli_printf put g i (CLI_EOL @ text_of ''Error: too many arguments'' @ CLI_EOL) w;
         Some (0, w)
       }
     | Some [] \<Rightarrow> Some (0, w)
     | Some (a # argv) \<Rightarrow> do {
         name \<leftarrow> c_string (line_of i w) a;
         case find_core name core_commands of
           Some h \<Rightarrow> run_command put exit user g h name i (a # argv) w
         | None \<Rightarrow> do {
             f \<leftarrow> find_user name 0 (user_count w) w;
             case f of
               Some h \<Rightarrow> run_command put exit user g h name i (a # argv) w
             | None \<Rightarrow> do {
                 w \<leftarrow> cli_printf put g i (CLI_EOL @ text_of ''Unknown Command: '') w;
                 name \<leftarrow> c_string (line_of i w) a;
                 w \<leftarrow> cli_printf put g i name w;
                 w \<leftarrow> cli_printf put g i CLI_EOL w;
                 Some (0, w)
               }
           }
       }
   }"

section \<open>Input\<close>

text \<open>\<open>intf->cmd_buffer[intf->cmd_buffer_ndx++] = b\<close>\<close>

definition cli_store :: "addr \<Rightarrow> u8 \<Rightarrow> 'a cli_mem_scheme \<Rightarrow> 'a cli_mem_scheme option" where
  "cli_store i b w =
     (let k = unat (cmd_buffer_ndx (clis w i)) in
      if k < length (cmd_buffer (clis w i))
      then Some (put_cli i \<lparr>cmd_buffer_ndx = cmd_buffer_ndx (clis w i) + 1, cmd_buffer = (cmd_buffer (clis w i))[k := b]\<rparr> w)
      else None)"

definition set_ndx :: "addr \<Rightarrow> u8 \<Rightarrow> 'a cli_mem_scheme \<Rightarrow> 'a cli_mem_scheme" where
  "set_ndx i k w = put_cli i ((clis w i)\<lparr>cmd_buffer_ndx := k\<rparr>) w"

definition cli_rx_byte ::
  "'a cli_mem_scheme put_data \<Rightarrow> 'a cli_mem_scheme cli_exit \<Rightarrow> 'a cli_mem_scheme cli_user \<Rightarrow> cli_statics \<Rightarrow>
   addr \<Rightarrow> u8 \<Rightarrow> 'a cli_mem_scheme \<Rightarrow> (int \<times> 'a cli_mem_scheme) option" where
  "cli_rx_byte put exit user g i b w =
     (if b \<noteq> CLI_EOL_CHAR \<and> unat (cmd_buffer_ndx (clis w i)) < CLI_MAX_COMMAND_LEN then
        if b = 8 \<or> b = 127 then
          if 0 < cmd_buffer_ndx (clis w i) then do {
            w \<leftarrow> cli_printf put g i [8, 32, 8] w;
            Some (0, set_ndx i (cmd_buffer_ndx (clis w i) - 1) w)
          } else Some (0, w)
        else do {
          w \<leftarrow> cli_printf put g i [b] w;
          w \<leftarrow> cli_store i b w;
          Some (0, w)
        }
      else if b = CLI_EOL_CHAR then do {
        w \<leftarrow> cli_store i 0 w;
        (r, w) \<leftarrow> cli_execute_command put exit user g i w;
        if r = -1 then Some (-1, w)
        else do {
          w \<leftarrow> cli_prompt put g i (set_ndx i 0 w);
          Some (0, w)
        }
      }
      else Some (0, w))"

text \<open>\<open>data\<close> are the \<open>len\<close> received bytes.\<close>

fun cli_handle_rx ::
  "'a cli_mem_scheme put_data \<Rightarrow> 'a cli_mem_scheme cli_exit \<Rightarrow> 'a cli_mem_scheme cli_user \<Rightarrow> cli_statics \<Rightarrow>
   addr \<Rightarrow> bytes \<Rightarrow> 'a cli_mem_scheme \<Rightarrow> (int \<times> 'a cli_mem_scheme) option" where
  "cli_handle_rx put exit user g i [] w = Some (0, w)"
| "cli_handle_rx put exit user g i (b # bs) w = do {
     (r, w) \<leftarrow> cli_rx_byte put exit user g i b w;
     if r = -1 then Some (-1, w) else cli_handle_rx put exit user g i bs w
   }"

definition cli_init :: "cli_command list \<Rightarrow> int \<Rightarrow> 'a cli_mem_scheme \<Rightarrow> 'a cli_mem_scheme" where
  "cli_init cmds n w = w\<lparr>user_commands := cmds, num_user_commands := n\<rparr>"

definition cli_intf_register :: "cli_statics \<Rightarrow> addr \<Rightarrow> 'a cli_mem_scheme \<Rightarrow> 'a cli_mem_scheme option" where
  "cli_intf_register g i w = do {
     w \<leftarrow> on_heap (INIT_LIST_HEAD i) w;
     on_heap (list_add_tail i (cli_intf_list g)) (set_ndx i 0 w)
   }"

definition cli_intf_unregister :: "addr \<Rightarrow> 'a cli_mem_scheme \<Rightarrow> 'a cli_mem_scheme option" where
  "cli_intf_unregister i w = on_heap (list_del_init i) w"

section \<open>The words of a line\<close>

function words :: "bytes \<Rightarrow> bytes list" where
  "words s = (let s = dropWhile is_delim s in
     if s = [] then [] else takeWhile (\<lambda>x. \<not> is_delim x) s # words (dropWhile (\<lambda>x. \<not> is_delim x) s))"
  by pat_completeness auto
termination
proof (relation "measure length")
  fix s x assume x: "x = dropWhile is_delim s" "x \<noteq> []"
  then have "\<not> is_delim (hd x)" using hd_dropWhile[of is_delim s] by simp
  then have "length (dropWhile (\<lambda>x. \<not> is_delim x) x) < length x"
    using x(2) length_dropWhile_le[of "\<lambda>x. \<not> is_delim x" "tl x"] by (cases x) auto
  also have "length x \<le> length s" using x(1) by (simp add: length_dropWhile_le)
  finally show "(dropWhile (\<lambda>x. \<not> is_delim x) x, s) \<in> measure length" by simp
qed simp

declare words.simps [simp del]

lemma words_blank: "\<forall>x\<in>set ds. is_delim x \<Longrightarrow> words (ds @ s) = words s"
  by (subst (1 2) words.simps) (simp add: dropWhile_append2)

lemma words_Nil [simp]: "words [] = []"
  by (subst words.simps) simp

lemma words_token:
  assumes "tok \<noteq> []" "\<forall>x\<in>set tok. \<not> is_delim x" "rest = [] \<or> is_delim (hd rest)"
  shows "words (tok @ rest) = tok # words rest"
proof -
  have d: "dropWhile is_delim (tok @ rest) = tok @ rest" using assms(1,2) by (cases tok) auto
  have "takeWhile (\<lambda>x. \<not> is_delim x) rest = []" "dropWhile (\<lambda>x. \<not> is_delim x) rest = rest"
    using assms(3) by (cases rest; auto)+
  then have "takeWhile (\<lambda>x. \<not> is_delim x) (tok @ rest) = tok" "dropWhile (\<lambda>x. \<not> is_delim x) (tok @ rest) = rest"
    using assms(2) by (auto simp: takeWhile_append dropWhile_append)
  then show ?thesis using d assms(1) by (subst words.simps) (simp add: Let_def)
qed

lemma line_cases:
  obtains ds where "s = ds" "\<forall>x\<in>set ds. is_delim x"
  | ds tok where "s = ds @ tok" "\<forall>x\<in>set ds. is_delim x" "tok \<noteq> []" "\<forall>x\<in>set tok. \<not> is_delim x"
  | ds tok x rest where "s = ds @ tok @ x # rest" "\<forall>x\<in>set ds. is_delim x" "tok \<noteq> []" "\<forall>x\<in>set tok. \<not> is_delim x" "is_delim x"
proof -
  let ?ds = "takeWhile is_delim s" and ?r = "dropWhile is_delim s"
  let ?tok = "takeWhile (\<lambda>x. \<not> is_delim x) ?r" and ?u = "dropWhile (\<lambda>x. \<not> is_delim x) ?r"
  have s: "s = ?ds @ ?tok @ ?u" by simp
  have ds: "\<forall>x\<in>set ?ds. is_delim x" and tok: "\<forall>x\<in>set ?tok. \<not> is_delim x" by (auto dest: set_takeWhileD)
  consider "?r = []" | "?r \<noteq> []" "?u = []" | x rest where "?r \<noteq> []" "?u = x # rest" by (cases ?u) auto
  then show thesis
  proof cases
    case 1
    then show ?thesis using that(1)[of s] ds by (metis append_Nil2 takeWhile_dropWhile_id)
  next
    case 2
    then have "?tok \<noteq> []" using hd_dropWhile[of is_delim s] by (cases ?r) auto
    then show ?thesis using that(2)[OF _ ds _ tok] s 2(2) by simp
  next
    case (3 x rest)
    then have "?tok \<noteq> []" using hd_dropWhile[of is_delim s] by (cases ?r) auto
    moreover have "is_delim x" using hd_dropWhile[of "\<lambda>x. \<not> is_delim x" ?r] 3(2) by simp
    ultimately show ?thesis using that(3)[OF _ ds _ tok] s 3(2) by metis
  qed
qed

lemma c_string_at: "0 \<notin> set s \<Longrightarrow> c_string (pre @ s @ 0 # post) (length pre) = Some s"
  by (auto simp: c_string_def takeWhile_append)

lemma strtok_r_at:
  assumes "0 \<notin> set s" "\<forall>x\<in>set ds. is_delim x" "\<forall>x\<in>set tok. \<not> is_delim x" "rest = [] \<or> is_delim (hd rest)" "s = ds @ tok @ rest"
    "rest \<noteq> [] \<longrightarrow> tok \<noteq> []"
  shows "strtok_r (pre @ s @ 0 # post) (length pre) = Some (if tok = [] then (pre @ s @ 0 # post, None)
     else if rest = [] then (pre @ s @ 0 # post, Some (length (pre @ ds), length (pre @ ds @ tok)))
     else (pre @ ds @ tok @ 0 # tl rest @ 0 # post, Some (length (pre @ ds), length (pre @ ds @ tok @ [0::u8]))))"
proof -
  have tr: "takeWhile (\<lambda>x. \<not> is_delim x) rest = []" "dropWhile is_delim (tok @ rest) = (if tok = [] then [] else tok @ rest)"
    "takeWhile is_delim (tok @ rest) = []"
    using assms(3,4,6) by (cases rest; cases tok; auto)+
  have t: "takeWhile is_delim s = ds" "dropWhile is_delim s = (if tok = [] then [] else tok @ rest)"
    "takeWhile (\<lambda>x. \<not> is_delim x) (tok @ rest) = tok"
    using assms(2,3) tr unfolding assms(5) by (simp_all add: takeWhile_append2 dropWhile_append2)
  have u: "(pre @ ds @ tok @ rest @ 0 # post)[length pre + (length ds + length tok) := 0] = pre @ ds @ tok @ 0 # tl rest @ 0 # post"
    if "rest \<noteq> []" using that by (cases rest) (simp_all add: list_update_append)
  show ?thesis
    by (simp only: strtok_r_def c_string_at[OF assms(1)] bind.simps Let_def t(1,2)) (auto simp: t(3) u assms(5) add.assoc)
qed

lemma split_line_words:
  assumes "0 \<notin> set s" "length argv \<le> CLI_COMMAND_MAX_ARGS"
  shows "\<exists>m ps. split_line (pre @ s @ 0 # post) (length pre) argv
      = Some (pre @ m @ 0 # post, if length argv + length (words s) \<le> CLI_COMMAND_MAX_ARGS then Some (argv @ ps) else None)
    \<and> length m = length s
    \<and> (length argv + length (words s) \<le> CLI_COMMAND_MAX_ARGS \<longrightarrow> map (c_string (pre @ m @ 0 # post)) ps = map Some (words s))"
  using assms
proof (induction "length s" arbitrary: s pre argv rule: less_induct)
  case less
  show ?case
  proof (cases s rule: line_cases)
    case (1 ds)
    then show ?thesis using strtok_r_at[of s ds "[]" "[]" pre post] less.prems words_blank[of ds "[]"]
      by (subst split_line.simps) auto
  next
    case (2 ds tok)
    have w: "words s = [tok]" using 2 words_blank[of ds tok] words_token[of tok "[]"] by simp
    have z: "0 \<notin> set tok" using less.prems(1) 2(1) by simp
    have r: "strtok_r (pre @ s @ 0 # post) (length pre) = Some (pre @ s @ 0 # post, Some (length (pre @ ds), length (pre @ s)))"
      using strtok_r_at[of s ds tok "[]" pre post] less.prems 2 by simp
    have e: "strtok_r (pre @ s @ 0 # post) (length (pre @ s)) = Some (pre @ s @ 0 # post, None)"
      using strtok_r_at[of "[]" "[]" "[]" "[]" "pre @ s" post] by simp
    have c: "c_string (pre @ s @ 0 # post) (length (pre @ ds)) = Some tok"
      using c_string_at[OF z, of "pre @ ds" post] 2(1) by simp
    have "split_line (pre @ s @ 0 # post) (length pre) argv = Some (pre @ s @ 0 # post,
      if length argv < CLI_COMMAND_MAX_ARGS then Some (argv @ [length (pre @ ds)]) else None)"
      using r e by (subst split_line.simps) (simp add: split_line.simps[of _ "length pre + length s"])
    then show ?thesis using w c by (intro exI[of _ s] exI[of _ "[length (pre @ ds)]"]) (auto simp: less_eq_Suc_le)
  next
    case (3 ds tok x rest)
    have w: "words s = tok # words rest"
      using 3 words_blank[of ds "tok @ x # rest"] words_token[of tok "x # rest"] words_blank[of "[x]" rest] by simp
    have z: "0 \<notin> set tok" "0 \<notin> set rest" using less.prems(1) 3(1) by simp_all
    let ?pre = "pre @ ds @ tok @ [0]"
    have r: "strtok_r (pre @ s @ 0 # post) (length pre) = Some (?pre @ rest @ 0 # post, Some (length (pre @ ds), length ?pre))"
      using strtok_r_at[of s ds tok "x # rest" pre post] less.prems 3 by simp
    have c: "c_string (?pre @ m) (length (pre @ ds)) = Some tok" for m
      using c_string_at[OF z(1), of "pre @ ds" m] by simp
    show ?thesis
    proof (cases "length argv < CLI_COMMAND_MAX_ARGS")
      case True
      obtain m ps where i: "split_line (?pre @ rest @ 0 # post) (length ?pre) (argv @ [length (pre @ ds)])
        = Some (?pre @ m @ 0 # post, if length (argv @ [length (pre @ ds)]) + length (words rest) \<le> CLI_COMMAND_MAX_ARGS
            then Some ((argv @ [length (pre @ ds)]) @ ps) else None)"
        "length m = length rest"
        "length (argv @ [length (pre @ ds)]) + length (words rest) \<le> CLI_COMMAND_MAX_ARGS \<longrightarrow>
          map (c_string (?pre @ m @ 0 # post)) ps = map Some (words rest)"
        using less.hyps[of rest "argv @ [length (pre @ ds)]" ?pre] 3(1) z(2) True by auto
      have "split_line (pre @ s @ 0 # post) (length pre) argv
        = split_line (?pre @ rest @ 0 # post) (length ?pre) (argv @ [length (pre @ ds)])"
        using r True by (subst split_line.simps) simp
      then show ?thesis using i w c 3(1)
        by (intro exI[of _ "ds @ tok @ 0 # m"] exI[of _ "length (pre @ ds) # ps"]) simp
    next
      case False
      then have "split_line (pre @ s @ 0 # post) (length pre) argv = Some (?pre @ rest @ 0 # post, None)"
        using r by (subst split_line.simps) simp
      then show ?thesis using False w 3(1)
        by (intro exI[of _ "ds @ tok @ 0 # rest"]) auto
    qed
  qed
qed

lemma words_length: "t \<in> set (words s) \<Longrightarrow> length t \<le> length s"
proof (induction s rule: words.induct)
  case (1 s)
  let ?r = "dropWhile is_delim s"
  have r: "length ?r \<le> length s" by (rule length_dropWhile_le)
  from "1.prems" have "?r \<noteq> []" and "t = takeWhile (\<lambda>x. \<not> is_delim x) ?r \<or> t \<in> set (words (dropWhile (\<lambda>x. \<not> is_delim x) ?r))"
    by (subst (asm) words.simps, simp add: Let_def split: if_splits)+
  then show ?case
    using "1.IH"[OF refl] r length_takeWhile_le[of "\<lambda>x. \<not> is_delim x" ?r] length_dropWhile_le[of "\<lambda>x. \<not> is_delim x" ?r]
    by (meson le_trans)
qed

lemma find_core_commands:
  "find_core s core_commands = (if s = text_of ''help'' then Some Cli_command_help
     else if s = text_of ''version'' then Some Cli_command_version
     else if s = text_of ''cli_conn'' then Some Cli_command_cli_connections
     else if s = text_of ''exit'' then Some Cli_command_exit else None)"
  by (auto simp: core_commands_def)

lemma exit_text: "text_of ''exit'' \<noteq> text_of ''help''" "text_of ''exit'' \<noteq> text_of ''version''" "text_of ''exit'' \<noteq> text_of ''cli_conn''"
  by (simp_all add: text_of_def)

section \<open>The line editor\<close>

text \<open>What the bytes of a line leave in the line buffer, which is \<open>holds\<close> in it.\<close>

definition edit_byte :: "bytes \<Rightarrow> u8 \<Rightarrow> bytes" where
  "edit_byte l b = (if length l < CLI_MAX_COMMAND_LEN then if b = 8 \<or> b = 127 then butlast l else l @ [b] else l)"

definition edit :: "bytes \<Rightarrow> bytes" where
  "edit bs = foldl edit_byte [] bs"

definition holds :: "addr \<Rightarrow> bytes \<Rightarrow> 'a cli_mem_scheme \<Rightarrow> bool" where
  "holds i l w \<longleftrightarrow> length l \<le> CLI_MAX_COMMAND_LEN \<and> unat (cmd_buffer_ndx (clis w i)) = length l
     \<and> length (cmd_buffer (clis w i)) = CLI_MAX_COMMAND_LEN \<and> take (length l) (cmd_buffer (clis w i)) = l"

lemma holds_cong: "clis w' i = clis w i \<Longrightarrow> holds i l w' = holds i l w"
  by (simp add: holds_def)

lemma holds_store:
  assumes "holds i l w" "length l < CLI_MAX_COMMAND_LEN"
  shows "\<exists>v. cli_store i b w = Some (put_cli i v w) \<and> holds i (l @ [b]) (put_cli i v w)"
proof -
  have n: "unat (cmd_buffer_ndx (clis w i) + 1) = length l + 1"
    using assms by (subst unat_add_lem[THEN iffD1]) (auto simp: holds_def CLI_MAX_COMMAND_LEN_def)
  have "take (length l + 1) ((cmd_buffer (clis w i))[length l := b]) = l @ [b]"
    using assms by (simp add: holds_def take_Suc_conv_app_nth)
  then show ?thesis using assms n by (auto simp: holds_def cli_store_def put_cli_def Let_def)
qed

lemma holds_full: "holds i l w \<Longrightarrow> length l = CLI_MAX_COMMAND_LEN \<Longrightarrow> cli_store i b w = None"
  by (simp add: holds_def cli_store_def)

lemma holds_erase:
  assumes "holds i l w" "l \<noteq> []"
  shows "holds i (butlast l) (set_ndx i (cmd_buffer_ndx (clis w i) - 1) w)"
proof -
  have "unat (cmd_buffer_ndx (clis w i) - 1) = length l - 1"
    using assms by (subst unat_minus_one) (auto simp: holds_def)
  moreover have "take (length l - 1) (cmd_buffer (clis w i)) = butlast l"
  proof -
    have l: "take (length l) (cmd_buffer (clis w i)) = l" using assms(1) by (simp add: holds_def)
    show ?thesis by (subst l[symmetric], subst butlast_take) (use assms(1) in \<open>simp_all add: holds_def\<close>)
  qed
  ultimately show ?thesis using assms by (auto simp: holds_def set_ndx_def put_cli_def)
qed

lemma holds_reset: "length (line_of i w) = CLI_MAX_COMMAND_LEN \<Longrightarrow> holds i [] (set_ndx i 0 w)"
  by (simp add: holds_def set_ndx_def put_cli_def line_of_def)

text \<open>A stored zero makes the line a C string.\<close>

lemma holds_line:
  assumes "holds i (l @ [0]) w"
  shows "\<exists>post. line_of i w = takeWhile (\<lambda>x. x \<noteq> 0) l @ 0 # post"
proof -
  let ?b = "cmd_buffer (clis w i)"
  have "?b = (l @ [0]) @ drop (length (l @ [0])) ?b" using assms unfolding holds_def by (metis append_take_drop_id)
  moreover obtain r where "l @ [0] = takeWhile (\<lambda>x. x \<noteq> 0) l @ 0 # r"
  proof (cases "0 \<in> set l")
    case True
    then obtain a c where "l = a @ 0 # c" "0 \<notin> set a" by (metis split_list_first)
    then show ?thesis using that[of "c @ [0]"] by (simp add: takeWhile_append)
  next
    case False
    then have tw: "takeWhile (\<lambda>x. x \<noteq> 0) l = l" by (auto simp: takeWhile_eq_all_conv)
    show ?thesis by (rule that[of "[]"]) (simp only: tw)
  qed
  ultimately show ?thesis unfolding line_of_def by (metis append_Cons append_assoc)
qed

section \<open>What the interpreter relies on\<close>

text \<open>
  The output of an interface and what ends it, as the interpreter uses them: output of what lies in a buffer returns and
  leaves the interfaces alone.
\<close>

definition cli_same :: "'a cli_mem_scheme \<Rightarrow> 'a cli_mem_scheme \<Rightarrow> bool" where
  "cli_same w w' \<longleftrightarrow> clis w' = clis w \<and> user_commands w' = user_commands w \<and> num_user_commands w' = num_user_commands w
     \<and> cmd_log w' = cmd_log w"

lemma cli_same_refl: "cli_same w w" by (simp add: cli_same_def)

lemma cli_same_trans: "cli_same w w' \<Longrightarrow> cli_same w' w'' \<Longrightarrow> cli_same w w''" by (simp add: cli_same_def)

definition cli_buffers :: "cli_statics \<Rightarrow> 'a cli_mem_scheme \<Rightarrow> bool" where
  "cli_buffers g w \<longleftrightarrow> length (bufs w (print_buffer g)) = CLI_MAX_COLUMNS_PER_LINE + 1
     \<and> bufs w (prompt g) = prompt_text @ [0] \<and> print_buffer g \<noteq> prompt g"

locale cli_port =
  fixes put :: "'a cli_mem_scheme put_data" and exit :: "'a cli_mem_scheme cli_exit" and g :: cli_statics and i :: addr
    and inv :: "'a cli_mem_scheme \<Rightarrow> bool"
  assumes buffers: "inv w \<Longrightarrow> cli_buffers g w"
    and put: "\<lbrakk>inv w; 0 \<le> len; len \<le> int CLI_MAX_COLUMNS_PER_LINE; len \<le> int (length (bufs w b)); b \<in> {print_buffer g, prompt g}\<rbrakk>
      \<Longrightarrow> \<exists>w'. put i b len w = Some w' \<and> inv w' \<and> cli_same w w'"
    and exit: "inv w \<Longrightarrow> \<exists>w'. exit i w = Some w' \<and> cmd_log w' = cmd_log w"
    and printed: "\<lbrakk>inv w; length bs = CLI_MAX_COLUMNS_PER_LINE + 1\<rbrakk> \<Longrightarrow> inv (w\<lparr>bufs := (bufs w)(print_buffer g := bs)\<rparr>)"
    and edited: "inv w \<Longrightarrow> inv (put_cli i v w)"
    and logged: "inv w \<Longrightarrow> inv (w\<lparr>cmd_log := l\<rparr>)"
begin

lemma printf:
  assumes "inv w" "length out \<le> CLI_MAX_COLUMNS_PER_LINE"
  shows "\<exists>w'. cli_printf put g i out w = Some w' \<and> inv w' \<and> cli_same w w'"
proof -
  let ?s = "take (CLI_MAX_COLUMNS_PER_LINE - 1) out @ [0]" and ?b = "bufs w (print_buffer g)"
  have b: "length ?b = CLI_MAX_COLUMNS_PER_LINE + 1" "0 < CLI_MAX_COLUMNS_PER_LINE"
    using buffers[OF assms(1)] by (simp_all add: cli_buffers_def CLI_MAX_COLUMNS_PER_LINE_def)
  have "memcpy b 0 s 0 (int (length s)) = Some (s @ drop (length s) b)" if "length s \<le> length b" for b s :: bytes
    using that by (simp add: memcpy_def)
  then have m: "memcpy ?b 0 ?s 0 (int (length ?s)) = Some (?s @ drop (length ?s) ?b)" by this (use b in simp)
  let ?w = "w\<lparr>bufs := (bufs w)(print_buffer g := ?s @ drop (length ?s) ?b)\<rparr>"
  have l: "length (?s @ drop (length ?s) ?b) = CLI_MAX_COLUMNS_PER_LINE + 1" using b by simp
  obtain w' where "put i (print_buffer g) (int (length out)) ?w = Some w'" "inv w'" "cli_same ?w w'"
    using put[OF printed[OF assms(1) l], of "int (length out)" "print_buffer g"] assms(2) l by auto
  then show ?thesis using m by (simp add: cli_printf_def cli_same_def)
qed

lemma prompts: "inv w \<Longrightarrow> \<exists>w'. cli_prompt put g i w = Some w' \<and> inv w' \<and> cli_same w w'"
proof -
  assume w: "inv w"
  then have p: "bufs w (prompt g) = prompt_text @ [0]" using buffers by (simp add: cli_buffers_def)
  have l: "length prompt_text \<le> CLI_MAX_COLUMNS_PER_LINE" "0 \<notin> set prompt_text"
    by (simp_all add: prompt_text_def CLI_EOL_def text_of_def CLI_MAX_COLUMNS_PER_LINE_def)
  then have "c_string (bufs w (prompt g)) 0 = Some prompt_text" using c_string_at[of prompt_text "[]" "[]"] p by simp
  then show ?thesis using put[OF w, of "int (length prompt_text)" "prompt g"] p l by (simp add: cli_prompt_def)
qed

text \<open>Editing a line.\<close>

lemma rx_edits:
  assumes "inv w" "holds i l w" "b \<noteq> CLI_EOL_CHAR"
  shows "\<exists>w'. cli_rx_byte put exit user g i b w = Some (0, w') \<and> inv w' \<and> holds i (edit_byte l b) w' \<and> cmd_log w' = cmd_log w
    \<and> num_user_commands w' = num_user_commands w"
proof -
  have n: "unat (cmd_buffer_ndx (clis w i)) = length l" "length l \<le> CLI_MAX_COMMAND_LEN" "0 < cmd_buffer_ndx (clis w i) \<longleftrightarrow> l \<noteq> []"
    using assms(2) by (auto simp: holds_def word_less_nat_alt)
  have k: "length [8, 32, 8::u8] \<le> CLI_MAX_COLUMNS_PER_LINE" "length [b] \<le> CLI_MAX_COLUMNS_PER_LINE"
    by (simp_all add: CLI_MAX_COLUMNS_PER_LINE_def)
  consider "length l = CLI_MAX_COMMAND_LEN" | "length l < CLI_MAX_COMMAND_LEN" "b = 8 \<or> b = 127" "l = []"
    | "length l < CLI_MAX_COMMAND_LEN" "b = 8 \<or> b = 127" "l \<noteq> []" | "length l < CLI_MAX_COMMAND_LEN" "\<not> (b = 8 \<or> b = 127)"
    using n(2) by linarith
  then show ?thesis
  proof cases
    case 3
    obtain w' where p: "cli_printf put g i [8, 32, 8] w = Some w'" "inv w'" "cli_same w w'" using printf[OF assms(1) k(1)] by blast
    have h: "holds i l w'" using p(3) assms(2) by (simp add: holds_def cli_same_def)
    show ?thesis using 3 assms(3) n p edited[OF p(2)] holds_erase[OF h 3(3)]
      by (simp add: cli_rx_byte_def edit_byte_def set_ndx_def put_cli_def cli_same_def)
  next
    case 4
    obtain w' where p: "cli_printf put g i [b] w = Some w'" "inv w'" "cli_same w w'" using printf[OF assms(1) k(2)] by blast
    have h: "holds i l w'" using p(3) assms(2) by (simp add: holds_def cli_same_def)
    obtain v where "cli_store i b w' = Some (put_cli i v w')" "holds i (l @ [b]) (put_cli i v w')"
      using holds_store[OF h 4(1)] by blast
    then show ?thesis using 4 assms(3) n p edited[OF p(2)]
      by (simp add: cli_rx_byte_def edit_byte_def put_cli_def cli_same_def)
  qed (use assms n in \<open>auto simp: cli_rx_byte_def edit_byte_def\<close>)
qed

lemma rx_line:
  assumes "inv w" "holds i l w" "CLI_EOL_CHAR \<notin> set bs"
  shows "\<exists>w'. cli_handle_rx put exit user g i (bs @ cs) w = cli_handle_rx put exit user g i cs w' \<and> inv w'
    \<and> holds i (foldl edit_byte l bs) w' \<and> cmd_log w' = cmd_log w \<and> num_user_commands w' = num_user_commands w"
  using assms
proof (induction bs arbitrary: l w)
  case (Cons b bs)
  obtain w1 where 1: "cli_rx_byte put exit user g i b w = Some (0, w1)" "inv w1" "holds i (edit_byte l b) w1" "cmd_log w1 = cmd_log w"
    "num_user_commands w1 = num_user_commands w" using rx_edits[OF Cons.prems(1,2), of b] Cons.prems(3) by auto
  have cr: "CLI_EOL_CHAR \<notin> set bs" using Cons.prems(3) by simp
  show ?case using Cons.IH[OF 1(2,3) cr] 1(1,4,5) by auto
qed auto

text \<open>The commands.\<close>

lemma help_lines:
  "inv w \<Longrightarrow> \<forall>c\<in>set cs. length (command c) \<le> 400 \<and> length (help_str c) \<le> 400 \<Longrightarrow>
    \<exists>w'. help_core put g i cs w = Some w' \<and> inv w' \<and> cli_same w w'"
proof (induction cs arbitrary: w)
  case (Cons c cs)
  have l: "length (left20 (command c) @ [58, 32]) \<le> CLI_MAX_COLUMNS_PER_LINE" "length (help_str c @ CLI_EOL) \<le> CLI_MAX_COLUMNS_PER_LINE"
    using Cons.prems(2) by (auto simp: left20_def CLI_MAX_COLUMNS_PER_LINE_def CLI_EOL_def)
  obtain w1 where 1: "cli_printf put g i (left20 (command c) @ [58, 32]) w = Some w1" "inv w1" "cli_same w w1"
    using printf[OF Cons.prems(1) l(1)] by blast
  obtain w2 where 2: "cli_printf put g i (help_str c @ CLI_EOL) w1 = Some w2" "inv w2" "cli_same w1 w2"
    using printf[OF 1(2) l(2)] by blast
  obtain w' where 3: "help_core put g i cs w2 = Some w'" "inv w'" "cli_same w2 w'" using Cons.IH[OF 2(2)] Cons.prems(2) by auto
  then show ?case using 1(1) 2(1) cli_same_trans[OF cli_same_trans[OF 1(3) 2(3)] 3(3)] by (simp add: help_line_def)
qed (simp add: cli_same_refl)

lemma core_help_short: "\<forall>c\<in>set core_commands. length (command c) \<le> 400 \<and> length (help_str c) \<le> 400"
  by (simp add: core_commands_def text_of_def)

lemma handlers:
  assumes "inv w" "find_core name core_commands = Some h" "user_count w = 0"
  shows "\<exists>r w'. run_handler put exit user g h i argv w = Some (r, w') \<and> cmd_log w' = cmd_log w
    \<and> r = (if name = text_of ''exit'' then -1 else 0) \<and> (r \<noteq> -1 \<longrightarrow> inv w' \<and> cli_same w w')"
proof -
  have eol: "length CLI_EOL \<le> CLI_MAX_COLUMNS_PER_LINE" "length (VERSION @ CLI_EOL) \<le> CLI_MAX_COLUMNS_PER_LINE"
    by (simp_all add: CLI_EOL_def CLI_MAX_COLUMNS_PER_LINE_def VERSION_def text_of_def)
  obtain w1 where 1: "cli_printf put g i CLI_EOL w = Some w1" "inv w1" "cli_same w w1" using printf[OF assms(1) eol(1)] by blast
  obtain w2 where 2: "cli_printf put g i (VERSION @ CLI_EOL) w1 = Some w2" "inv w2" "cli_same w1 w2" using printf[OF 1(2) eol(2)] by blast
  obtain w3 where 3: "help_core put g i core_commands w1 = Some w3" "inv w3" "cli_same w1 w3"
    using help_lines[OF 1(2) core_help_short] by blast
  have u: "user_count w3 = 0" using 1(3) 3(3) assms(3) by (simp add: cli_same_def user_count_def)
  obtain w4 where 4: "exit i w = Some w4" "cmd_log w4 = cmd_log w" using exit[OF assms(1)] by blast
  show ?thesis using assms(2) 1 2 3 4 u assms(1) exit_text
    by (auto simp: find_core_commands cli_command_help_def cli_command_version_def cli_command_cli_connections_def cli_command_exit_def
        cli_same_def split: if_splits)
qed

end

text \<open>What the line \<open>s\<close> asks for.\<close>

definition known :: "bytes \<Rightarrow> bool" where
  "known s \<longleftrightarrow> words s \<noteq> [] \<and> length (words s) \<le> CLI_COMMAND_MAX_ARGS \<and> find_core (hd (words s)) core_commands \<noteq> None"

definition wants_exit :: "bytes \<Rightarrow> bool" where
  "wants_exit s \<longleftrightarrow> known s \<and> hd (words s) = text_of ''exit''"

context cli_port
begin

lemma runs:
  assumes "inv w" "find_core name core_commands = Some h" "user_count w = 0" "length name < CLI_MAX_COMMAND_LEN"
    and "map (c_string (line_of i w)) argv = map Some ws"
  shows "\<exists>r w'. run_command put exit user g h name i argv w = Some (r, w') \<and> cmd_log w' = cmd_log w @ [(i, ws)]
    \<and> r = (if name = text_of ''exit'' then -1 else 0) \<and> (r \<noteq> -1 \<longrightarrow> inv w' \<and> clis w' = clis w \<and> num_user_commands w' = num_user_commands w)"
proof -
  have "length (CLI_EOL @ text_of ''Executing '' @ name @ CLI_EOL) \<le> CLI_MAX_COLUMNS_PER_LINE"
    using assms(4) by (simp add: CLI_EOL_def text_of_def CLI_MAX_COLUMNS_PER_LINE_def CLI_MAX_COMMAND_LEN_def)
  then obtain w1 where 1: "cli_printf put g i (CLI_EOL @ text_of ''Executing '' @ name @ CLI_EOL) w = Some w1" "inv w1" "cli_same w w1"
    using printf[OF assms(1)] by blast
  have ws: "map (\<lambda>p. the (c_string (line_of i w1) p)) argv = ws"
  proof -
    have "line_of i w1 = line_of i w" using 1(3) by (simp add: line_of_def cli_same_def)
    then have "map (\<lambda>p. the (c_string (line_of i w1) p)) argv = map the (map (c_string (line_of i w)) argv)" by simp
    then show ?thesis unfolding assms(5) by (simp add: comp_def)
  qed
  let ?w = "w1\<lparr>cmd_log := cmd_log w1 @ [(i, ws)]\<rparr>"
  have u: "user_count ?w = 0" using 1(3) assms(3) by (simp add: cli_same_def user_count_def)
  obtain r w' where "run_handler put exit user g h i argv ?w = Some (r, w')" "cmd_log w' = cmd_log ?w"
    "r = (if name = text_of ''exit'' then -1 else 0)" "r \<noteq> -1 \<longrightarrow> inv w' \<and> cli_same ?w w'"
    using handlers[OF logged[OF 1(2)] assms(2) u] by blast
  then show ?thesis using 1(1,3) ws by (auto simp: run_command_def cli_same_def)
qed

lemma says:
  assumes "inv w" "length name < CLI_MAX_COMMAND_LEN"
  shows "\<exists>w'. cli_printf put g i (CLI_EOL @ text_of ''Unknown Command: '') w \<bind> cli_printf put g i name \<bind> cli_printf put g i CLI_EOL
      = Some w' \<and> inv w' \<and> cli_same w w'"
    "\<exists>w'. cli_printf put g i (CLI_EOL @ text_of ''Error: too many arguments'' @ CLI_EOL) w = Some w' \<and> inv w' \<and> cli_same w w'"
proof -
  have l: "length (CLI_EOL @ text_of ''Unknown Command: '') \<le> CLI_MAX_COLUMNS_PER_LINE" "length name \<le> CLI_MAX_COLUMNS_PER_LINE"
    "length CLI_EOL \<le> CLI_MAX_COLUMNS_PER_LINE" "length (CLI_EOL @ text_of ''Error: too many arguments'' @ CLI_EOL) \<le> CLI_MAX_COLUMNS_PER_LINE"
    using assms(2) by (simp_all add: CLI_EOL_def text_of_def CLI_MAX_COLUMNS_PER_LINE_def CLI_MAX_COMMAND_LEN_def)
  obtain w1 where 1: "cli_printf put g i (CLI_EOL @ text_of ''Unknown Command: '') w = Some w1" "inv w1" "cli_same w w1"
    using printf[OF assms(1) l(1)] by blast
  obtain w2 where 2: "cli_printf put g i name w1 = Some w2" "inv w2" "cli_same w1 w2" using printf[OF 1(2) l(2)] by blast
  obtain w3 where 3: "cli_printf put g i CLI_EOL w2 = Some w3" "inv w3" "cli_same w2 w3" using printf[OF 2(2) l(3)] by blast
  show "\<exists>w'. cli_printf put g i (CLI_EOL @ text_of ''Unknown Command: '') w \<bind> cli_printf put g i name \<bind> cli_printf put g i CLI_EOL
      = Some w' \<and> inv w' \<and> cli_same w w'"
    using 1(1) 2(1) 3(1,2) cli_same_trans[OF cli_same_trans[OF 1(3) 2(3)] 3(3)] by simp
  show "\<exists>w'. cli_printf put g i (CLI_EOL @ text_of ''Error: too many arguments'' @ CLI_EOL) w = Some w' \<and> inv w' \<and> cli_same w w'"
    using printf[OF assms(1) l(4)] .
qed

lemma executes:
  assumes "inv w" "line_of i w = s @ 0 # post" "0 \<notin> set s" "length s < CLI_MAX_COMMAND_LEN" "user_count w = 0"
  shows "\<exists>r w'. cli_execute_command put exit user g i w = Some (r, w')
    \<and> cmd_log w' = cmd_log w @ (if known s then [(i, words s)] else []) \<and> r = (if wants_exit s then -1 else 0)
    \<and> (r \<noteq> -1 \<longrightarrow> inv w' \<and> length (line_of i w') = length (line_of i w) \<and> num_user_commands w' = num_user_commands w)"
proof -
  obtain m ps where sp: "split_line (s @ 0 # post) 0 [] = Some (m @ 0 # post, if length (words s) \<le> CLI_COMMAND_MAX_ARGS then Some ps else None)"
    "length m = length s" "length (words s) \<le> CLI_COMMAND_MAX_ARGS \<longrightarrow> map (c_string (m @ 0 # post)) ps = map Some (words s)"
    using split_line_words[OF assms(3), of "[]" "[]" post] by auto
  let ?w = "put_cli i ((clis w i)\<lparr>cmd_buffer := m @ 0 # post\<rparr>) w"
  have w: "inv ?w" "line_of i ?w = m @ 0 # post" "cmd_log ?w = cmd_log w" "num_user_commands ?w = num_user_commands w" "user_count ?w = 0"
    using edited[OF assms(1)] assms(5) by (simp_all add: line_of_def put_cli_def user_count_def)
  have len: "length (line_of i ?w) = length (line_of i w)" using sp(2) w(2) assms(2) by simp
  have e: "length ([] :: bytes) < CLI_MAX_COMMAND_LEN" by (simp add: CLI_MAX_COMMAND_LEN_def)
  consider "length (words s) > CLI_COMMAND_MAX_ARGS" | "words s = []"
    | t ts where "length (words s) \<le> CLI_COMMAND_MAX_ARGS" "words s = t # ts" by (cases "words s"; fastforce)
  then show ?thesis
  proof cases
    case 1
    obtain w' where "cli_printf put g i (CLI_EOL @ text_of ''Error: too many arguments'' @ CLI_EOL) ?w = Some w'" "inv w'" "cli_same ?w w'"
      using says(2)[OF w(1) e] by blast
    then show ?thesis using 1 sp(1) assms(2) len w
      by (auto simp: cli_execute_command_def Let_def known_def wants_exit_def cli_same_def line_of_def)
  next
    case 2
    then have "ps = []" using sp(3) by simp
    then show ?thesis using 2 sp(1) assms(2) len w
      by (auto simp: cli_execute_command_def Let_def known_def wants_exit_def)
  next
    case (3 t ts)
    then obtain a as where ps: "ps = a # as" "c_string (m @ 0 # post) a = Some t" using sp(3) by (cases ps) auto
    have t: "length t < CLI_MAX_COMMAND_LEN" using words_length[of t s] 3(2) assms(4) by simp
    have x: "cli_execute_command put exit user g i w = (case find_core t core_commands of
        Some h \<Rightarrow> run_command put exit user g h t i ps ?w
      | None \<Rightarrow> (cli_printf put g i (CLI_EOL @ text_of ''Unknown Command: '') ?w \<bind> (\<lambda>w. c_string (line_of i w) a \<bind>
          (\<lambda>name. cli_printf put g i name w \<bind> (\<lambda>w. cli_printf put g i CLI_EOL w \<bind> (\<lambda>w. Some (0, w)))))))"
      using 3(1) sp(1) assms(2) ps w(2,5) by (simp add: cli_execute_command_def Let_def split: option.splits)
    show ?thesis
    proof (cases "find_core t core_commands")
      case None
      obtain w' where p: "cli_printf put g i (CLI_EOL @ text_of ''Unknown Command: '') ?w \<bind> cli_printf put g i t \<bind> cli_printf put g i CLI_EOL
          = Some w'" "inv w'" "cli_same ?w w'" using says(1)[OF w(1) t] by blast
      have "length (CLI_EOL @ text_of ''Unknown Command: '') \<le> CLI_MAX_COLUMNS_PER_LINE"
        by (simp add: CLI_EOL_def text_of_def CLI_MAX_COLUMNS_PER_LINE_def)
      then obtain w1 where 1: "cli_printf put g i (CLI_EOL @ text_of ''Unknown Command: '') ?w = Some w1" "inv w1" "cli_same ?w w1"
        using printf[OF w(1)] by blast
      have "c_string (line_of i w1) a = Some t" using 1(3) w(2) ps(2) by (simp add: line_of_def cli_same_def)
      then have "cli_execute_command put exit user g i w = Some (0, w')"
        using x None 1(1) p(1) by (auto simp: bind_eq_Some_conv)
      then show ?thesis using None 3(2) p(2,3) len w(3,4)
        by (auto simp: known_def wants_exit_def cli_same_def line_of_def)
    next
      case (Some h)
      have cs: "map (c_string (line_of i ?w)) ps = map Some (words s)" using sp(3) 3(1) w(2) by simp
      obtain r w' where r: "run_command put exit user g h t i ps ?w = Some (r, w')" "cmd_log w' = cmd_log ?w @ [(i, words s)]"
        "r = (if t = text_of ''exit'' then -1 else 0)" "r \<noteq> -1 \<longrightarrow> inv w' \<and> clis w' = clis ?w \<and> num_user_commands w' = num_user_commands ?w"
        using runs[OF w(1) Some w(5) t cs] by blast
      have k: "known s" "wants_exit s \<longleftrightarrow> t = text_of ''exit''" using Some 3 by (simp_all add: known_def wants_exit_def)
      have "line_of i w' = line_of i ?w" if "r \<noteq> -1" using r(4) that by (simp add: line_of_def)
      then show ?thesis using x Some r k len w(3,4) by auto
    qed
  qed
qed

lemma rx_enter:
  assumes "inv w" "holds i l w" "length l < CLI_MAX_COMMAND_LEN" "num_user_commands w = 0"
  defines "s \<equiv> takeWhile (\<lambda>x. x \<noteq> 0) l"
  shows "\<exists>r w'. cli_rx_byte put exit user g i CLI_EOL_CHAR w = Some (r, w')
    \<and> cmd_log w' = cmd_log w @ (if known s then [(i, words s)] else []) \<and> r = (if wants_exit s then -1 else 0)
    \<and> (r \<noteq> -1 \<longrightarrow> inv w' \<and> holds i [] w' \<and> num_user_commands w' = 0)"
proof -
  obtain v where v: "cli_store i 0 w = Some (put_cli i v w)" "holds i (l @ [0]) (put_cli i v w)"
    using holds_store[OF assms(2,3)] by blast
  let ?w = "put_cli i v w"
  have w: "inv ?w" "cmd_log ?w = cmd_log w" "num_user_commands ?w = 0" "user_count ?w = 0"
    using edited[OF assms(1)] assms(4) by (simp_all add: put_cli_def user_count_def)
  obtain post where p: "line_of i ?w = s @ 0 # post" using holds_line[OF v(2)] unfolding s_def by blast
  have s: "0 \<notin> set s" "length s < CLI_MAX_COMMAND_LEN"
    using assms(3) length_takeWhile_le[of "\<lambda>x. x \<noteq> 0" l] by (auto simp: s_def dest: set_takeWhileD)
  obtain r w1 where e: "cli_execute_command put exit user g i ?w = Some (r, w1)"
    "cmd_log w1 = cmd_log ?w @ (if known s then [(i, words s)] else [])" "r = (if wants_exit s then -1 else 0)"
    "r \<noteq> -1 \<longrightarrow> inv w1 \<and> length (line_of i w1) = length (line_of i ?w) \<and> num_user_commands w1 = num_user_commands ?w"
    using executes[OF w(1) p s w(4)] by blast
  show ?thesis
  proof (cases "wants_exit s")
    case True
    then show ?thesis using e v(1) w(2) by (simp add: cli_rx_byte_def)
  next
    case False
    have i1: "inv w1" "length (line_of i w1) = CLI_MAX_COMMAND_LEN" "num_user_commands w1 = 0"
      using e(3,4) False v(2) w(3) by (simp_all add: holds_def line_of_def)
    have i2: "inv (set_ndx i 0 w1)" unfolding set_ndx_def by (rule edited[OF i1(1)])
    obtain w' where p: "cli_prompt put g i (set_ndx i 0 w1) = Some w'" "inv w'" "cli_same (set_ndx i 0 w1) w'"
      using prompts[OF i2] by blast
    have "holds i [] w'" using holds_reset[OF i1(2)] p(3) holds_cong[of w' i "set_ndx i 0 w1"] by (simp add: cli_same_def)
    moreover have "cmd_log w' = cmd_log w1" "num_user_commands w' = 0" using p(3) i1(3) by (simp_all add: cli_same_def set_ndx_def put_cli_def)
    ultimately show ?thesis using False e(1-3) v(1) w(2) p(1,2) by (simp add: cli_rx_byte_def)
  qed
qed

text \<open>A whole line, and a line that is too long.\<close>

lemma rx_runs_line:
  assumes "inv w" "holds i [] w" "CLI_EOL_CHAR \<notin> set bs" "length (edit bs) < CLI_MAX_COMMAND_LEN" "num_user_commands w = 0"
  defines "s \<equiv> takeWhile (\<lambda>x. x \<noteq> 0) (edit bs)"
  shows "\<exists>r w'. cli_handle_rx put exit user g i (bs @ [CLI_EOL_CHAR]) w = Some (r, w')
    \<and> cmd_log w' = cmd_log w @ (if known s then [(i, words s)] else []) \<and> r = (if wants_exit s then -1 else 0)
    \<and> (r \<noteq> -1 \<longrightarrow> inv w' \<and> holds i [] w' \<and> num_user_commands w' = 0)"
proof -
  obtain w1 where 1: "cli_handle_rx put exit user g i (bs @ [CLI_EOL_CHAR]) w = cli_handle_rx put exit user g i [CLI_EOL_CHAR] w1"
    "inv w1" "holds i (edit bs) w1" "cmd_log w1 = cmd_log w" "num_user_commands w1 = 0"
    using rx_line[OF assms(1-3)] assms(5) unfolding edit_def by metis
  obtain r w' where "cli_rx_byte put exit user g i CLI_EOL_CHAR w1 = Some (r, w')" "r = (if wants_exit s then -1 else 0)"
    "cmd_log w' = cmd_log w1 @ (if known s then [(i, words s)] else [])" "r \<noteq> -1 \<longrightarrow> inv w' \<and> holds i [] w' \<and> num_user_commands w' = 0"
    using rx_enter[OF 1(2,3) assms(4) 1(5), of user] unfolding s_def by blast
  then show ?thesis using 1(1,4) by auto
qed

lemma rx_overruns:
  assumes "inv w" "holds i [] w" "CLI_EOL_CHAR \<notin> set bs" "length (edit bs) = CLI_MAX_COMMAND_LEN"
  shows "cli_handle_rx put exit user g i (bs @ [CLI_EOL_CHAR]) w = None"
proof -
  obtain w1 where 1: "cli_handle_rx put exit user g i (bs @ [CLI_EOL_CHAR]) w = cli_handle_rx put exit user g i [CLI_EOL_CHAR] w1"
    "holds i (edit bs) w1" using rx_line[OF assms(1-3)] unfolding edit_def by metis
  then show ?thesis using holds_full[OF 1(2) assms(4)] by (simp add: cli_rx_byte_def)
qed

end

section \<open>Properties\<close>

text \<open>C34: The loop over \<open>strtok_r\<close> splits a line into its words as the plain recursive definition does, for every line of text: with at
  most 32 words it ends with pointers to exactly these words, in order, each a C string in the changed buffer; with more it ends
  with an error; and it stays inside the buffer.\<close>

theorem split_line_is_words:
  assumes "0 \<notin> set s"
  shows "\<exists>b r. split_line (s @ 0 # post) 0 [] = Some (b, r) \<and> length b = length (s @ 0 # post)
    \<and> (if length (words s) \<le> 32 then \<exists>argv. r = Some argv \<and> map (c_string b) argv = map Some (words s) else r = None)"
proof -
  obtain m ps where "split_line (s @ 0 # post) 0 [] = Some (m @ 0 # post, if length (words s) \<le> 32 then Some ps else None)"
    "length m = length s" "length (words s) \<le> 32 \<longrightarrow> map (c_string (m @ 0 # post)) ps = map Some (words s)"
    using split_line_words[OF assms, of "[]" "[]" post] by (auto simp: CLI_COMMAND_MAX_ARGS_def)
  then show ?thesis by (intro exI[of _ "m @ 0 # post"] exI[of _ "if length (words s) \<le> 32 then Some ps else None"]) simp
qed

theorem split_line_is_words_witness:
  "\<exists>b argv. split_line ([32, 97, 98, 9, 32, 99] @ 0 # [5]) 0 [] = Some (b, Some argv)
    \<and> map (c_string b) argv = [Some [97, 98], Some [99]]"
proof -
  have "words [32, 97, 98, 9, 32, 99] = [[97, 98], [99]]"
    using words_blank[of "[32]" "[97, 98, 9, 32, 99]"] words_token[of "[97, 98]" "[9, 32, 99]"] words_blank[of "[9, 32]" "[99]"]
      words_token[of "[99]" "[]"] by (simp add: is_delim_def)
  then show ?thesis using split_line_is_words[of "[32, 97, 98, 9, 32, 99]" "[5]"] by auto
qed

end
