(* ===== verification/Conn_Queue.thy ===== *)
theory Conn_Queue
  imports Io_Net Circ_Buffer
begin

text \<open>
  What the sample servers have in common: objects with several list cells that come from \<open>malloc\<close> and go with \<open>free\<close>, a
  circular buffer of 512 bytes for output that the socket does not take, and what the peer receives.
\<close>

section \<open>Calls of the services\<close>

unbundle bit_operations_syntax

text \<open>\<open>write\<close> does not take more than it is offered.\<close>

definition writes_ok :: "os \<Rightarrow> bool" where
  "writes_ok os \<longleftrightarrow> (\<forall>fd bs tr. os_ret (os (Sys_write fd bs) tr) \<le> int (length bs))"

definition only_io :: "'a net_mem_scheme \<Rightarrow> 'a net_mem_scheme \<Rightarrow> bool" where
  "only_io w w' \<longleftrightarrow> w' = w\<lparr>lheap := lheap w', watchers := watchers w', trace := trace w', errno := errno w'\<rparr>"

lemma tx_only_io:
  assumes "io_net_tx os tc n b len w = Some (r, w')"
  shows "only_io w w'"
  using assms by (auto simp: only_io_def io_net_tx_def io_driver_watch_def on_heap_def put_watcher_def sys_def os_do_def Let_def
      bind_eq_Some_conv split: if_splits)

lemma close_only_io:
  assumes "io_net_close os n w = Some w'" "net_ssl (nets w n) = NULL"
  shows "only_io w w'"
proof -
  obtain w1 where 1: "io_driver_no_watch (net_driver (nets w n)) n (IO_DRIVER_EVENT_RX OR IO_DRIVER_EVENT_TX OR IO_DRIVER_EVENT_EX) w = Some w1"
    using assms(1) by (auto simp: io_net_close_def bind_eq_Some_conv)
  then have w1: "only_io w w1" "nets w1 = nets w"
    by (auto simp: only_io_def io_driver_no_watch_def on_heap_def put_watcher_def Let_def bind_eq_Some_conv split: if_splits)
  then have "w' = sys_all os [Sys_close (sd (nets w n))] w1" using assms 1 by (simp add: io_net_close_def)
  moreover obtain t e where "sys_all os [Sys_close (sd (nets w n))] w1 = w1\<lparr>trace := t, errno := e\<rparr>" using sys_all_state by blast
  moreover obtain h ws t1 e1 where "w1 = w\<lparr>lheap := h, watchers := ws, trace := t1, errno := e1\<rparr>" using w1(1) unfolding only_io_def by blast
  ultimately show ?thesis by (simp add: only_io_def)
qed

lemma tx_is_event: "x AND NOT EVENTS = 0 \<Longrightarrow> (x OR IO_DRIVER_EVENT_TX) AND NOT EVENTS = 0" for x :: u8
  by (simp add: bit.conj_disj_distrib2 EVENTS_def IO_DRIVER_EVENT_RX_def IO_DRIVER_EVENT_TX_def IO_DRIVER_EVENT_EX_def)

section \<open>The output queue\<close>

lemma data_size: "circ_ok q \<Longrightarrow> cb_data_size q = int (length (contents q))"
  by (simp add: nat_data_size)

lemma no_data: "circ_ok q \<Longrightarrow> circ_buffer_is_empty q \<longleftrightarrow> contents q = []"
  by (simp add: circ_buffer_is_empty_def data_size)

lemma put_circ:
  assumes "circ_ok q" "cb_size q = 512" "0 \<le> n" "n \<le> int (length bs)" "n \<le> 1024"
  shows "\<exists>q' r. circ_buffer_put q bs n = Some (r, q') \<and> circ_ok q' \<and> cb_size q' = 512
    \<and> (if cb_data_size q + n \<le> 512 then r = 0 \<and> contents q' = contents q @ take (nat n) bs else r = -1 \<and> q' = q)"
proof (cases "cb_data_size q + n \<le> 512")
  case True
  moreover have "nat n \<le> length bs" using assms(4) by linarith
  ultimately show ?thesis using circ_buffer_put_fits[of q "nat n" bs] assms(1-3) by auto
next
  case False
  then show ?thesis using circ_buffer_put_full[of q n bs] assms by (simp add: INT_MAX_def)
qed

section \<open>What the peer receives\<close>

text \<open>The bytes that the system took for a descriptor.\<close>

fun taken :: "int \<Rightarrow> os_call \<times> os_result \<Rightarrow> bytes" where
  "taken fd (Sys_write fd' bs, a) = (if fd' = fd then take (nat (os_ret a)) bs else [])"
| "taken fd _ = []"

definition accepted :: "int \<Rightarrow> os_trace \<Rightarrow> bytes" where
  "accepted fd tr = concat (map (taken fd) tr)"

lemma accepted_simps [simp]: "accepted fd [] = []" "accepted fd (x # tr) = taken fd x @ accepted fd tr"
  by (simp_all add: accepted_def)

section \<open>Objects that come and go\<close>

lemma use_cell:
  assumes L: "heap_lists h L" and a: "a \<notin> dom h" "a \<noteq> NULL"
  shows "heap_lists (h(a \<mapsto> v)) L" "a \<notin> cells L"
proof -
  show c: "a \<notin> cells L" using lists_cells_dom[OF L] a(1) by blast
  have "ring (h(a \<mapsto> v)) d xs" if "L d = Some xs" for d xs
    using c that by (intro ring_same[OF listsD(2)[OF L that]]) (auto simp: cells_def)
  then show "heap_lists (h(a \<mapsto> v)) L" using listsD(1)[OF L] listsD(3)[OF L] a(2) unfolding heap_lists_def by auto
qed

lemma init_and_add:
  assumes L: "heap_lists h L" and a: "loose h L a" "L X = Some xs" "a \<noteq> X"
  shows "\<exists>h1 h2. INIT_LIST_HEAD a h = Some h1 \<and> list_add_tail a X h1 = Some h2 \<and> heap_lists h2 (L(X \<mapsto> xs @ [a])) \<and> dom h2 = dom h"
proof -
  have n: "L a = None" using a(1) cellsI[of L a _ a] by (cases "L a") (auto simp: loose_def)
  then have u: "L(a := None) = L" by (rule fun_upd_idem)
  obtain h1 where 1: "INIT_LIST_HEAD a h = Some h1" "heap_lists h1 (L(a \<mapsto> []))" "dom h1 = dom h"
    using INIT_LIST_HEAD_family[OF L, of a] a(1) u by auto
  have L1: "heap_lists h1 L" using lists_forget[OF 1(2), of a] u by (simp add: fun_upd_idem n)
  have "loose h1 L a" using a(1) 1(3) by (simp add: loose_def)
  then obtain h2 where "list_add_tail a X h1 = Some h2" "heap_lists h2 (L(X \<mapsto> xs @ [a]))" "dom h2 = dom h1"
    using list_add_tail_family[OF L1 a(2)] by blast
  then show ?thesis using 1 by auto
qed

lemma free_unused:
  assumes L: "heap_lists h L" and c: "c \<notin> cells L"
  shows "heap_lists (h(c := None)) L"
proof -
  have "ring (h(c := None)) d xs" if "L d = Some xs" for d xs
    using c that by (intro ring_same[OF listsD(2)[OF L that]]) (auto simp: cells_def)
  then show ?thesis using listsD(1)[OF L] listsD(3)[OF L] unfolding heap_lists_def by auto
qed

lemma free_idle: "heap_lists h L \<Longrightarrow> L c = Some [] \<Longrightarrow> heap_lists (h(c := None)) (L(c := None))"
  using leave_scope_family[of "\<lparr>lheap = h\<rparr>" L c] by (simp add: leave_scope_def)

section \<open>Concrete queues and systems\<close>

definition demo_queue :: "bytes \<Rightarrow> circ_buffer" where
  "demo_queue bs = \<lparr>cb_buffer = Some (bs @ replicate (512 - length bs) 0), cb_size = 512, cb_data_size = int (length bs),
     cb_begin = 0, cb_end = int (length bs) mod 512\<rparr>"

lemma demo_queue_ok: "length bs < 512 \<Longrightarrow> circ_ok (demo_queue bs) \<and> contents (demo_queue bs) = bs"
  by (simp add: demo_queue_def circ_ok_def contents_def INT_MAX_def)

text \<open>A system whose sockets take \<open>k\<close> bytes of the first write and everything later, and one whose sockets block.\<close>

definition slow_os :: "nat \<Rightarrow> os" where
  "slow_os k c tr = (case c of
       Sys_write fd bs \<Rightarrow> answer (if tr = [] then int (min k (length bs)) else int (length bs))
     | _ \<Rightarrow> answer 0)"

definition blocked_os :: os where
  "blocked_os c tr = (answer 0)\<lparr>os_errno := EAGAIN\<rparr>"

lemma demo_writes: "writes_ok (slow_os k)" "writes_ok blocked_os"
  by (simp_all add: writes_ok_def slow_os_def blocked_os_def answer_def)

end
