(* ===== verification/Cli_Server.thy ===== *)
theory Cli_Server
  imports Cli Conn_Queue Event_Loop
begin

text \<open>
  The sample server of \<open>src/test/cli_server.c\<close>: every telnet connection gets a command line interface, and a circular buffer
  for output that the socket does not take. It composes the event loop, the network and telnet services, the
  circular buffer and the interpreter.

  A connection object is named by its address \<open>c\<close>; the members with list cells of their own are at the offsets of the C
  layout. \<open>malloc\<close> is a parameter: \<open>alloc\<close> is the address of the new object and \<open>block\<close> the memory of its
  circular buffer.
\<close>

section \<open>State\<close>

unbundle bit_operations_syntax

record server_mem = cli_mem +
  txcbs :: "addr \<Rightarrow> circ_buffer"

text \<open>The static variables; \<open>resume_buf\<close> is the address of the local array of \<open>cli_tx_resume\<close>.\<close>

record server_statics = cli_statics +
  conns :: addr
  the_driver :: addr
  tserver :: addr
  iacs_to_send :: addr
  resume_buf :: addr

definition conn_tconn :: "addr \<Rightarrow> addr" where "conn_tconn c = c + 56"
definition conn_cli :: "addr \<Rightarrow> addr" where "conn_cli c = c + 576"
definition conn_rx_buf :: "addr \<Rightarrow> addr" where "conn_rx_buf c = c + 168"

definition container_of_tconn :: "addr \<Rightarrow> addr" where "container_of_tconn t = t - 56"
definition container_of_cli :: "addr \<Rightarrow> addr" where "container_of_cli i = i - 576"

lemma conn_members [simp]:
  "container_of_tconn (conn_tconn c) = c" "container_of_cli (conn_cli c) = c"
  "conn_tconn c \<noteq> c" "c \<noteq> conn_tconn c" "conn_cli c \<noteq> c" "c \<noteq> conn_cli c" "conn_tconn c \<noteq> conn_cli c" "conn_cli c \<noteq> conn_tconn c"
  by (simp_all add: container_of_tconn_def container_of_cli_def conn_tconn_def conn_cli_def)

definition put_txcb :: "addr \<Rightarrow> circ_buffer \<Rightarrow> 'a server_mem_scheme \<Rightarrow> 'a server_mem_scheme" where
  "put_txcb c q w = w\<lparr>txcbs := (txcbs w)(c := q)\<rparr>"

text \<open>
  A new object: its list cells hold null pointers until they are initialised, its arrays are there; the other members
  keep whatever the memory held.
\<close>

definition new_conn :: "addr \<Rightarrow> 'a server_mem_scheme \<Rightarrow> 'a server_mem_scheme" where
  "new_conn c w = w\<lparr>lheap := (lheap w)(c \<mapsto> \<lparr>le_next = NULL, le_prev = NULL\<rparr>, conn_tconn c \<mapsto> \<lparr>le_next = NULL, le_prev = NULL\<rparr>,
       conn_cli c \<mapsto> \<lparr>le_next = NULL, le_prev = NULL\<rparr>),
     bufs := (bufs w)(conn_rx_buf c := replicate 128 0),
     telnets := (telnets w)(conn_tconn c := (telnets w (conn_tconn c))\<lparr>tel_rx_buf := conn_rx_buf c\<rparr>),
     clis := (clis w)(conn_cli c := (clis w (conn_cli c))\<lparr>cmd_buffer := replicate CLI_MAX_COMMAND_LEN 0\<rparr>)\<rparr>"

definition free_conn :: "addr \<Rightarrow> 'a server_mem_scheme \<Rightarrow> 'a server_mem_scheme" where
  "free_conn c w = w\<lparr>lheap := (lheap w)(c := None, conn_tconn c := None, conn_cli c := None)\<rparr>"

section \<open>Output\<close>

definition iac_bytes :: bytes where
  "iac_bytes = [IAC, WILL, 3, IAC, WILL, 1]"

definition init_telnet_session :: "os \<Rightarrow> tls_codes \<Rightarrow> server_statics \<Rightarrow> addr \<Rightarrow> 'a server_mem_scheme \<Rightarrow> 'a server_mem_scheme option" where
  "init_telnet_session os tc g c w = do {
     let w = w\<lparr>bufs := (bufs w)(iacs_to_send g := iac_bytes)\<rparr>;
     (_, w) \<leftarrow> io_telnet_tx os tc (conn_tconn c) (iacs_to_send g) 6 w;
     Some w
   }"

partial_function (option) cli_tx_resume ::
  "os \<Rightarrow> tls_codes \<Rightarrow> server_statics \<Rightarrow> addr \<Rightarrow> 'a server_mem_scheme \<Rightarrow> 'a server_mem_scheme option" where
  "cli_tx_resume os tc g c w =
     (if circ_buffer_is_empty (txcbs w c) then Some w
      else do {
        let data_size = circ_buffer_get_data_size (txcbs w c);
        let len = (if data_size < 128 then data_size else 128);
        (_, b) \<leftarrow> circ_buffer_peek (txcbs w c) (bufs w (resume_buf g)) len;
        let w = w\<lparr>bufs := (bufs w)(resume_buf g := b)\<rparr>;
        (ret, w) \<leftarrow> io_telnet_tx os tc (conn_tconn c) (resume_buf g) len w;
        if ret = 0 then Some w
        else if ret = -1 then Some w
        else do {
          (_, q) \<leftarrow> circ_buffer_advance (txcbs w c) ret;
          cli_tx_resume os tc g c (put_txcb c q w)
        }
      })"

text \<open>The loop of \<open>cli_tx\<close>; \<open>n\<close> is \<open>nwritten\<close>.\<close>

partial_function (option) cli_tx_loop ::
  "os \<Rightarrow> tls_codes \<Rightarrow> addr \<Rightarrow> addr \<Rightarrow> int \<Rightarrow> int \<Rightarrow> 'a server_mem_scheme \<Rightarrow> 'a server_mem_scheme option" where
  "cli_tx_loop os tc c buf len n w =
     (if n < len then do {
        (ret, w) \<leftarrow> io_telnet_tx os tc (conn_tconn c) buf len w;
        if ret = 0 then
          if n < 0 then None
          else do {
            (_, q) \<leftarrow> circ_buffer_put (txcbs w c) (drop (nat n) (bufs w buf)) (len - n);
            Some (put_txcb c q w)
          }
        else if ret = -1 then Some w
        else do {
          n \<leftarrow> c_add n ret;
          cli_tx_loop os tc c buf len n w
        }
      } else Some w)"

definition cli_tx :: "os \<Rightarrow> tls_codes \<Rightarrow> 'a server_mem_scheme put_data" where
  "cli_tx os tc i buf len w = do {
     let c = container_of_cli i;
     (ok, w) \<leftarrow> (if \<not> circ_buffer_is_empty (txcbs w c) then do {
         (r, q) \<leftarrow> circ_buffer_put (txcbs w c) (bufs w buf) len;
         Some (r = 0, put_txcb c q w)
       } else Some (True, w));
     if ok then cli_tx_loop os tc c buf len 0 w else Some w
   }"

section \<open>Connections\<close>

definition alloc_cli_connection ::
  "('a server_mem_scheme \<Rightarrow> addr) \<Rightarrow> ('a server_mem_scheme \<Rightarrow> bytes option) \<Rightarrow> server_statics \<Rightarrow>
   'a server_mem_scheme \<Rightarrow> (addr \<times> 'a server_mem_scheme) option" where
  "alloc_cli_connection alloc block g w = do {
     let c = alloc w;
     w \<leftarrow> (if c = NULL then None else Some (new_conn c w));
     w \<leftarrow> on_heap (INIT_LIST_HEAD c) w;
     w \<leftarrow> on_heap (list_add_tail c (conns g)) w;
     w \<leftarrow> cli_intf_register (cli_statics.truncate g) (conn_cli c) w;
     Some (c, put_txcb c (snd (circ_buffer_init (block w) 512)) w)
   }"

definition dealloc_cli_connection :: "os \<Rightarrow> addr \<Rightarrow> 'a server_mem_scheme \<Rightarrow> 'a server_mem_scheme option" where
  "dealloc_cli_connection os c w = do {
     w \<leftarrow> io_telnet_close os (conn_tconn c) w;
     w \<leftarrow> on_heap (list_del c) w;
     let w = put_txcb c (circ_buffer_deinit (txcbs w c)) w;
     w \<leftarrow> cli_intf_unregister (conn_cli c) w;
     Some (free_conn c w)
   }"

definition cli_exit :: "os \<Rightarrow> 'a server_mem_scheme cli_exit" where
  "cli_exit os i w = dealloc_cli_connection os (container_of_cli i) w"

definition telnet_server_callback ::
  "os \<Rightarrow> tls_codes \<Rightarrow> ('a server_mem_scheme \<Rightarrow> addr) \<Rightarrow> ('a server_mem_scheme \<Rightarrow> bytes option) \<Rightarrow> 'a server_mem_scheme cli_user \<Rightarrow>
   server_statics \<Rightarrow> addr \<Rightarrow> io_telnet_event \<Rightarrow> 'a server_mem_scheme \<Rightarrow> (io_net_return \<times> io_telnet_event \<times> 'a server_mem_scheme) option" where
  "telnet_server_callback os tc alloc block user g t e w = (case tev_enum e of
       io_net_event_enum_alloc_connection \<Rightarrow> do {
         (c, w) \<leftarrow> alloc_cli_connection alloc block g w;
         if c = NULL then Some (io_net_return_stop, e, w)
         else Some (io_net_return_continue, e\<lparr>tev_u := Tev_n (conn_tconn c)\<rparr>, w)
       }
     | io_net_event_enum_connected \<Rightarrow> do {
         w \<leftarrow> init_telnet_session os tc g (container_of_tconn t) w;
         Some (io_net_return_continue, e, w)
       }
     | io_net_event_enum_rx \<Rightarrow> do {
         let c = container_of_tconn t;
         bs \<leftarrow> (case tev_u e of Tev_r bs \<Rightarrow> Some bs | _ \<Rightarrow> None);
         if bs = [] then None
         else if hd bs \<noteq> 0 then do {
           (r, w) \<leftarrow> cli_handle_rx (cli_tx os tc) (cli_exit os) user (cli_statics.truncate g) (conn_cli c) bs w;
           if r = -1 then Some (io_net_return_stop, e, w) else Some (io_net_return_continue, e, w)
         }
         else Some (io_net_return_continue, e, w)
       }
     | io_net_event_enum_tx \<Rightarrow> do {
         w \<leftarrow> cli_tx_resume os tc g (container_of_tconn t) w;
         Some (io_net_return_continue, e, w)
       }
     | io_net_event_enum_closed \<Rightarrow> do {
         w \<leftarrow> dealloc_cli_connection os (container_of_tconn t) w;
         Some (io_net_return_stop, e, w)
       }
     | io_net_event_enum_handshaken \<Rightarrow> Some (io_net_return_continue, e, w))"

text \<open>The program: set up, and then passes of the event loop with the answers \<open>ss\<close> of \<open>select\<close>.\<close>

definition server_start :: "os \<Rightarrow> server_statics \<Rightarrow> 'a server_mem_scheme \<Rightarrow> 'a server_mem_scheme option" where
  "server_start os g w = do {
     w \<leftarrow> on_heap (INIT_LIST_HEAD (conns g)) w;
     w \<leftarrow> io_driver_init (the_driver g) w;
     (_, w) \<leftarrow> io_telnet_bind os (the_driver g) (tserver g) 11060 0 w;
     Some (cli_init [] 0 w)
   }"

definition server_dispatch where
  "server_dispatch os tc alloc block user g other rest =
     net_dispatch os tc (telnet_dispatch (\<lambda>k. telnet_server_callback os tc alloc block user g) other) rest"

definition server_main where
  "server_main os tc alloc block user g other rest rl ss w = do {
     w \<leftarrow> server_start os g w;
     event_loop (server_dispatch os tc alloc block user g other rest) rl (the_driver g) ss w
   }"

section \<open>Sending\<close>

definition conn_ok :: "addr set \<Rightarrow> addr \<Rightarrow> addr set \<Rightarrow> addr \<Rightarrow> 'a server_mem_scheme \<Rightarrow> family \<Rightarrow> bool" where
  "conn_ok W d R c w L \<longleftrightarrow> driver_inv W (insert d R) w L \<and> d \<notin> R \<and> conn_tconn c \<in> W \<and> net_driver (nets w (conn_tconn c)) = d
     \<and> net_ssl (nets w (conn_tconn c)) = NULL \<and> circ_ok (txcbs w c) \<and> cb_size (txcbs w c) = 512
     \<and> event_listening (watchers w (conn_tconn c)) AND NOT EVENTS = 0"

lemma only_io_same:
  fixes w :: "'a server_mem_scheme"
  assumes "only_io w w'"
  shows "nets w' = nets w" "bufs w' = bufs w" "txcbs w' = txcbs w" "clis w' = clis w" "cli_same w w'" "telnets w' = telnets w"
  by (subst assms[unfolded only_io_def], simp add: cli_same_def)+

lemma conn_tx:
  fixes w :: "'a server_mem_scheme"
  assumes ok: "conn_ok W d R c w L" and os: "writes_ok os" and len: "0 \<le> len" "len \<le> int (length (bufs w b))"
  shows "\<exists>r w' L' a. io_telnet_tx os tc (conn_tconn c) b len w = Some (r, w') \<and> conn_ok W d R c w' L' \<and> only_io w w'
    \<and> io_effect W d R {conn_tconn c} w L w' L' \<and> -1 \<le> r \<and> r \<le> len
    \<and> trace w' = trace w @ [(Sys_write (sd (nets w (conn_tconn c))) (take (nat len) (bufs w b)), a)]
    \<and> a = os (Sys_write (sd (nets w (conn_tconn c))) (take (nat len) (bufs w b))) (trace w)
    \<and> r = (if 0 < os_ret a then os_ret a else if os_errno a = EWOULDBLOCK \<or> os_errno a = EAGAIN then 0 else -1)
    \<and> (r = 0 \<longrightarrow> event_listening (watchers w' (conn_tconn c)) AND IO_DRIVER_EVENT_TX \<noteq> 0)"
proof -
  let ?t = "conn_tconn c" and ?bs = "take (nat len) (bufs w b)"
  note o = ok[unfolded conn_ok_def]
  have bs: "bytes_at b len w = Some ?bs" using len by (simp add: bytes_at_def)
  let ?a = "os (Sys_write (sd (nets w ?t)) ?bs) (trace w)"
  have t: "tx_call ?t ?bs w = Sys_write (sd (nets w ?t)) ?bs" "tx_blocked tc ?t ?a w \<longleftrightarrow> os_ret ?a \<le> 0 \<and> (os_errno ?a = EWOULDBLOCK \<or> os_errno ?a = EAGAIN)"
    using o by (simp_all add: tx_call_def tx_blocked_def)
  let ?r = "if 0 < os_ret ?a then os_ret ?a else if os_errno ?a = EWOULDBLOCK \<or> os_errno ?a = EAGAIN then 0 else -1"
  obtain w' L' where x: "io_net_tx os tc ?t b len w = Some (?r, w')" "io_effect W d R {?t} w L w' L'"
    "watchers w' = (if tx_blocked tc ?t ?a w then (watchers w)(?t := (watchers w ?t)\<lparr>event_listening := event_listening (watchers w ?t) OR IO_DRIVER_EVENT_TX\<rparr>) else watchers w)"
    "trace w' = trace w @ [(Sys_write (sd (nets w ?t)) ?bs, ?a)]"
    using io_net_tx_ok[of W d R w L ?t b len ?bs os tc] o bs t by (auto split: if_splits)
  have oi: "only_io w w'" by (rule tx_only_io[OF x(1)])
  have c: "conn_ok W d R c w' L'" using o io_effect_inv[OF x(2)] only_io_same[OF oi] tx_is_event by (auto simp: conn_ok_def x(3))
  have "os_ret ?a \<le> int (length ?bs)" using os unfolding writes_ok_def by blast
  moreover have "int (length ?bs) = len" using len by simp
  ultimately have "?r \<le> len" "-1 \<le> ?r" using len(1) by simp_all
  moreover have "event_listening (watchers w' ?t) AND IO_DRIVER_EVENT_TX \<noteq> 0" if "?r = 0"
  proof -
    have "tx_blocked tc ?t ?a w" using that t(2) by (auto split: if_splits)
    then have "event_listening (watchers w' ?t) AND IO_DRIVER_EVENT_TX = IO_DRIVER_EVENT_TX"
      unfolding x(3) by (simp add: word_ao_absorbs)
    then show ?thesis by (simp add: IO_DRIVER_EVENT_TX_def)
  qed
  ultimately show ?thesis using x(1,2,4) c oi unfolding io_telnet_tx_def by blast
qed

lemma conn_put:
  "conn_ok W d R c w L \<Longrightarrow> circ_ok q \<Longrightarrow> cb_size q = 512 \<Longrightarrow> conn_ok W d R c (put_txcb c q w) L"
  by (simp add: conn_ok_def put_txcb_def driver_inv_def)

text \<open>What a call that only sends leaves: the state of a connection, everything else but the system's and the buffer's part.\<close>

definition sent_from :: "addr set \<Rightarrow> addr \<Rightarrow> addr set \<Rightarrow> addr \<Rightarrow> 'a server_mem_scheme \<Rightarrow> family \<Rightarrow> 'a server_mem_scheme \<Rightarrow> family \<Rightarrow> bool" where
  "sent_from W d R c w L w' L' \<longleftrightarrow> conn_ok W d R c w' L' \<and> io_effect W d R {conn_tconn c} w L w' L'
     \<and> cli_same w w' \<and> bufs w' = bufs w \<and> nets w' = nets w"

lemma sent_refl: "conn_ok W d R c w L \<Longrightarrow> sent_from W d R c w L w L"
  by (simp add: sent_from_def conn_ok_def cli_same_def io_effect_refl)

lemma sent_trans: "sent_from W d R c w L w1 L1 \<Longrightarrow> sent_from W d R c w1 L1 w' L' \<Longrightarrow> sent_from W d R c w L w' L'"
  unfolding sent_from_def using io_effect_trans cli_same_trans by metis

lemma sent_put:
  "conn_ok W d R c w L \<Longrightarrow> circ_ok q \<Longrightarrow> cb_size q = 512 \<Longrightarrow> sent_from W d R c w L (put_txcb c q w) L"
  unfolding sent_from_def using conn_put[of W d R c w L q] io_effect_refl[of W d R w L "{conn_tconn c}"]
  by (simp add: conn_ok_def put_txcb_def cli_same_def io_effect_def still_def)

lemma sent_tx:
  assumes "conn_ok W d R c w L" "conn_ok W d R c w' L'" "only_io w w'" "io_effect W d R {conn_tconn c} w L w' L'"
  shows "sent_from W d R c w L w' L'"
  using assms only_io_same[OF assms(3)] by (simp add: sent_from_def)

lemma tx_loop_returns:
  assumes "conn_ok W d R c w L" "writes_ok os" "0 \<le> n" "len \<le> 1024" "len \<le> int (length (bufs w b))"
  shows "\<exists>w' L'. cli_tx_loop os tc c b len n w = Some w' \<and> sent_from W d R c w L w' L'"
  using assms
proof (induction "nat (len - n)" arbitrary: n w L rule: less_induct)
  case less
  show ?case
  proof (cases "n < len")
    case False
    then show ?thesis using sent_refl[OF less.prems(1)] by (subst cli_tx_loop.simps) auto
  next
    case True
    then have l: "0 \<le> len" using less.prems(3) by simp
    obtain r w1 L1 where t: "io_telnet_tx os tc (conn_tconn c) b len w = Some (r, w1)" "conn_ok W d R c w1 L1" "only_io w w1"
      "io_effect W d R {conn_tconn c} w L w1 L1" "-1 \<le> r" "r \<le> len"
      using conn_tx[OF less.prems(1,2) l less.prems(5), of tc] by blast
    note s1 = sent_tx[OF less.prems(1) t(2-4)]
    have bu: "bufs w1 = bufs w" using s1 by (simp add: sent_from_def)
    consider "r = 0" | "r = -1" | "0 < r" using t(5) by linarith
    then show ?thesis
    proof cases
      case 1
      have q: "circ_ok (txcbs w1 c)" "cb_size (txcbs w1 c) = 512" using t(2) by (simp_all add: conn_ok_def)
      obtain q' x where p: "circ_buffer_put (txcbs w1 c) (drop (nat n) (bufs w b)) (len - n) = Some (x, q')" "circ_ok q'" "cb_size q' = 512"
        using put_circ[OF q, of "len - n" "drop (nat n) (bufs w b)"] True less.prems(3-5) by auto
      have "cli_tx_loop os tc c b len n w = Some (put_txcb c q' w1)"
        using True t(1) 1 less.prems(3) p(1) bu by (subst cli_tx_loop.simps) simp
      then show ?thesis using sent_trans[OF s1 sent_put[OF t(2) p(2,3)]] by blast
    next
      case 2
      then have "cli_tx_loop os tc c b len n w = Some w1" using True t(1) by (subst cli_tx_loop.simps) simp
      then show ?thesis using s1 by blast
    next
      case 3
      have a: "c_add n r = Some (n + r)" using 3 True t(6) less.prems(3,4)
        by (simp add: c_add_def int_range_def INT_MIN_def INT_MAX_def)
      have "nat (len - (n + r)) < nat (len - n)" "0 \<le> n + r" "len \<le> int (length (bufs w1 b))" using True 3 less.prems(3,5) bu by simp_all
      then obtain w' L' where "cli_tx_loop os tc c b len (n + r) w1 = Some w'" "sent_from W d R c w1 L1 w' L'"
        using less.hyps[OF _ t(2) less.prems(2) _ less.prems(4)] by blast
      moreover have "cli_tx_loop os tc c b len n w = cli_tx_loop os tc c b len (n + r) w1"
        using True t(1) 3 a by (subst cli_tx_loop.simps) simp
      ultimately show ?thesis using sent_trans[OF s1] by auto
    qed
  qed
qed

lemma tx_returns:
  assumes "conn_ok W d R c w L" "writes_ok os" "0 \<le> len" "len \<le> 1024" "len \<le> int (length (bufs w b))"
  shows "\<exists>w' L'. cli_tx os tc (conn_cli c) b len w = Some w' \<and> sent_from W d R c w L w' L'"
proof (cases "circ_buffer_is_empty (txcbs w c)")
  case True
  then show ?thesis using tx_loop_returns[OF assms(1,2) _ assms(4,5), of 0] by (simp add: cli_tx_def)
next
  case False
  have q: "circ_ok (txcbs w c)" "cb_size (txcbs w c) = 512" using assms(1) by (simp_all add: conn_ok_def)
  obtain q' x where p: "circ_buffer_put (txcbs w c) (bufs w b) len = Some (x, q')" "circ_ok q'" "cb_size q' = 512"
    using put_circ[OF q, of len "bufs w b"] assms(3-5) by auto
  note s1 = sent_put[OF assms(1) p(2,3)]
  have c1: "conn_ok W d R c (put_txcb c q' w) L" and b1: "len \<le> int (length (bufs (put_txcb c q' w) b))"
    using s1 assms(5) by (simp_all add: sent_from_def)
  obtain w' L' where "cli_tx_loop os tc c b len 0 (put_txcb c q' w) = Some w'" "sent_from W d R c (put_txcb c q' w) L w' L'"
    using tx_loop_returns[OF c1 assms(2) _ assms(4) b1] by blast
  then show ?thesis using False p(1) s1 sent_trans[OF s1] by (cases "x = 0") (auto simp: cli_tx_def)
qed

section \<open>The end of a connection\<close>

lemma statics [simp]:
  "print_buffer (cli_statics.truncate g) = print_buffer g" "prompt (cli_statics.truncate g) = prompt g"
  "cli_intf_list (cli_statics.truncate g) = cli_intf_list g"
  by (simp_all add: cli_statics.defs)

text \<open>A connection that is being served: it is in both lists.\<close>

definition serving :: "addr set \<Rightarrow> addr \<Rightarrow> addr set \<Rightarrow> server_statics \<Rightarrow> addr \<Rightarrow> 'a server_mem_scheme \<Rightarrow> family \<Rightarrow> bool" where
  "serving W d R g c w L \<longleftrightarrow> conn_ok W d R c w L \<and> cli_buffers (cli_statics.truncate g) w
     \<and> (\<exists>xs. L (conns g) = Some xs \<and> c \<in> set xs) \<and> (\<exists>ys. L (cli_intf_list g) = Some ys \<and> conn_cli c \<in> set ys)
     \<and> conns g \<notin> W \<union> insert d R \<and> cli_intf_list g \<notin> W \<union> insert d R \<and> conns g \<noteq> cli_intf_list g"

lemma serving_sent: "serving W d R g c w L \<Longrightarrow> sent_from W d R c w L w' L' \<Longrightarrow> serving W d R g c w' L'"
  by (auto simp: serving_def sent_from_def cli_buffers_def io_effect_def)

lemma free_conn_family:
  assumes L: "heap_lists h L" and x: "L X = Some xs" "c \<in> set xs" and y: "L Y = Some ys" "i \<in> set ys" "X \<noteq> Y" and t: "L t = Some []"
    "t \<noteq> X" "t \<noteq> Y"
  shows "\<exists>h2 h3. list_del c h = Some h2 \<and> list_del_init i h2 = Some h3 \<and> dom h3 = dom h
    \<and> heap_lists (h3(c := None, t := None, i := None)) (L(X \<mapsto> remove1 c xs, Y \<mapsto> remove1 i ys, t := None, i := None))
    \<and> c \<noteq> i"
proof -
  let ?L2 = "L(X \<mapsto> remove1 c xs)" and ?L3 = "L(X \<mapsto> remove1 c xs, Y \<mapsto> remove1 i ys, i \<mapsto> [])"
  obtain h2 where 2: "list_del c h = Some h2" "heap_lists h2 ?L2" "dom h2 = dom h" "loose h2 ?L2 c" using list_del_family[OF L x] by blast
  have ci: "c \<noteq> i" using lists_elem_unique[OF L x(1) y(1) x(2)] y(2,3) by auto
  have ti: "t \<noteq> i" using lists_elem_not_head[OF L y(1,2)] t(1) by auto
  have y2: "?L2 Y = Some ys" using y(1,3) by simp
  obtain h3 where 3: "list_del_init i h2 = Some h3" "heap_lists h3 ?L3" "dom h3 = dom h2"
    using list_del_init_family[OF 2(2) y2 y(2)] by blast
  have "c \<notin> cells ?L3"
  proof
    assume "c \<in> cells ?L3"
    then obtain e q where q: "?L3 e = Some q" "c \<in> set (e # q)" by (auto simp: cells_def)
    have "c \<in> cells ?L2"
    proof (cases "e = i")
      case False
      then show ?thesis using q y2 y(3) set_remove1_subset[of i ys] cellsI[of ?L2 e _ c] by (cases "e = Y") auto
    qed (use q ci in auto)
    then show False using 2(4) by (simp add: loose_def)
  qed
  then have f1: "heap_lists (h3(c := None)) ?L3" by (rule free_unused[OF 3(2)])
  have "heap_lists (h3(c := None, t := None)) (?L3(t := None))" by (rule free_idle[OF f1]) (use t ti in simp)
  then have "heap_lists (h3(c := None, t := None, i := None)) (?L3(t := None, i := None))" by (rule free_idle) (use ti in simp)
  moreover have "?L3(t := None, i := None) = L(X \<mapsto> remove1 c xs, Y \<mapsto> remove1 i ys, t := None, i := None)" by (rule ext) auto
  ultimately show ?thesis using 2(1,3) 3(1,3) ci by auto
qed

lemma dealloc_ok:
  assumes s: "serving W d R g c w L" and x: "L (conns g) = Some xs" and y: "L (cli_intf_list g) = Some ys"
  shows "\<exists>w' L'. dealloc_cli_connection os c w = Some w' \<and> driver_inv (W - {conn_tconn c}) (insert d R) w' L'
    \<and> L' (conns g) = Some (remove1 c xs) \<and> L' (cli_intf_list g) = Some (remove1 (conn_cli c) ys)
    \<and> (\<forall>x\<in>W - {conn_tconn c}. watchers w' x = watchers w x)
    \<and> open_fds (trace w') = open_fds (trace w) - {sd (nets w (conn_tconn c))}
    \<and> dom (lheap w') = dom (lheap w) - {c, conn_tconn c, conn_cli c} \<and> cmd_log w' = cmd_log w
    \<and> cb_buffer (txcbs w' c) = None"
proof -
  let ?X = "conns g" and ?Y = "cli_intf_list g" and ?t = "conn_tconn c" and ?i = "conn_cli c" and ?D = "insert d R"
  have o: "driver_inv W ?D w L" "d \<notin> R" "?t \<in> W" "net_driver (nets w ?t) = d" "net_ssl (nets w ?t) = NULL"
    "event_listening (watchers w ?t) AND NOT EVENTS = 0" using s by (simp_all add: serving_def conn_ok_def)
  have l: "c \<in> set xs" "?i \<in> set ys" "?X \<notin> W \<union> ?D" "?Y \<notin> W \<union> ?D" "?X \<noteq> ?Y" using s x y by (auto simp: serving_def)
  obtain w1 L1 where 1: "io_net_close os ?t w = Some w1" "io_effect W d R {?t} w L w1 L1"
    "watchers w1 = (watchers w)(?t := (watchers w ?t)\<lparr>event_listening := event_listening (watchers w ?t) AND NOT EVENTS\<rparr>)"
    "open_fds (trace w1) = open_fds (trace w) - {sd (nets w ?t)}"
    using io_net_close_ok[OF o(1,3,4,2), of os] by blast
  have oi: "only_io w w1" by (rule close_only_io[OF 1(1) o(5)])
  have inv1: "driver_inv W ?D w1 L1" "heap_lists (lheap w1) L1" "driver_ok W ?D (watchers w1) L1"
    using io_effect_inv[OF 1(2)] driver_invD by auto
  have L1: "L1 ?X = Some xs" "L1 ?Y = Some ys" "dom (lheap w1) = dom (lheap w)" using 1(2) l x y by (simp_all add: io_effect_def)
  have t: "L1 ?t = Some []" by (rule driver_okD(4)[OF inv1(3) o(3)]) (simp add: 1(3) o(6))
  have tx: "?t \<noteq> ?X" "?t \<noteq> ?Y" using l o(3) by auto
  obtain h2 h3 where h: "list_del c (lheap w1) = Some h2" "list_del_init ?i h2 = Some h3" "dom h3 = dom (lheap w1)"
    "heap_lists (h3(c := None, ?t := None, ?i := None)) (L1(?X \<mapsto> remove1 c xs, ?Y \<mapsto> remove1 ?i ys, ?t := None, ?i := None))"
    using free_conn_family[OF inv1(2) L1(1) l(1) L1(2) l(2,5) t tx] by blast
  let ?L = "L1(?X \<mapsto> remove1 c xs, ?Y \<mapsto> remove1 ?i ys, ?t := None, ?i := None)"
  let ?w = "w1\<lparr>lheap := h3(c := None, ?t := None, ?i := None), txcbs := (txcbs w1)(c := circ_buffer_deinit (txcbs w1 c))\<rparr>"
  have d: "dealloc_cli_connection os c w = Some ?w"
    using 1(1) h(1,2) by (simp add: dealloc_cli_connection_def io_telnet_close_def on_heap_def cli_intf_unregister_def put_txcb_def free_conn_def)
  have i0: "L1 ?i = None" by (rule lists_elem_not_head[OF inv1(2) L1(2) l(2)])
  have heads: "?L e = L1 e" if "e \<in> ?D" for e
  proof -
    have "L1 e \<noteq> None" using driver_okD(2)[OF inv1(3) that] by auto
    then have "e \<noteq> ?i" "e \<noteq> ?t" using i0 driver_okD(1)[OF inv1(3)] o(3) that by auto
    then show ?thesis using that l by auto
  qed
  have iW: "?i \<notin> W"
  proof
    assume i: "?i \<in> W"
    show False
    proof (cases "event_listening (watchers w1 ?i) = 0")
      case True
      then show False using driver_okD(4)[OF inv1(3) i] i0 by simp
    next
      case False
      then obtain e q where "e \<in> ?D" "L1 e = Some q" "?i \<in> set q" using driver_okD(5)[OF inv1(3) i] by (auto simp: queued_def)
      then show False using lists_elem_unique[OF inv1(2) L1(2) _ l(2)] l(4) by blast
    qed
  qed
  have "driver_ok (W - {?t}) ?D (watchers w1) ?L"
    unfolding driver_ok_def
  proof (intro conjI ballI)
    show "(W - {?t}) \<inter> ?D = {}" using driver_okD(1)[OF inv1(3)] by blast
  next
    fix e assume e: "e \<in> ?D"
    then obtain q where q: "L1 e = Some q" "set q \<subseteq> W" using driver_okD(2)[OF inv1(3)] by blast
    have "?t \<notin> set q" using lists_elem_not_head[OF inv1(2) q(1), of ?t] t by auto
    then show "\<exists>xs. ?L e = Some xs \<and> set xs \<subseteq> W - {?t}" using q heads[OF e] by auto
  next
    fix x assume x: "x \<in> W - {?t}"
    show "0 \<le> wfd (watchers w1 x)" "wfd (watchers w1 x) < FD_SETSIZE" using driver_okD(3)[OF inv1(3), of x] x by auto
    have same: "?L x = L1 x" using x l iW by auto
    show "if event_listening (watchers w1 x) = 0 then ?L x = Some [] else \<exists>e\<in>?D. queued ?L x e"
      using driver_okD(4,5)[OF inv1(3), of x] x same heads by (auto simp: queued_def)
  qed
  then have "driver_inv (W - {?t}) ?D ?w ?L" using h(4) by (simp add: driver_inv_def)
  moreover have "cmd_log ?w = cmd_log w" using only_io_same(5)[OF oi] by (simp add: cli_same_def)
  moreover have "dom (lheap ?w) = dom (lheap w) - {c, ?t, ?i}" using h(3) L1(3) by auto
  moreover have "?L ?X = Some (remove1 c xs)" "?L ?Y = Some (remove1 ?i ys)"
    using tx l(2,5) i0 L1 by (auto)
  moreover have "cb_buffer (txcbs ?w c) = None" by (simp add: circ_buffer_deinit_def)
  ultimately show ?thesis using d 1(3,4) by (intro exI[of _ ?w] exI[of _ ?L]) simp
qed

section \<open>The interpreter on a connection\<close>

interpretation conn: cli_port "cli_tx os tc" "cli_exit os" "cli_statics.truncate g" "conn_cli c" "\<lambda>w. writes_ok os \<and> (\<exists>L. serving W d R g c w L)"
  for os tc g c W d R
proof
  fix w :: "'a server_mem_scheme" and len :: int and b v l and bs :: bytes
  assume inv: "writes_ok os \<and> (\<exists>L. serving W d R g c w L)"
  then obtain L where s: "writes_ok os" "serving W d R g c w L" by blast
  show "cli_buffers (cli_statics.truncate g) w" using s(2) by (simp add: serving_def)
  show "\<exists>w'. cli_tx os tc (conn_cli c) b len w = Some w' \<and> (writes_ok os \<and> (\<exists>L. serving W d R g c w' L)) \<and> cli_same w w'"
    if le: "0 \<le> len" "len \<le> int CLI_MAX_COLUMNS_PER_LINE" "len \<le> int (length (bufs w b))"
      "b \<in> {print_buffer (cli_statics.truncate g), prompt (cli_statics.truncate g)}"
  proof -
    have c: "conn_ok W d R c w L" using s(2) by (simp add: serving_def)
    obtain w' L' where t: "cli_tx os tc (conn_cli c) b len w = Some w'" "sent_from W d R c w L w' L'"
      using tx_returns[OF c s(1) le(1) _ le(3), of tc] le(2) by (auto simp: CLI_MAX_COLUMNS_PER_LINE_def)
    then show ?thesis using serving_sent[OF s(2) t(2)] s(1) by (auto simp: sent_from_def)
  qed
  show "\<exists>w'. cli_exit os (conn_cli c) w = Some w' \<and> cmd_log w' = cmd_log w"
    using dealloc_ok[OF s(2), of _ _ os] s(2) by (fastforce simp: serving_def cli_exit_def)
  show "writes_ok os \<and> (\<exists>L. serving W d R g c (w\<lparr>bufs := (bufs w)(print_buffer (cli_statics.truncate g) := bs)\<rparr>) L)"
    if "length bs = CLI_MAX_COLUMNS_PER_LINE + 1"
    using s that by (auto simp: serving_def conn_ok_def cli_buffers_def intro!: exI[of _ L])
  show "writes_ok os \<and> (\<exists>L. serving W d R g c (put_cli (conn_cli c) v w) L)"
    using s by (auto simp: serving_def conn_ok_def cli_buffers_def put_cli_def driver_inv_def intro!: exI[of _ L])
  show "writes_ok os \<and> (\<exists>L. serving W d R g c (w\<lparr>cmd_log := l\<rparr>) L)"
    using s by (auto simp: serving_def conn_ok_def cli_buffers_def driver_inv_def intro!: exI[of _ L])
qed

section \<open>What the peer receives\<close>

abbreviation conn_sd :: "addr \<Rightarrow> 'a server_mem_scheme \<Rightarrow> int" where
  "conn_sd c w \<equiv> sd (nets w (conn_tconn c))"

lemma resume_ok:
  assumes "conn_ok W d R c w L" "writes_ok os" "length (bufs w (resume_buf g)) = 128"
  shows "\<exists>w' L' tr. cli_tx_resume os tc g c w = Some w' \<and> conn_ok W d R c w' L' \<and> io_effect W d R {conn_tconn c} w L w' L'
    \<and> cli_same w w' \<and> trace w' = trace w @ tr \<and> contents (txcbs w c) = accepted (conn_sd c w) tr @ contents (txcbs w' c)
    \<and> (contents (txcbs w' c) \<noteq> [] \<longrightarrow> tr \<noteq> [] \<and> os_ret (snd (last tr)) \<le> 0)"
  using assms
proof (induction "length (contents (txcbs w c))" arbitrary: w L rule: less_induct)
  case less
  let ?q = "txcbs w c" and ?sd = "conn_sd c w"
  have q: "circ_ok ?q" "cb_size ?q = 512" "d \<notin> R" "driver_inv W (insert d R) w L" using less.prems(1) by (simp_all add: conn_ok_def)
  show ?case
  proof (cases "contents ?q = []")
    case True
    then have "cli_tx_resume os tc g c w = Some w" using no_data[OF q(1)] by (subst cli_tx_resume.simps) simp
    then show ?thesis using True less.prems(1) io_effect_refl[OF q(4)] cli_same_refl[of w] by (intro exI[of _ w] exI[of _ L] exI[of _ "[]"]) simp
  next
    case False
    let ?n = "min (length (contents ?q)) 128"
    let ?b = "take ?n (contents ?q) @ drop ?n (bufs w (resume_buf g))"
    let ?w = "w\<lparr>bufs := (bufs w)(resume_buf g := ?b)\<rparr>"
    have n: "(if cb_data_size ?q < 128 then cb_data_size ?q else 128) = int ?n" using data_size[OF q(1)] by (simp add: min_def)
    have pk: "circ_buffer_peek ?q (bufs w (resume_buf g)) (int ?n) = Some (0, ?b)"
      using circ_buffer_peek_ok[OF q(1), of ?n "bufs w (resume_buf g)"] less.prems(3) data_size[OF q(1)] by simp
    have c0: "conn_ok W d R c ?w L" using less.prems(1) by (simp add: conn_ok_def)
    have lb: "length ?b = 128" using less.prems(3) by simp
    obtain r w1 L1 a where t: "io_telnet_tx os tc (conn_tconn c) (resume_buf g) (int ?n) ?w = Some (r, w1)" "conn_ok W d R c w1 L1"
      "only_io ?w w1" "io_effect W d R {conn_tconn c} ?w L w1 L1" "r \<le> int ?n"
      "trace w1 = trace w @ [(Sys_write ?sd (take ?n ?b), a)]"
      "r = (if 0 < os_ret a then os_ret a else if os_errno a = EWOULDBLOCK \<or> os_errno a = EAGAIN then 0 else -1)"
      using conn_tx[OF c0 less.prems(2), of "int ?n" "resume_buf g" tc] lb by auto
    have tk: "take ?n ?b = take ?n (contents ?q)" by simp
    note same = only_io_same[OF t(3)]
    have e1: "io_effect W d R {conn_tconn c} w L w1 L1" using t(4) by (simp add: io_effect_def still_def)
    have cs: "cli_same w w1" using same(5) by (simp add: cli_same_def)
    have tx1: "txcbs w1 = txcbs w" "nets w1 = nets w" "bufs w1 = (bufs w)(resume_buf g := ?b)" using same by simp_all
    show ?thesis
    proof (cases "0 < os_ret a")
      case False
      then have "r = 0 \<or> r = -1" using t(7) by auto
      then have "cli_tx_resume os tc g c w = Some w1"
        using no_data[OF q(1)] \<open>contents ?q \<noteq> []\<close> n pk t(1) by (subst cli_tx_resume.simps) (auto simp: circ_buffer_get_data_size_def Let_def)
      then show ?thesis using t(2,6) e1 cs tx1(1) False tk
        by (intro exI[of _ w1] exI[of _ L1] exI[of _ "[(Sys_write ?sd (take ?n ?b), a)]"]) simp
    next
      case True
      then have r: "r = os_ret a" using t(7) by simp
      define k where "k = nat r"
      have k: "r = int k" "0 < k" using True r by (simp_all add: k_def)
      then have kn: "k \<le> ?n" using t(5) by linarith
      obtain q' where ad: "circ_buffer_advance ?q (int k) = Some (0, q')" "circ_ok q'" "contents q' = drop k (contents ?q)" "cb_size q' = 512"
        using circ_buffer_advance_ok[OF q(1), of k] kn data_size[OF q(1)] q(2) by auto
      let ?w1 = "put_txcb c q' w1"
      have c1: "conn_ok W d R c ?w1 L1" by (rule conn_put[OF t(2) ad(2,4)])
      have f: "txcbs ?w1 c = q'" "bufs ?w1 = bufs w1" "conn_sd c ?w1 = ?sd" "trace ?w1 = trace w1" "cli_same w1 ?w1"
        using tx1 by (simp_all add: put_txcb_def cli_same_def)
      have sm: "length (contents (txcbs ?w1 c)) < length (contents ?q)" using ad(3) f(1) k \<open>contents ?q \<noteq> []\<close> by simp
      have "length (bufs ?w1 (resume_buf g)) = 128" using f(2) tx1(3) lb by simp
      then obtain w' L' tr where ih: "cli_tx_resume os tc g c ?w1 = Some w'" "conn_ok W d R c w' L'"
        "io_effect W d R {conn_tconn c} ?w1 L1 w' L'" "cli_same ?w1 w'" "trace w' = trace ?w1 @ tr"
        "contents (txcbs ?w1 c) = accepted (conn_sd c ?w1) tr @ contents (txcbs w' c)"
        "contents (txcbs w' c) \<noteq> [] \<longrightarrow> tr \<noteq> [] \<and> os_ret (snd (last tr)) \<le> 0"
        using less.hyps[OF sm c1 less.prems(2)] by blast
      have st: "cli_tx_resume os tc g c w = cli_tx_resume os tc g c ?w1"
        using no_data[OF q(1)] \<open>contents ?q \<noteq> []\<close> n pk t(1) k ad(1) tx1(1)
        by (subst cli_tx_resume.simps) (simp add: circ_buffer_get_data_size_def Let_def)
      let ?tr = "(Sys_write ?sd (take ?n ?b), a) # tr"
      have "nat (os_ret a) = k" using k(1) r by simp
      moreover have "take k (take ?n (contents ?q)) = take k (contents ?q)" using kn by (simp only: take_take min_absorb1)
      ultimately have "taken ?sd (Sys_write ?sd (take ?n ?b), a) = take k (contents ?q)" by (simp only: taken.simps tk refl if_True)
      moreover have "accepted ?sd tr @ contents (txcbs w' c) = drop k (contents ?q)" using ih(6) f(1,3) ad(3) by simp
      ultimately have ac: "contents ?q = accepted ?sd ?tr @ contents (txcbs w' c)"
        by (simp only: accepted_simps append_assoc append_take_drop_id)
      have e2: "io_effect W d R {conn_tconn c} w L w' L'"
        by (rule io_effect_trans[OF e1]) (use ih(3) in \<open>simp add: io_effect_def still_def put_txcb_def\<close>)
      show ?thesis using ih(1,2,5,7) st ac e2 cli_same_trans[OF cs cli_same_trans[OF f(5) ih(4)]] t(6) f(4)
        by (intro exI[of _ w'] exI[of _ L'] exI[of _ ?tr]) auto
    qed
  qed
qed

text \<open>One turn of the loop of \<open>cli_tx\<close>, by the answer of the system.\<close>

lemma tx_loop_turn:
  assumes ok: "conn_ok W d R c w L" "writes_ok os" and len: "0 \<le> n" "n < len" "len \<le> 512" "len \<le> int (length (bufs w b))"
  defines "call \<equiv> Sys_write (conn_sd c w) (take (nat len) (bufs w b))"
  defines "a \<equiv> os call (trace w)"
  shows "\<exists>w1 L1. conn_ok W d R c w1 L1 \<and> only_io w w1 \<and> trace w1 = trace w @ [(call, a)]
    \<and> (if 0 < os_ret a then cli_tx_loop os tc c b len n w = cli_tx_loop os tc c b len (n + os_ret a) w1
       else if os_errno a = EWOULDBLOCK \<or> os_errno a = EAGAIN
       then event_listening (watchers w1 (conn_tconn c)) AND IO_DRIVER_EVENT_TX \<noteq> 0
         \<and> (\<exists>x q. circ_buffer_put (txcbs w c) (drop (nat n) (bufs w b)) (len - n) = Some (x, q)
              \<and> cli_tx_loop os tc c b len n w = Some (put_txcb c q w1))
       else cli_tx_loop os tc c b len n w = Some w1)"
proof -
  have l: "0 \<le> len" using len by simp
  obtain r w1 L1 where t: "io_telnet_tx os tc (conn_tconn c) b len w = Some (r, w1)" "conn_ok W d R c w1 L1" "only_io w w1"
    "-1 \<le> r" "r \<le> len" "trace w1 = trace w @ [(call, a)]"
    "r = (if 0 < os_ret a then os_ret a else if os_errno a = EWOULDBLOCK \<or> os_errno a = EAGAIN then 0 else -1)"
    "r = 0 \<longrightarrow> event_listening (watchers w1 (conn_tconn c)) AND IO_DRIVER_EVENT_TX \<noteq> 0"
    using conn_tx[OF ok l len(4), of tc] unfolding a_def call_def by blast
  note same = only_io_same[OF t(3)]
  have add: "c_add n r = Some (n + r)" if "0 \<le> r" using that t(5) len(1-3) by (simp add: c_add_def int_range_def INT_MIN_def INT_MAX_def)
  have q: "circ_ok (txcbs w1 c)" "cb_size (txcbs w1 c) = 512" using t(2) by (simp_all add: conn_ok_def)
  obtain q' x where p: "circ_buffer_put (txcbs w c) (drop (nat n) (bufs w b)) (len - n) = Some (x, q')"
    using put_circ[OF q, of "len - n" "drop (nat n) (bufs w b)"] len same(3) by auto
  have "cli_tx_loop os tc c b len n w = cli_tx_loop os tc c b len (n + r) w1" if "0 < r"
    using len(2) t(1) that add by (subst cli_tx_loop.simps) simp
  moreover have "cli_tx_loop os tc c b len n w = Some (put_txcb c q' w1)" if "r = 0"
    using len(1,2) t(1) that p same(2,3) by (subst cli_tx_loop.simps) simp
  moreover have "cli_tx_loop os tc c b len n w = Some w1" if "r = -1"
    using len(2) t(1) that by (subst cli_tx_loop.simps) simp
  ultimately show ?thesis using t(2,3,6-8) p by (intro exI[of _ w1] exI[of _ L1]) (auto split: if_splits)
qed

lemma tx_loop_done: "len \<le> n \<Longrightarrow> cli_tx_loop os tc c b len n w = Some w"
  by (subst cli_tx_loop.simps) simp

text \<open>The answers \<open>as\<close> of the system to making \<open>call\<close> again and again, after the calls \<open>tr\<close>.\<close>

fun answers_of :: "os \<Rightarrow> os_call \<Rightarrow> os_trace \<Rightarrow> os_result list \<Rightarrow> bool" where
  "answers_of os call tr [] = True"
| "answers_of os call tr (a # as) = (a = os call tr \<and> answers_of os call (tr @ [(call, a)]) as)"

text \<open>The whole loop, from \<open>n\<close> on with an empty queue: writes of the whole buffer that were answered with numbers of bytes, and a last one.\<close>

lemma tx_loop_runs:
  fixes w :: "'a server_mem_scheme"
  assumes "conn_ok W d R c w L" "writes_ok os" "contents (txcbs w c) = []" "0 \<le> n" "n < len" "len \<le> 512" "len \<le> int (length (bufs w b))"
    and "bs = take (nat len) (bufs w b)" "call = Sys_write (conn_sd c w) bs"
  shows "\<exists>w' L' as a. cli_tx_loop os tc c b len n w = Some w' \<and> conn_ok W d R c w' L'
    \<and> trace w' = trace w @ map (Pair call) (as @ [a]) \<and> answers_of os call (trace w) (as @ [a])
    \<and> (\<forall>x\<in>set as. 0 < os_ret x) \<and> n + sum_list (map os_ret as) < len
    \<and> (if 0 < os_ret a then len \<le> n + sum_list (map os_ret as) + os_ret a \<and> contents (txcbs w' c) = []
       else if os_errno a = EWOULDBLOCK \<or> os_errno a = EAGAIN
       then contents (txcbs w' c) = drop (nat (n + sum_list (map os_ret as))) bs
         \<and> event_listening (watchers w' (conn_tconn c)) AND IO_DRIVER_EVENT_TX \<noteq> 0
       else contents (txcbs w' c) = [])"
  using assms
proof (induction "nat (len - n)" arbitrary: n w L rule: less_induct)
  case less
  define a where "a = os call (trace w)"
  obtain w1 L1 where 1: "conn_ok W d R c w1 L1" "only_io w w1" "trace w1 = trace w @ [(call, a)]"
    "if 0 < os_ret a then cli_tx_loop os tc c b len n w = cli_tx_loop os tc c b len (n + os_ret a) w1
       else if os_errno a = EWOULDBLOCK \<or> os_errno a = EAGAIN
       then event_listening (watchers w1 (conn_tconn c)) AND IO_DRIVER_EVENT_TX \<noteq> 0
         \<and> (\<exists>x q. circ_buffer_put (txcbs w c) (drop (nat n) (bufs w b)) (len - n) = Some (x, q)
              \<and> cli_tx_loop os tc c b len n w = Some (put_txcb c q w1))
       else cli_tx_loop os tc c b len n w = Some w1"
    using tx_loop_turn[OF less.prems(1,2,4-7), of tc] less.prems(8,9) unfolding a_def by blast
  note same = only_io_same[OF 1(2)]
  have q: "circ_ok (txcbs w c)" "cb_size (txcbs w c) = 512" using less.prems(1) by (simp_all add: conn_ok_def)
  show ?case
  proof (cases "0 < os_ret a \<and> n + os_ret a < len")
    case True
    then have m: "nat (len - (n + os_ret a)) < nat (len - n)" "0 \<le> n + os_ret a" "n + os_ret a < len" using less.prems(4,5) by auto
    have p: "contents (txcbs w1 c) = []" "len \<le> int (length (bufs w1 b))" "bs = take (nat len) (bufs w1 b)" "call = Sys_write (conn_sd c w1) bs"
      using same less.prems(3,7-9) by simp_all
    obtain w' L' as z where 2: "cli_tx_loop os tc c b len (n + os_ret a) w1 = Some w'" "conn_ok W d R c w' L'"
      "trace w' = trace w1 @ map (Pair call) (as @ [z])" "answers_of os call (trace w1) (as @ [z])" "\<forall>x\<in>set as. 0 < os_ret x"
      "n + os_ret a + sum_list (map os_ret as) < len"
      "if 0 < os_ret z then len \<le> n + os_ret a + sum_list (map os_ret as) + os_ret z \<and> contents (txcbs w' c) = []
       else if os_errno z = EWOULDBLOCK \<or> os_errno z = EAGAIN
       then contents (txcbs w' c) = drop (nat (n + os_ret a + sum_list (map os_ret as))) bs
         \<and> event_listening (watchers w' (conn_tconn c)) AND IO_DRIVER_EVENT_TX \<noteq> 0
       else contents (txcbs w' c) = []"
      using less.hyps[OF m(1) 1(1) less.prems(2) p(1) m(2,3) less.prems(6) p(2-4)] by blast
    have "cli_tx_loop os tc c b len n w = Some w'" using 1(4) 2(1) True by simp
    moreover have e: "n + os_ret a + sum_list (map os_ret as) = n + sum_list (map os_ret (a # as))" by simp
    note 2(6,7)[unfolded e]
    moreover have "trace w' = trace w @ map (Pair call) ((a # as) @ [z])" "answers_of os call (trace w) ((a # as) @ [z])"
      "\<forall>x\<in>set (a # as). 0 < os_ret x"
      using 1(3) 2(3-5) True by (simp_all add: a_def)
    ultimately show ?thesis using 2(2) by blast
  next
    case fin: False
    have t: "trace w1 = trace w @ map (Pair call) ([] @ [a])" "answers_of os call (trace w) ([] @ [a])" using 1(3) by (simp_all add: a_def)
    show ?thesis
    proof (cases "0 < os_ret a")
      case True
      then have "cli_tx_loop os tc c b len n w = Some w1" using 1(4) fin tx_loop_done[of len "n + os_ret a"] by simp
      then show ?thesis using 1(1) t True fin less.prems(3,5) same(3)
        by (intro exI[of _ w1] exI[of _ L1] exI[of _ "[]"] exI[of _ a]) simp
    next
      case no: False
      show ?thesis
      proof (cases "os_errno a = EWOULDBLOCK \<or> os_errno a = EAGAIN")
        case True
        then obtain x q' where 2: "circ_buffer_put (txcbs w c) (drop (nat n) (bufs w b)) (len - n) = Some (x, q')"
          "cli_tx_loop os tc c b len n w = Some (put_txcb c q' w1)"
          "event_listening (watchers w1 (conn_tconn c)) AND IO_DRIVER_EVENT_TX \<noteq> 0" using 1(4) no by auto
        have z: "cb_data_size (txcbs w c) = 0" using data_size[OF q(1)] less.prems(3) by simp
        have l: "0 \<le> len - n" "len - n \<le> int (length (drop (nat n) (bufs w b)))" "len - n \<le> 512" using less.prems(4-7) by auto
        obtain x' q'' where 3: "circ_buffer_put (txcbs w c) (drop (nat n) (bufs w b)) (len - n) = Some (x', q'')" "circ_ok q''" "cb_size q'' = 512"
          "contents q'' = contents (txcbs w c) @ take (nat (len - n)) (drop (nat n) (bufs w b))"
          using put_circ[OF q l(1,2)] z l by auto
        have "q' = q''" using 2(1) 3(1) by simp
        then have "contents q' = drop (nat n) bs" "circ_ok q'" "cb_size q' = 512"
          using 3 less.prems(3-5,8) by (simp_all add: drop_take nat_diff_distrib)
        then show ?thesis using t True no 2(2,3) less.prems(5) conn_put[OF 1(1)]
          by (intro exI[of _ "put_txcb c q' w1"] exI[of _ L1] exI[of _ "[]"] exI[of _ a]) (simp add: put_txcb_def)
      next
        case False
        then show ?thesis using 1(1,4) t no less.prems(3,5) same(3)
          by (intro exI[of _ w1] exI[of _ L1] exI[of _ "[]"] exI[of _ a]) simp
      qed
    qed
  qed
qed

section \<open>A new connection\<close>

lemma alloc_ok:
  fixes w :: "'a server_mem_scheme"
  assumes inv: "driver_inv W D w L" and x: "L (conns g) = Some xs" and y: "L (cli_intf_list g) = Some ys" "conns g \<noteq> cli_intf_list g"
    and out: "conns g \<notin> W \<union> D" "cli_intf_list g \<notin> W \<union> D"
    and c: "alloc w = c" "c \<noteq> NULL" "{c, conn_tconn c, conn_cli c} \<inter> dom (lheap w) = {}" and b: "\<And>v. \<exists>m. block v = Some m \<and> length m = 512"
  shows "\<exists>w' L'. alloc_cli_connection alloc block g w = Some (c, w') \<and> driver_inv W D w' L'
    \<and> L' = L(conns g \<mapsto> xs @ [c], cli_intf_list g \<mapsto> ys @ [conn_cli c]) \<and> holds (conn_cli c) [] w'
    \<and> circ_ok (txcbs w' c) \<and> contents (txcbs w' c) = [] \<and> loose (lheap w') L' (conn_tconn c)
    \<and> dom (lheap w') = dom (lheap w) \<union> {c, conn_tconn c, conn_cli c} \<and> watchers w' = watchers w \<and> nets w' = nets w"
proof -
  let ?X = "conns g" and ?Y = "cli_intf_list g" and ?t = "conn_tconn c" and ?i = "conn_cli c"
  let ?h0 = "(lheap w)(c \<mapsto> \<lparr>le_next = NULL, le_prev = NULL\<rparr>, ?t \<mapsto> \<lparr>le_next = NULL, le_prev = NULL\<rparr>, ?i \<mapsto> \<lparr>le_next = NULL, le_prev = NULL\<rparr>)"
  have L: "heap_lists (lheap w) L" using driver_invD(1)[OF inv] .
  have nn: "?t \<noteq> NULL" "?i \<noteq> NULL" using c(2) by (simp_all add: conn_tconn_def conn_cli_def NULL_def)
  have f: "c \<notin> dom (lheap w)" "?t \<notin> dom ((lheap w)(c \<mapsto> v))" "?i \<notin> dom ((lheap w)(c \<mapsto> v, ?t \<mapsto> u))" for v u using c(3) by auto
  have L0: "heap_lists ?h0 L" using use_cell(1)[OF use_cell(1)[OF use_cell(1)[OF L f(1) c(2)] f(2) nn(1)] f(3) nn(2)] .
  have cells: "c \<notin> cells L" "?t \<notin> cells L" "?i \<notin> cells L" using lists_cells_dom[OF L] c(3) by auto
  have heads: "?X \<in> cells L" "?Y \<in> cells L" using cellsI[of L ?X xs ?X] cellsI[of L ?Y ys ?Y] x y(1) by auto
  have ne: "c \<noteq> ?X" "?i \<noteq> ?Y" "c \<noteq> ?Y" "?t \<noteq> ?X" "?t \<noteq> ?Y" using cells heads by auto
  have l0: "loose ?h0 L c" using cells(1) by (simp add: loose_def)
  obtain h1 h2 where 1: "INIT_LIST_HEAD c ?h0 = Some h1" "list_add_tail c ?X h1 = Some h2" "heap_lists h2 (L(?X \<mapsto> xs @ [c]))" "dom h2 = dom ?h0"
    using init_and_add[OF L0 l0 x ne(1)] by blast
  have mem: "a \<notin> cells (L(?X \<mapsto> xs @ [c]))" if "a \<notin> cells L" "a \<noteq> c" for a
  proof
    assume "a \<in> cells (L(?X \<mapsto> xs @ [c]))"
    then obtain e q where q: "(L(?X \<mapsto> xs @ [c])) e = Some q" "a \<in> set (e # q)" by (auto simp: cells_def)
    then show False using that cellsI[of L e _ a] x by (cases "e = ?X") auto
  qed
  have l2: "loose h2 (L(?X \<mapsto> xs @ [c])) ?i" using mem[OF cells(3)] 1(4) by (simp add: loose_def)
  have y2: "(L(?X \<mapsto> xs @ [c])) ?Y = Some ys" using y by simp
  let ?L = "L(?X \<mapsto> xs @ [c], ?Y \<mapsto> ys @ [?i])"
  obtain h3 h4 where 2: "INIT_LIST_HEAD ?i h2 = Some h3" "list_add_tail ?i ?Y h3 = Some h4" "heap_lists h4 ?L" "dom h4 = dom h2"
    using init_and_add[OF 1(3) l2 y2 ne(2)] by blast
  define v where "v = set_ndx ?i 0 (new_conn c w)\<lparr>lheap := h4\<rparr>"
  obtain m where m: "block v = Some m" "length m = 512" using b by blast
  define w' where "w' = put_txcb c (snd (circ_buffer_init (Some m) 512)) v"
  have r: "alloc_cli_connection alloc block g w = Some (c, w')"
    using c(1,2) 1(1,2) 2(1,2) m(1)
    by (simp add: alloc_cli_connection_def new_conn_def on_heap_def cli_intf_register_def set_ndx_def put_cli_def put_txcb_def w'_def v_def)
  have heap: "lheap w' = h4" "watchers w' = watchers w" "nets w' = nets w"
    by (simp_all add: w'_def v_def put_txcb_def set_ndx_def put_cli_def new_conn_def)
  have "driver_ok W D (watchers w) ?L"
    by (rule driver_ok_frame[OF driver_invD(2)[OF inv]]) (use out in auto)
  then have "driver_inv W D w' ?L" using 2(3) heap by (simp add: driver_inv_def)
  moreover have "holds ?i [] w'"
    by (simp add: w'_def v_def holds_def put_txcb_def set_ndx_def put_cli_def new_conn_def)
  moreover have "circ_ok (txcbs w' c)" "contents (txcbs w' c) = []"
    using m(2) by (simp_all add: w'_def put_txcb_def circ_buffer_init_def circ_ok_def contents_def INT_MAX_def)
  moreover have "loose (lheap w') ?L ?t"
  proof -
    have "?t \<notin> cells ?L"
    proof
      assume "?t \<in> cells ?L"
      then obtain e q where q: "?L e = Some q" "?t \<in> set (e # q)" by (auto simp: cells_def)
      then show False using mem[OF cells(2)] cellsI[of "L(?X \<mapsto> xs @ [c])" e _ ?t] y2 by (cases "e = ?Y") auto
    qed
    then show ?thesis using heap(1) 2(4) 1(4) by (simp add: loose_def)
  qed
  moreover have "dom (lheap w') = dom (lheap w) \<union> {c, ?t, ?i}" using heap(1) 2(4) 1(4) by auto
  ultimately show ?thesis using r heap by blast
qed

section \<open>Properties\<close>

text \<open>C29: Typing a line runs the command it names, for lines of fewer than 252 characters and with no user commands registered, as
  \<open>main\<close> of the sample server registers none. However the bytes of such a line are typed and corrected with backspace,
  at the carriage return the server has executed exactly the words of the corrected line, if there are at most 32
  and the first one names one of the interpreter's own commands; it asks to stop the connection exactly for \<open>exit\<close>, and otherwise
  the connection is served on with an empty line. A line of 252 characters or more does not fit: see \<open>cli_server_overruns\<close>.\<close>

theorem cli_server_runs_line:
  fixes w :: "'a server_mem_scheme"
  assumes "serving W d R g c w L" "writes_ok os" "holds (conn_cli c) [] w" "CLI_EOL_CHAR \<notin> set bs"
    and "length (edit bs) < CLI_MAX_COMMAND_LEN" "num_user_commands w = 0" "s = takeWhile (\<lambda>x. x \<noteq> 0) (edit bs)"
  shows "\<exists>r w'. cli_handle_rx (cli_tx os tc) (cli_exit os) user (cli_statics.truncate g) (conn_cli c) (bs @ [CLI_EOL_CHAR]) w = Some (r, w')
    \<and> cmd_log w' = cmd_log w @ (if known s then [(conn_cli c, words s)] else [])
    \<and> r = (if wants_exit s then -1 else 0)
    \<and> (r \<noteq> -1 \<longrightarrow> (\<exists>L'. serving W d R g c w' L') \<and> holds (conn_cli c) [] w')"
proof -
  have "writes_ok os \<and> (\<exists>L. serving W d R g c w L)" using assms(1,2) by blast
  from conn.rx_runs_line[OF this assms(3-6), of tc user] show ?thesis unfolding assms(7) by blast
qed

text \<open>C35: A line of 252 characters writes past the end of the line buffer: the interpreter stops taking characters when the
  buffer is full, and then stores the terminating zero of the line after its last element.\<close>

theorem cli_server_overruns:
  fixes w :: "'a server_mem_scheme"
  assumes "serving W d R g c w L" "writes_ok os" "holds (conn_cli c) [] w" "CLI_EOL_CHAR \<notin> set bs"
    and "length (edit bs) = CLI_MAX_COMMAND_LEN"
  shows "cli_handle_rx (cli_tx os tc) (cli_exit os) user (cli_statics.truncate g) (conn_cli c) (bs @ [CLI_EOL_CHAR]) w = None"
proof -
  have "writes_ok os \<and> (\<exists>L. serving W d R g c w L)" using assms(1,2) by blast
  from conn.rx_overruns[OF this assms(3-5)] show ?thesis .
qed

text \<open>C31: \<open>cli_tx\<close> on a connection with nothing queued, for a text of 1 to 512 bytes, whatever the system answers. It returns after a number of
  writes, each of which offers the whole text from its start: the code means to send the rest but does not. All but the last were answered with a number of bytes taken, whose
  sum is less than the length, so after a first write that takes only a part the peer receives the beginning of the text again. The last one brings the sum to at least the length, and the queue is empty;
  or it would block, and the text without its first \<open>sum\<close> bytes is queued and output is watched for; or it fails, and the queue is empty and the rest lost. In particular one
  write that takes everything sends the text once, and one that blocks at once queues it once.\<close>

theorem cli_tx_when_idle:
  fixes w :: "'a server_mem_scheme"
  assumes "conn_ok W d R c w L" "writes_ok os" "contents (txcbs w c) = []" "0 < len" "len \<le> 512" "len \<le> int (length (bufs w b))"
    and "bs = take (nat len) (bufs w b)" "call = Sys_write (conn_sd c w) bs"
  shows "\<exists>w' as a. cli_tx os tc (conn_cli c) b len w = Some w'
    \<and> trace w' = trace w @ map (Pair call) (as @ [a]) \<and> answers_of os call (trace w) (as @ [a])
    \<and> (\<forall>x\<in>set as. 0 < os_ret x) \<and> sum_list (map os_ret as) < len
    \<and> accepted (conn_sd c w) (map (Pair call) (as @ [a]))
        = concat (map (\<lambda>x. take (nat (os_ret x)) bs) as) @ take (nat (os_ret a)) bs
    \<and> (if 0 < os_ret a then len \<le> sum_list (map os_ret as) + os_ret a \<and> contents (txcbs w' c) = []
       else if os_errno a = EWOULDBLOCK \<or> os_errno a = EAGAIN
       then contents (txcbs w' c) = drop (nat (sum_list (map os_ret as))) bs
         \<and> event_listening (watchers w' (conn_tconn c)) AND IO_DRIVER_EVENT_TX \<noteq> 0
       else contents (txcbs w' c) = [])"
proof -
  have q: "circ_ok (txcbs w c)" using assms(1) by (simp add: conn_ok_def)
  have start: "cli_tx os tc (conn_cli c) b len w = cli_tx_loop os tc c b len 0 w"
    using no_data[OF q] assms(3) by (simp add: cli_tx_def)
  obtain w' as a where r: "cli_tx_loop os tc c b len 0 w = Some w'"
    "trace w' = trace w @ map (Pair call) (as @ [a])" "answers_of os call (trace w) (as @ [a])"
    "\<forall>x\<in>set as. 0 < os_ret x" "0 + sum_list (map os_ret as) < len"
    "if 0 < os_ret a then len \<le> 0 + sum_list (map os_ret as) + os_ret a \<and> contents (txcbs w' c) = []
       else if os_errno a = EWOULDBLOCK \<or> os_errno a = EAGAIN
       then contents (txcbs w' c) = drop (nat (0 + sum_list (map os_ret as))) bs
         \<and> event_listening (watchers w' (conn_tconn c)) AND IO_DRIVER_EVENT_TX \<noteq> 0
       else contents (txcbs w' c) = []"
    using tx_loop_runs[OF assms(1-3) order_refl assms(4-8), of tc] by blast
  have "accepted (conn_sd c w) (map (Pair call) (as @ [a])) = concat (map (\<lambda>x. take (nat (os_ret x)) bs) as) @ take (nat (os_ret a)) bs"
    unfolding assms(8) by (simp add: accepted_def comp_def)
  then show ?thesis using r(1-4) r(5,6)[unfolded add_0] start by (intro exI[of _ w'] exI[of _ as] exI[of _ a]) simp
qed

text \<open>\<open>cli_tx\<close> on a connection whose socket blocks and that already has bytes queued queues the new bytes twice, so that the
  peer will receive them twice: after the queue has taken them the code goes on to send them, and queues them again.\<close>

theorem cli_tx_queues_twice:
  fixes w :: "'a server_mem_scheme"
  assumes "conn_ok W d R c w L" "writes_ok os" "contents (txcbs w c) \<noteq> []" "0 < len" "len \<le> int (length (bufs w b))"
    and "int (length (contents (txcbs w c))) + 2 * len \<le> 512" "bs = take (nat len) (bufs w b)"
    and "a = os (Sys_write (conn_sd c w) bs) (trace w)" "os_ret a \<le> 0" "os_errno a = EAGAIN"
  shows "\<exists>w'. cli_tx os tc (conn_cli c) b len w = Some w' \<and> contents (txcbs w' c) = contents (txcbs w c) @ bs @ bs"
proof -
  have q: "circ_ok (txcbs w c)" "cb_size (txcbs w c) = 512" using assms(1) by (simp_all add: conn_ok_def)
  have l: "len \<le> 512" "0 \<le> len" using assms(4,6) by simp_all
  obtain q1 x1 where 1: "circ_buffer_put (txcbs w c) (bufs w b) len = Some (x1, q1)" "circ_ok q1" "cb_size q1 = 512"
    "x1 = 0" "contents q1 = contents (txcbs w c) @ bs"
    using put_circ[OF q l(2) assms(5)] l assms(4,6,7) data_size[OF q(1)] by auto
  let ?w = "put_txcb c q1 w"
  have c1: "conn_ok W d R c ?w L" by (rule conn_put[OF assms(1) 1(2,3)])
  have f: "bufs ?w = bufs w" "nets ?w = nets w" "trace ?w = trace w" "txcbs ?w c = q1" by (simp_all add: put_txcb_def)
  have lb: "len \<le> int (length (bufs ?w b))" using f(1) assms(5) by simp
  obtain w1 q2 x2 where 2: "circ_buffer_put q1 (bufs w b) len = Some (x2, q2)" "cli_tx_loop os tc c b len 0 ?w = Some (put_txcb c q2 w1)"
    using tx_loop_turn[OF c1 assms(2) order_refl assms(4) l(1) lb, of tc] assms(7-10) f by auto
  have "contents q2 = contents q1 @ bs"
    using put_circ[OF 1(2,3) l(2) assms(5)] 2(1) l data_size[OF 1(2)] 1(5) assms(5-7) by auto
  moreover have "cli_tx os tc (conn_cli c) b len w = Some (put_txcb c q2 w1)"
    using no_data[OF q(1)] assms(3) 1(1,4) 2(2) by (simp add: cli_tx_def)
  ultimately show ?thesis using 1(5) by (intro exI[of _ "put_txcb c q2 w1"]) (simp add: put_txcb_def)
qed

text \<open>C30: When the socket takes output again, \<open>cli_tx_resume\<close> returns, and what the system has taken is exactly the front of the queue,
  in order and once; what is left is still queued, and something is left only if the last write was refused.\<close>

theorem cli_tx_resume_sends_queue:
  fixes w :: "'a server_mem_scheme"
  assumes "conn_ok W d R c w L" "writes_ok os" "length (bufs w (resume_buf g)) = 128"
  shows "\<exists>w' tr. cli_tx_resume os tc g c w = Some w' \<and> (\<exists>L'. conn_ok W d R c w' L') \<and> trace w' = trace w @ tr
    \<and> accepted (conn_sd c w) tr @ contents (txcbs w' c) = contents (txcbs w c)
    \<and> (contents (txcbs w' c) \<noteq> [] \<longrightarrow> tr \<noteq> [] \<and> os_ret (snd (last tr)) \<le> 0)"
proof -
  obtain w' L' tr where "cli_tx_resume os tc g c w = Some w'" "conn_ok W d R c w' L'" "trace w' = trace w @ tr"
    "contents (txcbs w c) = accepted (conn_sd c w) tr @ contents (txcbs w' c)"
    "contents (txcbs w' c) \<noteq> [] \<longrightarrow> tr \<noteq> [] \<and> os_ret (snd (last tr)) \<le> 0"
    using resume_ok[OF assms, of tc] by blast
  then show ?thesis by (intro exI[of _ w'] exI[of _ tr]) auto
qed

text \<open>C32: The end of a connection. On the closed event the server closes its socket, takes the connection out of both
  lists and frees it and its buffer; the other connections stay watched as they were, and the event loop is told not to touch the object again.\<close>

theorem cli_server_closes:
  fixes w :: "'a server_mem_scheme"
  assumes "serving W d R g c w L" "L (conns g) = Some xs" "L (cli_intf_list g) = Some ys" "tev_enum e = io_net_event_enum_closed"
  shows "\<exists>w' L'. telnet_server_callback os tc alloc block user g (conn_tconn c) e w = Some (io_net_return_stop, e, w')
    \<and> driver_inv (W - {conn_tconn c}) (insert d R) w' L'
    \<and> L' (conns g) = Some (remove1 c xs) \<and> L' (cli_intf_list g) = Some (remove1 (conn_cli c) ys)
    \<and> (\<forall>x\<in>W - {conn_tconn c}. watchers w' x = watchers w x)
    \<and> open_fds (trace w') = open_fds (trace w) - {conn_sd c w}
    \<and> dom (lheap w') = dom (lheap w) - {c, conn_tconn c, conn_cli c} \<and> cb_buffer (txcbs w' c) = None"
proof -
  obtain w' L' where 1: "dealloc_cli_connection os c w = Some w'" "driver_inv (W - {conn_tconn c}) (insert d R) w' L'"
    "L' (conns g) = Some (remove1 c xs)" "L' (cli_intf_list g) = Some (remove1 (conn_cli c) ys)"
    "\<forall>x\<in>W - {conn_tconn c}. watchers w' x = watchers w x" "open_fds (trace w') = open_fds (trace w) - {conn_sd c w}"
    "dom (lheap w') = dom (lheap w) - {c, conn_tconn c, conn_cli c}" "cb_buffer (txcbs w' c) = None"
    using dealloc_ok[OF assms(1-3), of os] by (elim exE conjE) (rule that, assumption+)
  have "telnet_server_callback os tc alloc block user g (conn_tconn c) e w = Some (io_net_return_stop, e, w')"
    unfolding telnet_server_callback_def assms(4) by (simp add: 1(1))
  then show ?thesis using 1(2-) by blast
qed

text \<open>C33: A new connection. On the event for an accepted socket the server hands over a new object that is at the end of both of its lists,
  with an empty line, an empty output queue and a cell for its watcher, and no other object changes. Without memory the
  server does not refuse the connection, as its caller expects, but writes through the null pointer.\<close>

theorem cli_server_opens:
  fixes w :: "'a server_mem_scheme"
  assumes "driver_inv W D w L" "L (conns g) = Some xs" "L (cli_intf_list g) = Some ys" "conns g \<noteq> cli_intf_list g"
    and "conns g \<notin> W \<union> D" "cli_intf_list g \<notin> W \<union> D" "tev_enum e = io_net_event_enum_alloc_connection"
    and "c = alloc w" "{c, conn_tconn c, conn_cli c} \<inter> dom (lheap w) = {}" "\<And>v. \<exists>m. block v = Some m \<and> length m = 512"
  shows "if c = NULL then telnet_server_callback os tc alloc block user g t e w = None
    else \<exists>w' L'. telnet_server_callback os tc alloc block user g t e w = Some (io_net_return_continue, e\<lparr>tev_u := Tev_n (conn_tconn c)\<rparr>, w')
      \<and> driver_inv W D w' L' \<and> L' = L(conns g \<mapsto> xs @ [c], cli_intf_list g \<mapsto> ys @ [conn_cli c]) \<and> holds (conn_cli c) [] w'
      \<and> circ_ok (txcbs w' c) \<and> contents (txcbs w' c) = [] \<and> loose (lheap w') L' (conn_tconn c)
      \<and> dom (lheap w') = dom (lheap w) \<union> {c, conn_tconn c, conn_cli c} \<and> watchers w' = watchers w \<and> nets w' = nets w"
proof (cases "c = NULL")
  case True
  then show ?thesis using assms(7,8) by (simp add: telnet_server_callback_def alloc_cli_connection_def)
next
  case False
  obtain w' L' where "alloc_cli_connection alloc block g w = Some (c, w')" "driver_inv W D w' L'"
    "L' = L(conns g \<mapsto> xs @ [c], cli_intf_list g \<mapsto> ys @ [conn_cli c])" "holds (conn_cli c) [] w'"
    "circ_ok (txcbs w' c)" "contents (txcbs w' c) = []" "loose (lheap w') L' (conn_tconn c)"
    "dom (lheap w') = dom (lheap w) \<union> {c, conn_tconn c, conn_cli c}" "watchers w' = watchers w" "nets w' = nets w"
    using alloc_ok[of W D w L g xs ys alloc c block, OF assms(1-6) assms(8)[symmetric] False assms(9,10)] by blast
  then show ?thesis using assms(7) False by (simp add: telnet_server_callback_def)
qed

section \<open>A concrete instance\<close>

text \<open>One connection, at 1000, is being served; its lists have their heads at 2 and 3, and the driver is at 20.\<close>

definition demo_statics :: server_statics where
  "demo_statics = \<lparr>print_buffer = 50, prompt = 51, cli_intf_list = 3, conns = 2, the_driver = 20, tserver = 31, iacs_to_send = 53, resume_buf = 52\<rparr>"

definition demo_heap :: list_heap where
  "demo_heap = (idle_heap {20, 1056})(2 \<mapsto> \<lparr>le_next = 1000, le_prev = 1000\<rparr>, 1000 \<mapsto> \<lparr>le_next = 2, le_prev = 2\<rparr>,
     3 \<mapsto> \<lparr>le_next = 1576, le_prev = 1576\<rparr>, 1576 \<mapsto> \<lparr>le_next = 3, le_prev = 3\<rparr>)"

definition demo_lists :: family where
  "demo_lists = (idle_lists {20, 1056})(2 \<mapsto> [1000], 3 \<mapsto> [1576])"

definition demo_server :: "circ_buffer \<Rightarrow> server_mem" where
  "demo_server q = cli_mem.extend (telnet_mem.extend (demo_telnet\<lparr>lheap := demo_heap,
       bufs := (\<lambda>a. if a = 50 then replicate 513 0 else if a = 51 then prompt_text @ [0] else if a = 52 then replicate 128 0 else [1, 2, 3])\<rparr>)
     (cli_mem.fields (\<lambda>_. \<lparr>cmd_buffer_ndx = 0, cmd_buffer = replicate 252 0\<rparr>) [] 0 [])) (server_mem.fields (\<lambda>_. q))"

lemma demo_members: "conn_tconn 1000 = 1056" "conn_cli 1000 = 1576"
  by (simp_all add: conn_tconn_def conn_cli_def)

lemma demo_fields:
  "lheap (demo_server q) = demo_heap" "txcbs (demo_server q) = (\<lambda>_. q)" "trace (demo_server q) = []" "cmd_log (demo_server q) = []"
  "nets (demo_server q) a = (nets demo_net 31)\<lparr>net_cb := Io_telnet_client_callback\<rparr>"
  "watchers (demo_server q) a = \<lparr>wfd = 0, event_listening = 0, callback = Other_callback 0\<rparr>"
  "clis (demo_server q) a = \<lparr>cmd_buffer_ndx = 0, cmd_buffer = replicate 252 0\<rparr>" "num_user_commands (demo_server q) = 0"
  "bufs (demo_server q) = (\<lambda>a. if a = 50 then replicate 513 0 else if a = 51 then prompt_text @ [0] else if a = 52 then replicate 128 0 else [1, 2, 3])"
  by (simp_all add: demo_server_def cli_mem.defs telnet_mem.defs server_mem.defs demo_telnet_def net_mem.defs demo_net_def)

lemma demo_heap_lists: "heap_lists demo_heap demo_lists"
  by (auto simp: heap_lists_def demo_heap_def demo_lists_def idle_heap_def idle_lists_def ring_def nxt_def prv_def NULL_def split: if_splits)

lemma demo_serving:
  assumes "length bs < 512"
  shows "serving {1056} 20 {} demo_statics 1000 (demo_server (demo_queue bs)) demo_lists"
proof -
  have "driver_inv {1056} {20} (demo_server (demo_queue bs)) demo_lists"
    using demo_heap_lists by (auto simp: driver_inv_def driver_ok_def demo_fields demo_lists_def idle_lists_def FD_SETSIZE_def)
  moreover have "cb_size (demo_queue bs) = 512" by (simp add: demo_queue_def)
  ultimately show ?thesis using demo_queue_ok[OF assms]
    by (simp add: serving_def conn_ok_def demo_members demo_fields demo_statics_def cli_buffers_def CLI_MAX_COLUMNS_PER_LINE_def demo_lists_def demo_net_def)
qed

lemmas demo_conn_ok = demo_serving[unfolded serving_def, THEN conjunct1]

lemma demo_holds: "holds (conn_cli 1000) [] (demo_server q)"
  by (simp add: holds_def demo_fields CLI_MAX_COMMAND_LEN_def)

lemma edit_plain:
  assumes "\<forall>b\<in>set bs. b \<noteq> 8 \<and> b \<noteq> 127" "length bs \<le> CLI_MAX_COMMAND_LEN"
  shows "edit bs = bs"
  using assms
proof (induction bs rule: rev_induct)
  case (snoc b bs)
  then show ?case by (simp add: edit_def edit_byte_def)
qed (simp add: edit_def)

theorem cli_server_runs_line_witness:
  "\<exists>r w'. cli_handle_rx (cli_tx (slow_os 9) demo_codes) (cli_exit (slow_os 9)) (\<lambda>_ _ _ _. None) (cli_statics.truncate demo_statics) (conn_cli 1000)
      (text_of ''version'' @ [CLI_EOL_CHAR]) (demo_server (demo_queue [])) = Some (r, w')
    \<and> r = 0 \<and> cmd_log w' = [(conn_cli 1000, [text_of ''version''])]"
proof -
  let ?bs = "text_of ''version''"
  have e: "edit ?bs = ?bs" by (rule edit_plain) (simp_all add: text_of_def CLI_MAX_COMMAND_LEN_def)
  have z: "?bs = takeWhile (\<lambda>x. x \<noteq> 0) (edit ?bs)" unfolding e by (simp add: text_of_def)
  have w: "words ?bs = [?bs]" using words_token[of ?bs "[]"] by (simp add: text_of_def is_delim_def)
  have k: "known ?bs" "\<not> wants_exit ?bs"
    using w exit_text by (simp_all add: known_def wants_exit_def find_core_commands CLI_COMMAND_MAX_ARGS_def)
  have n: "CLI_EOL_CHAR \<notin> set ?bs" "length (edit ?bs) < CLI_MAX_COMMAND_LEN" "num_user_commands (demo_server (demo_queue [])) = 0"
    unfolding e by (simp_all add: text_of_def CLI_EOL_CHAR_def CLI_MAX_COMMAND_LEN_def demo_fields)
  have q: "length ([] :: bytes) < 512" by simp
  from cli_server_runs_line[OF demo_serving[OF q] demo_writes(1)[of 9] demo_holds n z, of demo_codes "\<lambda>_ _ _ _. None"]
  show ?thesis using k w by (simp add: demo_fields) blast
qed

theorem cli_server_overruns_witness:
  "cli_handle_rx (cli_tx (slow_os 9) demo_codes) (cli_exit (slow_os 9)) (\<lambda>_ _ _ _. None) (cli_statics.truncate demo_statics) (conn_cli 1000)
      (replicate 252 97 @ [CLI_EOL_CHAR]) (demo_server (demo_queue [])) = None"
proof -
  have "edit (replicate 252 97) = replicate 252 97" by (rule edit_plain) (simp_all add: CLI_MAX_COMMAND_LEN_def)
  then show ?thesis using demo_serving[of "[]"]
    by (intro cli_server_overruns[OF _ demo_writes(1) demo_holds]) (simp_all add: CLI_MAX_COMMAND_LEN_def CLI_EOL_CHAR_def)
qed

theorem cli_tx_when_idle_witness:
  "\<exists>w'. cli_tx (slow_os 1) demo_codes (conn_cli 1000) 0 3 (demo_server (demo_queue [])) = Some w'
    \<and> accepted 3 (trace w') = [1, 1, 2, 3] \<and> contents (txcbs w' 1000) = []"
proof -
  let ?w = "demo_server (demo_queue [])" and ?call = "Sys_write 3 [1, 2, 3]"
  have q: "length ([] :: bytes) < 512" "contents (txcbs ?w 1000) = []"
    using demo_queue_ok[of "[]"] by (simp_all add: demo_fields)
  have b: "[1, 2, 3] = take (nat 3) (bufs ?w 0)" "?call = Sys_write (conn_sd 1000 ?w) [1, 2, 3]" "trace ?w = []" "conn_sd 1000 ?w = 3"
    by (simp_all add: demo_fields demo_net_def)
  have l: "(0 :: int) < 3" "(3 :: int) \<le> 512" "3 \<le> int (length (bufs ?w 0))" by (simp_all add: demo_fields)
  obtain w' as a where r: "cli_tx (slow_os 1) demo_codes (conn_cli 1000) 0 3 ?w = Some w'" "trace w' = map (Pair ?call) (as @ [a])"
    "answers_of (slow_os 1) ?call [] (as @ [a])" "\<forall>x\<in>set as. 0 < os_ret x" "sum_list (map os_ret as) < 3"
    "accepted 3 (trace w') = concat (map (\<lambda>x. take (nat (os_ret x)) [1, 2, 3]) as) @ take (nat (os_ret a)) [1, 2, 3]"
    "if 0 < os_ret a then 3 \<le> sum_list (map os_ret as) + os_ret a \<and> contents (txcbs w' 1000) = []
       else if os_errno a = EWOULDBLOCK \<or> os_errno a = EAGAIN
       then contents (txcbs w' 1000) = drop (nat (sum_list (map os_ret as))) [1, 2, 3]
         \<and> event_listening (watchers w' (conn_tconn 1000)) AND IO_DRIVER_EVENT_TX \<noteq> 0
       else contents (txcbs w' 1000) = []"
    using cli_tx_when_idle[OF demo_conn_ok[OF q(1)] demo_writes(1)[of 1] q(2) l b(1,2), of demo_codes] unfolding b(3,4) append_Nil by metis
  have o: "slow_os 1 ?call [] = answer 1" "slow_os 1 ?call (x # tr) = answer 3" for x tr by (simp_all add: slow_os_def)
  show ?thesis
  proof (cases as)
    case Nil
    then have "a = answer 1" using r(3) o(1) by (simp del: One_nat_def)
    then show ?thesis using r(7) Nil by (simp add: answer_def)
  next
    case (Cons x ys)
    then have x: "x = answer 1" using r(3) o(1) by (simp del: One_nat_def)
    show ?thesis
    proof (cases ys)
      case Nil
      then have "a = answer 3" using r(3) Cons o(2) by (simp del: One_nat_def)
      then show ?thesis using r(1,6,7) Cons Nil x by (simp add: answer_def)
    next
      case (Cons y zs)
      then have "y = answer 3" using r(3) \<open>as = x # ys\<close> o(2) by (simp del: One_nat_def)
      moreover have "0 \<le> sum_list (map os_ret zs)" using r(4) \<open>as = x # ys\<close> Cons by (intro sum_list_nonneg) auto
      ultimately show ?thesis using r(5) \<open>as = x # ys\<close> Cons x by (simp add: answer_def)
    qed
  qed
qed

theorem cli_tx_queues_twice_witness:
  "\<exists>w'. cli_tx blocked_os demo_codes (conn_cli 1000) 0 3 (demo_server (demo_queue [7])) = Some w'
    \<and> contents (txcbs w' 1000) = [7, 1, 2, 3, 1, 2, 3]"
proof -
  have q: "length [7 :: u8] < 512" "contents (txcbs (demo_server (demo_queue [7])) 1000) = [7]"
    using demo_queue_ok[of "[7]"] by (simp_all add: demo_fields)
  from cli_tx_queues_twice[OF demo_conn_ok[OF q(1)] demo_writes(2) _ _ _ _ refl refl, of 3 0 demo_codes]
  show ?thesis using q(2) by (simp add: demo_fields blocked_os_def answer_def)
qed

theorem cli_tx_resume_sends_queue_witness:
  "\<exists>w' tr. cli_tx_resume (slow_os 2) demo_codes demo_statics 1000 (demo_server (demo_queue [7, 8, 9])) = Some w'
    \<and> accepted 3 tr @ contents (txcbs w' 1000) = [7, 8, 9]"
proof -
  have q: "length [7, 8, 9 :: u8] < 512" "contents (txcbs (demo_server (demo_queue [7, 8, 9])) 1000) = [7, 8, 9]"
    using demo_queue_ok[of "[7, 8, 9]"] by (simp_all add: demo_fields)
  have s: "conn_sd 1000 (demo_server (demo_queue [7, 8, 9])) = 3" by (simp add: demo_fields demo_net_def)
  have b: "length (bufs (demo_server (demo_queue [7, 8, 9])) (resume_buf demo_statics)) = 128" by (simp add: demo_fields demo_statics_def)
  from cli_tx_resume_sends_queue[OF demo_conn_ok[OF q(1)] demo_writes(1)[of 2] b, of demo_codes]
  show ?thesis unfolding s q(2) by blast
qed

theorem cli_server_closes_witness:
  "\<exists>w'. telnet_server_callback (slow_os 2) demo_codes (\<lambda>_. NULL) (\<lambda>_. None) (\<lambda>_ _ _ _. None) demo_statics (conn_tconn 1000)
      \<lparr>tev_enum = io_net_event_enum_closed, tev_u = Tev_n NULL, tev_from = None\<rparr> (demo_server (demo_queue []))
      = Some (io_net_return_stop, \<lparr>tev_enum = io_net_event_enum_closed, tev_u = Tev_n NULL, tev_from = None\<rparr>, w')
    \<and> dom (lheap w') = {2, 3, 20}"
proof -
  have q: "length ([] :: bytes) < 512" by simp
  have l: "demo_lists (conns demo_statics) = Some [1000]" "demo_lists (cli_intf_list demo_statics) = Some [1576]"
    by (simp_all add: demo_lists_def demo_statics_def)
  have d: "dom demo_heap - {1000, conn_tconn 1000, conn_cli 1000} = {2, 3, 20}" by (auto simp: demo_heap_def idle_heap_def demo_members)
  from cli_server_closes[OF demo_serving[OF q] l, of "\<lparr>tev_enum = io_net_event_enum_closed, tev_u = Tev_n NULL, tev_from = None\<rparr>" "slow_os 2"
      demo_codes "\<lambda>_. NULL" "\<lambda>_. None" "\<lambda>_ _ _ _. None"]
  show ?thesis unfolding demo_fields d by (simp del: insert_iff) blast
qed

theorem cli_server_opens_witness:
  "\<exists>w' L'. telnet_server_callback (slow_os 2) demo_codes (\<lambda>_. 2000) (\<lambda>_. Some (replicate 512 0)) (\<lambda>_ _ _ _. None) demo_statics 31
      \<lparr>tev_enum = io_net_event_enum_alloc_connection, tev_u = Tev_n NULL, tev_from = None\<rparr> (demo_server (demo_queue []))
      = Some (io_net_return_continue, \<lparr>tev_enum = io_net_event_enum_alloc_connection, tev_u = Tev_n 2056, tev_from = None\<rparr>, w')
    \<and> L' 2 = Some [1000, 2000] \<and> L' 3 = Some [1576, 2576] \<and> heap_lists (lheap w') L'"
proof -
  have "driver_inv {1056} {20} (demo_server (demo_queue [])) demo_lists"
    using demo_serving[of "[]"] by (simp add: serving_def conn_ok_def)
  moreover have "{2000, conn_tconn 2000, conn_cli 2000} \<inter> dom (lheap (demo_server (demo_queue []))) = {}"
    by (auto simp: demo_fields demo_heap_def idle_heap_def conn_tconn_def conn_cli_def split: if_splits)
  moreover have "demo_lists (conns demo_statics) = Some [1000]" "demo_lists (cli_intf_list demo_statics) = Some [1576]"
    by (simp_all add: demo_lists_def demo_statics_def)
  ultimately show ?thesis
    using cli_server_opens[of "{1056}" "{20}" "demo_server (demo_queue [])" demo_lists demo_statics "[1000]" "[1576]"
        "\<lparr>tev_enum = io_net_event_enum_alloc_connection, tev_u = Tev_n NULL, tev_from = None\<rparr>" 2000 "\<lambda>_. 2000" "\<lambda>_. Some (replicate 512 0)"
        "slow_os 2" demo_codes "\<lambda>_ _ _ _. None" 31]
    by (auto simp: demo_statics_def NULL_def conn_tconn_def conn_cli_def driver_inv_def)
qed

end
