(* ===== verification/Ssl_Server.thy ===== *)
theory Ssl_Server
  imports Conn_Queue Event_Loop
begin

text \<open>
  The sample TLS server of \<open>src/test/ssl_server.c\<close>: it answers whatever a client sends with one fixed page, and queues what the
  socket does not take, with the code of \<open>cli_server.c\<close> copied to TLS connections. The copy does not know
  that \<open>io_net_tx\<close> reports a blocked TLS connection with a negative code and not with 0.

  A connection object is named by its address \<open>c\<close>. \<open>ssl_size\<close> is the size of \<open>io_ssl_t\<close>, which depends on mbedtls; \<open>malloc\<close> is
  a parameter as in \<open>Cli_Server\<close>.
\<close>

section \<open>State\<close>

record ssl_server_mem = net_mem +
  ssl_txcbs :: "addr \<Rightarrow> circ_buffer"

record ssl_statics =
  ssl_conns :: addr
  ssl_driver :: addr
  nserver :: addr
  sserver :: addr
  ssl_buffer :: addr
  response_lit :: addr
  ssl_size :: nat

definition conn_n :: "addr \<Rightarrow> addr" where "conn_n c = c + 48"
definition conn_s :: "addr \<Rightarrow> addr" where "conn_s c = c + 96"
definition ssl_rx_buf :: "ssl_statics \<Rightarrow> addr \<Rightarrow> addr" where "ssl_rx_buf g c = c + 96 + ssl_size g"

definition container_of_n :: "addr \<Rightarrow> addr" where "container_of_n n = n - 48"

lemma ssl_members [simp]: "container_of_n (conn_n c) = c" "conn_n c \<noteq> c" "c \<noteq> conn_n c"
  by (simp_all add: container_of_n_def conn_n_def)

definition CRLF :: bytes where "CRLF = [13, 10]"

definition HTTP_RESPONSE :: bytes where
  "HTTP_RESPONSE = text_of ''HTTP/1.0 200 OK'' @ CRLF @ text_of ''Content-Type: text/html'' @ CRLF @ CRLF @
     text_of ''<h2>mbed TLS Test Server</h2>'' @ CRLF @ text_of ''<p>Successful connection using: %s</p>'' @ CRLF"

definition put_ssl_txcb :: "addr \<Rightarrow> circ_buffer \<Rightarrow> 'a ssl_server_mem_scheme \<Rightarrow> 'a ssl_server_mem_scheme" where
  "put_ssl_txcb c q w = w\<lparr>ssl_txcbs := (ssl_txcbs w)(c := q)\<rparr>"

definition new_ssl_conn :: "ssl_statics \<Rightarrow> addr \<Rightarrow> 'a ssl_server_mem_scheme \<Rightarrow> 'a ssl_server_mem_scheme" where
  "new_ssl_conn g c w = w\<lparr>lheap := (lheap w)(c \<mapsto> \<lparr>le_next = NULL, le_prev = NULL\<rparr>, conn_n c \<mapsto> \<lparr>le_next = NULL, le_prev = NULL\<rparr>),
     bufs := (bufs w)(ssl_rx_buf g c := replicate 128 0)\<rparr>"

definition free_ssl_conn :: "addr \<Rightarrow> 'a ssl_server_mem_scheme \<Rightarrow> 'a ssl_server_mem_scheme" where
  "free_ssl_conn c w = w\<lparr>lheap := (lheap w)(c := None, conn_n c := None)\<rparr>"

section \<open>Operations\<close>

definition alloc_ssl_connection ::
  "('a ssl_server_mem_scheme \<Rightarrow> addr) \<Rightarrow> ('a ssl_server_mem_scheme \<Rightarrow> bytes option) \<Rightarrow> ssl_statics \<Rightarrow>
   'a ssl_server_mem_scheme \<Rightarrow> (addr \<times> 'a ssl_server_mem_scheme) option" where
  "alloc_ssl_connection alloc block g w = do {
     let c = alloc w;
     w \<leftarrow> (if c = NULL then None else Some (new_ssl_conn g c w));
     w \<leftarrow> on_heap (INIT_LIST_HEAD c) w;
     w \<leftarrow> on_heap (list_add_tail c (ssl_conns g)) w;
     Some (c, put_ssl_txcb c (snd (circ_buffer_init (block w) 512)) w)
   }"

definition dealloc_ssl_connection :: "os \<Rightarrow> addr \<Rightarrow> 'a ssl_server_mem_scheme \<Rightarrow> 'a ssl_server_mem_scheme option" where
  "dealloc_ssl_connection os c w = do {
     w \<leftarrow> io_net_close os (conn_n c) w;
     let w = put_ssl_txcb c (circ_buffer_deinit (ssl_txcbs w c)) w;
     w \<leftarrow> on_heap (list_del c) w;
     Some (free_ssl_conn c w)
   }"

partial_function (option) ssl_tx_resume ::
  "os \<Rightarrow> tls_codes \<Rightarrow> ssl_statics \<Rightarrow> addr \<Rightarrow> 'a ssl_server_mem_scheme \<Rightarrow> 'a ssl_server_mem_scheme option" where
  "ssl_tx_resume os tc g c w =
     (if circ_buffer_is_empty (ssl_txcbs w c) then Some w
      else do {
        let data_size = circ_buffer_get_data_size (ssl_txcbs w c);
        let len = (if data_size < 128 then data_size else 128);
        (_, b) \<leftarrow> circ_buffer_peek (ssl_txcbs w c) (bufs w (ssl_buffer g)) len;
        let w = w\<lparr>bufs := (bufs w)(ssl_buffer g := b)\<rparr>;
        (ret, w) \<leftarrow> io_net_tx os tc (conn_n c) (ssl_buffer g) len w;
        if ret = 0 then Some w
        else if ret = -1 then Some w
        else do {
          (_, q) \<leftarrow> circ_buffer_advance (ssl_txcbs w c) ret;
          ssl_tx_resume os tc g c (put_ssl_txcb c q w)
        }
      })"

partial_function (option) ssl_tx_loop ::
  "os \<Rightarrow> tls_codes \<Rightarrow> addr \<Rightarrow> addr \<Rightarrow> int \<Rightarrow> int \<Rightarrow> 'a ssl_server_mem_scheme \<Rightarrow> 'a ssl_server_mem_scheme option" where
  "ssl_tx_loop os tc c buf len n w =
     (if n < len then do {
        (ret, w) \<leftarrow> io_net_tx os tc (conn_n c) buf len w;
        if ret = 0 then
          if n < 0 then None
          else do {
            (_, q) \<leftarrow> circ_buffer_put (ssl_txcbs w c) (drop (nat n) (bufs w buf)) (len - n);
            Some (put_ssl_txcb c q w)
          }
        else if ret = -1 then Some w
        else do {
          n \<leftarrow> c_add n ret;
          ssl_tx_loop os tc c buf len n w
        }
      } else Some w)"

definition ssl_tx :: "os \<Rightarrow> tls_codes \<Rightarrow> addr \<Rightarrow> addr \<Rightarrow> int \<Rightarrow> 'a ssl_server_mem_scheme \<Rightarrow> 'a ssl_server_mem_scheme option" where
  "ssl_tx os tc c buf len w = do {
     (ok, w) \<leftarrow> (if \<not> circ_buffer_is_empty (ssl_txcbs w c) then do {
         (r, q) \<leftarrow> circ_buffer_put (ssl_txcbs w c) (bufs w buf) len;
         Some (r = 0, put_ssl_txcb c q w)
       } else Some (True, w));
     if ok then ssl_tx_loop os tc c buf len 0 w else Some w
   }"

text \<open>The literal is in memory whenever the callback runs; \<open>strlen\<close> of it is its length.\<close>

definition ssl_server_callback ::
  "os \<Rightarrow> tls_codes \<Rightarrow> ('a ssl_server_mem_scheme \<Rightarrow> addr) \<Rightarrow> ('a ssl_server_mem_scheme \<Rightarrow> bytes option) \<Rightarrow> ssl_statics \<Rightarrow>
   'a ssl_server_mem_scheme net_client" where
  "ssl_server_callback os tc alloc block g cb n e w = (case ev_enum e of
       io_net_event_enum_alloc_connection \<Rightarrow> do {
         (c, w) \<leftarrow> alloc_ssl_connection alloc block g w;
         if c = NULL then Some (io_net_return_stop, e, w)
         else Some (io_net_return_continue, e\<lparr>ev_u := Ev_c (conn_n c) (conn_s c)\<rparr>, w)
       }
     | io_net_event_enum_connected \<Rightarrow>
         Some (io_net_return_continue, e, io_net_set_rx_buf n (ssl_rx_buf g (container_of_n n)) 128 w)
     | io_net_event_enum_rx \<Rightarrow> do {
         let w = w\<lparr>bufs := (bufs w)(response_lit g := HTTP_RESPONSE @ [0])\<rparr>;
         w \<leftarrow> ssl_tx os tc (container_of_n n) (response_lit g) (int (length HTTP_RESPONSE)) w;
         Some (io_net_return_continue, e, w)
       }
     | io_net_event_enum_closed \<Rightarrow> do {
         w \<leftarrow> dealloc_ssl_connection os (container_of_n n) w;
         Some (io_net_return_stop, e, w)
       }
     | io_net_event_enum_tx \<Rightarrow> do {
         w \<leftarrow> ssl_tx_resume os tc g (container_of_n n) w;
         Some (io_net_return_continue, e, w)
       }
     | io_net_event_enum_handshaken \<Rightarrow> Some (io_net_return_continue, e, w))"

definition ssl_server_start :: "os \<Rightarrow> ssl_statics \<Rightarrow> 'a ssl_server_mem_scheme \<Rightarrow> 'a ssl_server_mem_scheme option" where
  "ssl_server_start os g w = do {
     w \<leftarrow> on_heap (INIT_LIST_HEAD (ssl_conns g)) w;
     w \<leftarrow> io_driver_init (ssl_driver g) w;
     (_, w) \<leftarrow> io_net_bind os (ssl_driver g) (nserver g) (sserver g) 11070 (User_net_callback 0) w;
     Some w
   }"

definition ssl_server_main where
  "ssl_server_main os tc alloc block g rest rl ss w = do {
     w \<leftarrow> ssl_server_start os g w;
     event_loop (net_dispatch os tc (ssl_server_callback os tc alloc block g) rest) rl (ssl_driver g) ss w
   }"

section \<open>A blocked TLS connection\<close>

text \<open>An established TLS connection of the driver, and the code that mbedtls gives for a blocked one.\<close>

definition ssl_conn_ok :: "addr set \<Rightarrow> addr \<Rightarrow> addr set \<Rightarrow> addr \<Rightarrow> 'a ssl_server_mem_scheme \<Rightarrow> family \<Rightarrow> bool" where
  "ssl_conn_ok W d R c w L \<longleftrightarrow> driver_inv W (insert d R) w L \<and> d \<notin> R \<and> conn_n c \<in> W \<and> net_driver (nets w (conn_n c)) = d
     \<and> net_ssl (nets w (conn_n c)) \<noteq> NULL \<and> \<not> handshaking (ssls w (net_ssl (nets w (conn_n c))))
     \<and> circ_ok (ssl_txcbs w c) \<and> cb_size (ssl_txcbs w c) = 512"

definition MBEDTLS_ERR_SSL_WANT_WRITE :: int where
  "MBEDTLS_ERR_SSL_WANT_WRITE = -26752"

lemma only_io_ssl:
  fixes w :: "'a ssl_server_mem_scheme"
  assumes "only_io w w'"
  shows "nets w' = nets w" "bufs w' = bufs w" "ssl_txcbs w' = ssl_txcbs w" "ssls w' = ssls w"
  by (subst assms[unfolded only_io_def], simp)+

lemma ssl_conn_tx:
  fixes w :: "'a ssl_server_mem_scheme"
  assumes ok: "ssl_conn_ok W d R c w L" and len: "0 \<le> len" "len \<le> int (length (bufs w b))" "WANT_WRITE tc = MBEDTLS_ERR_SSL_WANT_WRITE"
    and a: "os_ret (os (Tls (Tls_write (take (nat len) (bufs w b))) (net_ssl (nets w (conn_n c)))) (trace w)) = MBEDTLS_ERR_SSL_WANT_WRITE"
  shows "\<exists>w' L'. io_net_tx os tc (conn_n c) b len w = Some (MBEDTLS_ERR_SSL_WANT_WRITE, w') \<and> ssl_conn_ok W d R c w' L' \<and> only_io w w'"
proof -
  let ?bs = "take (nat len) (bufs w b)"
  note o = ok[unfolded ssl_conn_ok_def]
  have bs: "bytes_at b len w = Some ?bs" using len by (simp add: bytes_at_def)
  have t: "tx_call (conn_n c) ?bs w = Tls (Tls_write ?bs) (net_ssl (nets w (conn_n c)))"
    "tx_blocked tc (conn_n c) (os (Tls (Tls_write ?bs) (net_ssl (nets w (conn_n c)))) (trace w)) w"
    using o a len(3) by (simp_all add: tx_call_def tx_blocked_def MBEDTLS_ERR_SSL_WANT_WRITE_def)
  obtain w' L' where x: "io_net_tx os tc (conn_n c) b len w = Some (MBEDTLS_ERR_SSL_WANT_WRITE, w')" "io_effect W d R {conn_n c} w L w' L'"
    using io_net_tx_ok[of W d R w L "conn_n c" b len ?bs os tc] o bs t a len(3) by (auto simp: MBEDTLS_ERR_SSL_WANT_WRITE_def)
  have oi: "only_io w w'" by (rule tx_only_io[OF x(1)])
  have "ssl_conn_ok W d R c w' L'" using o io_effect_inv[OF x(2)] only_io_ssl[OF oi] by (simp add: ssl_conn_ok_def)
  then show ?thesis using x(1) oi by blast
qed

text \<open>As long as the connection is blocked the loop of \<open>ssl_tx\<close> counts down, until the count leaves the range of \<open>int\<close>.\<close>

lemma ssl_tx_spin:
  fixes w :: "'a ssl_server_mem_scheme"
  assumes "ssl_conn_ok W d R c w L" "0 < len" "len \<le> int (length (bufs w b))" "WANT_WRITE tc = MBEDTLS_ERR_SSL_WANT_WRITE"
    and "n < len" "len \<le> INT_MAX" "INT_MIN \<le> n" "\<And>bs s tr. os_ret (os (Tls (Tls_write bs) s) tr) = MBEDTLS_ERR_SSL_WANT_WRITE"
  shows "ssl_tx_loop os tc c b len n w = None"
  using assms
proof (induction "nat (n - INT_MIN)" arbitrary: n w L rule: less_induct)
  case less
  obtain w1 L1 where t: "io_net_tx os tc (conn_n c) b len w = Some (MBEDTLS_ERR_SSL_WANT_WRITE, w1)" "ssl_conn_ok W d R c w1 L1" "only_io w w1"
    using ssl_conn_tx[of W d R c w L len b tc os] less.prems by auto
  have turn: "ssl_tx_loop os tc c b len n w = c_add n MBEDTLS_ERR_SSL_WANT_WRITE \<bind> (\<lambda>n. ssl_tx_loop os tc c b len n w1)"
    using less.prems(5) t(1) by (subst ssl_tx_loop.simps) (simp add: MBEDTLS_ERR_SSL_WANT_WRITE_def)
  let ?n = "n + MBEDTLS_ERR_SSL_WANT_WRITE"
  show ?case
  proof (cases "INT_MIN \<le> ?n")
    case False
    then show ?thesis using turn by (simp add: c_add_def int_range_def)
  next
    case True
    have sm: "nat (?n - INT_MIN) < nat (n - INT_MIN)" "?n < len"
      using True less.prems(5) by (simp_all add: MBEDTLS_ERR_SSL_WANT_WRITE_def)
    have "len \<le> int (length (bufs w1 b))" using less.prems(3) only_io_ssl(2)[OF t(3)] by simp
    then have "ssl_tx_loop os tc c b len ?n w1 = None"
      using less.hyps[OF sm(1) t(2) less.prems(2) _ less.prems(4) sm(2) less.prems(6) True less.prems(8)] by blast
    then show ?thesis using turn True less.prems(5,6) by (simp add: c_add_def int_range_def split: bind_splits)
  qed
qed

lemma advance_by_code:
  assumes "circ_ok q" "cb_size q = 512"
  shows "\<exists>q'. circ_buffer_advance q MBEDTLS_ERR_SSL_WANT_WRITE = Some (0, q') \<and> cb_data_size q' = cb_data_size q + 26752
    \<and> cb_begin q' = - ((128 - cb_begin q) mod 512) \<and> cb_buffer q' = cb_buffer q \<and> cb_size q' = 512"
proof -
  let ?b = "cb_begin q"
  have r: "0 \<le> ?b" "?b < 512" "0 \<le> cb_data_size q" "cb_data_size q \<le> 512" using assms by (auto simp: circ_ok_def)
  have m: "(?b - 26752) smod 512 = - ((128 - ?b) mod 512)"
  proof -
    have "(?b - 26752) smod 512 = - ((26752 - ?b) mod 512)" using r by (simp add: signed_modulo_int_def)
    also have "(26752 - ?b) mod 512 = ((128 - ?b) + 52 * 512) mod 512" by simp
    also have "\<dots> = (128 - ?b) mod 512" by (rule mod_mult_self1)
    finally show ?thesis .
  qed
  have "c_mod (?b - 26752) 512 = Some (- ((128 - ?b) mod 512))"
    using r m by (simp add: c_mod_def int_range_def INT_MIN_def INT_MAX_def signed_divide_int_def) linarith
  then show ?thesis using r assms(2)
    by (simp add: circ_buffer_advance_def MBEDTLS_ERR_SSL_WANT_WRITE_def c_add_def c_sub_def int_range_def INT_MIN_def INT_MAX_def)
qed

lemma peek_outside:
  assumes "cb_begin q < 0" "-512 \<le> cb_begin q" "128 \<le> cb_data_size q" "cb_data_size q \<le> 30000" "cb_size q = 512"
  shows "circ_buffer_peek q buf 128 = None"
  using assms by (simp add: circ_buffer_peek_def circ_buffer_copy_out_def c_add_def c_sub_def int_range_def INT_MIN_def INT_MAX_def
      memcpy_def split: bind_splits)


text \<open>C36: On a TLS connection whose write does not go through (\<open>mbedtls_ssl_write\<close> answers \<open>MBEDTLS_ERR_SSL_WANT_WRITE\<close>), \<open>ssl_tx\<close>
  does not queue the response: the code is neither 0 nor -1, so it is added to the count of bytes written, which falls, and the
  loop goes on; it never gets back to the event loop that could wait for the socket, and after some 80000 turns \<open>nwritten\<close>
  overflows.\<close>

theorem ssl_tx_spins:
  fixes w :: "'a ssl_server_mem_scheme"
  assumes "ssl_conn_ok W d R c w L" "contents (ssl_txcbs w c) = []" "0 < len" "len \<le> int (length (bufs w b))" "len \<le> INT_MAX"
    and "WANT_WRITE tc = MBEDTLS_ERR_SSL_WANT_WRITE" "\<And>bs s tr. os_ret (os (Tls (Tls_write bs) s) tr) = MBEDTLS_ERR_SSL_WANT_WRITE"
  shows "ssl_tx os tc c b len w = None"
proof -
  have "circ_buffer_is_empty (ssl_txcbs w c)" using no_data assms(1,2) by (auto simp: ssl_conn_ok_def)
  moreover have "ssl_tx_loop os tc c b len 0 w = None"
    using ssl_tx_spin[of W d R c w L len b tc 0 os] assms by (simp add: INT_MIN_def)
  ultimately show ?thesis by (simp add: ssl_tx_def)
qed

text \<open>C37: \<open>ssl_tx_resume\<close> takes the same code for a count: \<open>circ_buffer_advance\<close> by a negative size makes the queue longer and, unless
  the data begin at 128, its beginning negative, and the next turn reads memory in front of the queue. One blocked write is enough.\<close>

theorem ssl_tx_resume_corrupts:
  fixes w :: "'a ssl_server_mem_scheme"
  assumes ok: "ssl_conn_ok W d R c w L" and ne: "contents (ssl_txcbs w c) \<noteq> []" and bg: "cb_begin (ssl_txcbs w c) \<noteq> 128"
    and bl: "length (bufs w (ssl_buffer g)) = 128" and tc: "WANT_WRITE tc = MBEDTLS_ERR_SSL_WANT_WRITE"
    and a: "os_ret (os (Tls (Tls_write (take 128 (contents (ssl_txcbs w c)))) (net_ssl (nets w (conn_n c)))) (trace w)) = MBEDTLS_ERR_SSL_WANT_WRITE"
  shows "ssl_tx_resume os tc g c w = None"
proof -
  let ?q = "ssl_txcbs w c" and ?bs = "take 128 (contents (ssl_txcbs w c))"
  let ?n = "if cb_data_size ?q < 128 then cb_data_size ?q else 128"
  let ?b = "?bs @ drop (length ?bs) (bufs w (ssl_buffer g))"
  let ?w = "w\<lparr>bufs := (bufs w)(ssl_buffer g := ?b)\<rparr>"
  note o = ok[unfolded ssl_conn_ok_def]
  have q: "circ_ok ?q" "cb_size ?q = 512" using o by auto
  have n: "?n = int (length ?bs)" "0 \<le> ?n" "?n \<le> 128" using data_size[OF q(1)] by auto
  have pk: "circ_buffer_peek ?q (bufs w (ssl_buffer g)) ?n = Some (0, ?b)"
    using circ_buffer_peek_ok[of ?q "length ?bs" "bufs w (ssl_buffer g)"] q(1) n(1) bl by (simp add: data_size min_def)
  have lb: "length ?b = 128" using bl by simp
  have tk: "take (nat ?n) ?b = ?bs" unfolding n(1) by (simp add: min_def)
  have "ssl_conn_ok W d R c ?w L" using o by (simp add: ssl_conn_ok_def)
  then obtain w1 L1 where t: "io_net_tx os tc (conn_n c) (ssl_buffer g) ?n ?w = Some (MBEDTLS_ERR_SSL_WANT_WRITE, w1)"
      "ssl_conn_ok W d R c w1 L1" "only_io ?w w1"
    using ssl_conn_tx[of W d R c ?w L ?n "ssl_buffer g" tc os] n(2,3) lb tk tc a by auto
  obtain q' where v: "circ_buffer_advance ?q MBEDTLS_ERR_SSL_WANT_WRITE = Some (0, q')" "cb_data_size q' = cb_data_size ?q + 26752"
      "cb_begin q' = - ((128 - cb_begin ?q) mod 512)" "cb_size q' = 512"
    using advance_by_code[OF q] by blast
  have r: "0 \<le> cb_begin ?q" "cb_begin ?q < 512" "0 \<le> cb_data_size ?q" "cb_data_size ?q \<le> 512" using q by (auto simp: circ_ok_def)
  have "(128 - cb_begin ?q) mod 512 \<noteq> 0" using r bg by presburger
  then have b': "cb_begin q' < 0" "-512 \<le> cb_begin q'"
    using v(3) pos_mod_bound[of 512 "128 - cb_begin ?q"] pos_mod_sign[of 512 "128 - cb_begin ?q"] by linarith+
  have turn: "ssl_tx_resume os tc g c w = ssl_tx_resume os tc g c (put_ssl_txcb c q' w1)"
    using ne no_data[OF q(1)] pk t(1) v(1) only_io_ssl(3)[OF t(3)]
    by (subst ssl_tx_resume.simps) (simp add: circ_buffer_get_data_size_def MBEDTLS_ERR_SSL_WANT_WRITE_def)
  have "circ_buffer_peek q' b2 128 = None" for b2
    using peek_outside[OF b'] v(2,4) r by simp
  then have "ssl_tx_resume os tc g c (put_ssl_txcb c q' w1) = None"
    using v(2) r by (subst ssl_tx_resume.simps)
      (simp add: put_ssl_txcb_def circ_buffer_is_empty_def circ_buffer_get_data_size_def)
  then show ?thesis using turn by simp
qed


text \<open>Over TLS, a client that sends something gets the page once, when its socket takes it at once and nothing is queued.\<close>

theorem ssl_server_answers:
  fixes w :: "'a ssl_server_mem_scheme"
  assumes ok: "ssl_conn_ok W d R c w L" and q: "contents (ssl_txcbs w c) = []" and e: "ev_enum e = io_net_event_enum_rx"
  defines "s \<equiv> net_ssl (nets w (conn_n c))"
  assumes a: "os_ret (os (Tls (Tls_write HTTP_RESPONSE) s) (trace w)) = int (length HTTP_RESPONSE)"
  shows "\<exists>w' L'. ssl_server_callback os tc alloc block g cb (conn_n c) e w = Some (io_net_return_continue, e, w')
    \<and> trace w' = trace w @ [(Tls (Tls_write HTTP_RESPONSE) s, os (Tls (Tls_write HTTP_RESPONSE) s) (trace w))]
    \<and> ssl_conn_ok W d R c w' L' \<and> contents (ssl_txcbs w' c) = []"
proof -
  let ?w = "w\<lparr>bufs := (bufs w)(response_lit g := HTTP_RESPONSE @ [0])\<rparr>" and ?n = "int (length HTTP_RESPONSE)"
  note o = ok[unfolded ssl_conn_ok_def]
  have pos: "0 < ?n" "?n \<le> INT_MAX" by (simp_all add: HTTP_RESPONSE_def text_of_def CRLF_def INT_MAX_def)
  have bs: "bytes_at (response_lit g) ?n ?w = Some HTTP_RESPONSE" by (simp add: bytes_at_def)
  have t: "tx_call (conn_n c) HTTP_RESPONSE ?w = Tls (Tls_write HTTP_RESPONSE) s" using o by (simp add: tx_call_def s_def)
  obtain w1 L1 where x: "io_net_tx os tc (conn_n c) (response_lit g) ?n ?w = Some (?n, w1)" "io_effect W d R {conn_n c} ?w L w1 L1"
      "trace w1 = trace w @ [(Tls (Tls_write HTTP_RESPONSE) s, os (Tls (Tls_write HTTP_RESPONSE) s) (trace w))]"
    using io_net_tx_ok[of W d R ?w L "conn_n c" "response_lit g" ?n HTTP_RESPONSE os tc] o bs t a pos(1) by auto
  have oi: "only_io ?w w1" by (rule tx_only_io[OF x(1)])
  have inv: "ssl_conn_ok W d R c w1 L1" using o io_effect_inv[OF x(2)] only_io_ssl[OF oi] by (simp add: ssl_conn_ok_def)
  have "ssl_tx_loop os tc c (response_lit g) ?n 0 ?w = Some w1"
    using x(1) pos by (subst ssl_tx_loop.simps) (simp add: c_add_def int_range_def INT_MIN_def, subst ssl_tx_loop.simps, simp)
  moreover have "circ_buffer_is_empty (ssl_txcbs ?w c)" using q no_data o by auto
  ultimately have "ssl_tx os tc c (response_lit g) ?n ?w = Some w1" by (simp add: ssl_tx_def)
  then have "ssl_server_callback os tc alloc block g cb (conn_n c) e w = Some (io_net_return_continue, e, w1)"
    by (simp add: ssl_server_callback_def e Let_def)
  then show ?thesis using inv x(3) q only_io_ssl(3)[OF oi] by auto
qed

section \<open>A concrete instance\<close>

text \<open>A TLS connection object at 1000, whose network object is at 1048; the driver is at 20.\<close>

definition demo_ssl :: "circ_buffer \<Rightarrow> ssl_server_mem" where
  "demo_ssl q = net_mem.extend (demo_net\<lparr>lheap := idle_heap {20, 1048}, nets := (\<lambda>_. (nets demo_net 31)\<lparr>net_ssl := 70\<rparr>),
     bufs := (\<lambda>_. replicate 128 0)\<rparr>) (ssl_server_mem.fields (\<lambda>_. q))"

definition demo_ssl_statics :: ssl_statics where
  "demo_ssl_statics = \<lparr>ssl_conns = 2, ssl_driver = 20, nserver = 31, sserver = 80, ssl_buffer = 52, response_lit = 53, ssl_size = 900\<rparr>"

definition demo_ssl_codes :: tls_codes where
  "demo_ssl_codes = \<lparr>WANT_READ = -26880, WANT_WRITE = -26752\<rparr>"

text \<open>A system where each TLS write takes everything, and one where it blocks.\<close>

definition tls_os :: os where
  "tls_os c tr = (case c of Tls (Tls_write bs) s \<Rightarrow> answer (int (length bs)) | _ \<Rightarrow> answer 0)"

definition tls_blocked_os :: os where
  "tls_blocked_os c tr = answer (-26752)"

lemma demo_ssl_fields:
  "lheap (demo_ssl q) = idle_heap {20, 1048}" "ssl_txcbs (demo_ssl q) = (\<lambda>_. q)" "trace (demo_ssl q) = []"
  "nets (demo_ssl q) a = (nets demo_net 31)\<lparr>net_ssl := 70\<rparr>" "bufs (demo_ssl q) = (\<lambda>_. replicate 128 0)"
  "watchers (demo_ssl q) a = \<lparr>wfd = 0, event_listening = 0, callback = Other_callback 0\<rparr>" "handshaking (ssls (demo_ssl q) a) = False"
  by (simp_all add: demo_ssl_def net_mem.defs ssl_server_mem.defs demo_net_def)

lemma demo_ssl_conn_ok:
  assumes "length bs < 512"
  shows "ssl_conn_ok {1048} 20 {} 1000 (demo_ssl (demo_queue bs)) (idle_lists {20, 1048})"
proof -
  have "heap_lists (idle_heap {20, 1048}) (idle_lists {20, 1048})" by (rule idle_heap_lists) (simp add: NULL_def)
  then have "driver_inv {1048} {20} (demo_ssl (demo_queue bs)) (idle_lists {20, 1048})"
    by (auto simp: driver_inv_def driver_ok_def demo_ssl_fields idle_lists_def FD_SETSIZE_def)
  moreover have "cb_size (demo_queue bs) = 512" by (simp add: demo_queue_def)
  ultimately show ?thesis using demo_queue_ok[OF assms]
    by (simp add: ssl_conn_ok_def demo_ssl_fields conn_n_def demo_net_def NULL_def)
qed

theorem ssl_server_answers_witness:
  "\<exists>w'. ssl_server_callback tls_os demo_ssl_codes (\<lambda>_. 2000) (\<lambda>_. None) demo_ssl_statics (User_net_callback 0) (conn_n 1000)
      (plain_event io_net_event_enum_rx) (demo_ssl (demo_queue [])) = Some (io_net_return_continue, plain_event io_net_event_enum_rx, w')
    \<and> length (trace w') = 1"
  using ssl_server_answers[OF demo_ssl_conn_ok[of "[]"], of "plain_event io_net_event_enum_rx" tls_os demo_ssl_codes "\<lambda>_. 2000" "\<lambda>_. None"
      demo_ssl_statics "User_net_callback 0"] demo_queue_ok[of "[]"]
  by (auto simp: demo_ssl_fields tls_os_def answer_def plain_event_def)

theorem ssl_tx_spins_witness:
  "ssl_tx tls_blocked_os demo_ssl_codes 1000 53 100 (demo_ssl (demo_queue [])) = None"
  using ssl_tx_spins[OF demo_ssl_conn_ok[of "[]"], of 100 53 demo_ssl_codes tls_blocked_os] demo_queue_ok[of "[]"]
  by (simp add: demo_ssl_fields demo_ssl_codes_def tls_blocked_os_def answer_def MBEDTLS_ERR_SSL_WANT_WRITE_def INT_MAX_def)

theorem ssl_tx_resume_corrupts_witness:
  "ssl_tx_resume tls_blocked_os demo_ssl_codes demo_ssl_statics 1000 (demo_ssl (demo_queue [7, 8, 9])) = None"
  using ssl_tx_resume_corrupts[OF demo_ssl_conn_ok[of "[7, 8, 9]"], of demo_ssl_statics demo_ssl_codes tls_blocked_os] demo_queue_ok[of "[7, 8, 9]"]
  by (simp add: demo_ssl_fields demo_ssl_codes_def tls_blocked_os_def answer_def MBEDTLS_ERR_SSL_WANT_WRITE_def demo_queue_def)

end
