(* ===== verification/Io_Pipe.thy ===== *)
theory Io_Pipe
  imports Os_Calls
begin

text \<open>
  The child processes of \<open>src/src/io_pipe.h\<close> and \<open>src/src/io_pipe.c\<close>: a program is run with its
  standard input and output connected to two pipes, which the event loop watches.

  A child is named by the address \<open>p\<close> of its \<open>io_pipe_t\<close>. Its two watchers lie in that object;
  a watcher is named by the address of its list cell, which is at a fixed offset from \<open>p\<close>, so that
  \<open>container_of\<close> is a subtraction. \<open>fork\<close> is a call of the system with two kinds of answer; the
  code that runs in the new process ends in \<open>execv\<close> or \<open>exit\<close> and does not return, which is
  the result \<open>None\<close> of \<open>io_pipe_init\<close>. An answer of \<open>execv\<close> other than -1 stands for the call that
  replaced the program. \<open>pipe_log\<close> is a ghost record of the events delivered, which no operation reads.
\<close>

section \<open>State\<close>

unbundle bit_operations_syntax

datatype io_pipe_event_enum =
    io_pipe_event_rx
  | io_pipe_event_tx
  | io_pipe_event_closed

text \<open>The event is a local variable of the callbacks: members that they do not set are \<open>None\<close>.\<close>

record io_pipe_event =
  pev :: io_pipe_event_enum
  pev_p :: "addr option"
  pev_buf :: "addr option"
  pev_len :: "u32 option"

datatype io_pipe_return = io_pipe_return_continue | io_pipe_return_stop

text \<open>The members of the object other than its two watchers; callbacks of users are numbered.\<close>

record io_pipe =
  pipe_r :: int
  pipe_w :: int
  pipe_cb :: nat
  pipe_driver :: addr
  pipe_rx_buf :: addr
  pipe_rx_size :: int
  pipe_child :: int

record pipe_mem = os_mem +
  pipes :: "addr \<Rightarrow> io_pipe"
  pipe_log :: "(addr \<times> io_pipe_event) list"

text \<open>The list cells of \<open>rw\<close> and \<open>tw\<close> in the object, with 4-byte \<open>int\<close> and 8-byte pointers.\<close>

definition pipe_rw :: "addr \<Rightarrow> addr" where "pipe_rw p = p + 32"
definition pipe_tw :: "addr \<Rightarrow> addr" where "pipe_tw p = p + 64"

definition container_of_rw :: "addr \<Rightarrow> addr" where "container_of_rw x = x - 32"
definition container_of_tw :: "addr \<Rightarrow> addr" where "container_of_tw x = x - 64"

lemma container_of [simp]: "container_of_rw (pipe_rw p) = p" "container_of_tw (pipe_tw p) = p" "pipe_rw p \<noteq> pipe_tw p"
  "pipe_tw p \<noteq> pipe_rw p"
  by (simp_all add: container_of_rw_def container_of_tw_def pipe_rw_def pipe_tw_def)

type_synonym 'w pipe_client = "nat \<Rightarrow> addr \<Rightarrow> io_pipe_event \<Rightarrow> 'w \<Rightarrow> (io_pipe_return \<times> 'w) option"

definition put_pipe :: "addr \<Rightarrow> io_pipe \<Rightarrow> 'a pipe_mem_scheme \<Rightarrow> 'a pipe_mem_scheme" where
  "put_pipe p v w = w\<lparr>pipes := (pipes w)(p := v)\<rparr>"

definition call_pipe_cb ::
  "'a pipe_mem_scheme pipe_client \<Rightarrow> addr \<Rightarrow> io_pipe_event \<Rightarrow> 'a pipe_mem_scheme \<Rightarrow> (io_pipe_return \<times> 'a pipe_mem_scheme) option" where
  "call_pipe_cb cb p ev w = cb (pipe_cb (pipes w p)) p ev (w\<lparr>pipe_log := pipe_log w @ [(p, ev)]\<rparr>)"

definition pipe_event :: "io_pipe_event_enum \<Rightarrow> io_pipe_event" where
  "pipe_event e = \<lparr>pev = e, pev_p = None, pev_buf = None, pev_len = None\<rparr>"

section \<open>Callbacks of the event loop\<close>

definition io_pipe_rx_callback ::
  "os \<Rightarrow> 'a pipe_mem_scheme pipe_client \<Rightarrow> addr \<Rightarrow> u8 \<Rightarrow> 'a pipe_mem_scheme \<Rightarrow> 'a pipe_mem_scheme option" where
  "io_pipe_rx_callback os cb x e w = (
     let p = container_of_rw x in
     if e AND IO_DRIVER_EVENT_RX = 0 then Some w
     else do {
       let buf = pipe_rx_buf (pipes w p);
       (r, w) \<leftarrow> sys_into os (Sys_read (pipe_r (pipes w p)) (pipe_rx_size (pipes w p))) buf w;
       let (ev, w) = (if os_ret r \<le> 0
         then (pipe_event io_pipe_event_closed, sys_all os [Sys_waitpid (pipe_child (pipes w p))] w)
         else ((pipe_event io_pipe_event_rx)\<lparr>pev_buf := Some buf, pev_len := Some (word_of_int (os_ret r))\<rparr>, w));
       (_, w) \<leftarrow> call_pipe_cb cb p ev w;
       Some w
     })"

definition io_pipe_tx_callback ::
  "os \<Rightarrow> 'a pipe_mem_scheme pipe_client \<Rightarrow> addr \<Rightarrow> u8 \<Rightarrow> 'a pipe_mem_scheme \<Rightarrow> 'a pipe_mem_scheme option" where
  "io_pipe_tx_callback os cb x e w = (
     let p = container_of_tw x in
     if e AND IO_DRIVER_EVENT_TX = 0 then Some w
     else do {
       w \<leftarrow> io_driver_no_watch (pipe_driver (pipes w p)) (pipe_tw p) IO_DRIVER_EVENT_TX w;
       (_, w) \<leftarrow> call_pipe_cb cb p (pipe_event io_pipe_event_tx) w;
       Some w
     })"

fun pipe_dispatch ::
  "os \<Rightarrow> 'a pipe_mem_scheme pipe_client \<Rightarrow>
   (io_callback \<Rightarrow> addr \<Rightarrow> u8 \<Rightarrow> 'a pipe_mem_scheme \<Rightarrow> 'a pipe_mem_scheme option) \<Rightarrow>
   io_callback \<Rightarrow> addr \<Rightarrow> u8 \<Rightarrow> 'a pipe_mem_scheme \<Rightarrow> 'a pipe_mem_scheme option" where
  "pipe_dispatch os cb other Io_pipe_rx_callback x e w = io_pipe_rx_callback os cb x e w"
| "pipe_dispatch os cb other Io_pipe_tx_callback x e w = io_pipe_tx_callback os cb x e w"
| "pipe_dispatch os cb other c x e w = other c x e w"

section \<open>Public operations\<close>

definition O_NONBLOCK :: int where "O_NONBLOCK = 2048"

text \<open>The branch of the new process; it ends in the other program or with \<open>exit\<close>.\<close>

definition pipe_child_branch ::
  "os \<Rightarrow> int \<times> int \<Rightarrow> int \<times> int \<Rightarrow> addr \<Rightarrow> addr \<Rightarrow> 'a pipe_mem_scheme \<Rightarrow> 'a pipe_mem_scheme" where
  "pipe_child_branch os r t prog argv w = (
     let w = sys_all os [Sys_close (fst r), Sys_close (snd t)] w;
         w = sys_all os [Sys_dup2 (fst t) 0, Sys_dup2 (snd r) 1, Sys_dup2 (snd r) 2] w;
         (ret, w) = sys os (Sys_execv prog argv) w
     in if ret = -1 then sys_all os [Sys_exit (-1)] w else w)"

text \<open>The branch of the program itself, with the new process as \<open>child\<close>: up to the watchers, and all of it.\<close>

definition pipe_parent_setup ::
  "os \<Rightarrow> addr \<Rightarrow> nat \<Rightarrow> int \<times> int \<Rightarrow> int \<times> int \<Rightarrow> int \<Rightarrow> 'a pipe_mem_scheme \<Rightarrow> 'a pipe_mem_scheme" where
  "pipe_parent_setup os p cb r t child w = (
     let w = put_pipe p ((pipes w p)\<lparr>pipe_child := child\<rparr>) w;
         w = put_pipe p ((pipes w p)\<lparr>pipe_r := fst r\<rparr>) w;
         w = sys_all os [Sys_close (snd r)] w;
         w = put_pipe p ((pipes w p)\<lparr>pipe_w := snd t\<rparr>) w;
         w = sys_all os [Sys_close (fst t)] w;
         (fl, w) = sys os (Sys_fcntl_getfl (pipe_r (pipes w p))) w;
         w = sys_all os [Sys_fcntl_setfl (pipe_r (pipes w p)) (fl OR O_NONBLOCK)] w;
         (fl, w) = sys os (Sys_fcntl_getfl (pipe_w (pipes w p))) w;
         w = sys_all os [Sys_fcntl_setfl (pipe_w (pipes w p)) (fl OR O_NONBLOCK)] w
     in put_pipe p ((pipes w p)\<lparr>pipe_cb := cb\<rparr>) w)"

definition pipe_parent_branch ::
  "os \<Rightarrow> addr \<Rightarrow> addr \<Rightarrow> nat \<Rightarrow> int \<times> int \<Rightarrow> int \<times> int \<Rightarrow> int \<Rightarrow> 'a pipe_mem_scheme \<Rightarrow> 'a pipe_mem_scheme option" where
  "pipe_parent_branch os driver p cb r t child w = do {
     let w = pipe_parent_setup os p cb r t child w;
     w \<leftarrow> io_driver_watcher_init (pipe_rw p) (pipe_r (pipes w p)) Io_pipe_rx_callback w;
     w \<leftarrow> io_driver_watcher_init (pipe_tw p) (pipe_w (pipes w p)) Io_pipe_tx_callback w;
     io_driver_watch driver (pipe_rw p) IO_DRIVER_EVENT_RX w
   }"

text \<open>\<open>None\<close> as the first result: the process that made the call does not return from it.\<close>

definition io_pipe_init ::
  "os \<Rightarrow> addr \<Rightarrow> addr \<Rightarrow> nat \<Rightarrow> addr \<Rightarrow> addr \<Rightarrow> 'a pipe_mem_scheme \<Rightarrow> (int option \<times> 'a pipe_mem_scheme) option" where
  "io_pipe_init os driver p cb prog argv w = (
     let (a, w) = os_do os Sys_pipe w in
     if os_ret a \<noteq> 0 then Some (Some (-1), w)
     else let r = (os_val a, os_val2 a); (b, w) = os_do os Sys_pipe w in
     if os_ret b \<noteq> 0 then Some (Some 1, sys_all os [Sys_close (fst r), Sys_close (snd r)] w)
     else let t = (os_val b, os_val2 b);
              w = sys_all os [Sys_fcntl_setfd (fst r), Sys_fcntl_setfd (snd r), Sys_fcntl_setfd (fst t), Sys_fcntl_setfd (snd t)] w;
              (ret, w) = sys os Sys_fork w in
     if ret = -1 then Some (Some (-1), sys_all os [Sys_close (fst r), Sys_close (snd r), Sys_close (fst t), Sys_close (snd t)] w)
     else if ret = 0 then Some (None, pipe_child_branch os r t prog argv w)
     else do {
       w \<leftarrow> pipe_parent_branch os driver p cb r t ret w;
       Some (Some 0, w)
     })"

definition io_pipe_close :: "os \<Rightarrow> addr \<Rightarrow> 'a pipe_mem_scheme \<Rightarrow> 'a pipe_mem_scheme option" where
  "io_pipe_close os p w = do {
     w \<leftarrow> io_driver_no_watch (pipe_driver (pipes w p)) (pipe_rw p) IO_DRIVER_EVENT_RX w;
     w \<leftarrow> io_driver_no_watch (pipe_driver (pipes w p)) (pipe_tw p) IO_DRIVER_EVENT_TX w;
     Some (sys_all os [Sys_close (pipe_r (pipes w p)), Sys_close (pipe_w (pipes w p))] w)
   }"

definition io_pipe_tx :: "os \<Rightarrow> addr \<Rightarrow> addr \<Rightarrow> int \<Rightarrow> 'a pipe_mem_scheme \<Rightarrow> (int \<times> 'a pipe_mem_scheme) option" where
  "io_pipe_tx os p buf len w = do {
     bs \<leftarrow> bytes_at buf len w;
     let (ret, w) = sys os (Sys_write (pipe_w (pipes w p)) bs) w;
     if ret \<le> 0 then
       if \<not> (errno w = EWOULDBLOCK \<or> errno w = EAGAIN) then Some (-1, w)
       else do {
         w \<leftarrow> io_driver_watch (pipe_driver (pipes w p)) (pipe_tw p) IO_DRIVER_EVENT_TX w;
         Some (0, w)
       }
     else Some (ret, w)
   }"

definition io_pipe_set_rx_buf :: "addr \<Rightarrow> addr \<Rightarrow> int \<Rightarrow> 'a pipe_mem_scheme \<Rightarrow> 'a pipe_mem_scheme" where
  "io_pipe_set_rx_buf p rx_buf rx_size w = put_pipe p ((pipes w p)\<lparr>pipe_rx_buf := rx_buf, pipe_rx_size := rx_size\<rparr>) w"

section \<open>Descriptors that calls close\<close>

text \<open>The effect of calls with given names on the open descriptors.\<close>

fun closes :: "os_call list \<Rightarrow> int set" where
  "closes [] = {}"
| "closes (Sys_close fd # cs) = insert fd (closes cs)"
| "closes (_ # cs) = closes cs"

fun opens_none :: "os_call \<Rightarrow> bool" where
  "opens_none (Sys_close fd) = True"
| "opens_none c = neutral c"

lemma fd_step_closes: "opens_none c \<Longrightarrow> fd_step S (c, r) = S - closes [c]"
  by (cases c) auto

lemma open_fds_closes: "list_all opens_none (map fst tr) \<Longrightarrow> foldl fd_step S tr = S - closes (map fst tr)"
proof (induction tr arbitrary: S)
  case (Cons x tr)
  have "closes (map fst (x # tr)) = closes [fst x] \<union> closes (map fst tr)"
    by (cases "fst x") auto
  then show ?case using Cons by (cases x) (auto simp: fd_step_closes)
qed simp

section \<open>Starting a child\<close>

text \<open>
  The calls of the two processes after \<open>fork\<close>: \<open>r\<close> and \<open>t\<close> are the reading and writing ends of the pipe from the child and of the pipe to it.
  The child keeps the writing end of \<open>r\<close> as its output and the reading end of \<open>t\<close> as its input, the parent the other ends. \<open>x\<close> is the
  answer to \<open>execv\<close>, \<open>f\<close> and \<open>g\<close> are the flags that the parent's ends had.
\<close>

definition child_calls :: "int \<times> int \<Rightarrow> int \<times> int \<Rightarrow> addr \<Rightarrow> addr \<Rightarrow> int \<Rightarrow> os_call list" where
  "child_calls r t prog argv x = [Sys_close (fst r), Sys_close (snd t), Sys_dup2 (fst t) 0, Sys_dup2 (snd r) 1,
     Sys_dup2 (snd r) 2, Sys_execv prog argv] @ (if x = -1 then [Sys_exit (-1)] else [])"

definition parent_calls :: "int \<times> int \<Rightarrow> int \<times> int \<Rightarrow> int \<Rightarrow> int \<Rightarrow> os_call list" where
  "parent_calls r t f g = [Sys_close (snd r), Sys_close (fst t), Sys_fcntl_getfl (fst r), Sys_fcntl_setfl (fst r) (f OR O_NONBLOCK),
     Sys_fcntl_getfl (snd t), Sys_fcntl_setfl (snd t) (g OR O_NONBLOCK)]"

text \<open>The calls up to \<open>fork\<close>: two pipes, each end marked, and the answer to \<open>fork\<close>.\<close>

definition forked :: "os_trace \<Rightarrow> int \<times> int \<Rightarrow> int \<times> int \<Rightarrow> int \<Rightarrow> bool" where
  "forked tr r t child \<longleftrightarrow> (\<exists>a b m f. tr = [(Sys_pipe, a), (Sys_pipe, b)] @ m @ [(Sys_fork, f)]
     \<and> os_ret a = 0 \<and> r = (os_val a, os_val2 a) \<and> os_ret b = 0 \<and> t = (os_val b, os_val2 b)
     \<and> map fst m = [Sys_fcntl_setfd (fst r), Sys_fcntl_setfd (snd r), Sys_fcntl_setfd (fst t), Sys_fcntl_setfd (snd t)]
     \<and> os_ret f = child)"

lemma pipe_parent_setup_state:
  "\<exists>tr e. pipe_parent_setup os p cb r t child w = w\<lparr>trace := trace w @ tr, errno := e,
      pipes := (pipes w)(p := (pipes w p)\<lparr>pipe_child := child, pipe_r := fst r, pipe_w := snd t, pipe_cb := cb\<rparr>)\<rparr>
    \<and> (\<forall>S. foldl fd_step S tr = S - {snd r, fst t}) \<and> map fst tr = parent_calls r t (os_ret (snd (tr ! 2))) (os_ret (snd (tr ! 4)))"
proof -
  let ?v = "(pipes w p)\<lparr>pipe_child := child, pipe_r := fst r\<rparr>"
  let ?v' = "?v\<lparr>pipe_w := snd t\<rparr>"
  define w1 where "w1 = w\<lparr>pipes := (pipes w)(p := ?v)\<rparr>"
  obtain tr2 e2 where 2: "sys_all os [Sys_close (snd r)] w1 = w1\<lparr>trace := trace w1 @ tr2, errno := e2\<rparr>"
    "map fst tr2 = [Sys_close (snd r)]" using sys_all_state by blast
  define w2 where "w2 = w1\<lparr>trace := trace w1 @ tr2, errno := e2, pipes := (pipes w)(p := ?v')\<rparr>"
  obtain tr3 e3 where 3: "sys_all os [Sys_close (fst t)] w2 = w2\<lparr>trace := trace w2 @ tr3, errno := e3\<rparr>"
    "map fst tr3 = [Sys_close (fst t)]" using sys_all_state by blast
  define w3 where "w3 = w2\<lparr>trace := trace w2 @ tr3, errno := e3\<rparr>"
  let ?g = "Sys_fcntl_getfl (fst r)" and ?g' = "Sys_fcntl_getfl (snd t)"
  obtain a4 where 4: "sys os ?g w3 = (os_ret a4, w3\<lparr>trace := trace w3 @ [(?g, a4)], errno := os_errno a4\<rparr>)"
    using sys_state by blast
  define w4 where "w4 = w3\<lparr>trace := trace w3 @ [(?g, a4)], errno := os_errno a4\<rparr>"
  let ?s = "Sys_fcntl_setfl (fst r) (os_ret a4 OR O_NONBLOCK)"
  obtain tr5 e5 where 5: "sys_all os [?s] w4 = w4\<lparr>trace := trace w4 @ tr5, errno := e5\<rparr>" "map fst tr5 = [?s]"
    using sys_all_state by blast
  define w5 where "w5 = w4\<lparr>trace := trace w4 @ tr5, errno := e5\<rparr>"
  obtain a6 where 6: "sys os ?g' w5 = (os_ret a6, w5\<lparr>trace := trace w5 @ [(?g', a6)], errno := os_errno a6\<rparr>)"
    using sys_state by blast
  define w6 where "w6 = w5\<lparr>trace := trace w5 @ [(?g', a6)], errno := os_errno a6\<rparr>"
  let ?s' = "Sys_fcntl_setfl (snd t) (os_ret a6 OR O_NONBLOCK)"
  obtain tr7 e7 where 7: "sys_all os [?s'] w6 = w6\<lparr>trace := trace w6 @ tr7, errno := e7\<rparr>" "map fst tr7 = [?s']"
    using sys_all_state by blast
  define w7 where "w7 = w6\<lparr>trace := trace w6 @ tr7, errno := e7\<rparr>"
  note defs = w1_def w2_def w3_def w4_def w5_def w6_def w7_def
  have p: "pipes w3 p = ?v'" "pipes w4 p = ?v'" "pipes w5 p = ?v'" "pipes w6 p = ?v'" "pipes w7 p = ?v'"
    by (simp_all add: defs)
  have "pipe_parent_setup os p cb r t child w = put_pipe p (?v'\<lparr>pipe_cb := cb\<rparr>) w7"
  proof -
    have 1: "put_pipe p ((pipes (put_pipe p ((pipes w p)\<lparr>pipe_child := child\<rparr>) w) p)\<lparr>pipe_r := fst r\<rparr>)
        (put_pipe p ((pipes w p)\<lparr>pipe_child := child\<rparr>) w) = w1"
      by (simp add: put_pipe_def w1_def)
    have "put_pipe p ((pipes (w1\<lparr>trace := trace w1 @ tr2, errno := e2\<rparr>) p)\<lparr>pipe_w := snd t\<rparr>)
        (w1\<lparr>trace := trace w1 @ tr2, errno := e2\<rparr>) = w2"
      by (simp add: put_pipe_def w1_def w2_def)
    then show ?thesis
      using 2(1) 3(1)[folded w3_def] 4[folded w4_def] 5(1)[folded w5_def] 6[folded w6_def] 7(1)[folded w7_def] p
      unfolding pipe_parent_setup_def 1 Let_def by simp
  qed
  moreover have "put_pipe p (?v'\<lparr>pipe_cb := cb\<rparr>) w7
      = w\<lparr>trace := trace w @ (tr2 @ tr3 @ [(?g, a4)] @ tr5 @ [(?g', a6)] @ tr7), errno := e7,
          pipes := (pipes w)(p := ?v'\<lparr>pipe_cb := cb\<rparr>)\<rparr>"
    by (simp add: put_pipe_def defs)
  moreover have "foldl fd_step S (tr2 @ tr3 @ [(?g, a4)] @ tr5 @ [(?g', a6)] @ tr7) = S - {snd r, fst t}" for S
    using 2(2) 3(2) 5(2) 7(2) by (auto simp: map_eq_Cons_conv)
  moreover have "map fst (tr2 @ tr3 @ [(?g, a4)] @ tr5 @ [(?g', a6)] @ tr7) = parent_calls r t
      (os_ret (snd ((tr2 @ tr3 @ [(?g, a4)] @ tr5 @ [(?g', a6)] @ tr7) ! 2))) (os_ret (snd ((tr2 @ tr3 @ [(?g, a4)] @ tr5 @ [(?g', a6)] @ tr7) ! 4)))"
    using 2(2) 3(2) 5(2) 7(2) by (auto simp: map_eq_Cons_conv parent_calls_def)
  ultimately show ?thesis
    by (intro exI[of _ "tr2 @ tr3 @ [(?g, a4)] @ tr5 @ [(?g', a6)] @ tr7"] exI[of _ e7] conjI) auto
qed

lemma blank_other:
  assumes b: "blank W D x w L" and ws: "watchers w' x = watchers w x" and h: "dom (lheap w') = dom (lheap w)" and xy: "x \<noteq> y"
  shows "blank (insert y W) D x w' (L(y \<mapsto> []))"
proof -
  have "cells (L(y := None)) \<subseteq> cells L" by (fastforce simp: cells_def split: if_splits)
  then show ?thesis using assms by (auto simp: blank_def loose_def cells_upd)
qed

lemma register_pipes:
  fixes w :: "'a driver_mem_scheme"
  assumes inv: "driver_inv W (insert d R) w L" and bx: "blank W (insert d R) x w L" and bz: "blank W (insert d R) z w L"
    and xz: "x \<noteq> z" and dR: "d \<notin> R" and fr: "0 \<le> fr" "fr < FD_SETSIZE" and ft: "0 \<le> ft" "ft < FD_SETSIZE"
  shows "\<exists>w1 w2 h L'. io_driver_watcher_init x fr cx w = Some w1 \<and> io_driver_watcher_init z ft cz w1 = Some w2
    \<and> io_driver_watch d x ev w2 = Some (w\<lparr>lheap := h, watchers := (watchers w)(
        x := \<lparr>wfd = fr, event_listening = ev, callback = cx\<rparr>, z := \<lparr>wfd = ft, event_listening = 0, callback = cz\<rparr>)\<rparr>)
    \<and> driver_inv (insert z (insert x W)) (insert d R) (w\<lparr>lheap := h, watchers := (watchers w)(
        x := \<lparr>wfd = fr, event_listening = ev, callback = cx\<rparr>, z := \<lparr>wfd = ft, event_listening = 0, callback = cz\<rparr>)\<rparr>) L'
    \<and> (\<forall>y c. y \<notin> {x, z} \<longrightarrow> queued L' y c = queued L y c)"
proof -
  obtain h where h: "io_driver_watcher_init x fr cx w = Some (w\<lparr>lheap := h,
      watchers := (watchers w)(x := \<lparr>wfd = fr, event_listening = 0, callback = cx\<rparr>)\<rparr>)"
    "io_effect (insert x W) d R {x} (w\<lparr>lheap := h\<rparr>) (L(x \<mapsto> [])) (w\<lparr>lheap := h,
      watchers := (watchers w)(x := \<lparr>wfd = fr, event_listening = 0, callback = cx\<rparr>)\<rparr>) (L(x \<mapsto> []))"
    "dom h = dom (lheap w)" "\<forall>y c. y \<noteq> x \<longrightarrow> queued (L(x \<mapsto> [])) y c = queued L y c"
    using os_watcher_init[where cb = cx, OF inv bx fr] by blast
  define w1 where "w1 = w\<lparr>lheap := h, watchers := (watchers w)(x := \<lparr>wfd = fr, event_listening = 0, callback = cx\<rparr>)\<rparr>"
  note h = h[folded w1_def]
  have b1: "blank (insert x W) (insert d R) z w1 (L(x \<mapsto> []))"
    by (rule blank_other[OF bz]) (use h(3) xz in \<open>simp_all add: w1_def\<close>)
  obtain h2 where h2: "io_driver_watcher_init z ft cz w1 = Some (w1\<lparr>lheap := h2,
      watchers := (watchers w1)(z := \<lparr>wfd = ft, event_listening = 0, callback = cz\<rparr>)\<rparr>)"
    "io_effect (insert z (insert x W)) d R {z} (w1\<lparr>lheap := h2\<rparr>) (L(x \<mapsto> [], z \<mapsto> [])) (w1\<lparr>lheap := h2,
      watchers := (watchers w1)(z := \<lparr>wfd = ft, event_listening = 0, callback = cz\<rparr>)\<rparr>) (L(x \<mapsto> [], z \<mapsto> []))"
    "\<forall>y c. y \<noteq> z \<longrightarrow> queued (L(x \<mapsto> [], z \<mapsto> [])) y c = queued (L(x \<mapsto> [])) y c"
    using os_watcher_init[where cb = cz, OF io_effect_inv[OF h(2)] b1 ft] by blast
  define w2 where "w2 = w1\<lparr>lheap := h2, watchers := (watchers w1)(z := \<lparr>wfd = ft, event_listening = 0, callback = cz\<rparr>)\<rparr>"
  note h2 = h2[folded w2_def]
  have x: "x \<in> insert z (insert x W)" by simp
  obtain h3 L' where h3: "io_driver_watch d x ev w2 = Some (w2\<lparr>lheap := h3,
      watchers := (watchers w2)(x := (watchers w2 x)\<lparr>event_listening := event_listening (watchers w2 x) OR ev\<rparr>)\<rparr>)"
    "io_effect (insert z (insert x W)) d R {x} w2 (L(x \<mapsto> [], z \<mapsto> [])) (w2\<lparr>lheap := h3,
      watchers := (watchers w2)(x := (watchers w2 x)\<lparr>event_listening := event_listening (watchers w2 x) OR ev\<rparr>)\<rparr>) L'"
    using os_watch[where ev = ev, OF io_effect_inv[OF h2(2)] x dR] by blast
  let ?w3 = "w\<lparr>lheap := h3, watchers := (watchers w)(
        x := \<lparr>wfd = fr, event_listening = ev, callback = cx\<rparr>, z := \<lparr>wfd = ft, event_listening = 0, callback = cz\<rparr>)\<rparr>"
  have w3: "w2\<lparr>lheap := h3, watchers := (watchers w2)(x := (watchers w2 x)\<lparr>event_listening := event_listening (watchers w2 x) OR ev\<rparr>)\<rparr> = ?w3"
    using xz by (simp add: w2_def w1_def fun_upd_twist)
  have "queued L' y c = queued L y c" if "y \<notin> {x, z}" for y c
    using h3(2) h2(3) h(4) that unfolding io_effect_def still_def by simp
  then show ?thesis using h(1) h2(1) h3(1) io_effect_inv[OF h3(2)] unfolding w3 by blast
qed

text \<open>
  What \<open>io_pipe_init\<close> guarantees. In the new process (\<open>None\<close>) it makes exactly \<open>child_calls\<close> on the two pipes made before \<open>fork\<close>. With 0 it makes
  exactly \<open>parent_calls\<close> and the object has the two descriptors kept, one watched for input.
  Otherwise nothing has changed, and the result tells whether it was the second pipe that failed.
\<close>

definition pipe_started ::
  "addr set \<Rightarrow> addr \<Rightarrow> addr set \<Rightarrow> addr \<Rightarrow> nat \<Rightarrow> addr \<Rightarrow> addr \<Rightarrow> 'a pipe_mem_scheme \<Rightarrow> family \<Rightarrow>
   int option \<Rightarrow> 'a pipe_mem_scheme \<Rightarrow> bool" where
  "pipe_started W d R p cb prog argv w L out w' \<longleftrightarrow> bufs w' = bufs w \<and> pipe_log w' = pipe_log w \<and> (case out of
     None \<Rightarrow> pipes w' = pipes w \<and> watchers w' = watchers w
       \<and> (\<exists>pre r t tr. trace w' = trace w @ pre @ tr \<and> forked pre r t 0
          \<and> map fst tr = child_calls r t prog argv (os_ret (snd (tr ! 5)))
          \<and> open_fds (trace w @ pre) = {fst r, snd r, fst t, snd t} \<union> open_fds (trace w))
   | Some ret \<Rightarrow> if ret = 0
       then \<exists>pre r t child tr L'. trace w' = trace w @ pre @ tr \<and> forked pre r t child \<and> child \<noteq> 0 \<and> child \<noteq> -1
         \<and> map fst tr = parent_calls r t (os_ret (snd (tr ! 2))) (os_ret (snd (tr ! 4)))
         \<and> pipes w' = (pipes w)(p := (pipes w p)\<lparr>pipe_child := child, pipe_r := fst r, pipe_w := snd t, pipe_cb := cb\<rparr>)
         \<and> fst r \<noteq> snd t \<and> fst r \<notin> open_fds (trace w) \<and> snd t \<notin> open_fds (trace w)
         \<and> open_fds (trace w') = {fst r, snd t} \<union> open_fds (trace w)
         \<and> watchers w' = (watchers w)(pipe_rw p := \<lparr>wfd = fst r, event_listening = IO_DRIVER_EVENT_RX, callback = Io_pipe_rx_callback\<rparr>,
             pipe_tw p := \<lparr>wfd = snd t, event_listening = 0, callback = Io_pipe_tx_callback\<rparr>)
         \<and> driver_inv (insert (pipe_tw p) (insert (pipe_rw p) W)) (insert d R) w' L'
         \<and> (\<forall>y c. y \<notin> {pipe_rw p, pipe_tw p} \<longrightarrow> queued L' y c = queued L y c)
       else (ret = -1 \<or> ret = 1) \<and> lheap w' = lheap w \<and> watchers w' = watchers w \<and> pipes w' = pipes w
         \<and> open_fds (trace w') = open_fds (trace w)
         \<and> (\<exists>tr. trace w' = trace w @ tr
              \<and> (ret = 1 \<longleftrightarrow> 2 \<le> length tr \<and> fst (tr ! 1) = Sys_pipe \<and> os_ret (snd (tr ! 1)) \<noteq> 0)))"

lemma pipe_child_branch_state:
  "\<exists>tr e. pipe_child_branch os r t prog argv w = w\<lparr>trace := trace w @ tr, errno := e\<rparr>
    \<and> map fst tr = child_calls r t prog argv (os_ret (snd (tr ! 5)))"
proof -
  let ?c = "[Sys_close (fst r), Sys_close (snd t)]" and ?d = "[Sys_dup2 (fst t) 0, Sys_dup2 (snd r) 1, Sys_dup2 (snd r) 2]"
  obtain tr1 e1 where 1: "sys_all os ?c w = w\<lparr>trace := trace w @ tr1, errno := e1\<rparr>" "map fst tr1 = ?c"
    using sys_all_state by blast
  define w1 where "w1 = w\<lparr>trace := trace w @ tr1, errno := e1\<rparr>"
  obtain tr2 e2 where 2: "sys_all os ?d w1 = w1\<lparr>trace := trace w1 @ tr2, errno := e2\<rparr>" "map fst tr2 = ?d"
    using sys_all_state by blast
  define w2 where "w2 = w1\<lparr>trace := trace w1 @ tr2, errno := e2\<rparr>"
  let ?x = "Sys_execv prog argv"
  obtain a where a: "sys os ?x w2 = (os_ret a, w2\<lparr>trace := trace w2 @ [(?x, a)], errno := os_errno a\<rparr>)"
    using sys_state by blast
  define w3 where "w3 = w2\<lparr>trace := trace w2 @ [(?x, a)], errno := os_errno a\<rparr>"
  obtain tr4 e4 where 4: "sys_all os [Sys_exit (-1)] w3 = w3\<lparr>trace := trace w3 @ tr4, errno := e4\<rparr>" "map fst tr4 = [Sys_exit (-1)]"
    using sys_all_state by blast
  have r: "pipe_child_branch os r t prog argv w = (if os_ret a = -1 then w3\<lparr>trace := trace w3 @ tr4, errno := e4\<rparr> else w3)"
    using 1(1)[folded w1_def] 2(1)[folded w2_def] a[folded w3_def] 4(1) by (simp add: pipe_child_branch_def Let_def)
  let ?tr = "(tr1 @ tr2 @ [(?x, a)]) @ (if os_ret a = -1 then tr4 else [])"
  have "length (tr1 @ tr2) = length (map fst tr1) + length (map fst tr2)" by simp
  then have l: "length (tr1 @ tr2) = 5" unfolding 1(2) 2(2) by simp
  have x: "?tr ! 5 = (?x, a)" using nth_append_length[of "tr1 @ tr2" "(?x, a)" "if os_ret a = -1 then tr4 else []"] unfolding l by simp
  have m: "map fst ?tr = child_calls r t prog argv (os_ret (snd (?tr ! 5)))" unfolding x using 1(2) 2(2) 4(2) by (simp add: child_calls_def)
  have "pipe_child_branch os r t prog argv w = w\<lparr>trace := trace w @ ?tr, errno := if os_ret a = -1 then e4 else os_errno a\<rparr>"
    unfolding r by (simp add: w3_def w2_def w1_def)
  with m show ?thesis by blast
qed

lemma pipe_parent_branch_ok:
  fixes w :: "'a pipe_mem_scheme"
  assumes inv: "driver_inv W (insert d R) w L" and b: "blank W (insert d R) (pipe_rw p) w L" "blank W (insert d R) (pipe_tw p) w L"
    and dR: "d \<notin> R" and fr: "0 \<le> fst r" "fst r < FD_SETSIZE" and ft: "0 \<le> snd t" "snd t < FD_SETSIZE"
  shows "\<exists>tr e h L'. pipe_parent_branch os d p cb r t child w = Some (w\<lparr>lheap := h, trace := trace w @ tr, errno := e,
      pipes := (pipes w)(p := (pipes w p)\<lparr>pipe_child := child, pipe_r := fst r, pipe_w := snd t, pipe_cb := cb\<rparr>),
      watchers := (watchers w)(pipe_rw p := \<lparr>wfd = fst r, event_listening = IO_DRIVER_EVENT_RX, callback = Io_pipe_rx_callback\<rparr>,
        pipe_tw p := \<lparr>wfd = snd t, event_listening = 0, callback = Io_pipe_tx_callback\<rparr>)\<rparr>)
    \<and> (\<forall>S. foldl fd_step S tr = S - {snd r, fst t}) \<and> map fst tr = parent_calls r t (os_ret (snd (tr ! 2))) (os_ret (snd (tr ! 4)))
    \<and> driver_inv (insert (pipe_tw p) (insert (pipe_rw p) W)) (insert d R) (w\<lparr>lheap := h,
      watchers := (watchers w)(pipe_rw p := \<lparr>wfd = fst r, event_listening = IO_DRIVER_EVENT_RX, callback = Io_pipe_rx_callback\<rparr>,
        pipe_tw p := \<lparr>wfd = snd t, event_listening = 0, callback = Io_pipe_tx_callback\<rparr>)\<rparr>) L'
    \<and> (\<forall>y c. y \<notin> {pipe_rw p, pipe_tw p} \<longrightarrow> queued L' y c = queued L y c)"
proof -
  let ?v = "(pipes w p)\<lparr>pipe_child := child, pipe_r := fst r, pipe_w := snd t, pipe_cb := cb\<rparr>"
  obtain tr e where s: "pipe_parent_setup os p cb r t child w = w\<lparr>trace := trace w @ tr, errno := e, pipes := (pipes w)(p := ?v)\<rparr>"
    "\<forall>S. foldl fd_step S tr = S - {snd r, fst t}" "map fst tr = parent_calls r t (os_ret (snd (tr ! 2))) (os_ret (snd (tr ! 4)))"
    using pipe_parent_setup_state[of os p cb r t child w] by blast
  define w0 where "w0 = w\<lparr>trace := trace w @ tr, errno := e, pipes := (pipes w)(p := ?v)\<rparr>"
  have i: "driver_inv W (insert d R) w0 L" "blank W (insert d R) (pipe_rw p) w0 L" "blank W (insert d R) (pipe_tw p) w0 L"
    using inv b by (simp_all add: w0_def driver_inv_def blank_def)
  obtain w1 w2 h L' where 1: "io_driver_watcher_init (pipe_rw p) (fst r) Io_pipe_rx_callback w0 = Some w1"
    "io_driver_watcher_init (pipe_tw p) (snd t) Io_pipe_tx_callback w1 = Some w2"
    "io_driver_watch d (pipe_rw p) IO_DRIVER_EVENT_RX w2 = Some (w0\<lparr>lheap := h, watchers := (watchers w0)(
        pipe_rw p := \<lparr>wfd = fst r, event_listening = IO_DRIVER_EVENT_RX, callback = Io_pipe_rx_callback\<rparr>,
        pipe_tw p := \<lparr>wfd = snd t, event_listening = 0, callback = Io_pipe_tx_callback\<rparr>)\<rparr>)"
    "driver_inv (insert (pipe_tw p) (insert (pipe_rw p) W)) (insert d R) (w0\<lparr>lheap := h, watchers := (watchers w0)(
        pipe_rw p := \<lparr>wfd = fst r, event_listening = IO_DRIVER_EVENT_RX, callback = Io_pipe_rx_callback\<rparr>,
        pipe_tw p := \<lparr>wfd = snd t, event_listening = 0, callback = Io_pipe_tx_callback\<rparr>)\<rparr>) L'"
    "\<forall>y c. y \<notin> {pipe_rw p, pipe_tw p} \<longrightarrow> queued L' y c = queued L y c"
    using register_pipes[where cx = Io_pipe_rx_callback and cz = Io_pipe_tx_callback and ev = IO_DRIVER_EVENT_RX, OF i container_of(3) dR fr ft]
    by blast
  have p: "pipes w1 = pipes w0"
    using 1(1) by (auto simp: io_driver_watcher_init_def put_watcher_def on_heap_def bind_eq_Some_conv)
  have "pipe_r (pipes w0 p) = fst r" "pipe_w (pipes w1 p) = snd t" unfolding p by (simp_all add: w0_def)
  then have "pipe_parent_branch os d p cb r t child w = Some (w0\<lparr>lheap := h, watchers := (watchers w0)(
        pipe_rw p := \<lparr>wfd = fst r, event_listening = IO_DRIVER_EVENT_RX, callback = Io_pipe_rx_callback\<rparr>,
        pipe_tw p := \<lparr>wfd = snd t, event_listening = 0, callback = Io_pipe_tx_callback\<rparr>)\<rparr>)"
    unfolding pipe_parent_branch_def s(1)[folded w0_def] Let_def using 1(1,2,3) by simp
  then show ?thesis using s(2,3) 1(4,5)
    by (intro exI[of _ tr] exI[of _ e] exI[of _ h] exI[of _ L']) (simp add: w0_def driver_inv_def)
qed

lemma pipe_step:
  assumes "os_ok os"
  shows "\<exists>a. os_do os Sys_pipe w = (a, w\<lparr>trace := trace w @ [(Sys_pipe, a)], errno := os_errno a\<rparr>)
    \<and> (os_ret a \<noteq> 0 \<or> os_ret a = 0 \<and> new_fd (trace w) (os_val a) \<and> new_fd (trace w) (os_val2 a) \<and> os_val a \<noteq> os_val2 a)"
  using os_okD[OF assms, of "trace w" Sys_pipe]
  by (intro exI[of _ "os Sys_pipe (trace w)"]) (auto simp: os_do_def Let_def)

lemma pipe_start_failed:
  assumes "trace w' = trace w @ tr" "foldl fd_step (open_fds (trace w)) tr = open_fds (trace w)" "ret = -1 \<or> ret = 1"
    and "w' = w\<lparr>trace := trace w', errno := errno w'\<rparr>"
    and "ret = 1 \<longleftrightarrow> 2 \<le> length tr \<and> fst (tr ! 1) = Sys_pipe \<and> os_ret (snd (tr ! 1)) \<noteq> 0"
  shows "pipe_started W d R p cb prog argv w L (Some ret) w'"
proof -
  have "bufs w' = bufs w" "pipe_log w' = pipe_log w" "lheap w' = lheap w" "watchers w' = watchers w" "pipes w' = pipes w"
    by (subst assms(4), simp)+
  moreover have "\<exists>tr. trace w' = trace w @ tr
      \<and> (ret = 1 \<longleftrightarrow> 2 \<le> length tr \<and> fst (tr ! 1) = Sys_pipe \<and> os_ret (snd (tr ! 1)) \<noteq> 0)" using assms(1,5) by blast
  ultimately show ?thesis using assms(1-3) by (auto simp: pipe_started_def)
qed

lemma pipe_start_done:
  assumes "bufs w' = bufs w" "pipe_log w' = pipe_log w"
    and "trace w' = trace w @ pre @ tr" "forked pre r t child" "child \<noteq> 0" "child \<noteq> -1"
    and "map fst tr = parent_calls r t (os_ret (snd (tr ! 2))) (os_ret (snd (tr ! 4)))"
    and "pipes w' = (pipes w)(p := (pipes w p)\<lparr>pipe_child := child, pipe_r := fst r, pipe_w := snd t, pipe_cb := cb\<rparr>)"
    and "watchers w' = (watchers w)(pipe_rw p := \<lparr>wfd = fst r, event_listening = IO_DRIVER_EVENT_RX, callback = Io_pipe_rx_callback\<rparr>,
             pipe_tw p := \<lparr>wfd = snd t, event_listening = 0, callback = Io_pipe_tx_callback\<rparr>)"
    and "fst r \<notin> open_fds (trace w)" "snd t \<notin> open_fds (trace w)" "fst r \<noteq> snd t"
    and "open_fds (trace w') = {fst r, snd t} \<union> open_fds (trace w)"
    and "driver_inv (insert (pipe_tw p) (insert (pipe_rw p) W)) (insert d R) w' L'"
    and "\<forall>y c. y \<notin> {pipe_rw p, pipe_tw p} \<longrightarrow> queued L' y c = queued L y c"
  shows "pipe_started W d R p cb prog argv w L (Some 0) w'"
  unfolding pipe_started_def option.case
  by (rule conjI[OF assms(1) conjI[OF assms(2)]], subst if_P[OF refl], rule exI[of _ pre], rule exI[of _ r], rule exI[of _ t],
      rule exI[of _ child], rule exI[of _ tr], rule exI[of _ L'], intro conjI assms)

lemma pipe_start_child:
  assumes "trace w' = trace w @ pre @ tr" "open_fds (trace w @ pre) = {fst r, snd r, fst t, snd t} \<union> open_fds (trace w)"
    and "forked pre r t 0" "map fst tr = child_calls r t prog argv (os_ret (snd (tr ! 5)))"
    and "bufs w' = bufs w" "pipe_log w' = pipe_log w" "pipes w' = pipes w" "watchers w' = watchers w"
  shows "pipe_started W d R p cb prog argv w L None w'"
  unfolding pipe_started_def option.case using assms by blast

lemma keep_two: "distinct [x, y, z, u] \<Longrightarrow> y \<notin> S \<Longrightarrow> z \<notin> S \<Longrightarrow> ({x, y, z, u} \<union> S) - {y, z} = {x, u} \<union> S"
  by auto

lemma io_pipe_init_ok:
  fixes w :: "'a pipe_mem_scheme"
  assumes os: "os_ok os" and inv: "driver_inv W (insert d R) w L"
    and b: "blank W (insert d R) (pipe_rw p) w L" "blank W (insert d R) (pipe_tw p) w L" and dR: "d \<notin> R"
  shows "\<exists>out w'. io_pipe_init os d p cb prog argv w = Some (out, w') \<and> pipe_started W d R p cb prog argv w L out w'"
proof -
  obtain a where a: "os_do os Sys_pipe w = (a, w\<lparr>trace := trace w @ [(Sys_pipe, a)], errno := os_errno a\<rparr>)"
    "os_ret a \<noteq> 0 \<or> os_ret a = 0 \<and> new_fd (trace w) (os_val a) \<and> new_fd (trace w) (os_val2 a) \<and> os_val a \<noteq> os_val2 a"
    using pipe_step[OF os] by blast
  let ?r = "(os_val a, os_val2 a)"
  define w1 where "w1 = w\<lparr>trace := trace w @ [(Sys_pipe, a)], errno := os_errno a\<rparr>"
  obtain q where q: "os_do os Sys_pipe w1 = (q, w1\<lparr>trace := trace w1 @ [(Sys_pipe, q)], errno := os_errno q\<rparr>)"
    "os_ret q \<noteq> 0 \<or> os_ret q = 0 \<and> new_fd (trace w1) (os_val q) \<and> new_fd (trace w1) (os_val2 q) \<and> os_val q \<noteq> os_val2 q"
    using pipe_step[OF os] by blast
  let ?t = "(os_val q, os_val2 q)"
  define w2 where "w2 = w1\<lparr>trace := trace w1 @ [(Sys_pipe, q)], errno := os_errno q\<rparr>"
  note a1 = a(1)[folded w1_def] and q1 = q(1)[folded w2_def]
  consider "os_ret a \<noteq> 0" | "os_ret a = 0" "os_ret q \<noteq> 0" | "os_ret a = 0" "os_ret q = 0" by blast
  then show ?thesis
  proof cases
    case 1
    have "pipe_started W d R p cb prog argv w L (Some (-1)) w1"
      by (rule pipe_start_failed[where tr = "[(Sys_pipe, a)]"]) (use 1 in \<open>simp_all add: w1_def\<close>)
    then show ?thesis using a1 1 by (simp add: io_pipe_init_def)
  next
    case 2
    obtain tr e where c: "sys_all os [Sys_close (os_val a), Sys_close (os_val2 a)] w2 = w2\<lparr>trace := trace w2 @ tr, errno := e\<rparr>"
      "map fst tr = [Sys_close (os_val a), Sys_close (os_val2 a)]" using sys_all_state by blast
    have "foldl fd_step S tr = S - {os_val a, os_val2 a}" for S
      using open_fds_closes[of tr S] c(2) by simp
    then have "pipe_started W d R p cb prog argv w L (Some 1) (w2\<lparr>trace := trace w2 @ tr, errno := e\<rparr>)"
      using 2 a(2) by (intro pipe_start_failed[where tr = "[(Sys_pipe, a)] @ [(Sys_pipe, q)] @ tr"])
        (auto simp: w1_def w2_def new_fd_def)
    then show ?thesis using a1 q1 2 c(1) by (simp add: io_pipe_init_def)
  next
    case 3
    have fa: "new_fd (trace w) (os_val a)" "new_fd (trace w) (os_val2 a)" "os_val a \<noteq> os_val2 a" using a(2) 3 by auto
    have fq: "new_fd (trace w1) (os_val q)" "new_fd (trace w1) (os_val2 q)" "os_val q \<noteq> os_val2 q" using q(2) 3 by auto
    let ?S = "open_fds (trace w)"
    have o1: "open_fds (trace w1) = {os_val a, os_val2 a} \<union> ?S" using 3 by (simp add: w1_def)
    let ?cs = "[Sys_fcntl_setfd (os_val a), Sys_fcntl_setfd (os_val2 a), Sys_fcntl_setfd (os_val q), Sys_fcntl_setfd (os_val2 q)]"
    obtain tr3 e3 where s: "sys_all os ?cs w2 = w2\<lparr>trace := trace w2 @ tr3, errno := e3\<rparr>" "map fst tr3 = ?cs"
      using sys_all_state by blast
    define w3 where "w3 = w2\<lparr>trace := trace w2 @ tr3, errno := e3\<rparr>"
    obtain f where f: "sys os Sys_fork w3 = (os_ret f, w3\<lparr>trace := trace w3 @ [(Sys_fork, f)], errno := os_errno f\<rparr>)"
      using sys_state by blast
    define w4 where "w4 = w3\<lparr>trace := trace w3 @ [(Sys_fork, f)], errno := os_errno f\<rparr>"
    let ?tr4 = "[(Sys_pipe, a), (Sys_pipe, q)] @ tr3 @ [(Sys_fork, f)]"
    have n3: "foldl fd_step S tr3 = S" for S using open_fds_closes[of tr3 S] s(2) by simp
    have w4: "w4 = w\<lparr>trace := trace w @ ?tr4, errno := os_errno f\<rparr>" by (simp add: w4_def w3_def w2_def w1_def)
    have o4: "foldl fd_step ?S ?tr4 = {os_val a, os_val2 a, os_val q, os_val2 q} \<union> ?S" using 3 n3 by auto
    note run = a1 q1 s(1)[folded w3_def] f[folded w4_def] 3
    have forks: "forked ?tr4 ?r ?t (os_ret f)" unfolding forked_def using 3 s(2)
      by (intro exI[of _ a] exI[of _ q] exI[of _ tr3] exI[of _ f]) simp
    consider "os_ret f = -1" | "os_ret f = 0" | "os_ret f \<noteq> 0" "os_ret f \<noteq> -1" by blast
    then show ?thesis
    proof cases
      case 1
      let ?cl = "[Sys_close (os_val a), Sys_close (os_val2 a), Sys_close (os_val q), Sys_close (os_val2 q)]"
      obtain tr e where c: "sys_all os ?cl w4 = w4\<lparr>trace := trace w4 @ tr, errno := e\<rparr>" "map fst tr = ?cl"
        using sys_all_state by blast
      have n: "foldl fd_step S tr = S - {os_val a, os_val2 a, os_val q, os_val2 q}" for S
        using open_fds_closes[of tr S] c(2) by simp
      have cl: "foldl fd_step ?S (?tr4 @ tr) = ?S"
        unfolding foldl_append[of fd_step ?S ?tr4 tr] o4 n using fa fq o1 by (auto simp: new_fd_def)
      have "pipe_started W d R p cb prog argv w L (Some (-1)) (w4\<lparr>trace := trace w4 @ tr, errno := e\<rparr>)"
        by (rule pipe_start_failed[OF _ cl]) (simp_all add: w4 run(6))
      then show ?thesis using run 1 c(1) by (simp add: io_pipe_init_def)
    next
      case 2
      obtain tr e where c: "pipe_child_branch os ?r ?t prog argv w4 = w4\<lparr>trace := trace w4 @ tr, errno := e\<rparr>"
        "map fst tr = child_calls ?r ?t prog argv (os_ret (snd (tr ! 5)))"
        using pipe_child_branch_state[of os ?r ?t prog argv w4] by blast
      let ?w5 = "w4\<lparr>trace := trace w4 @ tr, errno := e\<rparr>"
      have "pipe_started W d R p cb prog argv w L None ?w5"
      proof (rule pipe_start_child[where pre = ?tr4 and r = ?r and t = ?t])
        show "forked ?tr4 ?r ?t 0" using forks 2 by simp
        show "trace ?w5 = trace w @ ?tr4 @ tr" by (simp add: w4)
        show "open_fds (trace w @ ?tr4) = {fst ?r, snd ?r, fst ?t, snd ?t} \<union> ?S" using o4 by simp
      qed (simp_all add: w4 c(2))
      then show ?thesis using run 2 c(1) by (simp add: io_pipe_init_def)
    next
      case 3
      have i: "driver_inv W (insert d R) w4 L" "blank W (insert d R) (pipe_rw p) w4 L" "blank W (insert d R) (pipe_tw p) w4 L"
        using inv b by (simp_all add: w4 driver_inv_def blank_def)
      have fd: "0 \<le> fst ?r" "fst ?r < FD_SETSIZE" "0 \<le> snd ?t" "snd ?t < FD_SETSIZE" using fa fq by (simp_all add: new_fd_def)
      obtain tr e h L' where c: "pipe_parent_branch os d p cb ?r ?t (os_ret f) w4 = Some (w4\<lparr>lheap := h, trace := trace w4 @ tr, errno := e,
          pipes := (pipes w4)(p := (pipes w4 p)\<lparr>pipe_child := os_ret f, pipe_r := fst ?r, pipe_w := snd ?t, pipe_cb := cb\<rparr>),
          watchers := (watchers w4)(pipe_rw p := \<lparr>wfd = fst ?r, event_listening = IO_DRIVER_EVENT_RX, callback = Io_pipe_rx_callback\<rparr>,
            pipe_tw p := \<lparr>wfd = snd ?t, event_listening = 0, callback = Io_pipe_tx_callback\<rparr>)\<rparr>)"
        "\<forall>S. foldl fd_step S tr = S - {snd ?r, fst ?t}"
        "map fst tr = parent_calls ?r ?t (os_ret (snd (tr ! 2))) (os_ret (snd (tr ! 4)))"
        "driver_inv (insert (pipe_tw p) (insert (pipe_rw p) W)) (insert d R) (w4\<lparr>lheap := h,
          watchers := (watchers w4)(pipe_rw p := \<lparr>wfd = fst ?r, event_listening = IO_DRIVER_EVENT_RX, callback = Io_pipe_rx_callback\<rparr>,
            pipe_tw p := \<lparr>wfd = snd ?t, event_listening = 0, callback = Io_pipe_tx_callback\<rparr>)\<rparr>) L'"
        "\<forall>y c. y \<notin> {pipe_rw p, pipe_tw p} \<longrightarrow> queued L' y c = queued L y c"
        using pipe_parent_branch_ok[OF i dR fd] by blast
      let ?w5 = "w4\<lparr>lheap := h, trace := trace w4 @ tr, errno := e,
          pipes := (pipes w4)(p := (pipes w4 p)\<lparr>pipe_child := os_ret f, pipe_r := fst ?r, pipe_w := snd ?t, pipe_cb := cb\<rparr>),
          watchers := (watchers w4)(pipe_rw p := \<lparr>wfd = fst ?r, event_listening = IO_DRIVER_EVENT_RX, callback = Io_pipe_rx_callback\<rparr>,
            pipe_tw p := \<lparr>wfd = snd ?t, event_listening = 0, callback = Io_pipe_tx_callback\<rparr>)\<rparr>"
      have ends: "distinct [os_val a, os_val2 a, os_val q, os_val2 q]" "os_val2 a \<notin> ?S" "os_val q \<notin> ?S"
        using fa fq unfolding new_fd_def o1 by simp_all
      have f0: "fst ?r \<notin> ?S" "snd ?t \<notin> ?S" "fst ?r \<noteq> snd ?t" using fa fq ends(1) unfolding new_fd_def o1 by simp_all
      have o5: "open_fds (trace ?w5) = {fst ?r, snd ?t} \<union> ?S"
      proof -
        have "open_fds (trace ?w5) = foldl fd_step (foldl fd_step ?S ?tr4) tr" by (simp add: w4)
        also have "\<dots> = ({os_val a, os_val2 a, os_val q, os_val2 q} \<union> ?S) - {snd ?r, fst ?t}" unfolding o4 c(2)[rule_format] ..
        also have "\<dots> = {fst ?r, snd ?t} \<union> ?S" unfolding fst_conv snd_conv
          by (rule keep_two[OF ends(1,2,3)])
        finally show ?thesis .
      qed
      have i5: "driver_inv (insert (pipe_tw p) (insert (pipe_rw p) W)) (insert d R) ?w5 L'"
        using c(4) by (simp add: driver_inv_def)
      have "pipe_started W d R p cb prog argv w L (Some 0) ?w5"
      proof (rule pipe_start_done[where r = ?r and t = ?t and pre = ?tr4 and tr = tr and child = "os_ret f" and L' = L'])
        show "trace ?w5 = trace w @ ?tr4 @ tr" by (simp add: w4)
        show "bufs ?w5 = bufs w" "pipe_log ?w5 = pipe_log w" by (simp_all add: w4)
        show "pipes ?w5 = (pipes w)(p := (pipes w p)\<lparr>pipe_child := os_ret f, pipe_r := fst ?r, pipe_w := snd ?t, pipe_cb := cb\<rparr>)"
          by (simp add: w4)
        show "watchers ?w5 = (watchers w)(pipe_rw p := \<lparr>wfd = fst ?r, event_listening = IO_DRIVER_EVENT_RX, callback = Io_pipe_rx_callback\<rparr>,
             pipe_tw p := \<lparr>wfd = snd ?t, event_listening = 0, callback = Io_pipe_tx_callback\<rparr>)"
          by (simp add: w4)
      qed (fact 3 forks f0 o5 i5 c(3,5))+
      then show ?thesis using run 3 c(1) by (simp add: io_pipe_init_def)
    qed
  qed
qed

section \<open>Closing, sending and receiving\<close>

text \<open>Taking a watcher off its list does not use the driver.\<close>

lemma no_watch_any_driver: "io_driver_no_watch d x ev w = io_driver_no_watch d' x ev w"
  by (simp add: io_driver_no_watch_def)

lemma io_pipe_close_ok:
  fixes w :: "'a pipe_mem_scheme"
  assumes inv: "driver_inv W (insert d R) w L" and p: "pipe_rw p \<in> W" "pipe_tw p \<in> W" and dR: "d \<notin> R"
  shows "\<exists>w' L'. io_pipe_close os p w = Some w' \<and> driver_inv W (insert d R) w' L'
    \<and> watchers w' = (watchers w)(
        pipe_rw p := (watchers w (pipe_rw p))\<lparr>event_listening := event_listening (watchers w (pipe_rw p)) AND NOT IO_DRIVER_EVENT_RX\<rparr>,
        pipe_tw p := (watchers w (pipe_tw p))\<lparr>event_listening := event_listening (watchers w (pipe_tw p)) AND NOT IO_DRIVER_EVENT_TX\<rparr>)
    \<and> (\<forall>y c. y \<notin> {pipe_rw p, pipe_tw p} \<longrightarrow> queued L' y c = queued L y c)
    \<and> pipes w' = pipes w \<and> bufs w' = bufs w \<and> open_fds (trace w') = open_fds (trace w) - {pipe_r (pipes w p), pipe_w (pipes w p)}"
proof -
  let ?x = "pipe_rw p" and ?z = "pipe_tw p"
  let ?wx = "(watchers w ?x)\<lparr>event_listening := event_listening (watchers w ?x) AND NOT IO_DRIVER_EVENT_RX\<rparr>"
  let ?wz = "(watchers w ?z)\<lparr>event_listening := event_listening (watchers w ?z) AND NOT IO_DRIVER_EVENT_TX\<rparr>"
  obtain h1 L1 where 1: "io_driver_no_watch d ?x IO_DRIVER_EVENT_RX w = Some (w\<lparr>lheap := h1, watchers := (watchers w)(?x := ?wx)\<rparr>)"
    "io_effect W d R {?x} w L (w\<lparr>lheap := h1, watchers := (watchers w)(?x := ?wx)\<rparr>) L1"
    using os_no_watch[where ev = IO_DRIVER_EVENT_RX, OF inv p(1) dR] by blast
  define w1 where "w1 = w\<lparr>lheap := h1, watchers := (watchers w)(?x := ?wx)\<rparr>"
  note 1 = 1[folded w1_def]
  have z: "watchers w1 ?z = watchers w ?z" by (simp add: w1_def)
  obtain h2 L2 where 2: "io_driver_no_watch d ?z IO_DRIVER_EVENT_TX w1 = Some (w1\<lparr>lheap := h2, watchers := (watchers w1)(?z := ?wz)\<rparr>)"
    "io_effect W d R {?z} w1 L1 (w1\<lparr>lheap := h2, watchers := (watchers w1)(?z := ?wz)\<rparr>) L2"
    using os_no_watch[where ev = IO_DRIVER_EVENT_TX, OF io_effect_inv[OF 1(2)] p(2) dR] unfolding z by blast
  define w2 where "w2 = w1\<lparr>lheap := h2, watchers := (watchers w1)(?z := ?wz)\<rparr>"
  note 2 = 2[folded w2_def]
  let ?cs = "[Sys_close (pipe_r (pipes w p)), Sys_close (pipe_w (pipes w p))]"
  obtain tr e where c: "sys_all os ?cs w2 = w2\<lparr>trace := trace w2 @ tr, errno := e\<rparr>" "map fst tr = ?cs"
    using sys_all_state by blast
  let ?w3 = "w2\<lparr>trace := trace w2 @ tr, errno := e\<rparr>"
  have q: "pipes w1 = pipes w" "pipes w2 = pipes w" by (simp_all add: w1_def w2_def)
  have "io_pipe_close os p w = Some ?w3"
    using 1(1) 2(1) c(1) q unfolding io_pipe_close_def
    by (simp add: no_watch_any_driver[of "pipe_driver (pipes w p)" _ _ _ d])
  moreover have "foldl fd_step S tr = S - {pipe_r (pipes w p), pipe_w (pipes w p)}" for S
    using open_fds_closes[of tr S] c(2) by simp
  then have "open_fds (trace ?w3) = open_fds (trace w) - {pipe_r (pipes w p), pipe_w (pipes w p)}"
    by (simp add: w1_def w2_def)
  moreover have "driver_inv W (insert d R) ?w3 L2" using io_effect_inv[OF 2(2)] by simp
  moreover have "queued L2 y c = queued L y c" if "y \<notin> {?x, ?z}" for y c
    using 1(2) 2(2) that unfolding io_effect_def still_def by simp
  moreover have "watchers ?w3 = (watchers w)(?x := ?wx, ?z := ?wz)" "pipes ?w3 = pipes w" "bufs ?w3 = bufs w"
    by (simp_all add: w1_def w2_def)
  ultimately show ?thesis by blast
qed

text \<open>An address that is no list cell cannot be a list head.\<close>

lemma watch_bad_driver:
  assumes "lheap w d = None" "event_listening (watchers w x) = 0" "ev \<noteq> 0"
  shows "io_driver_watch d x ev w = None"
  using assms by (simp add: io_driver_watch_def Let_def put_watcher_def on_heap_def list_add_tail_def read_prev_def)

lemma io_pipe_tx_call:
  fixes w :: "'a pipe_mem_scheme" and os :: os and p :: addr
  assumes bs: "bytes_at buf len w = Some bs"
  defines "a \<equiv> os (Sys_write (pipe_w (pipes w p)) bs) (trace w)"
  defines "w1 \<equiv> w\<lparr>trace := trace w @ [(Sys_write (pipe_w (pipes w p)) bs, a)], errno := os_errno a\<rparr>"
  shows "io_pipe_tx os p buf len w = (if 0 < os_ret a then Some (os_ret a, w1)
     else if os_errno a \<noteq> EWOULDBLOCK \<and> os_errno a \<noteq> EAGAIN then Some (-1, w1)
     else map_option (Pair 0) (io_driver_watch (pipe_driver (pipes w p)) (pipe_tw p) IO_DRIVER_EVENT_TX w1))"
proof -
  have s: "sys os (Sys_write (pipe_w (pipes w p)) bs) w = (os_ret a, w1)"
    by (simp add: sys_def os_do_def Let_def a_def w1_def)
  have e: "errno w1 = os_errno a" "pipes w1 = pipes w" by (simp_all add: w1_def)
  show ?thesis using bs s e
    by (cases "io_driver_watch (pipe_driver (pipes w p)) (pipe_tw p) IO_DRIVER_EVENT_TX w1") (simp_all add: io_pipe_tx_def Let_def)
qed

section \<open>Properties\<close>

text \<open>C38: Starting a program either succeeds with exactly two new descriptors or fails without a trace. With 0
  two pipes were made and the process has forked; the object holds the reading end of the first pipe, watched for input, and the writing end of the second,
  registered and idle, both made non-blocking with their other flags kept, and the other
  two ends are closed. Otherwise the result is 1 exactly if the second pipe could not be made and else -1, and no descriptor stays
  open and no list, watcher or object has changed. In the new process the call does not return: it closes the parent's two ends, makes the reading end of the second
  pipe its standard input and the writing end of the first its standard output and error, runs the program, and exactly
  if that fails (\<open>execv\<close> returns -1) ends itself with the code -1.\<close>

theorem io_pipe_init_all_or_nothing:
  fixes w :: "'a pipe_mem_scheme"
  assumes "os_ok os" "driver_inv W (insert d R) w L"
    and "blank W (insert d R) (pipe_rw p) w L" "blank W (insert d R) (pipe_tw p) w L" "d \<notin> R"
  shows "\<exists>out w'. io_pipe_init os d p cb prog argv w = Some (out, w') \<and> pipe_started W d R p cb prog argv w L out w'"
  using assms by (rule io_pipe_init_ok)

text \<open>Closing undoes starting: after a successful \<open>io_pipe_init\<close>, \<open>io_pipe_close\<close> closes both descriptors
  and takes the watcher off the driver, whatever the member \<open>driver\<close> of the object holds, and the other watchers are as before.\<close>

theorem io_pipe_close_undoes_init:
  fixes w :: "'a pipe_mem_scheme"
  assumes "os_ok os" "driver_inv W (insert d R) w L"
    and "blank W (insert d R) (pipe_rw p) w L" "blank W (insert d R) (pipe_tw p) w L" "d \<notin> R"
    and "io_pipe_init os d p cb prog argv w = Some (Some 0, w1)"
  shows "\<exists>w2 L'. io_pipe_close os p w1 = Some w2 \<and> open_fds (trace w2) = open_fds (trace w)
    \<and> driver_inv (insert (pipe_tw p) (insert (pipe_rw p) W)) (insert d R) w2 L'
    \<and> event_listening (watchers w2 (pipe_rw p)) = 0 \<and> event_listening (watchers w2 (pipe_tw p)) = 0
    \<and> (\<forall>y. y \<notin> {pipe_rw p, pipe_tw p} \<longrightarrow> watchers w2 y = watchers w y \<and> (\<forall>c. queued L' y c = queued L y c))"
proof -
  have "pipe_started W d R p cb prog argv w L (Some 0) w1"
    using io_pipe_init_ok[OF assms(1-5), of cb prog argv] assms(6) by auto
  then obtain r t child L1 where s: "pipes w1 = (pipes w)(p := (pipes w p)\<lparr>pipe_child := child, pipe_r := r, pipe_w := t, pipe_cb := cb\<rparr>)"
    "r \<notin> open_fds (trace w)" "t \<notin> open_fds (trace w)" "open_fds (trace w1) = {r, t} \<union> open_fds (trace w)"
    "watchers w1 = (watchers w)(pipe_rw p := \<lparr>wfd = r, event_listening = IO_DRIVER_EVENT_RX, callback = Io_pipe_rx_callback\<rparr>,
             pipe_tw p := \<lparr>wfd = t, event_listening = 0, callback = Io_pipe_tx_callback\<rparr>)"
    "driver_inv (insert (pipe_tw p) (insert (pipe_rw p) W)) (insert d R) w1 L1"
    "\<forall>y c. y \<notin> {pipe_rw p, pipe_tw p} \<longrightarrow> queued L1 y c = queued L y c"
    unfolding pipe_started_def option.case by (simp only: if_True simp_thms) blast
  have p: "pipe_rw p \<in> insert (pipe_tw p) (insert (pipe_rw p) W)" "pipe_tw p \<in> insert (pipe_tw p) (insert (pipe_rw p) W)" by simp_all
  obtain w2 L2 where c: "io_pipe_close os p w1 = Some w2" "driver_inv (insert (pipe_tw p) (insert (pipe_rw p) W)) (insert d R) w2 L2"
    "watchers w2 = (watchers w1)(
        pipe_rw p := (watchers w1 (pipe_rw p))\<lparr>event_listening := event_listening (watchers w1 (pipe_rw p)) AND NOT IO_DRIVER_EVENT_RX\<rparr>,
        pipe_tw p := (watchers w1 (pipe_tw p))\<lparr>event_listening := event_listening (watchers w1 (pipe_tw p)) AND NOT IO_DRIVER_EVENT_TX\<rparr>)"
    "\<forall>y c. y \<notin> {pipe_rw p, pipe_tw p} \<longrightarrow> queued L2 y c = queued L1 y c"
    "open_fds (trace w2) = open_fds (trace w1) - {pipe_r (pipes w1 p), pipe_w (pipes w1 p)}"
    using io_pipe_close_ok[OF s(6) p assms(5), of os] by blast
  have "open_fds (trace w2) = open_fds (trace w)" unfolding c(5) s(4) using s(2,3) by (auto simp: s(1))
  moreover have "event_listening (watchers w2 (pipe_rw p)) = 0" "event_listening (watchers w2 (pipe_tw p)) = 0"
    "\<forall>y. y \<notin> {pipe_rw p, pipe_tw p} \<longrightarrow> watchers w2 y = watchers w y"
    unfolding c(3) s(5) by (simp_all add: IO_DRIVER_EVENT_RX_def)
  ultimately show ?thesis using c(1,2,4) s(7) by (intro exI[of _ w2] exI[of _ L2]) simp
qed

text \<open>C39: \<open>io_pipe_tx\<close> on a child returns the number of bytes taken or -1 for an error; but when
  the pipe is full it has no defined behaviour, where it should register the watcher and return 0: it adds the
  watcher to the driver the object names, and \<open>io_pipe_init\<close> does not store the driver there. Stated for
  an object in cleared memory, whose driver is then the null pointer.\<close>

theorem io_pipe_tx_lacks_driver:
  fixes w :: "'a pipe_mem_scheme"
  assumes "os_ok os" "driver_inv W (insert d R) w L"
    and "blank W (insert d R) (pipe_rw p) w L" "blank W (insert d R) (pipe_tw p) w L" "d \<notin> R"
    and "io_pipe_init os d p cb prog argv w = Some (Some 0, w1)" "pipe_driver (pipes w p) = NULL"
    and "bytes_at buf len w1 = Some bs" "os (Sys_write (pipe_w (pipes w1 p)) bs) (trace w1) = a"
  shows "if 0 < os_ret a \<or> os_errno a \<noteq> EWOULDBLOCK \<and> os_errno a \<noteq> EAGAIN
    then \<exists>w2. io_pipe_tx os p buf len w1 = Some (if 0 < os_ret a then os_ret a else -1, w2) \<and> watchers w2 = watchers w1
    else io_pipe_tx os p buf len w1 = None"
proof -
  have "pipe_started W d R p cb prog argv w L (Some 0) w1"
    using io_pipe_init_ok[OF assms(1-5), of cb prog argv] assms(6) by auto
  then obtain r t child L1 where s: "pipes w1 = (pipes w)(p := (pipes w p)\<lparr>pipe_child := child, pipe_r := r, pipe_w := t, pipe_cb := cb\<rparr>)"
    "event_listening (watchers w1 (pipe_tw p)) = 0"
    "driver_inv (insert (pipe_tw p) (insert (pipe_rw p) W)) (insert d R) w1 L1"
    unfolding pipe_started_def option.case by (simp only: if_True simp_thms) fastforce
  let ?w2 = "w1\<lparr>trace := trace w1 @ [(Sys_write (pipe_w (pipes w1 p)) bs, a)], errno := os_errno a\<rparr>"
  have d: "pipe_driver (pipes w1 p) = NULL" using s(1) assms(7) by simp
  have n: "lheap w1 NULL = None" by (rule listsD(1)[OF driver_invD(1)[OF s(3)]])
  have b: "io_driver_watch NULL (pipe_tw p) IO_DRIVER_EVENT_TX ?w2 = None"
    by (rule watch_bad_driver) (simp_all add: n s(2) IO_DRIVER_EVENT_TX_def)
  show ?thesis using io_pipe_tx_call[OF assms(8), of os p] assms(9) b by (simp add: d)
qed

text \<open>C40: What the child writes reaches the user once and unchanged. The bytes read, at most as many as the
  buffer holds, are in the buffer that the event names, with their number; at the end of the child's output, or when
  reading fails, the program waits for the child and the user gets the closed event.\<close>

theorem io_pipe_rx_delivers:
  fixes w :: "'a pipe_mem_scheme" and os :: os
  assumes "os_ok os" "0 \<le> pipe_rx_size (pipes w p)" "pipe_rx_size (pipes w p) \<le> int (length (bufs w (pipe_rx_buf (pipes w p))))"
    and "os (Sys_read (pipe_r (pipes w p)) (pipe_rx_size (pipes w p))) (trace w) = r"
    and "e AND IO_DRIVER_EVENT_RX \<noteq> 0"
  shows "\<exists>w1 ev. io_pipe_rx_callback os cb (pipe_rw p) e w = map_option snd (call_pipe_cb cb p ev w1)
    \<and> (if os_ret r \<le> 0 then pev ev = io_pipe_event_closed
         \<and> (\<exists>a. trace w1 = trace w @ [(Sys_read (pipe_r (pipes w p)) (pipe_rx_size (pipes w p)), r), (Sys_waitpid (pipe_child (pipes w p)), a)])
       else \<exists>len. pev ev = io_pipe_event_rx \<and> pev_buf ev = Some (pipe_rx_buf (pipes w p)) \<and> pev_len ev = Some len
         \<and> uint len = os_ret r \<and> take (unat len) (bufs w1 (pipe_rx_buf (pipes w p))) = os_data r)
    \<and> (\<forall>b. length (bufs w1 b) = length (bufs w b)) \<and> (\<forall>b. b \<noteq> pipe_rx_buf (pipes w p) \<longrightarrow> bufs w1 b = bufs w b)
    \<and> watchers w1 = watchers w \<and> pipes w1 = pipes w \<and> pipe_log w1 = pipe_log w"
proof -
  let ?b = "pipe_rx_buf (pipes w p)" and ?c = "Sys_read (pipe_r (pipes w p)) (pipe_rx_size (pipes w p))"
  have "filled (pipe_rx_size (pipes w p)) r" using os_okD[OF assms(1), of "trace w" ?c] assms(4) by simp
  then have r: "length (os_data r) = nat (os_ret r)" "os_ret r \<le> INT_MAX" "length (os_data r) \<le> length (bufs w ?b)"
    using assms(2,3) by (auto simp: filled_def int_range_def)
  define w1 where "w1 = w\<lparr>trace := trace w @ [(?c, r)], errno := os_errno r,
      bufs := (bufs w)(?b := os_data r @ drop (length (os_data r)) (bufs w ?b))\<rparr>"
  have s: "sys_into os ?c ?b w = Some (r, w1)"
    using assms(4) r(3) by (simp add: sys_into_def os_do_def Let_def w1_def)
  have l: "\<forall>b. length (bufs w1 b) = length (bufs w b)" "\<forall>b. b \<noteq> ?b \<longrightarrow> bufs w1 b = bufs w b"
    using r(3) by (simp_all add: w1_def)
  have f: "pipes w1 = pipes w" "watchers w1 = watchers w" "pipe_log w1 = pipe_log w" by (simp_all add: w1_def)
  have fin: "do { (_, w) \<leftarrow> call_pipe_cb cb p ev v; Some w } = map_option snd (call_pipe_cb cb p ev v)" for ev v
    by (cases "call_pipe_cb cb p ev v") auto
  show ?thesis
  proof (cases "os_ret r \<le> 0")
    case True
    let ?p = "Sys_waitpid (pipe_child (pipes w p))"
    obtain tr e' where t: "sys_all os [?p] w1 = w1\<lparr>trace := trace w1 @ tr, errno := e'\<rparr>" "map fst tr = [?p]"
      using sys_all_state by blast
    have "io_pipe_rx_callback os cb (pipe_rw p) e w
        = do { (_, w) \<leftarrow> call_pipe_cb cb p (pipe_event io_pipe_event_closed) (w1\<lparr>trace := trace w1 @ tr, errno := e'\<rparr>); Some w }"
      using s assms(5) True t(1) f(1) by (simp add: io_pipe_rx_callback_def Let_def)
    moreover have "\<exists>a. tr = [(?p, a)]" using t(2) by (cases tr) auto
    ultimately show ?thesis using True l f unfolding fin
      by (intro exI[of _ "w1\<lparr>trace := trace w1 @ tr, errno := e'\<rparr>"] exI[of _ "pipe_event io_pipe_event_closed"])
        (auto simp: pipe_event_def w1_def)
  next
    case False
    let ?ev = "(pipe_event io_pipe_event_rx)\<lparr>pev_buf := Some ?b, pev_len := Some (word_of_int (os_ret r))\<rparr>"
    have u: "uint (word_of_int (os_ret r) :: u32) = os_ret r"
      using r(2) False by (simp add: uint_word_of_int INT_MAX_def)
    then have n: "unat (word_of_int (os_ret r) :: u32) = length (os_data r)" using r(1) by (simp add: unat_eq_nat_uint)
    have "io_pipe_rx_callback os cb (pipe_rw p) e w = do { (_, w) \<leftarrow> call_pipe_cb cb p ?ev w1; Some w }"
      using s assms(5) False by (simp add: io_pipe_rx_callback_def Let_def)
    moreover have "take (unat (word_of_int (os_ret r) :: u32)) (bufs w1 ?b) = os_data r" unfolding n by (simp add: w1_def)
    ultimately show ?thesis using False l f u unfolding fin
      by (intro exI[of _ w1] exI[of _ ?ev]) (auto simp: pipe_event_def)
  qed
qed

section \<open>A concrete instance\<close>

text \<open>A driver at 20 and an object at 40 in cleared memory. The system makes two pipes, \<open>fork\<close> returns process 77 and
  the pipe to the child is full.\<close>

definition demo_pipe :: pipe_mem where
  "demo_pipe = \<lparr>lheap = idle_heap {20, 72, 104}, st = \<lparr>tick_rate = 0, tick = 0, buckets = []\<rparr>,
     elem_tick = (\<lambda>_. 0), fired = [], watchers = (\<lambda>_. \<lparr>wfd = 0, event_listening = 0, callback = Other_callback 0\<rparr>),
     calls = [], trace = [], errno = 0, bufs = (\<lambda>_. [1, 2, 3, 4]),
     pipes = (\<lambda>_. \<lparr>pipe_r = 0, pipe_w = 0, pipe_cb = 0, pipe_driver = NULL, pipe_rx_buf = NULL, pipe_rx_size = 0, pipe_child = 0\<rparr>),
     pipe_log = []\<rparr>"

fun pipe_os :: os where
  "pipe_os Sys_pipe tr = (if 5 \<notin> open_fds tr \<and> 6 \<notin> open_fds tr then (answer 0)\<lparr>os_val := 5, os_val2 := 6\<rparr>
     else if 7 \<notin> open_fds tr \<and> 8 \<notin> open_fds tr then (answer 0)\<lparr>os_val := 7, os_val2 := 8\<rparr> else answer (-1))"
| "pipe_os Sys_fork tr = answer 77"
| "pipe_os (Sys_write fd bs) tr = (answer (-1))\<lparr>os_errno := EAGAIN\<rparr>"
| "pipe_os c tr = demo_os c tr"

lemma pipe_os_ok: "os_ok pipe_os"
proof -
  have "answer_ok tr c (pipe_os c tr)" for c tr
    using os_okD[OF demo_os_ok, of tr c] by (cases c) (auto simp: answer_def new_fd_def FD_SETSIZE_def)
  then show ?thesis by (simp add: os_ok_def)
qed

lemma demo_pipe_ready:
  "driver_inv {72, 104} (insert 20 {}) demo_pipe (idle_lists {20, 72, 104})"
  "blank {72, 104} (insert 20 {}) (pipe_rw 40) demo_pipe (idle_lists {20, 72, 104})"
  "blank {72, 104} (insert 20 {}) (pipe_tw 40) demo_pipe (idle_lists {20, 72, 104})" "(20 :: addr) \<notin> {}"
proof -
  have "heap_lists (lheap demo_pipe) (idle_lists {20, 72, 104})"
    unfolding demo_pipe_def by simp (rule idle_heap_lists, simp add: NULL_def)
  then show "driver_inv {72, 104} (insert 20 {}) demo_pipe (idle_lists {20, 72, 104})"
    by (simp add: driver_inv_def driver_ok_def idle_lists_def demo_pipe_def FD_SETSIZE_def)
qed (simp_all add: blank_def pipe_rw_def pipe_tw_def demo_pipe_def)

lemma demo_pipe_starts: "\<exists>w1. io_pipe_init pipe_os 20 40 1 0 0 demo_pipe = Some (Some 0, w1)"
proof -
  have "map_option fst (io_pipe_init pipe_os 20 40 1 0 0 demo_pipe) = Some (Some 0)"
    apply (simp add: io_pipe_init_def Let_def sys_all.simps(2) sys_def os_do_def answer_def pipe_parent_branch_def
        pipe_parent_setup_def put_pipe_def)
    apply (simp add: demo_pipe_def open_fds_def)
    apply (simp add: io_driver_watcher_init_def io_driver_watch_def on_heap_def INIT_LIST_HEAD_def list_add_tail_def
        internal_list_add_def read_prev_def write_prev_def write_next_def put_watcher_def idle_heap_def pipe_rw_def pipe_tw_def
        IO_DRIVER_EVENT_RX_def)
    done
  then show ?thesis by auto
qed

theorem io_pipe_init_all_or_nothing_witness:
  "\<exists>w1. io_pipe_init pipe_os 20 40 1 0 0 demo_pipe = Some (Some 0, w1)
    \<and> pipe_started {72, 104} 20 {} 40 1 0 0 demo_pipe (idle_lists {20, 72, 104}) (Some 0) w1"
  using io_pipe_init_all_or_nothing[OF pipe_os_ok demo_pipe_ready, of 1 0 0] demo_pipe_starts by auto

theorem io_pipe_close_undoes_init_witness:
  "\<exists>w1 w2. io_pipe_init pipe_os 20 40 1 0 0 demo_pipe = Some (Some 0, w1) \<and> io_pipe_close pipe_os 40 w1 = Some w2
    \<and> open_fds (trace w2) = {}"
proof -
  obtain w1 where w1: "io_pipe_init pipe_os 20 40 1 0 0 demo_pipe = Some (Some 0, w1)" using demo_pipe_starts by blast
  have "open_fds (trace demo_pipe) = {}" by (simp add: demo_pipe_def open_fds_def)
  then show ?thesis using io_pipe_close_undoes_init[OF pipe_os_ok demo_pipe_ready w1] w1 by metis
qed

theorem io_pipe_tx_lacks_driver_witness:
  "\<exists>w1. io_pipe_init pipe_os 20 40 1 0 0 demo_pipe = Some (Some 0, w1) \<and> io_pipe_tx pipe_os 40 0 2 w1 = None"
proof -
  obtain w1 where w1: "io_pipe_init pipe_os 20 40 1 0 0 demo_pipe = Some (Some 0, w1)" using demo_pipe_starts by blast
  have "pipe_started {72, 104} 20 {} 40 1 0 0 demo_pipe (idle_lists {20, 72, 104}) (Some 0) w1"
    using io_pipe_init_ok[OF pipe_os_ok demo_pipe_ready, of 1 0 0] w1 by auto
  then have "bufs w1 = bufs demo_pipe" unfolding pipe_started_def by blast
  then have b: "bytes_at 0 2 w1 = Some [1, 2]" by (simp add: bytes_at_def demo_pipe_def)
  have d: "pipe_driver (pipes demo_pipe 40) = NULL" by (simp add: demo_pipe_def)
  show ?thesis using io_pipe_tx_lacks_driver[OF pipe_os_ok demo_pipe_ready w1 d b refl] w1
    by (simp add: answer_def EAGAIN_def EWOULDBLOCK_def)
qed

text \<open>The child wrote two bytes.\<close>

definition calm_pipe_user :: "'a pipe_mem_scheme pipe_client" where
  "calm_pipe_user c p ev w = Some (io_pipe_return_continue, w)"

theorem io_pipe_rx_delivers_witness:
  "\<exists>w1 ev. io_pipe_rx_callback demo_os calm_pipe_user (pipe_rw 40) IO_DRIVER_EVENT_RX (io_pipe_set_rx_buf 40 1 4 demo_pipe)
      = map_option snd (call_pipe_cb calm_pipe_user 40 ev w1) \<and> pev ev = io_pipe_event_rx"
proof -
  let ?w = "io_pipe_set_rx_buf 40 1 4 demo_pipe"
  have b: "0 \<le> pipe_rx_size (pipes ?w 40)" "pipe_rx_size (pipes ?w 40) \<le> int (length (bufs ?w (pipe_rx_buf (pipes ?w 40))))"
    by (simp_all add: io_pipe_set_rx_buf_def put_pipe_def demo_pipe_def)
  have r: "demo_os (Sys_read (pipe_r (pipes ?w 40)) (pipe_rx_size (pipes ?w 40))) (trace ?w) = (answer 2)\<lparr>os_data := [104, 105]\<rparr>"
    by (simp add: io_pipe_set_rx_buf_def put_pipe_def demo_pipe_def demo_data_def)
  have e: "IO_DRIVER_EVENT_RX AND IO_DRIVER_EVENT_RX \<noteq> 0" "\<not> os_ret ((answer 2)\<lparr>os_data := [104, 105]\<rparr>) \<le> 0"
    by (simp_all add: IO_DRIVER_EVENT_RX_def answer_def)
  show ?thesis using io_pipe_rx_delivers[OF demo_os_ok b r e(1), of calm_pipe_user] e(2) by (simp only: if_False) blast
qed

end
