(* ===== verification/Dns_Util.thy ===== *)
theory Dns_Util
  imports Prelude
begin

text \<open>
  The DNS messages of \<open>src/src/dns_util.h\<close> and \<open>src/src/dns_util.c\<close>: building the query for an
  IPv4 address and parsing the response.

  A function returns \<open>None\<close> where the C code would access memory outside its buffer, and
  otherwise the C return value with the new state; a pointer into the buffer is an index, and the
  null pointer is \<open>None\<close> inside the result. Structures are the bytes of a little-endian target,
  which is what the bit fields of the source assume. A host name is its list of characters,
  without the final zero.

  The specification is the format of the messages: labels, resource records and their encoding.
\<close>

section \<open>State and operations\<close>

unbundle bit_operations_syntax

definition DNS_UTIL_MAX_HOST_ADDRESSES :: nat where
  "DNS_UTIL_MAX_HOST_ADDRESSES = 4"

record dns_util_host_addrs =
  n_addrs :: u8
  addrs :: "u32 list"

record dns_util =
  du_buf :: bytes
  buf_len :: int
  write_ndx :: int
  read_ndx :: int

definition dns_util_reset :: "bytes \<Rightarrow> int \<Rightarrow> dns_util" where
  "dns_util_reset buf len = \<lparr>du_buf = buf, buf_len = len, write_ndx = 0, read_ndx = 0\<rparr>"

text \<open>Loads and stores through a pointer into the buffer.\<close>

definition load8 :: "dns_util \<Rightarrow> int \<Rightarrow> u8 option" where
  "load8 d p = (if 0 \<le> p \<and> p < int (length (du_buf d)) then Some (du_buf d ! nat p) else None)"

definition store8 :: "dns_util \<Rightarrow> int \<Rightarrow> u8 \<Rightarrow> dns_util option" where
  "store8 d p b = (if 0 \<le> p \<and> p < int (length (du_buf d))
     then Some (d\<lparr>du_buf := (du_buf d)[nat p := b]\<rparr>) else None)"

fun store_bytes :: "dns_util \<Rightarrow> int \<Rightarrow> bytes \<Rightarrow> dns_util option" where
  "store_bytes d p [] = Some d"
| "store_bytes d p (b # bs) = do { d \<leftarrow> store8 d p b; store_bytes d (p + 1) bs }"

definition load16 :: "dns_util \<Rightarrow> int \<Rightarrow> u16 option" where
  "load16 d p = do {
     b0 \<leftarrow> load8 d p;
     b1 \<leftarrow> load8 d (p + 1);
     Some (ucast b0 OR push_bit 8 (ucast b1))
   }"

definition load32 :: "dns_util \<Rightarrow> int \<Rightarrow> u32 option" where
  "load32 d p = do {
     b0 \<leftarrow> load8 d p;
     b1 \<leftarrow> load8 d (p + 1);
     b2 \<leftarrow> load8 d (p + 2);
     b3 \<leftarrow> load8 d (p + 3);
     Some (ucast b0 OR push_bit 8 (ucast b1) OR push_bit 16 (ucast b2) OR push_bit 24 (ucast b3))
   }"

text \<open>\<open>ntohs\<close> and \<open>htons\<close> swap the two bytes; \<open>bytes16\<close> is how a 16 bit value lies in memory.\<close>

definition ntohs :: "u16 \<Rightarrow> u16" where
  "ntohs w = push_bit 8 w OR drop_bit 8 w"

definition bytes16 :: "u16 \<Rightarrow> bytes" where
  "bytes16 w = [ucast w, ucast (drop_bit 8 w)]"

definition dns_util_space_left :: "dns_util \<Rightarrow> u32" where
  "dns_util_space_left d = word_of_int (buf_len d - write_ndx d)"

definition dns_util_data_left :: "dns_util \<Rightarrow> u32" where
  "dns_util_data_left d = word_of_int (buf_len d - read_ndx d)"

definition dns_util_write_byte :: "dns_util \<Rightarrow> u8 \<Rightarrow> (int option \<times> dns_util) option" where
  "dns_util_write_byte d b =
     (if dns_util_space_left d < 1 then Some (None, d)
      else do {
        let p = write_ndx d;
        d \<leftarrow> store8 d p b;
        Some (Some p, d\<lparr>write_ndx := write_ndx d + 1\<rparr>)
      })"

definition dns_util_read :: "dns_util \<Rightarrow> int \<Rightarrow> (int option \<times> dns_util) option" where
  "dns_util_read d len =
     (if dns_util_data_left d < word_of_int len then Some (None, d)
      else do {
        let p = read_ndx d;
        n \<leftarrow> c_add (read_ndx d) len;
        Some (Some p, d\<lparr>read_ndx := n\<rparr>)
      })"

record dns_header =
  dh_id :: u16
  dh_rd :: bool
  dh_tc :: bool
  dh_aa :: bool
  dh_opcode :: "4 word"
  dh_qr :: bool
  dh_rcode :: "4 word"
  dh_cd :: bool
  dh_ad :: bool
  dh_z :: bool
  dh_ra :: bool
  q_count :: u16
  ans_count :: u16
  auth_count :: u16
  add_count :: u16

definition bit_at :: "nat \<Rightarrow> bool \<Rightarrow> u8" where
  "bit_at n b = (if b then push_bit n 1 else 0)"

text \<open>The twelve bytes of the structure.\<close>

definition dns_header_bytes :: "dns_header \<Rightarrow> bytes" where
  "dns_header_bytes h = bytes16 (dh_id h)
     @ [bit_at 0 (dh_rd h) OR bit_at 1 (dh_tc h) OR bit_at 2 (dh_aa h) OR push_bit 3 (ucast (dh_opcode h)) OR bit_at 7 (dh_qr h),
        ucast (dh_rcode h) OR bit_at 4 (dh_cd h) OR bit_at 5 (dh_ad h) OR bit_at 6 (dh_z h) OR bit_at 7 (dh_ra h)]
     @ bytes16 (q_count h) @ bytes16 (ans_count h) @ bytes16 (auth_count h) @ bytes16 (add_count h)"

definition sizeof_dns_header :: int where "sizeof_dns_header = 12"
definition sizeof_dns_question :: int where "sizeof_dns_question = 4"
definition sizeof_dns_r_data :: int where "sizeof_dns_r_data = 10"

definition query_header :: dns_header where
  "query_header = \<lparr>dh_id = 0, dh_rd = True, dh_tc = False, dh_aa = False, dh_opcode = 0, dh_qr = False,
     dh_rcode = 0, dh_cd = False, dh_ad = False, dh_z = False, dh_ra = False,
     q_count = ntohs 1, ans_count = 0, auth_count = 0, add_count = 0\<rparr>"

definition dns_util_build_request_query :: "dns_util \<Rightarrow> (int \<times> dns_util) option" where
  "dns_util_build_request_query d =
     (if dns_util_space_left d < word_of_int sizeof_dns_header then Some (-1, d)
      else do {
        d \<leftarrow> store_bytes d (write_ndx d) (dns_header_bytes query_header);
        Some (0, d\<lparr>write_ndx := write_ndx d + sizeof_dns_header\<rparr>)
      })"

definition CHR_DOT :: u8 where "CHR_DOT = 46"

text \<open>The loop over the characters of the host name; \<open>len_ptr\<close> is where the current length is.\<close>

fun qname_loop :: "dns_util \<Rightarrow> int \<Rightarrow> bytes \<Rightarrow> (int \<times> dns_util) option" where
  "qname_loop d len_ptr [] = do {
     (p, d) \<leftarrow> dns_util_write_byte d 0;
     Some (if p = None then -1 else 0, d)
   }"
| "qname_loop d len_ptr (c # cs) =
     (if c = CHR_DOT then do {
        (p, d) \<leftarrow> dns_util_write_byte d 0;
        case p of None \<Rightarrow> Some (-1, d) | Some len_ptr \<Rightarrow> qname_loop d len_ptr cs
      } else do {
        (p, d) \<leftarrow> dns_util_write_byte d c;
        case p of None \<Rightarrow> Some (-1, d)
        | Some _ \<Rightarrow> do {
            n \<leftarrow> load8 d len_ptr;
            d \<leftarrow> store8 d len_ptr (n + 1);
            qname_loop d len_ptr cs
          }
      })"

definition dns_util_build_qname :: "dns_util \<Rightarrow> bytes \<Rightarrow> (int \<times> dns_util) option" where
  "dns_util_build_qname d host = do {
     (p, d) \<leftarrow> dns_util_write_byte d 0;
     case p of None \<Rightarrow> Some (-1, d) | Some len_ptr \<Rightarrow> qname_loop d len_ptr host
   }"

partial_function (option) dns_util_parse_qname :: "dns_util \<Rightarrow> (int \<times> dns_util) option" where
  "dns_util_parse_qname d = do {
     (p, d) \<leftarrow> dns_util_read d 1;
     if p = None then Some (-1, d)
     else do {
       b \<leftarrow> load8 d (the p);
       if b = 0 then Some (0, d)
       else if b AND 0xc0 = 0xc0 then do {
         (q, d) \<leftarrow> dns_util_read d 1;
         Some (if q = None then -1 else 0, d)
       } else do {
         (q, d) \<leftarrow> dns_util_read d (uint b);
         if q = None then Some (-1, d) else dns_util_parse_qname d
       }
     }
   }"

definition T_A :: u16 where "T_A = 1"

definition dns_util_build_A_query :: "dns_util \<Rightarrow> bytes \<Rightarrow> (int \<times> dns_util) option" where
  "dns_util_build_A_query d target = do {
     (r, d) \<leftarrow> dns_util_build_request_query d;
     if r \<noteq> 0 then Some (-1, d)
     else do {
       (r, d) \<leftarrow> dns_util_build_qname d target;
       if r \<noteq> 0 then Some (-1, d)
       else if dns_util_space_left d < word_of_int sizeof_dns_question then Some (-1, d)
       else do {
         d \<leftarrow> store_bytes d (write_ndx d) (bytes16 (ntohs T_A) @ bytes16 (ntohs 1));
         let d = d\<lparr>write_ndx := write_ndx d + sizeof_dns_question\<rparr>;
         Some (write_ndx d, d)
       }
     }
   }"

text \<open>One resource record of the answer section.\<close>

definition parse_answer :: "dns_util \<Rightarrow> dns_util_host_addrs \<Rightarrow> (int \<times> dns_util \<times> dns_util_host_addrs) option" where
  "parse_answer d a = do {
     (r, d) \<leftarrow> dns_util_parse_qname d;
     if r \<noteq> 0 then Some (-1, d, a)
     else do {
       (p, d) \<leftarrow> dns_util_read d sizeof_dns_r_data;
       case p of None \<Rightarrow> Some (-1, d, a)
       | Some p \<Rightarrow> do {
           type \<leftarrow> load16 d p;
           class \<leftarrow> load16 d (p + 2);
           data_len \<leftarrow> load16 d (p + 8);
           if ntohs type = 1 \<and> ntohs class = 1
           then if ntohs data_len \<noteq> 4 then Some (-1, d, a)
           else do {
             (q, d) \<leftarrow> dns_util_read d 4;
             case q of None \<Rightarrow> Some (-1, d, a)
             | Some q \<Rightarrow>
                 if unat (n_addrs a) \<ge> DNS_UTIL_MAX_HOST_ADDRESSES then Some (0, d, a)
                 else do {
                   v \<leftarrow> load32 d q;
                   if unat (n_addrs a) < length (addrs a)
                   then Some (0, d, a\<lparr>addrs := (addrs a)[unat (n_addrs a) := v], n_addrs := n_addrs a + 1\<rparr>)
                   else None
                 }
           }
           else do {
             (q, d) \<leftarrow> dns_util_read d (uint (ntohs data_len));
             Some (if q = None then -1 else 0, d, a)
           }
         }
     }
   }"

fun parse_answers :: "nat \<Rightarrow> dns_util \<Rightarrow> dns_util_host_addrs \<Rightarrow> (int \<times> dns_util \<times> dns_util_host_addrs) option" where
  "parse_answers 0 d a = Some (0, d, a)"
| "parse_answers (Suc n) d a = do {
     (r, d, a) \<leftarrow> parse_answer d a;
     if r \<noteq> 0 then Some (-1, d, a) else parse_answers n d a
   }"

text \<open>\<open>qlen - sizeof(struct dns_header)\<close> is computed in \<open>size_t\<close> and passed as an \<open>int\<close>.\<close>

definition question_len :: "int \<Rightarrow> int" where
  "question_len qlen = sint (word_of_int (qlen - sizeof_dns_header) :: u32)"

definition dns_util_parse_A_response ::
  "dns_util \<Rightarrow> int \<Rightarrow> dns_util_host_addrs \<Rightarrow> (int \<times> dns_util \<times> dns_util_host_addrs) option" where
  "dns_util_parse_A_response d qlen a = do {
     (p, d) \<leftarrow> dns_util_read d sizeof_dns_header;
     case p of None \<Rightarrow> Some (-1, d, a)
     | Some h \<Rightarrow> do {
         n \<leftarrow> load16 d (h + 6);
         let count = unat (ntohs n);
         if count < 1 then Some (-1, d, a)
         else do {
           let a = a\<lparr>n_addrs := 0\<rparr>;
           (q, d) \<leftarrow> dns_util_read d (question_len qlen);
           if q = None then Some (-1, d, a) else parse_answers count d a
         }
       }
   }"

section \<open>The window of the reader\<close>

lemma u32_less:
  "0 \<le> a \<Longrightarrow> a \<le> INT_MAX \<Longrightarrow> 0 \<le> b \<Longrightarrow> b \<le> INT_MAX \<Longrightarrow> (word_of_int a :: u32) < word_of_int b \<longleftrightarrow> a < b"
  by (simp add: word_less_def uint_word_of_int_eq take_bit_int_eq_self INT_MAX_def)

definition dns_ok :: "dns_util \<Rightarrow> bool" where
  "dns_ok d \<longleftrightarrow> 0 \<le> read_ndx d \<and> read_ndx d \<le> buf_len d \<and> buf_len d \<le> int (length (du_buf d))
     \<and> int (length (du_buf d)) \<le> INT_MAX"

definition unread :: "dns_util \<Rightarrow> bytes" where
  "unread d = drop (nat (read_ndx d)) (take (nat (buf_len d)) (du_buf d))"

lemma length_unread: "dns_ok d \<Longrightarrow> int (length (unread d)) = buf_len d - read_ndx d"
  by (auto simp: dns_ok_def unread_def min_def of_nat_diff)

lemma data_left_less:
  "dns_ok d \<Longrightarrow> 0 \<le> n \<Longrightarrow> n \<le> INT_MAX \<Longrightarrow> dns_util_data_left d < word_of_int n \<longleftrightarrow> int (length (unread d)) < n"
  unfolding dns_util_data_left_def length_unread by (rule u32_less) (auto simp: dns_ok_def)

lemma dns_util_read_ok:
  assumes "dns_ok d" "n \<le> length (unread d)"
  shows "dns_util_read d (int n) = Some (Some (read_ndx d), d\<lparr>read_ndx := read_ndx d + int n\<rparr>)"
    and "dns_ok (d\<lparr>read_ndx := read_ndx d + int n\<rparr>)"
    and "unread (d\<lparr>read_ndx := read_ndx d + int n\<rparr>) = drop n (unread d)"
proof -
  have l: "buf_len d - read_ndx d = int (length (unread d))" using length_unread[OF assms(1)] by simp
  have r: "0 \<le> read_ndx d" "buf_len d \<le> INT_MAX" using assms(1) by (auto simp: dns_ok_def)
  have fits: "read_ndx d + int n \<le> buf_len d" using l assms(2) by linarith
  then have "\<not> dns_util_data_left d < word_of_int (int n)"
    using data_left_less[OF assms(1), of "int n"] assms(2) r l by auto
  moreover have "c_add (read_ndx d) (int n) = Some (read_ndx d + int n)"
    using fits r by (simp add: c_add_def int_range_def INT_MIN_def)
  ultimately show "dns_util_read d (int n) = Some (Some (read_ndx d), d\<lparr>read_ndx := read_ndx d + int n\<rparr>)"
    by (simp add: dns_util_read_def)
  show "dns_ok (d\<lparr>read_ndx := read_ndx d + int n\<rparr>)" using assms(1) fits by (simp add: dns_ok_def)
  show "unread (d\<lparr>read_ndx := read_ndx d + int n\<rparr>) = drop n (unread d)"
    using r by (simp add: unread_def nat_add_distrib add.commute)
qed

lemma dns_util_read_short:
  "dns_ok d \<Longrightarrow> length (unread d) < n \<Longrightarrow> int n \<le> INT_MAX \<Longrightarrow> dns_util_read d (int n) = Some (None, d)"
  using data_left_less[of d "int n"] by (simp add: dns_util_read_def)

text \<open>Loads from what has just been read.\<close>

lemma load8_unread:
  assumes "dns_ok d" "i < length (unread d)"
  shows "load8 (d\<lparr>read_ndx := k\<rparr>) (read_ndx d + int i) = Some (unread d ! i)"
proof -
  have l: "buf_len d - read_ndx d = int (length (unread d))" using length_unread[OF assms(1)] by simp
  have r: "0 \<le> read_ndx d" "buf_len d \<le> int (length (du_buf d))" using assms(1) by (auto simp: dns_ok_def)
  then have "nat (read_ndx d) + i < nat (buf_len d)" using l assms(2) by linarith
  then show ?thesis using r by (simp add: load8_def unread_def nat_add_distrib nth_drop)
qed

lemma load16_unread:
  assumes "dns_ok d" "Suc i < length (unread d)"
  shows "load16 (d\<lparr>read_ndx := k\<rparr>) (read_ndx d + int i)
    = Some (ucast (unread d ! i) OR push_bit 8 (ucast (unread d ! Suc i)))"
proof -
  have "read_ndx d + int i + 1 = read_ndx d + int (Suc i)" by simp
  then show ?thesis
    using load8_unread[OF assms(1), of i k] load8_unread[OF assms(1), of "Suc i" k] assms(2)
    by (simp only: load16_def) simp
qed

lemma load32_unread:
  assumes "dns_ok d" "3 < length (unread d)"
  shows "load32 (d\<lparr>read_ndx := k\<rparr>) (read_ndx d)
    = Some (ucast (unread d ! 0) OR push_bit 8 (ucast (unread d ! 1)) OR push_bit 16 (ucast (unread d ! 2))
        OR push_bit 24 (ucast (unread d ! 3)))"
proof -
  have "unread d \<noteq> []" using assms(2) by auto
  then show ?thesis
    using load8_unread[OF assms(1), of 0 k] load8_unread[OF assms(1), of 1 k] load8_unread[OF assms(1), of 2 k]
      load8_unread[OF assms(1), of 3 k] assms(2)
    by (simp add: load32_def)
qed

text \<open>Where reading has got to: \<open>d'\<close> differs from \<open>d\<close> in the read position only.\<close>

definition advanced :: "dns_util \<Rightarrow> dns_util \<Rightarrow> bool" where
  "advanced d d' \<longleftrightarrow> dns_ok d' \<and> (\<exists>n. n \<le> length (unread d) \<and> d' = d\<lparr>read_ndx := read_ndx d + int n\<rparr>
     \<and> unread d' = drop n (unread d))"

lemma advanced_refl: "dns_ok d \<Longrightarrow> advanced d d"
  unfolding advanced_def by (intro conjI exI[of _ 0]) simp_all

lemma advanced_trans: "advanced d d' \<Longrightarrow> advanced d' d'' \<Longrightarrow> advanced d d''"
proof -
  assume a: "advanced d d'" "advanced d' d''"
  then obtain n m where n: "n \<le> length (unread d)" "d' = d\<lparr>read_ndx := read_ndx d + int n\<rparr>" "unread d' = drop n (unread d)"
    and m: "m \<le> length (unread d')" "d'' = d'\<lparr>read_ndx := read_ndx d' + int m\<rparr>" "unread d'' = drop m (unread d')"
    unfolding advanced_def by blast
  have "n + m \<le> length (unread d)" using n(1,3) m(1) by simp
  moreover have "d'' = d\<lparr>read_ndx := read_ndx d + int (n + m)\<rparr>" using n(2) m(2) by simp
  moreover have "unread d'' = drop (n + m) (unread d)" using n(3) m(3) by (simp add: add.commute)
  ultimately show ?thesis using a(2) unfolding advanced_def by blast
qed

lemma advanced_ok: "advanced d d' \<Longrightarrow> dns_ok d'" "advanced d d' \<Longrightarrow> du_buf d' = du_buf d"
  "advanced d d' \<Longrightarrow> write_ndx d' = write_ndx d" "advanced d d' \<Longrightarrow> length (unread d') \<le> length (unread d)"
  by (auto simp: advanced_def)

lemma dns_util_read_cases:
  assumes "dns_ok d" "0 \<le> n" "n \<le> INT_MAX"
  obtains "dns_util_read d n = Some (None, d)" "int (length (unread d)) < n"
  | d' where "dns_util_read d n = Some (Some (read_ndx d), d')" "d' = d\<lparr>read_ndx := read_ndx d + n\<rparr>"
      "advanced d d'" "unread d' = drop (nat n) (unread d)" "n \<le> int (length (unread d))"
proof (cases "int (length (unread d)) < n")
  case True
  then show ?thesis using that(1) dns_util_read_short[OF assms(1), of "nat n"] assms by simp
next
  case False
  then have k: "nat n \<le> length (unread d)" using assms(2) by linarith
  note r = dns_util_read_ok[OF assms(1) k]
  have n: "int (nat n) = n" using assms(2) by simp
  have "advanced d (d\<lparr>read_ndx := read_ndx d + n\<rparr>)"
    using r(2,3) k assms(2) unfolding advanced_def n by (intro conjI exI[of _ "nat n"]) simp_all
  then show ?thesis using that(2) r(1,3) False unfolding n by auto
qed

section \<open>Safety and termination of the parser\<close>

lemma parse_qname_total:
  "dns_ok d \<Longrightarrow> \<exists>r d'. dns_util_parse_qname d = Some (r, d') \<and> advanced d d' \<and> r \<in> {0, -1}"
proof (induction "length (unread d)" arbitrary: d rule: less_induct)
  case less
  have one: "(0::int) \<le> 1" "1 \<le> INT_MAX" by (simp_all add: INT_MAX_def)
  show ?case
  proof (rule dns_util_read_cases[OF less.prems one])
    assume "dns_util_read d 1 = Some (None, d)"
    then show ?thesis using advanced_refl[OF less.prems] by (subst dns_util_parse_qname.simps) simp
  next
    fix d1 assume d1: "dns_util_read d 1 = Some (Some (read_ndx d), d1)" "d1 = d\<lparr>read_ndx := read_ndx d + 1\<rparr>"
      "advanced d d1" "unread d1 = drop (nat 1) (unread d)" "1 \<le> int (length (unread d))"
    define b where "b = unread d ! 0"
    have ok1: "dns_ok d1" by (rule advanced_ok(1)[OF d1(3)])
    have lb: "load8 d1 (read_ndx d) = Some b"
      using load8_unread[OF less.prems, of 0 "read_ndx d + 1"] d1(2,5) by (cases "unread d") (simp_all add: b_def)
    have sh: "length (unread d1) < length (unread d)" using d1(4,5) by simp
    show ?thesis
    proof (cases "b = 0 \<or> b AND 0xc0 = 0xc0")
      case True
      show ?thesis
      proof (rule dns_util_read_cases[OF ok1 one])
        assume "dns_util_read d1 1 = Some (None, d1)"
        then show ?thesis using True d1(1,3) lb by (subst dns_util_parse_qname.simps) (cases "b = 0"; simp)
      next
        fix d2 assume "dns_util_read d1 1 = Some (Some (read_ndx d1), d2)" "advanced d1 d2"
        then show ?thesis using True d1(1,3) lb advanced_trans[OF d1(3) \<open>advanced d1 d2\<close>]
          by (subst dns_util_parse_qname.simps) (cases "b = 0"; simp)
      qed
    next
      case False
      have nb: "0 \<le> uint b" "uint b \<le> INT_MAX"
        using uint_lt2p[of b] by (simp_all add: INT_MAX_def)
      show ?thesis
      proof (rule dns_util_read_cases[OF ok1 nb])
        assume "dns_util_read d1 (uint b) = Some (None, d1)"
        then show ?thesis using False d1(1,3) lb by (subst dns_util_parse_qname.simps) simp
      next
        fix d2 assume d2: "dns_util_read d1 (uint b) = Some (Some (read_ndx d1), d2)" "advanced d1 d2"
        have "length (unread d2) < length (unread d)" using advanced_ok(4)[OF d2(2)] sh by simp
        from less.hyps[OF this advanced_ok(1)[OF d2(2)]] obtain r d' where
          "dns_util_parse_qname d2 = Some (r, d')" "advanced d2 d'" "r \<in> {0, -1}" by blast
        then show ?thesis using False d1(1) lb d2(1) advanced_trans[OF advanced_trans[OF d1(3) d2(2)]]
          by (subst dns_util_parse_qname.simps) simp
      qed
    qed
  qed
qed

definition host_addrs_ok :: "dns_util_host_addrs \<Rightarrow> bool" where
  "host_addrs_ok a \<longleftrightarrow> length (addrs a) = DNS_UTIL_MAX_HOST_ADDRESSES \<and> unat (n_addrs a) \<le> DNS_UTIL_MAX_HOST_ADDRESSES"

lemma loads_after_read:
  assumes "dns_ok d" "10 \<le> length (unread d)"
  shows "\<exists>t c l. load16 (d\<lparr>read_ndx := k\<rparr>) (read_ndx d) = Some t \<and> load16 (d\<lparr>read_ndx := k\<rparr>) (read_ndx d + 2) = Some c
    \<and> load16 (d\<lparr>read_ndx := k\<rparr>) (read_ndx d + 8) = Some l"
  using load16_unread[OF assms(1), of 0 k] load16_unread[OF assms(1), of 2 k] load16_unread[OF assms(1), of 8 k] assms(2)
  by simp

lemma small_ints:
  "(0::int) \<le> 4 \<and> 4 \<le> INT_MAX" "0 \<le> sizeof_dns_r_data \<and> sizeof_dns_r_data \<le> INT_MAX"
  "0 \<le> sizeof_dns_header \<and> sizeof_dns_header \<le> INT_MAX"
  by (simp_all add: INT_MAX_def sizeof_dns_r_data_def sizeof_dns_header_def)

lemma u16_int: "0 \<le> uint (w :: u16) \<and> uint w \<le> INT_MAX"
  using uint_lt2p[of w] by (simp add: INT_MAX_def)

lemma parse_answer_total:
  assumes "dns_ok d" "host_addrs_ok a"
  shows "\<exists>r d' a'. parse_answer d a = Some (r, d', a') \<and> advanced d d' \<and> host_addrs_ok a' \<and> r \<in> {0, -1}"
proof -
  obtain r d1 where d1: "dns_util_parse_qname d = Some (r, d1)" "advanced d d1" "r \<in> {0, -1}"
    using parse_qname_total[OF assms(1)] by blast
  show ?thesis
  proof (cases "r = 0")
    case False
    then show ?thesis using d1 assms(2) by (simp add: parse_answer_def)
  next
    case r: True
    note ok1 = advanced_ok(1)[OF d1(2)]
    show ?thesis
    proof (rule dns_util_read_cases[OF ok1 small_ints(2)[THEN conjunct1] small_ints(2)[THEN conjunct2]])
      assume "dns_util_read d1 sizeof_dns_r_data = Some (None, d1)"
      then show ?thesis using d1 r assms(2) by (simp add: parse_answer_def)
    next
      fix d2 assume d2: "dns_util_read d1 sizeof_dns_r_data = Some (Some (read_ndx d1), d2)"
        "d2 = d1\<lparr>read_ndx := read_ndx d1 + sizeof_dns_r_data\<rparr>" "advanced d1 d2"
        "sizeof_dns_r_data \<le> int (length (unread d1))"
      note ok2 = advanced_ok(1)[OF d2(3)] and a2 = advanced_trans[OF d1(2) d2(3)]
      obtain t c l where ld: "load16 d2 (read_ndx d1) = Some t" "load16 d2 (read_ndx d1 + 2) = Some c"
        "load16 d2 (read_ndx d1 + 8) = Some l"
        using loads_after_read[OF ok1, of "read_ndx d1 + sizeof_dns_r_data"] d2(2,4) by (auto simp: sizeof_dns_r_data_def)
      note start = d1(1) r d2(1) ld
      show ?thesis
      proof (cases "ntohs t = 1 \<and> ntohs c = 1")
        case False
        show ?thesis
        proof (rule dns_util_read_cases[OF ok2 u16_int[of "ntohs l", THEN conjunct1] u16_int[THEN conjunct2]])
          assume "dns_util_read d2 (uint (ntohs l)) = Some (None, d2)"
          then show ?thesis using start a2 assms(2) by (simp add: parse_answer_def False)
        next
          fix d3 assume "dns_util_read d2 (uint (ntohs l)) = Some (Some (read_ndx d2), d3)" "advanced d2 d3"
          then show ?thesis using start advanced_trans[OF a2] assms(2) by (simp add: parse_answer_def False)
        qed
      next
        case tc: True
        show ?thesis
        proof (cases "ntohs l = 4")
          case False
          then show ?thesis using tc start a2 assms(2) by (simp add: parse_answer_def)
        next
          case l: True
          show ?thesis
          proof (rule dns_util_read_cases[OF ok2 small_ints(1)[THEN conjunct1] small_ints(1)[THEN conjunct2]])
            assume "dns_util_read d2 4 = Some (None, d2)"
            then show ?thesis using tc l start a2 assms(2) by (simp add: parse_answer_def)
          next
            fix d3 assume d3: "dns_util_read d2 4 = Some (Some (read_ndx d2), d3)" "d3 = d2\<lparr>read_ndx := read_ndx d2 + 4\<rparr>"
              "advanced d2 d3" "4 \<le> int (length (unread d2))"
            obtain v where v: "load32 d3 (read_ndx d2) = Some v" using load32_unread[OF ok2, of "read_ndx d2 + 4"] d3(2,4) by simp
            note a3 = advanced_trans[OF a2 d3(3)]
            show ?thesis
            proof (cases "unat (n_addrs a) \<ge> DNS_UTIL_MAX_HOST_ADDRESSES")
              case True
              then show ?thesis using tc l start d3(1) a3 assms(2) by (simp add: parse_answer_def)
            next
              case False
              then have n: "unat (n_addrs a) < 4" "length (addrs a) = 4"
                using assms(2) by (auto simp: host_addrs_ok_def DNS_UTIL_MAX_HOST_ADDRESSES_def)
              then have "unat (n_addrs a + 1) = unat (n_addrs a) + 1" by (simp add: unat_word_ariths)
              then have "host_addrs_ok (a\<lparr>addrs := (addrs a)[unat (n_addrs a) := v], n_addrs := n_addrs a + 1\<rparr>)"
                using n by (simp add: host_addrs_ok_def DNS_UTIL_MAX_HOST_ADDRESSES_def)
              then show ?thesis using False n tc l start d3(1) v a3 by (simp add: parse_answer_def)
            qed
          qed
        qed
      qed
    qed
  qed
qed

lemma parse_answers_total:
  "dns_ok d \<Longrightarrow> host_addrs_ok a \<Longrightarrow>
   \<exists>r d' a'. parse_answers n d a = Some (r, d', a') \<and> advanced d d' \<and> host_addrs_ok a' \<and> r \<in> {0, -1}"
proof (induction n arbitrary: d a)
  case 0
  then show ?case using advanced_refl by auto
next
  case (Suc n)
  obtain r d1 a1 where 1: "parse_answer d a = Some (r, d1, a1)" "advanced d d1" "host_addrs_ok a1" "r \<in> {0, -1}"
    using parse_answer_total[OF Suc.prems] by blast
  obtain r2 d2 a2 where "parse_answers n d1 a1 = Some (r2, d2, a2)" "advanced d1 d2" "host_addrs_ok a2" "r2 \<in> {0, -1}"
    using Suc.IH[OF advanced_ok(1)[OF 1(2)] 1(3)] by blast
  then show ?case using 1 advanced_trans[OF 1(2)] by (cases "r = 0") auto
qed

lemma sint_small: "INT_MIN \<le> x \<Longrightarrow> x \<le> INT_MAX \<Longrightarrow> sint (word_of_int x :: u32) = x"
  by (simp add: signed_of_int INT_MIN_def INT_MAX_def signed_take_bit_int_eq_self)

lemma question_len_small: "12 \<le> q \<Longrightarrow> q \<le> INT_MAX \<Longrightarrow> question_len q = q - 12"
  unfolding question_len_def sizeof_dns_header_def by (rule sint_small) (simp_all add: INT_MIN_def)

lemma uint_negative:
  "INT_MIN \<le> n \<Longrightarrow> n < 0 \<Longrightarrow> INT_MAX < uint (word_of_int n :: u32)"
proof -
  assume a: "INT_MIN \<le> n" "n < 0"
  have "uint (word_of_int n :: u32) = n mod 2 ^ 32" by (simp add: uint_word_of_int)
  also have "\<dots> = (n + 2 ^ 32) mod 2 ^ 32" by simp
  also have "\<dots> = n + 2 ^ 32" by (rule mod_pos_pos_trivial) (use a in \<open>simp_all add: INT_MIN_def\<close>)
  finally show ?thesis using a by (simp add: INT_MIN_def INT_MAX_def)
qed

lemma uint_small: "0 \<le> n \<Longrightarrow> n \<le> INT_MAX \<Longrightarrow> uint (word_of_int n :: u32) = n"
  by (simp add: uint_word_of_int_eq take_bit_int_eq_self INT_MAX_def)

lemma dns_util_read_negative:
  assumes "dns_ok d" "INT_MIN \<le> n" "n < 0"
  shows "dns_util_read d n = Some (None, d)"
proof -
  have b: "0 \<le> buf_len d - read_ndx d" "buf_len d - read_ndx d \<le> INT_MAX" using assms(1) by (auto simp: dns_ok_def)
  then have "dns_util_data_left d < word_of_int n"
    unfolding dns_util_data_left_def word_less_def uint_small[OF b] using uint_negative[OF assms(2,3)] b by linarith
  then show ?thesis by (simp add: dns_util_read_def)
qed

lemma parse_A_response_total:
  assumes "dns_ok d" "host_addrs_ok a"
  shows "\<exists>r d' a'. dns_util_parse_A_response d qlen a = Some (r, d', a') \<and> advanced d d' \<and> host_addrs_ok a' \<and> r \<in> {0, -1}"
proof (rule dns_util_read_cases[OF assms(1) small_ints(3)[THEN conjunct1] small_ints(3)[THEN conjunct2]])
  assume "dns_util_read d sizeof_dns_header = Some (None, d)"
  then show ?thesis using assms advanced_refl by (simp add: dns_util_parse_A_response_def)
next
  fix d1 assume d1: "dns_util_read d sizeof_dns_header = Some (Some (read_ndx d), d1)"
    "d1 = d\<lparr>read_ndx := read_ndx d + sizeof_dns_header\<rparr>" "advanced d d1" "sizeof_dns_header \<le> int (length (unread d))"
  note ok1 = advanced_ok(1)[OF d1(3)]
  obtain n where n: "load16 d1 (read_ndx d + 6) = Some n"
    using load16_unread[OF assms(1), of 6 "read_ndx d + sizeof_dns_header"] d1(2,4) by (simp add: sizeof_dns_header_def)
  let ?a = "a\<lparr>n_addrs := 0\<rparr>"
  have a0: "host_addrs_ok ?a" using assms(2) by (simp add: host_addrs_ok_def)
  have "\<exists>q d2. dns_util_read d1 (question_len qlen) = Some (q, d2) \<and> advanced d1 d2"
  proof (cases "question_len qlen < 0")
    case True
    have "INT_MIN \<le> question_len qlen"
      using sint_ge[of "word_of_int (qlen - sizeof_dns_header) :: u32"] by (simp add: question_len_def INT_MIN_def)
    then show ?thesis using dns_util_read_negative[OF ok1 _ True] advanced_refl[OF ok1] by blast
  next
    case False
    have "question_len qlen \<le> INT_MAX"
      using sint_lt[of "word_of_int (qlen - sizeof_dns_header) :: u32"] by (simp add: question_len_def INT_MAX_def)
    with False show ?thesis
      using dns_util_read_cases[OF ok1, of "question_len qlen"] advanced_refl[OF ok1] by (metis linorder_not_less)
  qed
  then obtain q d2 where d2: "dns_util_read d1 (question_len qlen) = Some (q, d2)" "advanced d1 d2" by blast
  note a2 = advanced_trans[OF d1(3) d2(2)]
  obtain r d3 a3 where "parse_answers (unat (ntohs n)) d2 ?a = Some (r, d3, a3)" "advanced d2 d3" "host_addrs_ok a3" "r \<in> {0, -1}"
    using parse_answers_total[OF advanced_ok(1)[OF d2(2)] a0] by blast
  then show ?thesis using d1(1,3) n d2(1) a2 advanced_trans[OF a2] a0 assms(2)
    by (simp add: dns_util_parse_A_response_def Let_def)
qed

section \<open>What the query builder writes\<close>

text \<open>Bytes appended at the write position.\<close>

definition append_bytes :: "dns_util \<Rightarrow> bytes \<Rightarrow> dns_util" where
  "append_bytes d bs = d\<lparr>du_buf := take (nat (write_ndx d)) (du_buf d) @ bs @ drop (nat (write_ndx d) + length bs) (du_buf d),
     write_ndx := write_ndx d + int (length bs)\<rparr>"

definition writer_ok :: "dns_util \<Rightarrow> bool" where
  "writer_ok d \<longleftrightarrow> 0 \<le> write_ndx d \<and> write_ndx d \<le> buf_len d \<and> buf_len d \<le> int (length (du_buf d))
     \<and> int (length (du_buf d)) \<le> INT_MAX"

definition room :: "dns_util \<Rightarrow> nat" where
  "room d = nat (buf_len d - write_ndx d)"

lemma append_bytes_simps:
  "write_ndx (append_bytes d bs) = write_ndx d + int (length bs)"
  "buf_len (append_bytes d bs) = buf_len d"
  "read_ndx (append_bytes d bs) = read_ndx d"
  by (simp_all add: append_bytes_def)

lemma append_nothing: "append_bytes d [] = d"
  by (simp add: append_bytes_def)

lemma writer_fits:
  assumes "writer_ok d" "length bs \<le> room d"
  shows "nat (write_ndx d) + length bs \<le> length (du_buf d)" "0 \<le> write_ndx d"
    "int (nat (write_ndx d)) = write_ndx d" "length (du_buf (append_bytes d bs)) = length (du_buf d)"
proof -
  show 0: "0 \<le> write_ndx d" and "int (nat (write_ndx d)) = write_ndx d" using assms(1) by (auto simp: writer_ok_def)
  show 1: "nat (write_ndx d) + length bs \<le> length (du_buf d)"
    using assms by (simp add: writer_ok_def room_def) linarith
  then show "length (du_buf (append_bytes d bs)) = length (du_buf d)" by (simp add: append_bytes_def)
qed

lemma append_append:
  assumes "writer_ok d" "length bs \<le> room d"
  shows "append_bytes (append_bytes d bs) cs = append_bytes d (bs @ cs)"
proof -
  note f = writer_fits[OF assms]
  have "nat (write_ndx d + int (length bs)) = nat (write_ndx d) + length bs" using f(2) by (simp add: nat_add_distrib)
  moreover have "min (length (du_buf d)) (nat (write_ndx d)) = nat (write_ndx d)" using f(1) by simp
  ultimately show ?thesis using f(1) by (simp add: append_bytes_def add_ac)
qed

lemma append_writer_ok: "writer_ok d \<Longrightarrow> length bs \<le> room d \<Longrightarrow> writer_ok (append_bytes d bs)"
  using writer_fits[of d bs] by (auto simp: writer_ok_def append_bytes_simps room_def)

lemma append_room: "writer_ok d \<Longrightarrow> length bs \<le> room d \<Longrightarrow> room (append_bytes d bs) = room d - length bs"
  by (simp add: room_def append_bytes_simps)

text \<open>Access to the bytes appended so far.\<close>

lemma load8_append:
  assumes "writer_ok d" "length bs \<le> room d" "i < length bs"
  shows "load8 (append_bytes d bs) (write_ndx d + int i) = Some (bs ! i)"
proof -
  note f = writer_fits[OF assms(1,2)]
  have "nat (write_ndx d + int i) = nat (write_ndx d) + i" using f(2) by (simp add: nat_add_distrib)
  moreover have "0 \<le> write_ndx d + int i \<and> write_ndx d + int i < int (length (du_buf d))" using f assms(3) by linarith
  ultimately show ?thesis using f(1) assms(3) unfolding load8_def f(4) by (simp add: append_bytes_def nth_append)
qed

lemma store8_append:
  assumes "writer_ok d" "length bs \<le> room d" "i < length bs"
  shows "store8 (append_bytes d bs) (write_ndx d + int i) b = Some (append_bytes d (bs[i := b]))"
proof -
  note f = writer_fits[OF assms(1,2)]
  have "nat (write_ndx d + int i) = nat (write_ndx d) + i" using f(2) by (simp add: nat_add_distrib)
  moreover have "0 \<le> write_ndx d + int i \<and> write_ndx d + int i < int (length (du_buf d))" using f assms(3) by linarith
  ultimately show ?thesis using f(1) assms(3) unfolding store8_def f(4) by (simp add: append_bytes_def list_update_append)
qed

lemma store8_end:
  assumes "writer_ok d" "0 < room d"
  shows "store8 d (write_ndx d) b = Some (append_bytes d [b]\<lparr>write_ndx := write_ndx d\<rparr>)"
proof -
  have "nat (write_ndx d) < length (du_buf d)" "0 \<le> write_ndx d" using writer_fits[of d "[b]"] assms by auto
  then show ?thesis by (simp add: store8_def append_bytes_def upd_conv_take_nth_drop nat_less_iff)
qed

lemma dns_util_write_byte_eq:
  assumes "writer_ok d"
  shows "dns_util_write_byte d b = (if 0 < room d then Some (Some (write_ndx d), append_bytes d [b]) else Some (None, d))"
proof -
  have b: "0 \<le> buf_len d - write_ndx d" "buf_len d - write_ndx d \<le> INT_MAX" using assms by (auto simp: writer_ok_def)
  have "(dns_util_space_left d < word_of_int 1) = (buf_len d - write_ndx d < 1)"
    unfolding dns_util_space_left_def by (rule u32_less) (use b in \<open>simp_all add: INT_MAX_def\<close>)
  then have "(dns_util_space_left d < 1) = (room d = 0)" by (simp add: room_def) linarith
  then show ?thesis using store8_end[OF assms]
    by (cases "room d = 0") (simp_all add: dns_util_write_byte_def append_bytes_def Let_def)
qed

lemma space_left_less:
  assumes "writer_ok d" "int n \<le> INT_MAX"
  shows "(dns_util_space_left d < word_of_int (int n)) = (room d < n)"
proof -
  have b: "0 \<le> buf_len d - write_ndx d" "buf_len d - write_ndx d \<le> INT_MAX" using assms(1) by (auto simp: writer_ok_def)
  have "(dns_util_space_left d < word_of_int (int n)) = (buf_len d - write_ndx d < int n)"
    unfolding dns_util_space_left_def by (rule u32_less[OF b]) (use assms(2) in simp_all)
  then show ?thesis using b by (simp add: room_def) linarith
qed

lemma store_bytes_end:
  "writer_ok d \<Longrightarrow> length bs \<le> room d \<Longrightarrow> k = length cs \<Longrightarrow> length cs + length bs \<le> room d \<Longrightarrow>
   store_bytes (append_bytes d cs\<lparr>write_ndx := w\<rparr>) (write_ndx d + int k) bs = Some (append_bytes d (cs @ bs)\<lparr>write_ndx := w\<rparr>)"
proof (induction bs arbitrary: cs k)
  case Nil
  then show ?case by simp
next
  case (Cons b bs)
  let ?d = "append_bytes d cs"
  have k: "length cs \<le> room d" "0 < room ?d" using Cons.prems append_room[of d cs] by auto
  have "store8 (?d\<lparr>write_ndx := w\<rparr>) (write_ndx d + int k) b = map_option (\<lambda>e. e\<lparr>write_ndx := w\<rparr>) (store8 ?d (write_ndx d + int k) b)"
    by (simp add: store8_def)
  also have "store8 ?d (write_ndx d + int k) b = Some (append_bytes d (cs @ [b])\<lparr>write_ndx := write_ndx d + int k\<rparr>)"
    using store8_end[OF append_writer_ok[OF Cons.prems(1) k(1)] k(2), of b] append_append[OF Cons.prems(1) k(1)] Cons.prems(3)
    by (simp add: append_bytes_simps)
  finally have s: "store8 (?d\<lparr>write_ndx := w\<rparr>) (write_ndx d + int k) b = Some (append_bytes d (cs @ [b])\<lparr>write_ndx := w\<rparr>)" by simp
  have "store_bytes (append_bytes d (cs @ [b])\<lparr>write_ndx := w\<rparr>) (write_ndx d + int k + 1) bs
    = Some (append_bytes d ((cs @ [b]) @ bs)\<lparr>write_ndx := w\<rparr>)"
    using Cons.IH[of "Suc k" "cs @ [b]"] Cons.prems by (simp add: add_ac)
  then show ?case by (simp add: s)
qed

lemma store_bytes_append:
  assumes "writer_ok d" "length bs \<le> room d"
  shows "store_bytes d (write_ndx d) bs = Some (append_bytes d bs\<lparr>write_ndx := write_ndx d\<rparr>)"
  using store_bytes_end[OF assms, of 0 "[]" "write_ndx d"] assms(2) by (simp add: append_nothing)

text \<open>
  The labels of a host name are its parts between the dots; a name is encoded as its labels, each
  after a byte with its length, and a zero byte.
\<close>

fun labels :: "bytes \<Rightarrow> bytes list" where
  "labels [] = [[]]"
| "labels (c # cs) = (if c = CHR_DOT then [] # labels cs else (c # hd (labels cs)) # tl (labels cs))"

definition encode_label :: "bytes \<Rightarrow> bytes" where
  "encode_label l = word_of_nat (length l) # l"

definition encode_labels :: "bytes list \<Rightarrow> bytes" where
  "encode_labels ls = concat (List.map encode_label ls)"

definition encode_name :: "bytes \<Rightarrow> bytes" where
  "encode_name host = encode_labels (labels host) @ [0]"

lemma labels_not_empty: "labels cs \<noteq> []"
  by (cases cs) auto

lemma encode_labels_simps: "encode_labels [] = []" "encode_labels (l # ls) = encode_label l @ encode_labels ls"
  by (simp_all add: encode_labels_def)

lemma length_encode_labels: "length (encode_labels (labels cs)) = length cs + 1"
proof (induction cs)
  case Nil
  then show ?case by (simp add: encode_labels_simps encode_label_def)
next
  case (Cons c cs)
  then show ?case using labels_not_empty[of cs]
    by (cases "labels cs") (simp_all add: encode_labels_simps encode_label_def)
qed

lemma length_encode_name: "length (encode_name host) = length host + 2"
  by (simp add: encode_name_def length_encode_labels)

lemma qname_loop_eq:
  assumes "writer_ok d" "length (pre @ encode_label lab) \<le> room d"
  shows "if length (pre @ encode_label lab) + length cs + 1 \<le> room d
    then qname_loop (append_bytes d (pre @ encode_label lab)) (write_ndx d + int (length pre)) cs
      = Some (0, append_bytes d (pre @ encode_labels ((lab @ hd (labels cs)) # tl (labels cs)) @ [0]))
    else \<exists>d'. qname_loop (append_bytes d (pre @ encode_label lab)) (write_ndx d + int (length pre)) cs = Some (-1, d')"
  using assms(2)
proof (induction cs arbitrary: pre lab)
  case Nil
  let ?d = "append_bytes d (pre @ encode_label lab)"
  have "room ?d = room d - length (pre @ encode_label lab)" by (rule append_room[OF assms(1) Nil])
  moreover have "append_bytes ?d [0] = append_bytes d (pre @ encode_label lab @ [0])"
    using append_append[OF assms(1) Nil] by simp
  ultimately show ?case
    using dns_util_write_byte_eq[OF append_writer_ok[OF assms(1) Nil], of 0]
    by (auto simp: encode_labels_simps)
next
  case (Cons c cs)
  let ?p = "pre @ encode_label lab" and ?d = "append_bytes d (pre @ encode_label lab)"
  have room: "room ?d = room d - length ?p" by (rule append_room[OF assms(1) Cons.prems])
  note wb = dns_util_write_byte_eq[OF append_writer_ok[OF assms(1) Cons.prems]]
  have app: "append_bytes ?d bs = append_bytes d (?p @ bs)" for bs by (rule append_append[OF assms(1) Cons.prems])
  have w: "write_ndx ?d = write_ndx d + int (length ?p)" by (simp add: append_bytes_simps)
  show ?case
  proof (cases "0 < room ?d")
    case False
    then show ?thesis using room Cons.prems wb by auto
  next
    case True
    then have fit: "length ?p + 1 \<le> room d" using room by linarith
    show ?thesis
    proof (cases "c = CHR_DOT")
      case dot: True
      have z: "?p @ [0] = ?p @ encode_label []" by (simp add: encode_label_def)
      have E: "qname_loop ?d (write_ndx d + int (length pre)) (c # cs)
          = qname_loop (append_bytes d (?p @ encode_label [])) (write_ndx d + int (length ?p)) cs"
        using True dot wb[of 0] app w z by simp
      have F: "pre @ encode_labels ((lab @ hd (labels (c # cs))) # tl (labels (c # cs))) @ [0]
          = ?p @ encode_labels (([] @ hd (labels cs)) # tl (labels cs)) @ [0]"
        using dot labels_not_empty[of cs] by (simp add: encode_labels_simps)
      have G: "length ?p + length (c # cs) + 1 = length (?p @ encode_label []) + length cs + 1"
        "length (?p @ encode_label []) \<le> room d"
        using fit by (simp_all add: encode_label_def)
      show ?thesis unfolding E F G(1) by (rule Cons.IH[OF G(2)])
    next
      case False
      have n: "length pre < length (?p @ [c])" "length (?p @ [c]) \<le> room d" using fit by simp_all
      have l: "load8 (append_bytes d (?p @ [c])) (write_ndx d + int (length pre)) = Some (word_of_nat (length lab))"
        using load8_append[OF assms(1) n(2,1)] by (simp add: nth_append encode_label_def)
      have upd: "(?p @ [c])[length pre := word_of_nat (length lab) + 1] = pre @ encode_label (lab @ [c])"
        by (simp add: encode_label_def list_update_append)
      have s: "store8 (append_bytes d (?p @ [c])) (write_ndx d + int (length pre)) (word_of_nat (length lab) + 1)
          = Some (append_bytes d (pre @ encode_label (lab @ [c])))"
        using store8_append[OF assms(1) n(2,1)] by (simp only: upd)
      have E: "qname_loop ?d (write_ndx d + int (length pre)) (c # cs)
          = qname_loop (append_bytes d (pre @ encode_label (lab @ [c]))) (write_ndx d + int (length pre)) cs"
        using True False wb[of c] app l s by simp
      have F: "lab @ hd (labels (c # cs)) = (lab @ [c]) @ hd (labels cs)" "tl (labels (c # cs)) = tl (labels cs)"
        using False by simp_all
      have G: "length ?p + length (c # cs) + 1 = length (pre @ encode_label (lab @ [c])) + length cs + 1"
        "length (pre @ encode_label (lab @ [c])) \<le> room d"
        using fit by (simp_all add: encode_label_def)
      show ?thesis unfolding E F G(1) by (rule Cons.IH[OF G(2)])
    qed
  qed
qed

lemma dns_util_build_qname_eq:
  assumes "writer_ok d"
  shows "if length (encode_name host) \<le> room d
    then dns_util_build_qname d host = Some (0, append_bytes d (encode_name host))
    else \<exists>d'. dns_util_build_qname d host = Some (-1, d')"
proof (cases "0 < room d")
  case False
  then show ?thesis using dns_util_write_byte_eq[OF assms] by (simp add: dns_util_build_qname_def length_encode_name)
next
  case True
  have "dns_util_build_qname d host = qname_loop (append_bytes d ([] @ encode_label [])) (write_ndx d + int (length [])) host"
    using True dns_util_write_byte_eq[OF assms] by (simp add: dns_util_build_qname_def encode_label_def)
  moreover have "length ([] @ encode_label []) \<le> room d" using True by (simp add: encode_label_def)
  ultimately show ?thesis unfolding length_encode_name
    using qname_loop_eq[OF assms, of "[]" "[]" host] labels_not_empty[of host]
    by (cases "length host + 2 \<le> room d") (simp_all add: encode_label_def encode_name_def)
qed

definition query_bytes :: "bytes \<Rightarrow> bytes" where
  "query_bytes host = dns_header_bytes query_header @ encode_name host @ [0, 1, 0, 1]"

lemma length_dns_header_bytes: "length (dns_header_bytes h) = 12"
  by (simp add: dns_header_bytes_def bytes16_def)

lemma bytes16_htons_1: "bytes16 (ntohs T_A) @ bytes16 (ntohs 1) = [0, 1, 0, 1]"
  by (simp add: bytes16_def ntohs_def T_A_def)

lemma build_request_query_eq:
  assumes "writer_ok d"
  shows "dns_util_build_request_query d
    = Some (if 12 \<le> room d then (0, append_bytes d (dns_header_bytes query_header)) else (-1, d))"
proof -
  let ?h = "dns_header_bytes query_header"
  have b: "(dns_util_space_left d < word_of_int sizeof_dns_header) = (room d < 12)"
    using space_left_less[OF assms, of 12] by (simp add: sizeof_dns_header_def INT_MAX_def)
  have "12 \<le> room d \<Longrightarrow> store_bytes d (write_ndx d) ?h = Some (append_bytes d ?h\<lparr>write_ndx := write_ndx d\<rparr>)"
    using store_bytes_append[OF assms, of ?h] by (simp add: length_dns_header_bytes)
  then show ?thesis using b
    by (auto simp: dns_util_build_request_query_def sizeof_dns_header_def append_bytes_def length_dns_header_bytes)
qed

lemma build_A_query_eq:
  assumes "writer_ok d"
  shows "if length (query_bytes host) \<le> room d
    then dns_util_build_A_query d host = Some (write_ndx d + int (length (query_bytes host)), append_bytes d (query_bytes host))
    else \<exists>d'. dns_util_build_A_query d host = Some (-1, d')"
proof -
  let ?h = "dns_header_bytes query_header" and ?n = "encode_name host"
  have len: "length (query_bytes host) = 12 + length ?n + 4"
    by (simp add: query_bytes_def length_dns_header_bytes)
  show ?thesis
  proof (cases "12 \<le> room d")
    case False
    then show ?thesis using build_request_query_eq[OF assms] len by (simp add: dns_util_build_A_query_def)
  next
    case h: True
    have h': "length ?h \<le> room d" using h by (simp add: length_dns_header_bytes)
    let ?d1 = "append_bytes d ?h"
    note ok1 = append_writer_ok[OF assms h']
    have r1: "room ?d1 = room d - 12" using append_room[OF assms h'] by (simp add: length_dns_header_bytes)
    have q1: "dns_util_build_request_query d = Some (0, ?d1)" using build_request_query_eq[OF assms] h by simp
    show ?thesis
    proof (cases "length ?n \<le> room ?d1")
      case False
      then obtain d' where "dns_util_build_qname ?d1 host = Some (-1, d')" using dns_util_build_qname_eq[OF ok1, of host] by auto
      moreover have "\<not> length (query_bytes host) \<le> room d" using False r1 h len by linarith
      ultimately show ?thesis using q1 by (simp add: dns_util_build_A_query_def)
    next
      case n: True
      let ?d2 = "append_bytes ?d1 ?n"
      have q2: "dns_util_build_qname ?d1 host = Some (0, ?d2)" using dns_util_build_qname_eq[OF ok1, of host] n by simp
      note ok2 = append_writer_ok[OF ok1 n]
      have r2: "room ?d2 = room d - 12 - length ?n" using append_room[OF ok1 n] r1 by simp
      have s: "(dns_util_space_left ?d2 < word_of_int sizeof_dns_question) = (room ?d2 < 4)"
        using space_left_less[OF ok2, of 4] by (simp add: sizeof_dns_question_def INT_MAX_def)
      show ?thesis
      proof (cases "4 \<le> room ?d2")
        case False
        then have "\<not> length (query_bytes host) \<le> room d" using r2 h n r1 len by linarith
        then show ?thesis using False q1 q2 s by (simp add: dns_util_build_A_query_def)
      next
        case True
        let ?t = "[0, 1, 0, 1] :: bytes"
        have t: "length ?t \<le> room ?d2" using True by simp
        have all: "append_bytes ?d2 ?t = append_bytes d (query_bytes host)"
          using append_append[OF assms h', of "?n @ ?t"] append_append[OF ok1 n, of ?t] by (simp add: query_bytes_def)
        have st: "store_bytes ?d2 (write_ndx ?d2) ?t = Some (append_bytes ?d2 ?t\<lparr>write_ndx := write_ndx ?d2\<rparr>)"
          by (rule store_bytes_append[OF ok2 t])
        have w: "write_ndx ?d2 + sizeof_dns_question = write_ndx d + int (length (query_bytes host))"
          unfolding len by (simp add: append_bytes_simps sizeof_dns_question_def length_dns_header_bytes)
        have e: "append_bytes ?d2 ?t\<lparr>write_ndx := write_ndx ?d2 + sizeof_dns_question\<rparr> = append_bytes ?d2 ?t"
          by (simp add: append_bytes_def[of ?d2] sizeof_dns_question_def)
        have "dns_util_build_A_query d host = Some (write_ndx ?d2 + sizeof_dns_question, append_bytes ?d2 ?t)"
          using q1 q2 s True st e
          by (simp add: dns_util_build_A_query_def bytes16_htons_1 Let_def del: append_append)
        moreover have "length (query_bytes host) \<le> room d" using True r2 n r1 h len by linarith
        ultimately show ?thesis using all w by simp
      qed
    qed
  qed
qed

section \<open>What the parser reads\<close>

lemma pointer_byte: "(b :: u8) AND 0xc0 = 0xc0 \<Longrightarrow> 0xc0 \<le> b"
  using word_and_le2[of b "0xc0"] by simp

definition label_ok :: "bytes \<Rightarrow> bool" where
  "label_ok l \<longleftrightarrow> 0 < length l \<and> length l < 192"

lemma label_byte:
  assumes "label_ok l"
  shows "uint (word_of_nat (length l) :: u8) = int (length l)" "(word_of_nat (length l) :: u8) \<noteq> 0"
    "(word_of_nat (length l) :: u8) AND 0xc0 \<noteq> 0xc0"
proof -
  show u: "uint (word_of_nat (length l) :: u8) = int (length l)"
    using assms by (simp add: label_ok_def uint_word_of_int_eq[of "int (length l)", simplified] take_bit_int_eq_self)
  show "(word_of_nat (length l) :: u8) \<noteq> 0" using u assms by (auto simp: label_ok_def)
  have "\<not> (0xc0 :: u8) \<le> word_of_nat (length l)" using u assms by (simp add: word_le_def label_ok_def)
  then show "(word_of_nat (length l) :: u8) AND 0xc0 \<noteq> 0xc0" using pointer_byte by blast
qed

text \<open>The end of a name is a zero byte or a pointer of two bytes.\<close>

definition name_end :: "bytes \<Rightarrow> bool" where
  "name_end e \<longleftrightarrow> e = [0] \<or> (\<exists>hi lo. e = [hi, lo] \<and> hi AND 0xc0 = 0xc0)"

definition skip :: "dns_util \<Rightarrow> nat \<Rightarrow> dns_util" where
  "skip d n = d\<lparr>read_ndx := read_ndx d + int n\<rparr>"

lemma skip_simps: "read_ndx (skip d n) = read_ndx d + int n" "du_buf (skip d n) = du_buf d"
  "skip (skip d n) m = skip d (n + m)" "skip d 0 = d"
  by (simp_all add: skip_def)

lemma read_bytes:
  assumes "dns_ok d" "unread d = bs @ rest"
  shows "dns_util_read d (int (length bs)) = Some (Some (read_ndx d), skip d (length bs))"
    "dns_ok (skip d (length bs))" "unread (skip d (length bs)) = rest"
  using dns_util_read_ok[OF assms(1), of "length bs"] assms(2) by (simp_all add: skip_def)

lemma load8_skip: "dns_ok d \<Longrightarrow> i < length (unread d) \<Longrightarrow> load8 (skip d n) (read_ndx d + int i) = Some (unread d ! i)"
  unfolding skip_def by (rule load8_unread)

lemma parse_qname_end:
  assumes "dns_ok d" "unread d = e @ rest" "name_end e"
  shows "dns_util_parse_qname d = Some (0, skip d (length e))"
proof -
  consider "e = [0]" | hi lo where "e = [hi, lo]" "hi AND 0xc0 = 0xc0" using assms(3) unfolding name_end_def by blast
  then show ?thesis
  proof cases
    case 1
    have "load8 (skip d 1) (read_ndx d) = Some 0" using load8_skip[OF assms(1), of 0 1] assms(2) 1 by simp
    then show ?thesis using read_bytes(1)[of d "[0]" rest] assms 1 by (subst dns_util_parse_qname.simps) simp
  next
    case 2
    have u: "unread d = [hi] @ lo # rest" using assms(2) 2 by simp
    have l: "load8 (skip d 1) (read_ndx d) = Some hi" using load8_skip[OF assms(1), of 0 1] u by simp
    have nz: "hi \<noteq> 0" using 2(2) by auto
    note r = read_bytes[OF assms(1) u]
    have r2: "dns_util_read (skip d 1) 1 = Some (Some (read_ndx d + 1), skip d 2)"
      using read_bytes(1)[of "skip d 1" "[lo]" rest] r(2,3) by (simp add: skip_simps numeral_2_eq_2)
    show ?thesis using r(1) l r2 2 nz by (subst dns_util_parse_qname.simps) (simp add: numeral_2_eq_2)
  qed
qed

lemma parse_qname_labels:
  "dns_ok d \<Longrightarrow> unread d = encode_labels ls @ e @ rest \<Longrightarrow> name_end e \<Longrightarrow> list_all label_ok ls \<Longrightarrow>
   dns_util_parse_qname d = Some (0, skip d (length (encode_labels ls @ e)))"
proof (induction ls arbitrary: d)
  case Nil
  then show ?case using parse_qname_end[of d e rest] by (simp add: encode_labels_simps)
next
  case (Cons l ls)
  let ?n = "word_of_nat (length l) :: u8" and ?d1 = "skip d 1"
  have u: "unread d = [?n] @ l @ encode_labels ls @ e @ rest"
    using Cons.prems(2) by (simp add: encode_labels_simps encode_label_def)
  have ok: "label_ok l" using Cons.prems(4) by simp
  note r1 = read_bytes[OF Cons.prems(1) u]
  have ld: "load8 ?d1 (read_ndx d) = Some ?n" using load8_skip[OF Cons.prems(1), of 0 1] u by simp
  have d1: "dns_ok ?d1" "unread ?d1 = l @ encode_labels ls @ e @ rest" using r1(2,3) by simp_all
  note r2 = read_bytes[OF d1]
  have q: "dns_util_read ?d1 (uint ?n) = Some (Some (read_ndx ?d1), skip ?d1 (length l))"
    using r2(1) by (simp only: label_byte(1)[OF ok])
  have "dns_util_parse_qname d = dns_util_parse_qname (skip ?d1 (length l))"
    using r1(1) ld q label_byte(2,3)[OF ok] by (subst dns_util_parse_qname.simps) simp
  then show ?case using Cons.IH[OF r2(2,3) Cons.prems(3)] Cons.prems(4)
    by (simp add: skip_simps encode_labels_simps encode_label_def add_ac)
qed

text \<open>A resource record and the bytes it is sent as.\<close>

definition be16 :: "u16 \<Rightarrow> bytes" where
  "be16 w = [ucast (drop_bit 8 w), ucast w]"

record resource_record =
  rr_labels :: "bytes list"
  rr_end :: bytes
  rr_type :: u16
  rr_class :: u16
  rr_ttl :: "u8 \<times> u8 \<times> u8 \<times> u8"
  rr_data :: bytes

definition encode_rr :: "resource_record \<Rightarrow> bytes" where
  "encode_rr r = encode_labels (rr_labels r) @ rr_end r @ be16 (rr_type r) @ be16 (rr_class r)
     @ (case rr_ttl r of (t0, t1, t2, t3) \<Rightarrow> [t0, t1, t2, t3]) @ be16 (word_of_nat (length (rr_data r))) @ rr_data r"

definition is_A :: "resource_record \<Rightarrow> bool" where
  "is_A r \<longleftrightarrow> rr_type r = 1 \<and> rr_class r = 1"

definition rr_ok :: "resource_record \<Rightarrow> bool" where
  "rr_ok r \<longleftrightarrow> list_all label_ok (rr_labels r) \<and> name_end (rr_end r) \<and> length (rr_data r) < 2 ^ 16
     \<and> (is_A r \<longrightarrow> length (rr_data r) = 4)"

definition le32 :: "bytes \<Rightarrow> u32" where
  "le32 b = ucast (b ! 0) OR push_bit 8 (ucast (b ! 1)) OR push_bit 16 (ucast (b ! 2)) OR push_bit 24 (ucast (b ! 3))"

definition A_addresses :: "resource_record list \<Rightarrow> u32 list" where
  "A_addresses rs = List.map (\<lambda>r. le32 (rr_data r)) (filter is_A rs)"

lemma ntohs_be16: "ntohs (ucast (ucast (drop_bit 8 w) :: u8) OR push_bit 8 (ucast (ucast w :: u8))) = w"
  unfolding ntohs_def by (rule bit_word_eqI)
    (auto simp: bit_or_iff bit_push_bit_iff bit_drop_bit_eq bit_ucast_iff dest: bit_imp_le_length)

lemma load16_be16:
  assumes "dns_ok d" "unread d = pre @ be16 w @ rest"
  shows "\<exists>v. load16 (skip d k) (read_ndx d + int (length pre)) = Some v \<and> ntohs v = w"
proof -
  have "Suc (length pre) < length (unread d)" using assms(2) by (simp add: be16_def)
  from load16_unread[OF assms(1) this, of "read_ndx d + int k"] assms(2)
  have "load16 (skip d k) (read_ndx d + int (length pre))
    = Some (ucast (ucast (drop_bit 8 w) :: u8) OR push_bit 8 (ucast (ucast w :: u8)))"
    by (simp add: skip_def be16_def nth_append)
  then show ?thesis using ntohs_be16 by blast
qed

text \<open>Storing an address: at most four are kept.\<close>

definition add_address :: "dns_util_host_addrs \<Rightarrow> u32 \<Rightarrow> dns_util_host_addrs" where
  "add_address a v = (if unat (n_addrs a) \<ge> DNS_UTIL_MAX_HOST_ADDRESSES then a
     else a\<lparr>addrs := (addrs a)[unat (n_addrs a) := v], n_addrs := n_addrs a + 1\<rparr>)"

definition stored :: "dns_util_host_addrs \<Rightarrow> u32 list" where
  "stored a = take (unat (n_addrs a)) (addrs a)"

lemma add_address_ok:
  assumes "host_addrs_ok a"
  shows "host_addrs_ok (add_address a v)" "stored (add_address a v) = take 4 (stored a @ [v])"
proof -
  note o = assms[unfolded host_addrs_ok_def DNS_UTIL_MAX_HOST_ADDRESSES_def]
  have "unat (n_addrs a) < 4 \<Longrightarrow> unat (n_addrs a + 1) = unat (n_addrs a) + 1" by (simp add: unat_word_ariths)
  then show "host_addrs_ok (add_address a v)"
    using o by (auto simp: add_address_def host_addrs_ok_def DNS_UTIL_MAX_HOST_ADDRESSES_def)
  show "stored (add_address a v) = take 4 (stored a @ [v])"
  proof (cases "unat (n_addrs a) \<ge> 4")
    case True
    then show ?thesis using o by (simp add: add_address_def stored_def DNS_UTIL_MAX_HOST_ADDRESSES_def)
  next
    case False
    then have "unat (n_addrs a + 1) = Suc (unat (n_addrs a))" by (simp add: unat_word_ariths)
    then show ?thesis using o False
      by (simp add: add_address_def stored_def DNS_UTIL_MAX_HOST_ADDRESSES_def take_Suc_conv_app_nth)
  qed
qed

definition add_record :: "dns_util_host_addrs \<Rightarrow> resource_record \<Rightarrow> dns_util_host_addrs" where
  "add_record a r = (if is_A r then add_address a (le32 (rr_data r)) else a)"

lemma uint_length16: "n < 2 ^ 16 \<Longrightarrow> uint (word_of_nat n :: u16) = int n"
  by (simp add: unsigned_of_nat take_bit_nat_eq_self)

lemma parse_answer_encoded:
  assumes "dns_ok d" "unread d = encode_rr r @ rest" "rr_ok r" "host_addrs_ok a"
  shows "\<exists>d'. parse_answer d a = Some (0, d', add_record a r) \<and> dns_ok d' \<and> unread d' = rest"
proof -
  obtain t0 t1 t2 t3 where ttl: "rr_ttl r = (t0, t1, t2, t3)" by (cases "rr_ttl r") auto
  let ?name = "encode_labels (rr_labels r) @ rr_end r"
  let ?n = "word_of_nat (length (rr_data r)) :: u16"
  let ?fix = "be16 (rr_type r) @ be16 (rr_class r) @ [t0, t1, t2, t3] @ be16 ?n"
  have u0: "unread d = encode_labels (rr_labels r) @ rr_end r @ (?fix @ rr_data r @ rest)"
    using assms(2) ttl by (simp add: encode_rr_def)
  then have u: "unread d = ?name @ (?fix @ rr_data r @ rest)" by simp
  have q: "dns_util_parse_qname d = Some (0, skip d (length ?name))"
    using parse_qname_labels[OF assms(1) u0] assms(3) by (simp add: rr_ok_def)
  let ?d1 = "skip d (length ?name)"
  have ok1: "dns_ok ?d1" and u1: "unread ?d1 = ?fix @ rr_data r @ rest" using read_bytes(2,3)[OF assms(1) u] by auto
  have ten: "length ?fix = 10" by (simp add: be16_def)
  let ?d2 = "skip ?d1 10"
  have r1: "dns_util_read ?d1 sizeof_dns_r_data = Some (Some (read_ndx ?d1), ?d2)"
    and ok2: "dns_ok ?d2" and u2: "unread ?d2 = rr_data r @ rest"
    using read_bytes[OF ok1 u1] unfolding ten by (simp_all add: sizeof_dns_r_data_def)
  obtain t where t: "load16 ?d2 (read_ndx ?d1) = Some t" "ntohs t = rr_type r"
    using load16_be16[OF ok1, of "[]" "rr_type r"] u1 by force
  obtain c where c: "load16 ?d2 (read_ndx ?d1 + 2) = Some c" "ntohs c = rr_class r"
    using load16_be16[OF ok1, of "be16 (rr_type r)" "rr_class r"] u1 by (force simp: be16_def)
  obtain l where l: "load16 ?d2 (read_ndx ?d1 + 8) = Some l" "ntohs l = ?n"
    using load16_be16[OF ok1, of "be16 (rr_type r) @ be16 (rr_class r) @ [t0, t1, t2, t3]" ?n] u1 by (force simp: be16_def)
  note start = q r1 t c l
  have n: "uint ?n = int (length (rr_data r))" using uint_length16[of "length (rr_data r)"] assms(3) by (simp add: rr_ok_def)
  note r2 = read_bytes[OF ok2 u2]
  show ?thesis
  proof (cases "is_A r")
    case False
    have F: "(ntohs t = 1 \<and> ntohs c = 1) = False" using False t c by (simp add: is_A_def)
    have "dns_util_read ?d2 (uint (ntohs l)) = Some (Some (read_ndx ?d2), skip ?d2 (length (rr_data r)))"
      unfolding l(2) n by (rule r2(1))
    then have "parse_answer d a = Some (0, skip ?d2 (length (rr_data r)), a)"
      using q r1 t(1) c(1) l(1) by (simp add: parse_answer_def F)
    then show ?thesis using r2(2,3) False by (simp add: add_record_def)
  next
    case True
    then have len: "length (rr_data r) = 4" using assms(3) by (simp add: rr_ok_def)
    have n4: "ntohs l = 4" using l(2) len by simp
    have T: "ntohs t = 1" "ntohs c = 1" using True t(2) c(2) by (simp_all add: is_A_def)
    have r4: "dns_util_read ?d2 4 = Some (Some (read_ndx ?d2), skip ?d2 4)" using r2(1) by (simp add: len)
    have "load32 (skip ?d2 4) (read_ndx ?d2) = Some (le32 (unread ?d2))"
      unfolding skip_def[of ?d2] le32_def by (rule load32_unread[OF ok2]) (unfold u2, simp add: len)
    moreover have "le32 (unread ?d2) = le32 (rr_data r)" unfolding u2 by (simp add: len le32_def nth_append)
    ultimately have v: "load32 (skip ?d2 4) (read_ndx ?d2) = Some (le32 (rr_data r))" by simp
    have "parse_answer d a = Some (0, skip ?d2 4, add_address a (le32 (rr_data r)))"
    proof (cases "unat (n_addrs a) \<ge> DNS_UTIL_MAX_HOST_ADDRESSES")
      case f: True
      show ?thesis using q r1 t(1) c(1) l(1) T n4 r4 f by (simp add: parse_answer_def add_address_def)
    next
      case f: False
      have "unat (n_addrs a) < length (addrs a)" using f assms(4) by (simp add: host_addrs_ok_def)
      then show ?thesis using q r1 t(1) c(1) l(1) T n4 r4 f v by (simp add: parse_answer_def add_address_def)
    qed
    then show ?thesis using r2(2,3) True by (simp add: add_record_def len)
  qed
qed

lemma parse_answers_encoded:
  "dns_ok d \<Longrightarrow> unread d = concat (List.map encode_rr rs) @ rest \<Longrightarrow> list_all rr_ok rs \<Longrightarrow> host_addrs_ok a \<Longrightarrow>
   \<exists>d'. parse_answers (length rs) d a = Some (0, d', foldl add_record a rs) \<and> dns_ok d' \<and> unread d' = rest"
proof (induction rs arbitrary: d a)
  case Nil
  then show ?case by simp
next
  case (Cons r rs)
  have u: "unread d = encode_rr r @ (concat (List.map encode_rr rs) @ rest)" using Cons.prems(2) by simp
  obtain d1 where d1: "parse_answer d a = Some (0, d1, add_record a r)" "dns_ok d1"
    "unread d1 = concat (List.map encode_rr rs) @ rest"
    using parse_answer_encoded[OF Cons.prems(1) u _ Cons.prems(4)] Cons.prems(3) by auto
  have "host_addrs_ok (add_record a r)" using add_address_ok(1)[OF Cons.prems(4)] Cons.prems(4) by (simp add: add_record_def)
  then obtain d2 where "parse_answers (length rs) d1 (add_record a r) = Some (0, d2, foldl add_record (add_record a r) rs)"
    "dns_ok d2" "unread d2 = rest"
    using Cons.IH[OF d1(2,3)] Cons.prems(3) by auto
  then show ?case using d1(1) by simp
qed

lemma stored_add_records:
  "host_addrs_ok a \<Longrightarrow> stored (foldl add_record a rs) = take 4 (stored a @ A_addresses rs) \<and> host_addrs_ok (foldl add_record a rs)"
proof (induction rs arbitrary: a)
  case Nil
  then show ?case by (auto simp: A_addresses_def stored_def host_addrs_ok_def DNS_UTIL_MAX_HOST_ADDRESSES_def)
next
  case (Cons r rs)
  have ok: "host_addrs_ok (add_record a r)" using add_address_ok(1)[OF Cons.prems] Cons.prems by (simp add: add_record_def)
  have "stored (add_record a r) = take 4 (stored a @ A_addresses [r])"
    using add_address_ok(2)[OF Cons.prems] Cons.prems
    by (auto simp: add_record_def A_addresses_def stored_def host_addrs_ok_def DNS_UTIL_MAX_HOST_ADDRESSES_def)
  moreover have "A_addresses (r # rs) = A_addresses [r] @ A_addresses rs" by (simp add: A_addresses_def)
  ultimately show ?case using Cons.IH[OF ok] by (simp add: take_append min_def)
qed

section \<open>The properties\<close>

text \<open>C16: The response parser always returns. Whatever bytes the received message holds, whatever the
  query length given and however its names are formed, \<open>dns_util_parse_A_response\<close> ends with 0 or -1
  without an access outside the buffer or outside the four address slots: every step either fails or
  consumes bytes, the buffer is unchanged, the read position stays inside the message and at most
  four addresses are counted.\<close>

theorem dns_util_parse_A_response_returns:
  assumes "dns_ok d" "host_addrs_ok a"
  shows "\<exists>r d' a'. dns_util_parse_A_response d qlen a = Some (r, d', a') \<and> r \<in> {0, -1} \<and> du_buf d' = du_buf d
    \<and> read_ndx d \<le> read_ndx d' \<and> read_ndx d' \<le> buf_len d \<and> unat (n_addrs a') \<le> 4 \<and> length (addrs a') = 4"
proof -
  obtain r d' a' where p: "dns_util_parse_A_response d qlen a = Some (r, d', a')" "advanced d d'" "host_addrs_ok a'" "r \<in> {0, -1}"
    using parse_A_response_total[OF assms] by blast
  have "read_ndx d \<le> read_ndx d' \<and> read_ndx d' \<le> buf_len d" using p(2) by (auto simp: advanced_def dns_ok_def)
  then show ?thesis using p advanced_ok(2)[OF p(2)] by (auto simp: host_addrs_ok_def DNS_UTIL_MAX_HOST_ADDRESSES_def)
qed

lemma dns_util_parse_A_response_returns_witness:
  "\<exists>r d' a'. dns_util_parse_A_response (dns_util_reset [0, 0, 1, 0, 0, 1, 0, 9, 0, 0, 0, 0, 0xc1, 0xc0] 14) 13
      \<lparr>n_addrs = 0, addrs = [0, 0, 0, 0]\<rparr> = Some (r, d', a') \<and> unat (n_addrs a') \<le> 4"
proof -
  have "dns_ok (dns_util_reset [0, 0, 1, 0, 0, 1, 0, 9, 0, 0, 0, 0, 0xc1, 0xc0] 14)"
    by (simp add: dns_ok_def dns_util_reset_def INT_MAX_def)
  moreover have "host_addrs_ok \<lparr>n_addrs = 0, addrs = [0, 0, 0, 0]\<rparr>"
    by (simp add: host_addrs_ok_def DNS_UTIL_MAX_HOST_ADDRESSES_def)
  ultimately show ?thesis using dns_util_parse_A_response_returns[where qlen = 13] by blast
qed

text \<open>C17: \<open>dns_util_build_A_query\<close> writes a well-formed query or reports that it does not fit. With a
  buffer that has room for it, it appends exactly the twelve header bytes, the labels of the host
  name each after its length byte and closed by a zero, and the type and class of an IPv4 address
  query, leaves every other byte of the buffer, and returns the write position; with less room it
  returns -1 without writing outside the buffer.\<close>

theorem dns_util_build_A_query_writes:
  assumes "writer_ok d"
  shows "if length (query_bytes host) \<le> room d
    then dns_util_build_A_query d host = Some (write_ndx d + int (length (query_bytes host)), append_bytes d (query_bytes host))
    else \<exists>d'. dns_util_build_A_query d host = Some (-1, d')"
  by (rule build_A_query_eq[OF assms])

definition demo_dns_buffer :: dns_util where
  "demo_dns_buffer = dns_util_reset (replicate 30 0xff) 30"

lemma dns_util_build_A_query_writes_witness:
  "\<exists>d'. dns_util_build_A_query demo_dns_buffer [97, 98, 46, 99] = Some (22, d')
    \<and> take 24 (du_buf d') = [0, 0, 1, 0, 0, 1, 0, 0, 0, 0, 0, 0, 2, 97, 98, 1, 99, 0, 0, 1, 0, 1, 0xff, 0xff]"
proof -
  have q: "query_bytes [97, 98, 46, 99] = [0, 0, 1, 0, 0, 1, 0, 0, 0, 0, 0, 0, 2, 97, 98, 1, 99, 0, 0, 1, 0, 1]"
    by (simp add: query_bytes_def dns_header_bytes_def query_header_def bytes16_def ntohs_def bit_at_def encode_name_def
        CHR_DOT_def encode_labels_def encode_label_def)
  have "writer_ok demo_dns_buffer" by (simp add: writer_ok_def demo_dns_buffer_def dns_util_reset_def INT_MAX_def)
  from dns_util_build_A_query_writes[OF this, of "[97, 98, 46, 99]"] show ?thesis unfolding q
    by (simp add: room_def demo_dns_buffer_def dns_util_reset_def append_bytes_def eval_nat_numeral)
qed

text \<open>A name that was built is read back as one name. If every label of the host name has between 1
  and 191 characters and the buffer has room, \<open>dns_util_build_qname\<close> succeeds, and
  \<open>dns_util_parse_qname\<close>, started where the name was written, succeeds and stops exactly where
  writing stopped.\<close>

theorem dns_util_parse_qname_of_build_qname:
  assumes "writer_ok d" "length (encode_name host) \<le> room d" "list_all label_ok (labels host)"
  shows "\<exists>d'. dns_util_build_qname d host = Some (0, d')
    \<and> dns_util_parse_qname (d'\<lparr>read_ndx := write_ndx d\<rparr>) = Some (0, d'\<lparr>read_ndx := write_ndx d'\<rparr>)"
proof -
  let ?d = "append_bytes d (encode_name host)" let ?e = "?d\<lparr>read_ndx := write_ndx d\<rparr>"
  note f = writer_fits[OF assms(1,2)]
  have ok: "dns_ok ?e" using assms(1) append_writer_ok[OF assms(1,2)] f(2,4)
    by (simp add: dns_ok_def writer_ok_def append_bytes_simps)
  have "nat (write_ndx d) + length (encode_name host) \<le> nat (buf_len d)"
    using assms(1,2) by (simp add: writer_ok_def room_def) linarith
  then have "take (length (encode_name host)) (unread ?e) = encode_name host"
    using f(1) by (simp add: unread_def append_bytes_def take_drop)
  then obtain rest where u: "unread ?e = encode_labels (labels host) @ [0] @ rest"
    unfolding encode_name_def by (metis append.assoc append_take_drop_id)
  have "dns_util_parse_qname ?e = Some (0, skip ?e (length (encode_name host)))"
    unfolding encode_name_def by (rule parse_qname_labels[OF ok[unfolded encode_name_def] u[unfolded encode_name_def]])
      (use assms(3) in \<open>simp_all add: name_end_def\<close>)
  then have "dns_util_parse_qname ?e = Some (0, ?d\<lparr>read_ndx := write_ndx ?d\<rparr>)"
    by (simp add: skip_def append_bytes_simps)
  moreover have "dns_util_build_qname d host = Some (0, ?d)" using dns_util_build_qname_eq[OF assms(1), of host] assms(2) by simp
  ultimately show ?thesis by blast
qed

lemma dns_util_parse_qname_of_build_qname_witness:
  "\<exists>d'. dns_util_build_qname demo_dns_buffer [97, 98, 46, 99] = Some (0, d')
    \<and> dns_util_parse_qname (d'\<lparr>read_ndx := 0\<rparr>) = Some (0, d'\<lparr>read_ndx := write_ndx d'\<rparr>)"
  using dns_util_parse_qname_of_build_qname[of demo_dns_buffer "[97, 98, 46, 99]"]
  by (simp add: writer_ok_def demo_dns_buffer_def dns_util_reset_def INT_MAX_def room_def length_encode_name CHR_DOT_def label_ok_def)

text \<open>C15: A response is read as the addresses it carries. For a message made of a header announcing
  its answer records, the question whose length is given, and the encodings of the records (names of
  labels ended by a zero or a compression pointer, any types, IPv4 records with four bytes of data),
  \<open>dns_util_parse_A_response\<close> returns 0 and the table holds the addresses of the IPv4 records, in
  their order and at most the first four.\<close>

theorem dns_util_parse_A_response_of_encoding:
  assumes "dns_ok d" "unread d = hdr @ be16 (word_of_nat (length rs)) @ tl_hdr @ question @ concat (List.map encode_rr rs) @ rest"
    "length hdr = 6" "length tl_hdr = 4" "list_all rr_ok rs" "rs \<noteq> []" "length rs < 2 ^ 16" "host_addrs_ok a"
  shows "\<exists>d' a'. dns_util_parse_A_response d (12 + int (length question)) a = Some (0, d', a') \<and> unread d' = rest
    \<and> stored a' = take 4 (A_addresses rs) \<and> unat (n_addrs a') = min 4 (length (A_addresses rs))"
proof -
  let ?h = "hdr @ be16 (word_of_nat (length rs)) @ tl_hdr" and ?n = "word_of_nat (length rs) :: u16"
  let ?body = "question @ concat (List.map encode_rr rs) @ rest"
  have l12: "length ?h = 12" using assms(3,4) by (simp add: be16_def)
  have u: "unread d = ?h @ ?body" using assms(2) by simp
  note r1 = read_bytes[OF assms(1) u, unfolded l12]
  let ?d1 = "skip d 12"
  have ok1: "dns_ok ?d1" and u1: "unread ?d1 = question @ (concat (List.map encode_rr rs) @ rest)" using r1(2,3) by simp_all
  obtain n where n: "load16 ?d1 (read_ndx d + 6) = Some n" "ntohs n = ?n"
    using load16_be16[OF assms(1), of hdr ?n "tl_hdr @ ?body" 12] assms(2,3) by auto
  have cnt: "unat ?n = length rs" using assms(7) by (simp add: unsigned_of_nat take_bit_nat_eq_self)
  note r2 = read_bytes[OF ok1 u1]
  have "12 + int (length question) \<le> INT_MAX"
    using length_unread[OF assms(1)] assms(1) l12 unfolding u by (simp add: dns_ok_def)
  then have ql: "question_len (12 + int (length question)) = int (length question)" by (subst question_len_small) simp_all
  let ?d2 = "skip ?d1 (length question)" and ?a = "a\<lparr>n_addrs := 0\<rparr>"
  have ok: "host_addrs_ok ?a" using assms(8) by (simp add: host_addrs_ok_def)
  obtain d' where d': "parse_answers (length rs) ?d2 ?a = Some (0, d', foldl add_record ?a rs)" "unread d' = rest"
    using parse_answers_encoded[OF r2(2,3) assms(5) ok] by blast
  have "dns_util_parse_A_response d (12 + int (length question)) a = Some (0, d', foldl add_record ?a rs)"
    using r1(1) n cnt r2(1) ql d'(1) assms(6) by (simp add: dns_util_parse_A_response_def sizeof_dns_header_def Let_def Suc_le_eq)
  moreover have st: "stored (foldl add_record ?a rs) = take 4 (A_addresses rs)" "host_addrs_ok (foldl add_record ?a rs)"
    using stored_add_records[OF ok, of rs] by (simp_all add: stored_def)
  moreover have "unat (n_addrs (foldl add_record ?a rs)) = min 4 (length (A_addresses rs))"
    using arg_cong[OF st(1), of length] st(2) by (simp add: stored_def host_addrs_ok_def)
  ultimately show ?thesis using d'(2) by blast
qed

definition demo_records :: "resource_record list" where
  "demo_records = [\<lparr>rr_labels = [[119]], rr_end = [0xc0, 12], rr_type = 5, rr_class = 1, rr_ttl = (0, 0, 0, 9), rr_data = [1, 98, 0]\<rparr>,
     \<lparr>rr_labels = [], rr_end = [0xc0, 12], rr_type = 1, rr_class = 1, rr_ttl = (0, 0, 0, 9), rr_data = [10, 0, 0, 1]\<rparr>]"

lemma dns_util_parse_A_response_of_encoding_witness:
  "\<exists>d' a'. dns_util_parse_A_response
      (dns_util_reset ([0, 0, 0x81, 0x80, 0, 1, 0, 2, 0, 0, 0, 0, 1, 98, 0, 0, 1, 0, 1] @ concat (List.map encode_rr demo_records)) 52) 19
      \<lparr>n_addrs = 0, addrs = [0, 0, 0, 0]\<rparr> = Some (0, d', a') \<and> stored a' = [0x0100000a]"
proof -
  let ?d = "dns_util_reset ([0, 0, 0x81, 0x80, 0, 1, 0, 2, 0, 0, 0, 0, 1, 98, 0, 0, 1, 0, 1] @ concat (List.map encode_rr demo_records)) 52"
  have len: "length (concat (List.map encode_rr demo_records)) = 33"
    by (simp add: demo_records_def encode_rr_def encode_labels_def encode_label_def be16_def)
  have d: "dns_ok ?d" using len by (simp add: dns_ok_def dns_util_reset_def INT_MAX_def)
  have u: "unread ?d = [0, 0, 0x81, 0x80, 0, 1] @ be16 (word_of_nat (length demo_records)) @ [0, 0, 0, 0] @ [1, 98, 0, 0, 1, 0, 1]
      @ concat (List.map encode_rr demo_records) @ []"
    using len by (simp add: unread_def dns_util_reset_def be16_def demo_records_def)
  have r: "list_all rr_ok demo_records" "demo_records \<noteq> []" "length demo_records < 2 ^ 16"
    by (simp_all add: demo_records_def rr_ok_def label_ok_def name_end_def is_A_def)
  have a: "A_addresses demo_records = [0x0100000a]"
    by (simp add: demo_records_def A_addresses_def is_A_def le32_def)
  have h: "host_addrs_ok \<lparr>n_addrs = 0, addrs = [0, 0, 0, 0]\<rparr>"
    by (simp add: host_addrs_ok_def DNS_UTIL_MAX_HOST_ADDRESSES_def)
  show ?thesis using dns_util_parse_A_response_of_encoding[OF d u _ _ r, of "\<lparr>n_addrs = 0, addrs = [0, 0, 0, 0]\<rparr>"] a h by (simp, blast)
qed

end
