(* ===== verification/Io_Dns.thy ===== *)
theory Io_Dns
  imports Io_Net Dns_Util
begin

text \<open>
  The resolver of \<open>src/src/io_dns.h\<close> and \<open>src/src/io_dns.c\<close>: a lookup is one UDP query and either
  its response or a timeout. It puts together the network service, the timer service and the DNS messages.

  A lookup is named by the address of its connection \<open>n\<close>, that is of the list cell of its watcher;
  its timer and its buffer are members of the same object, at fixed offsets from there, so that
  \<open>container_of\<close> is a subtraction. The member \<open>du\<close> holds a pointer to the buffer; the model keeps the
  bytes with it and stores them back after the calls that write. \<open>elem_cb\<close> is the callback member
  of the timers, \<open>dns_log\<close> a ghost record of the events delivered, which no operation reads.
\<close>

section \<open>State\<close>

unbundle bit_operations_syntax

definition IO_DNS_RX_BUF_SIZE :: int where "IO_DNS_RX_BUF_SIZE = 256"

datatype io_dns_event_enum = io_dns_event_got_result | io_dns_event_error | io_dns_event_timedout

text \<open>The pointer to the addresses is null except in a result.\<close>

record io_dns_event =
  evt_type :: io_dns_event_enum
  ev_addrs :: "dns_util_host_addrs option"

record io_dns_cfg =
  server :: u32
  dns_port :: int
  dns_timeout :: int

text \<open>The members of the object other than its connection, timer and buffer.\<close>

record io_dns =
  dns_cb :: nat
  dns_t :: addr
  qlen :: int
  du :: dns_util

datatype timer_cb_name = Io_dns_timeout_callback | User_timer_callback nat

record dns_mem = net_mem +
  dnss :: "addr \<Rightarrow> io_dns"
  elem_cb :: "addr \<Rightarrow> timer_cb_name"
  dns_log :: "(addr \<times> io_dns_event) list"

text \<open>The timer and the buffer of the object, with 4-byte \<open>int\<close> and 8-byte pointers.\<close>

definition dns_timer :: "addr \<Rightarrow> addr" where "dns_timer d = d + 48"
definition dns_rx_buf :: "addr \<Rightarrow> addr" where "dns_rx_buf d = d + 88"
definition container_of_timer :: "addr \<Rightarrow> addr" where "container_of_timer e = e - 48"

lemma container_of_timer [simp]: "container_of_timer (dns_timer d) = d"
  by (simp add: container_of_timer_def dns_timer_def)

type_synonym 'w dns_user = "nat \<Rightarrow> addr \<Rightarrow> io_dns_event \<Rightarrow> 'w \<Rightarrow> 'w option"

definition put_dns :: "addr \<Rightarrow> io_dns \<Rightarrow> 'a dns_mem_scheme \<Rightarrow> 'a dns_mem_scheme" where
  "put_dns d v w = w\<lparr>dnss := (dnss w)(d := v)\<rparr>"

definition call_dns_cb :: "'a dns_mem_scheme dns_user \<Rightarrow> addr \<Rightarrow> io_dns_event \<Rightarrow> 'a dns_mem_scheme \<Rightarrow> 'a dns_mem_scheme option" where
  "call_dns_cb cb d ev w = cb (dns_cb (dnss w d)) d ev (w\<lparr>dns_log := dns_log w @ [(d, ev)]\<rparr>)"

section \<open>Callbacks\<close>

text \<open>\<open>junk\<close> is what the local variable for the addresses holds at first.\<close>

definition io_dns_rx_callback ::
  "os \<Rightarrow> 'a dns_mem_scheme dns_user \<Rightarrow> dns_util_host_addrs \<Rightarrow> addr \<Rightarrow> io_net_event \<Rightarrow> 'a dns_mem_scheme \<Rightarrow>
   (io_net_return \<times> io_net_event \<times> 'a dns_mem_scheme) option" where
  "io_dns_rx_callback os cb junk d e w = do {
     (buf, len) \<leftarrow> (case ev_u e of Ev_r b l \<Rightarrow> Some (b, l) | _ \<Rightarrow> None);
     let u = dns_util_reset (bufs w buf) (sint len);
     (r, u, a) \<leftarrow> dns_util_parse_A_response u (qlen (dnss w d)) junk;
     let w = put_dns d ((dnss w d)\<lparr>du := u\<rparr>) w;
     let ev = (if r \<noteq> 0 then \<lparr>evt_type = io_dns_event_error, ev_addrs = None\<rparr>
       else \<lparr>evt_type = io_dns_event_got_result, ev_addrs = Some a\<rparr>);
     w \<leftarrow> io_net_close os d w;
     w \<leftarrow> io_timer_stop (dns_timer d) w;
     w \<leftarrow> call_dns_cb cb d ev w;
     Some (io_net_return_continue, e, w)
   }"

definition io_dns_timeout_callback ::
  "os \<Rightarrow> 'a dns_mem_scheme dns_user \<Rightarrow> addr \<Rightarrow> 'a dns_mem_scheme \<Rightarrow> 'a dns_mem_scheme option" where
  "io_dns_timeout_callback os cb te w = do {
     let d = container_of_timer te;
     w \<leftarrow> io_net_close os d w;
     call_dns_cb cb d \<lparr>evt_type = io_dns_event_timedout, ev_addrs = None\<rparr> w
   }"

text \<open>The callbacks by name, for the network service and for the timers.\<close>

fun dns_dispatch ::
  "os \<Rightarrow> 'a dns_mem_scheme dns_user \<Rightarrow> dns_util_host_addrs \<Rightarrow> 'a dns_mem_scheme net_client \<Rightarrow> 'a dns_mem_scheme net_client" where
  "dns_dispatch os cb junk other Io_dns_rx_callback n e w = io_dns_rx_callback os cb junk n e w"
| "dns_dispatch os cb junk other c n e w = other c n e w"

definition dns_timer_dispatch ::
  "os \<Rightarrow> 'a dns_mem_scheme dns_user \<Rightarrow> (addr \<Rightarrow> 'a dns_mem_scheme \<Rightarrow> 'a dns_mem_scheme option) \<Rightarrow>
   addr \<Rightarrow> 'a dns_mem_scheme \<Rightarrow> 'a dns_mem_scheme option" where
  "dns_timer_dispatch os cb other e w =
     (if elem_cb w e = Io_dns_timeout_callback then io_dns_timeout_callback os cb e w else other e w)"

section \<open>The lookup\<close>

text \<open>The assignments between the initialisation of the timer and the building of the query.\<close>

definition lookup_prepared :: "addr \<Rightarrow> addr \<Rightarrow> nat \<Rightarrow> 'a dns_mem_scheme \<Rightarrow> 'a dns_mem_scheme" where
  "lookup_prepared d t cb w = (
     let w = w\<lparr>elem_cb := (elem_cb w)(dns_timer d := Io_dns_timeout_callback)\<rparr>;
         w = put_dns d ((dnss w d)\<lparr>dns_cb := cb, dns_t := t\<rparr>) w
     in io_net_set_rx_buf d (dns_rx_buf d) IO_DNS_RX_BUF_SIZE w)"

definition io_dns_lookup_ipv4 ::
  "os \<Rightarrow> addr \<Rightarrow> addr \<Rightarrow> addr \<Rightarrow> io_dns_cfg \<Rightarrow> bytes \<Rightarrow> nat \<Rightarrow> 'a dns_mem_scheme \<Rightarrow> (int \<times> 'a dns_mem_scheme) option" where
  "io_dns_lookup_ipv4 os driver t d cfg target cb w = do {
     (r, w) \<leftarrow> io_net_udp os driver d 0 Io_dns_rx_callback w;
     if r \<noteq> 0 then Some (-1, w)
     else do {
       w \<leftarrow> soft_timer_init_elem (dns_timer d) w;
       let w = lookup_prepared d t cb w;
       let u = dns_util_reset (bufs w (dns_rx_buf d)) IO_DNS_RX_BUF_SIZE;
       (req_len, u) \<leftarrow> dns_util_build_A_query u target;
       let w = put_dns d ((dnss w d)\<lparr>du := u\<rparr>) w;
       let w = w\<lparr>bufs := (bufs w)(dns_rx_buf d := du_buf u)\<rparr>;
       if req_len < 0 then do {
         w \<leftarrow> io_net_close os d w;
         Some (-1, w)
       } else do {
         let w = put_dns d ((dnss w d)\<lparr>qlen := req_len\<rparr>) w;
         (_, w) \<leftarrow> io_net_udp_tx os d (server cfg, word_of_int (dns_port cfg)) (dns_rx_buf d) req_len w;
         ms \<leftarrow> c_mul (dns_timeout cfg) 1000;
         w \<leftarrow> io_timer_start (dns_timer d) ms w;
         Some (0, w)
       }
     }
   }"

section \<open>The invariant\<close>

text \<open>The lists of the driver and of the timer wheel are well formed and use different memory.\<close>

definition dns_inv :: "addr set \<Rightarrow> addr set \<Rightarrow> addr set \<Rightarrow> addr set \<Rightarrow> 'a dns_mem_scheme \<Rightarrow> family \<Rightarrow> bool" where
  "dns_inv W D E T w L \<longleftrightarrow> driver_inv W D w L \<and> timer_inv E T w L \<and> (E \<union> set (buckets (st w)) \<union> T) \<inter> (W \<union> D) = {}"

lemma driver_inv_dns [simp]:
  "driver_inv W D (w\<lparr>dnss := a\<rparr>) L = driver_inv W D w L"
  "driver_inv W D (w\<lparr>elem_cb := b\<rparr>) L = driver_inv W D w L"
  "driver_inv W D (w\<lparr>dns_log := c\<rparr>) L = driver_inv W D w L"
  by (simp_all add: driver_inv_def)

lemma dns_inv_frame:
  assumes "dns_inv W D E T w L" "lheap w' = lheap w" "watchers w' = watchers w" "st w' = st w" "elem_tick w' = elem_tick w"
  shows "dns_inv W D E T w' L"
  using assms by (simp add: dns_inv_def driver_inv_def timer_inv_def)

text \<open>Calls of the network service keep the timers, calls of the timer service the watchers.\<close>

lemma dns_inv_io_effect:
  assumes i: "dns_inv W (insert d R) E T w L" and e: "io_effect W d R X w L w' L'"
  shows "dns_inv W (insert d R) E T w' L'"
proof -
  have s: "st w' = st w" "elem_tick w' = elem_tick w" "\<And>c. c \<notin> W \<union> insert d R \<Longrightarrow> L' c = L c" "driver_inv W (insert d R) w' L'"
    using e by (simp_all add: io_effect_def)
  have o: "c \<notin> W \<union> insert d R" if "c \<in> E \<union> set (buckets (st w)) \<union> T" for c
    using i that unfolding dns_inv_def by blast
  have "wheel E T (buckets (st w)) (elem_tick w) L'"
    by (rule wheel_frame[of E T _ _ L]) (use i s(3) o in \<open>auto simp: dns_inv_def timer_inv_def\<close>)
  then show ?thesis using i s driver_invD(1)[OF s(4)] by (simp add: dns_inv_def timer_inv_def)
qed

lemma dns_inv_call_effect:
  assumes i: "dns_inv W D E T w L" and e: "call_effect E T X w L w' L'"
  shows "dns_inv W D E T w' L'" "\<And>c. c \<in> W \<union> D \<Longrightarrow> L' c = L c"
proof -
  have s: "timer_inv E T w' L'" "st w' = st w" "timer_mem.more w' = timer_mem.more w"
    "\<And>c. c \<notin> E \<union> set (buckets (st w)) \<union> T \<Longrightarrow> L' c = L c"
    using e by (simp_all add: call_effect_def)
  have ws: "watchers w' = watchers w" using s(3) by (cases w; cases w'; simp)
  show o: "L' c = L c" if "c \<in> W \<union> D" for c
    by (rule s(4)) (use i that in \<open>auto simp: dns_inv_def\<close>)
  have "driver_ok W D (watchers w') L'" unfolding ws
    by (rule driver_ok_frame[of W D _ L]) (use i o in \<open>auto simp: dns_inv_def driver_inv_def\<close>)
  then show "dns_inv W D E T w' L'" using i s(1,2) timer_invD(1)[OF s(1)] by (simp add: dns_inv_def driver_inv_def)
qed

section \<open>The end of a lookup\<close>

text \<open>
  A lookup is over: its socket is closed and not watched, its timer is not running, nothing else has
  changed, and its user has not been called yet.
\<close>

definition lookup_over ::
  "addr set \<Rightarrow> addr set \<Rightarrow> addr set \<Rightarrow> addr set \<Rightarrow> addr \<Rightarrow> 'a dns_mem_scheme \<Rightarrow> family \<Rightarrow> 'a dns_mem_scheme \<Rightarrow> family \<Rightarrow> bool" where
  "lookup_over W D E T d w L w1 L1 \<longleftrightarrow> dns_inv W D E T w1 L1
     \<and> event_listening (watchers w1 d) = 0 \<and> L1 d = Some [] \<and> L1 (dns_timer d) = Some []
     \<and> open_fds (trace w1) = open_fds (trace w) - {sd (nets w d)} \<and> dns_log w1 = dns_log w
     \<and> dns_cb (dnss w1 d) = dns_cb (dnss w d) \<and> bufs w1 = bufs w \<and> nets w1 = nets w
     \<and> still (W - {d}) w L w1 L1 \<and> untouched (E - {dns_timer d}) w L w1 L1"

lemma sys_all_state_dns: "dns_log (sys_all os cs w) = dns_log w" "dnss (sys_all os cs w) = dnss w" "elem_cb (sys_all os cs w) = elem_cb w"
  for w :: "'a dns_mem_scheme"
  using sys_all_state[of os cs w] by auto

lemma untouched_frame:
  assumes "elem_tick w' = elem_tick w" "\<And>e c. e \<in> K \<Longrightarrow> queued L' e c = queued L e c"
  shows "untouched K w L w' L'"
  using assms by (simp add: untouched_def)

text \<open>A timer is in lists of the wheel only, a watcher in lists of the driver only.\<close>

lemma dns_inv_queued_timer:
  assumes i: "dns_inv W D E T w L" and e: "e \<in> E" and q: "queued L e c"
  shows "c \<in> set (buckets (st w)) \<union> T"
proof -
  have t: "timer_inv E T w L" using i by (simp add: dns_inv_def)
  note L = timer_invD(1)[OF t]
  show ?thesis
  proof (rule wheel_elem[OF timer_invD(4)[OF t] e])
    assume "L e = Some []"
    then show ?thesis using lists_elem_not_head[OF L, of c _ e] q by (auto simp: queued_def)
  next
    fix b xs assume b: "b \<in> set (buckets (st w)) \<union> T" "L b = Some xs" "e \<in> set xs"
    then have "queued L e b" by (auto simp: queued_def)
    then show ?thesis using queued_unique[OF L q] b(1) by simp
  qed
qed

lemma dns_inv_queued_watcher:
  assumes i: "dns_inv W D E T w L" and x: "x \<in> W" and q: "queued L x c"
  shows "c \<in> D"
proof -
  have v: "driver_inv W D w L" using i by (simp add: dns_inv_def)
  note L = driver_invD(1)[OF v] and ok = driver_invD(2)[OF v]
  have "event_listening (watchers w x) \<noteq> 0"
  proof
    assume "event_listening (watchers w x) = 0"
    then have "L x = Some []" by (rule driver_okD(4)[OF ok x])
    then show False using lists_elem_not_head[OF L, of c _ x] q by (auto simp: queued_def)
  qed
  then obtain b where "b \<in> D" "queued L x b" using driver_okD(5)[OF ok x] by blast
  then show ?thesis using queued_unique[OF L q] by simp
qed

lemma queued_timer_kept:
  assumes "dns_inv W D E T w L" "dns_inv W D E T w' L'" "e \<in> E" "st w' = st w"
    and "\<And>c. c \<in> E \<union> set (buckets (st w)) \<union> T \<Longrightarrow> L' c = L c"
  shows "queued L' e c = queued L e c"
proof (cases "c \<in> set (buckets (st w)) \<union> T")
  case True
  then show ?thesis using assms(5)[of c] by (simp add: queued_def)
next
  case False
  then show ?thesis using dns_inv_queued_timer[OF assms(1,3)] dns_inv_queued_timer[OF assms(2,3)] assms(4) by auto
qed

lemma queued_watcher_kept:
  assumes "dns_inv W D E T w L" "dns_inv W D E T w' L'" "x \<in> W" "\<And>c. c \<in> D \<Longrightarrow> L' c = L c"
  shows "queued L' x c = queued L x c"
proof (cases "c \<in> D")
  case True
  then show ?thesis using assms(4)[of c] by (simp add: queued_def)
next
  case False
  then show ?thesis using dns_inv_queued_watcher[OF assms(1,3)] dns_inv_queued_watcher[OF assms(2,3)] by auto
qed

lemma events_all: "IO_DRIVER_EVENT_RX AND NOT EVENTS = 0"
  by (simp add: EVENTS_def IO_DRIVER_EVENT_RX_def IO_DRIVER_EVENT_TX_def IO_DRIVER_EVENT_EX_def)

text \<open>Closing the socket of a lookup.\<close>

lemma deinit_dns: "dns_log (io_ssl_mbedtls_deinit os s w) = dns_log w" "dnss (io_ssl_mbedtls_deinit os s w) = dnss w"
  for w :: "'a dns_mem_scheme"
  by (simp_all add: io_ssl_mbedtls_deinit_def os_do_def put_ssl_def Let_def sys_all_state_dns)

lemma dns_close:
  fixes w :: "'a dns_mem_scheme"
  assumes i: "dns_inv W (insert dr R) E T w L" and d: "d \<in> W" "net_driver (nets w d) = dr" "event_listening (watchers w d) = IO_DRIVER_EVENT_RX"
    and dR: "dr \<notin> R"
  shows "\<exists>w' L'. io_net_close os d w = Some w' \<and> dns_inv W (insert dr R) E T w' L'
    \<and> event_listening (watchers w' d) = 0 \<and> L' d = Some []
    \<and> open_fds (trace w') = open_fds (trace w) - {sd (nets w d)} \<and> dns_log w' = dns_log w \<and> dnss w' = dnss w \<and> bufs w' = bufs w
    \<and> nets w' = nets w \<and> still (W - {d}) w L w' L' \<and> untouched E w L w' L'
    \<and> (\<forall>c\<in>E \<union> set (buckets (st w)) \<union> T. L' c = L c)"
proof -
  have v: "driver_inv W (insert dr R) w L" using i by (simp add: dns_inv_def)
  obtain w' L' where c: "io_net_close os d w = Some w'" "io_effect W dr R {d} w L w' L'"
    "watchers w' = (watchers w)(d := (watchers w d)\<lparr>event_listening := event_listening (watchers w d) AND NOT EVENTS\<rparr>)"
    "nets w' = nets w" "bufs w' = bufs w" "open_fds (trace w') = open_fds (trace w) - {sd (nets w d)}"
    using io_net_close_ok[OF v d(1,2) dR, of os] by blast
  have i': "dns_inv W (insert dr R) E T w' L'" by (rule dns_inv_io_effect[OF i c(2)])
  have e: "event_listening (watchers w' d) = 0" using d(3) events_all by (simp add: c(3))
  have v': "driver_inv W (insert dr R) w' L'" using i' by (simp add: dns_inv_def)
  have Ld: "L' d = Some []" by (rule driver_okD(4)[OF driver_invD(2)[OF v'] d(1) e])
  have s: "st w' = st w" "elem_tick w' = elem_tick w" "\<And>c. c \<notin> W \<union> insert dr R \<Longrightarrow> L' c = L c" "still (- {d}) w L w' L'"
    using c(2) by (simp_all add: io_effect_def)
  have o: "L' c = L c" if "c \<in> E \<union> set (buckets (st w)) \<union> T" for c
    by (rule s(3)) (use i that in \<open>unfold dns_inv_def, blast\<close>)
  have u: "untouched E w L w' L'" by (rule untouched_frame[OF s(2)]) (rule queued_timer_kept[OF i i' _ s(1) o])
  have "still (W - {d}) w L w' L'" by (rule still_mono[OF s(4)]) blast
  moreover have "dns_log w' = dns_log w" "dnss w' = dnss w"
  proof -
    have "dns_log w' = dns_log w \<and> dnss w' = dnss w"
      using c(1) unfolding io_net_close_def io_driver_no_watch_def
      by (auto simp: Let_def put_watcher_def on_heap_def bind_eq_Some_conv sys_all_state_dns deinit_dns split: if_splits)
    then show "dns_log w' = dns_log w" "dnss w' = dnss w" by blast+
  qed
  ultimately show ?thesis using c i' e Ld u o by blast
qed

text \<open>Stopping its timer.\<close>

lemma dns_stop:
  fixes w :: "'a dns_mem_scheme"
  assumes i: "dns_inv W D E T w L" and e: "e \<in> E"
  shows "\<exists>w' L'. io_timer_stop e w = Some w' \<and> dns_inv W D E T w' L' \<and> L' e = Some [] \<and> timer_mem.more w' = timer_mem.more w
    \<and> (\<forall>c\<in>W \<union> D. L' c = L c) \<and> still W w L w' L' \<and> untouched (E - {e}) w L w' L'"
proof -
  have t: "timer_inv E T w L" using i by (simp add: dns_inv_def)
  obtain w' L' where d: "soft_timer_del e w = Some w'" "call_effect E T {e} w L w' L'" "L' e = Some []"
    using soft_timer_del_effect[OF t e, of "{e}"] by blast
  note k = dns_inv_call_effect[OF i d(2)]
  have m: "timer_mem.more w' = timer_mem.more w" using d(2) by (simp add: call_effect_def)
  have ws: "watchers w' = watchers w" using m by (cases w; cases w'; simp)
  have "still W w L w' L'" unfolding still_def ws
    using queued_watcher_kept[OF i k(1)] k(2) by blast
  moreover have "untouched (E - {e}) w L w' L'"
    by (rule untouched_mono[of "- {e}"]) (use d(2) in \<open>auto simp: call_effect_def\<close>)
  ultimately show ?thesis using d(1,3) k m by (auto simp: io_timer_stop_def)
qed

lemma more_dns:
  fixes w v :: "'a dns_mem_scheme"
  assumes "timer_mem.more w = timer_mem.more v"
  shows "watchers w = watchers v" "trace w = trace v" "bufs w = bufs v" "nets w = nets v" "dnss w = dnss v" "dns_log w = dns_log v"
    "elem_cb w = elem_cb v"
  using assms by (cases w; cases v; simp)+

lemma untouched_sub: "untouched E w L w' L' \<Longrightarrow> untouched (E - X) w L w' L'"
  using untouched_mono[of E w L w' L' "E - X"] by blast

lemma dns_over:
  fixes w :: "'a dns_mem_scheme"
  assumes i: "dns_inv W (insert dr R) E T w L" and d: "d \<in> W" "net_driver (nets w d) = dr" "event_listening (watchers w d) = IO_DRIVER_EVENT_RX"
    and dR: "dr \<notin> R" and e: "dns_timer d \<in> E"
  shows "\<exists>w1 w2 L2. io_net_close os d w = Some w1 \<and> io_timer_stop (dns_timer d) w1 = Some w2
    \<and> lookup_over W (insert dr R) E T d w L w2 L2"
proof -
  obtain w1 L1 where 1: "io_net_close os d w = Some w1" "dns_inv W (insert dr R) E T w1 L1"
    "event_listening (watchers w1 d) = 0" "L1 d = Some []"
    "open_fds (trace w1) = open_fds (trace w) - {sd (nets w d)}" "dns_log w1 = dns_log w" "dnss w1 = dnss w" "bufs w1 = bufs w"
    "nets w1 = nets w" "still (W - {d}) w L w1 L1" "untouched E w L w1 L1"
    using dns_close[OF i d dR, of os] by blast
  obtain w2 L2 where 2: "io_timer_stop (dns_timer d) w1 = Some w2" "dns_inv W (insert dr R) E T w2 L2" "L2 (dns_timer d) = Some []"
    "timer_mem.more w2 = timer_mem.more w1" "\<forall>c\<in>W \<union> insert dr R. L2 c = L1 c" "still W w1 L1 w2 L2" "untouched (E - {dns_timer d}) w1 L1 w2 L2"
    using dns_stop[OF 1(2) e] by blast
  note m = more_dns[OF 2(4)]
  have "still (W - {d}) w L w2 L2" by (rule still_trans[OF 1(10) still_mono[OF 2(6)]]) blast
  moreover have "untouched (E - {dns_timer d}) w L w2 L2" by (rule untouched_trans[OF untouched_sub[OF 1(11)] 2(7)])
  moreover have "L2 d = Some []" using 2(5) d(1) 1(4) by simp
  ultimately have "lookup_over W (insert dr R) E T d w L w2 L2" using 1(3,5-9) 2(2,3) unfolding lookup_over_def m by simp
  then show ?thesis using 1(1) 2(1) by blast
qed

text \<open>The event that a response makes.\<close>

definition response_event :: "bytes \<Rightarrow> int \<Rightarrow> int \<Rightarrow> dns_util_host_addrs \<Rightarrow> io_dns_event \<Rightarrow> bool" where
  "response_event buf len ql junk ev \<longleftrightarrow> (\<exists>r u a. dns_util_parse_A_response (dns_util_reset buf len) ql junk = Some (r, u, a)
     \<and> unat (n_addrs a) \<le> 4 \<and> length (addrs a) = 4
     \<and> ev = (if r = 0 then \<lparr>evt_type = io_dns_event_got_result, ev_addrs = Some a\<rparr>
             else \<lparr>evt_type = io_dns_event_error, ev_addrs = None\<rparr>))"

lemma dns_over_more:
  assumes "lookup_over W D E T d v L w1 L1" "v = w\<lparr>dnss := (dnss w)(d := (dnss w d)\<lparr>du := u\<rparr>)\<rparr>"
  shows "lookup_over W D E T d w L w1 L1"
  using assms(1) unfolding lookup_over_def assms(2) still_def untouched_def by simp

lemma io_dns_rx_callback_ok:
  fixes w :: "'a dns_mem_scheme"
  assumes i: "dns_inv W (insert dr R) E T w L" and d: "d \<in> W" "net_driver (nets w d) = dr" "event_listening (watchers w d) = IO_DRIVER_EVENT_RX"
    and dR: "dr \<notin> R" and e: "dns_timer d \<in> E"
    and ev: "ev_u e = Ev_r b len" "0 \<le> sint len" "sint len \<le> int (length (bufs w b))" "int (length (bufs w b)) \<le> INT_MAX"
    and junk: "host_addrs_ok junk"
  shows "\<exists>w1 L1 dev. io_dns_rx_callback os cb junk d e w = map_option (\<lambda>w. (io_net_return_continue, e, w)) (call_dns_cb cb d dev w1)
    \<and> lookup_over W (insert dr R) E T d w L w1 L1 \<and> response_event (bufs w b) (sint len) (qlen (dnss w d)) junk dev"
proof -
  have "dns_ok (dns_util_reset (bufs w b) (sint len))" using ev by (simp add: dns_ok_def dns_util_reset_def)
  then obtain r u a where p: "dns_util_parse_A_response (dns_util_reset (bufs w b) (sint len)) (qlen (dnss w d)) junk = Some (r, u, a)"
    "host_addrs_ok a" using parse_A_response_total[OF _ junk] by blast
  let ?dev = "if r = 0 then \<lparr>evt_type = io_dns_event_got_result, ev_addrs = Some a\<rparr>
     else \<lparr>evt_type = io_dns_event_error, ev_addrs = None\<rparr>"
  define v where "v = w\<lparr>dnss := (dnss w)(d := (dnss w d)\<lparr>du := u\<rparr>)\<rparr>"
  have iv: "dns_inv W (insert dr R) E T v L" by (rule dns_inv_frame[OF i]) (simp_all add: v_def)
  have dv: "net_driver (nets v d) = dr" "event_listening (watchers v d) = IO_DRIVER_EVENT_RX" using d by (simp_all add: v_def)
  obtain w1 w2 L2 where o: "io_net_close os d v = Some w1" "io_timer_stop (dns_timer d) w1 = Some w2"
    "lookup_over W (insert dr R) E T d v L w2 L2" using dns_over[OF iv d(1) dv dR e, of os] by blast
  have "io_dns_rx_callback os cb junk d e w = map_option (\<lambda>w. (io_net_return_continue, e, w)) (call_dns_cb cb d ?dev w2)"
    using ev(1) p(1) o(1,2) by (cases "call_dns_cb cb d ?dev w2") (auto simp: io_dns_rx_callback_def put_dns_def v_def Let_def)
  moreover have "response_event (bufs w b) (sint len) (qlen (dnss w d)) junk ?dev"
    unfolding response_event_def using p by (auto simp: host_addrs_ok_def DNS_UTIL_MAX_HOST_ADDRESSES_def)
  ultimately show ?thesis using dns_over_more[OF o(3) v_def] by blast
qed

lemma io_dns_timeout_callback_ok:
  fixes w :: "'a dns_mem_scheme"
  assumes i: "dns_inv W (insert dr R) E T w L" and d: "d \<in> W" "net_driver (nets w d) = dr" "event_listening (watchers w d) = IO_DRIVER_EVENT_RX"
    and dR: "dr \<notin> R" and e: "dns_timer d \<in> E" "L (dns_timer d) = Some []"
  shows "\<exists>w1 L1. io_dns_timeout_callback os cb (dns_timer d) w
      = call_dns_cb cb d \<lparr>evt_type = io_dns_event_timedout, ev_addrs = None\<rparr> w1 \<and> lookup_over W (insert dr R) E T d w L w1 L1"
proof -
  obtain w1 L1 where 1: "io_net_close os d w = Some w1" "dns_inv W (insert dr R) E T w1 L1"
    "event_listening (watchers w1 d) = 0" "L1 d = Some []"
    "open_fds (trace w1) = open_fds (trace w) - {sd (nets w d)}" "dns_log w1 = dns_log w" "dnss w1 = dnss w" "bufs w1 = bufs w"
    "nets w1 = nets w" "still (W - {d}) w L w1 L1" "untouched E w L w1 L1"
    "\<forall>c\<in>E \<union> set (buckets (st w)) \<union> T. L1 c = L c"
    using dns_close[OF i d dR, of os] by blast
  have "L1 (dns_timer d) = Some []" using 1(12) e by simp
  then have "lookup_over W (insert dr R) E T d w L w1 L1"
    using 1(2-10) untouched_sub[OF 1(11)] unfolding lookup_over_def by simp
  then show ?thesis using 1(1) by (auto simp: io_dns_timeout_callback_def Let_def)
qed

section \<open>The start of a lookup\<close>

lemma dns_inv_opened:
  assumes i: "dns_inv W (insert dr R) E T w L" and e: "io_effect (insert d W) dr R {d} w (L(d \<mapsto> [])) w' L'"
    and d: "d \<notin> E \<union> set (buckets (st w)) \<union> T"
  shows "dns_inv (insert d W) (insert dr R) E T w' L'" "\<And>c. c \<in> E \<union> set (buckets (st w)) \<union> T \<Longrightarrow> L' c = L c"
proof -
  have s: "st w' = st w" "elem_tick w' = elem_tick w" "\<And>c. c \<notin> insert d W \<union> insert dr R \<Longrightarrow> L' c = (L(d \<mapsto> [])) c"
    "driver_inv (insert d W) (insert dr R) w' L'"
    using e by (simp_all add: io_effect_def)
  show o: "L' c = L c" if c: "c \<in> E \<union> set (buckets (st w)) \<union> T" for c
  proof -
    have "c \<noteq> d" using c d by blast
    moreover have "c \<notin> W \<union> insert dr R" using i c unfolding dns_inv_def by blast
    ultimately show ?thesis using s(3)[of c] by simp
  qed
  have "wheel E T (buckets (st w)) (elem_tick w) L'"
    by (rule wheel_frame[of E T _ _ L]) (use i o in \<open>auto simp: dns_inv_def timer_inv_def\<close>)
  then have "timer_inv E T w' L'" using i s(1,2) driver_invD(1)[OF s(4)] by (simp add: dns_inv_def timer_inv_def)
  moreover have "(E \<union> set (buckets (st w')) \<union> T) \<inter> (insert d W \<union> insert dr R) = {}"
    using i d s(1) by (auto simp: dns_inv_def)
  ultimately show "dns_inv (insert d W) (insert dr R) E T w' L'" using s(4) by (simp add: dns_inv_def)
qed

text \<open>A timer that may be initialised: one of the client that is not running, or fresh memory.\<close>

definition blank_timer :: "addr set \<Rightarrow> addr set \<Rightarrow> addr set \<Rightarrow> addr \<Rightarrow> 'a timer_mem_scheme \<Rightarrow> family \<Rightarrow> bool" where
  "blank_timer W E T e w L \<longleftrightarrow> e \<notin> W \<union> set (buckets (st w)) \<union> T
     \<and> (if e \<in> E then L e = Some [] else L e = None \<and> loose (lheap w) L e)"

lemma blank_timer_opened:
  assumes b: "blank_timer (W \<union> insert dr R) E T e w L" and ed: "e \<noteq> d"
    and i: "dns_inv W (insert dr R) E T w L" and eff: "io_effect (insert d W) dr R {d} w (L(d \<mapsto> [])) w' L'"
    and d: "d \<notin> E \<union> set (buckets (st w)) \<union> T"
  shows "blank_timer (insert d W \<union> insert dr R) E T e w' L'"
proof -
  have s: "st w' = st w" "dom (lheap w') = dom (lheap w)" "\<And>c. c \<notin> insert d W \<union> insert dr R \<Longrightarrow> L' c = (L(d \<mapsto> [])) c"
    and v': "driver_inv (insert d W) (insert dr R) w' L'"
    using eff by (simp_all add: io_effect_def)
  have out: "e \<notin> insert d W \<union> insert dr R" using b ed by (auto simp: blank_timer_def)
  have Le: "L' e = L e" using s(3)[OF out] ed by simp
  have "e \<notin> cells L'" if f: "e \<notin> cells L"
  proof
    assume "e \<in> cells L'"
    then obtain c xs where c: "L' c = Some xs" "e \<in> set (c # xs)" by (auto simp: cells_def)
    show False
    proof (cases "c \<in> insert d W \<union> insert dr R")
      case True
      then show False using driver_list_elems[OF v' True c(1)] c(2) out by auto
    next
      case False
      then have "L c = Some xs" using s(3)[OF False] c(1) by simp
      then show False using f c(2) unfolding cells_def by blast
    qed
  qed
  then show ?thesis using b out s(1,2) Le by (auto simp: blank_timer_def loose_def)
qed

lemma dns_init_timer:
  fixes w :: "'a dns_mem_scheme"
  assumes i: "dns_inv W D E T w L" and b: "blank_timer (W \<union> D) E T e w L"
  shows "\<exists>h. soft_timer_init_elem e w = Some (w\<lparr>lheap := h\<rparr>) \<and> dns_inv W D (insert e E) T (w\<lparr>lheap := h\<rparr>) (L(e \<mapsto> []))
    \<and> dom h = dom (lheap w)"
proof -
  have v: "driver_inv W D w L" and t: "timer_inv E T w L" using i by (simp_all add: dns_inv_def)
  note L = driver_invD(1)[OF v]
  have "loose (lheap w) (L(e := None)) e"
    using b loose_forget[OF L, of e] by (auto simp: blank_timer_def fun_upd_idem split: if_splits)
  then obtain h where h: "soft_timer_init_elem e w = Some (w\<lparr>lheap := h\<rparr>)" "heap_lists h (L(e \<mapsto> []))" "dom h = dom (lheap w)"
    using soft_timer_init_elem_ok[OF L] by blast
  have out: "e \<notin> W \<union> D" "e \<notin> set (buckets (st w)) \<union> T" using b by (auto simp: blank_timer_def)
  have "driver_ok W D (watchers w) (L(e \<mapsto> []))"
    by (rule driver_ok_frame[OF driver_invD(2)[OF v]]) (use out(1) in auto)
  moreover have "wheel (insert e E) T (buckets (st w)) (elem_tick w) (L(e \<mapsto> []))"
  proof -
    note wh = timer_invD(4)[OF t]
    have same: "(L(e \<mapsto> [])) c = L c" if "c \<in> set (buckets (st w)) \<union> T" for c using out(2) that by auto
    have "(L(e \<mapsto> [])) x = Some [] \<or> (\<exists>c\<in>set (buckets (st w)) \<union> T. \<exists>xs. (L(e \<mapsto> [])) c = Some xs \<and> x \<in> set xs)" if x: "x \<in> insert e E" for x
    proof (cases "x = e")
      case False
      then have "x \<in> E" using x by simp
      then show ?thesis using False same by (elim wheel_elem[OF wh]) auto
    qed simp
    moreover have "\<exists>xs. (L(e \<mapsto> [])) (buckets (st w) ! k) = Some xs \<and> (\<forall>x\<in>set xs. x \<in> insert e E \<and> slot (elem_tick w x) = k)" if "k < 8" for k
      using wheel_bucket[OF wh that] same by auto
    moreover have "\<exists>xs. (L(e \<mapsto> [])) c = Some xs \<and> set xs \<subseteq> insert e E" if "c \<in> T" for c
      using wheel_due[OF wh that] same[of c] that by auto
    moreover have "insert e E \<inter> (set (buckets (st w)) \<union> T) = {}" "length (buckets (st w)) = 8" "distinct (buckets (st w))"
      "T \<inter> set (buckets (st w)) = {}"
      using wh out(2) by (simp_all add: wheel_def)
    ultimately show ?thesis unfolding wheel_def by (intro conjI allI impI ballI) simp_all
  qed
  ultimately have "dns_inv W D (insert e E) T (w\<lparr>lheap := h\<rparr>) (L(e \<mapsto> []))"
    using i h(2) out(1) timer_invD(2,3)[OF t] by (simp add: dns_inv_def driver_inv_def timer_inv_def)
  then show ?thesis using h by blast
qed

text \<open>The network service does not touch the state of the resolver.\<close>

lemma sys_net_more:
  fixes w :: "'a net_mem_scheme"
  shows "net_mem.more (sys_all os cs w) = net_mem.more w" "sys os c w = (r, w') \<Longrightarrow> net_mem.more w' = net_mem.more w"
  using sys_all_state[of os cs w] by (auto simp: sys_def os_do_def Let_def)

lemma io_net_udp_more:
  fixes w :: "'a net_mem_scheme"
  assumes "io_net_udp os dr n port cb w = Some (r, w')"
  shows "net_mem.more w' = net_mem.more w"
  using assms
  by (auto simp: io_net_udp_def Let_def sock_util_put_nonblock_def sys_net_more put_net_def put_watcher_def io_driver_watch_def
      io_driver_watcher_init_def on_heap_def bind_eq_Some_conv split: if_splits prod.splits dest!: sys_net_more(2))

lemma net_more_dns:
  fixes w v :: "'a dns_mem_scheme"
  assumes "net_mem.more w = net_mem.more v"
  shows "dnss w = dnss v" "dns_log w = dns_log v" "elem_cb w = elem_cb v"
  using assms by (cases w; cases v; simp)+

text \<open>What a successful lookup leaves behind, and what a failed one does.\<close>

definition lookup_started ::
  "addr set \<Rightarrow> addr \<Rightarrow> addr set \<Rightarrow> addr set \<Rightarrow> addr set \<Rightarrow> addr \<Rightarrow> io_dns_cfg \<Rightarrow> bytes \<Rightarrow> nat \<Rightarrow> 'a dns_mem_scheme \<Rightarrow>
   'a dns_mem_scheme \<Rightarrow> family \<Rightarrow> bool" where
  "lookup_started W dr R E T d cfg target cb w w' L' \<longleftrightarrow>
     dns_inv (insert d W) (insert dr R) (insert (dns_timer d) E) T w' L'
     \<and> watchers w' d = \<lparr>wfd = sd (nets w' d), event_listening = IO_DRIVER_EVENT_RX, callback = Io_net_udp_callback\<rparr>
     \<and> net_cb (nets w' d) = Io_dns_rx_callback \<and> net_driver (nets w' d) = dr
     \<and> sd (nets w' d) \<notin> open_fds (trace w) \<and> open_fds (trace w') = insert (sd (nets w' d)) (open_fds (trace w))
     \<and> fst (last (trace w')) = Sys_sendto (sd (nets w' d)) (server cfg, word_of_int (dns_port cfg)) (query_bytes target)
     \<and> qlen (dnss w' d) = int (length (query_bytes target)) \<and> dns_cb (dnss w' d) = cb
     \<and> elem_cb w' (dns_timer d) = Io_dns_timeout_callback \<and> armed w' L' (dns_timer d)
     \<and> elem_tick w' (dns_timer d) = tick (st w) + ticks_of (tick_rate (st w)) (dns_timeout cfg * 1000)
     \<and> dns_log w' = dns_log w"

definition lookup_failed ::
  "addr set \<Rightarrow> addr \<Rightarrow> addr set \<Rightarrow> addr set \<Rightarrow> addr set \<Rightarrow> addr \<Rightarrow> 'a dns_mem_scheme \<Rightarrow> family \<Rightarrow> 'a dns_mem_scheme \<Rightarrow> family \<Rightarrow> bool" where
  "lookup_failed W dr R E T d w L w' L' \<longleftrightarrow> open_fds (trace w') = open_fds (trace w) \<and> dns_log w' = dns_log w
     \<and> (watchers w' = watchers w \<and> L' = L \<and> dns_inv W (insert dr R) E T w' L'
       \<or> event_listening (watchers w' d) = 0 \<and> \<not> armed w' L' (dns_timer d)
         \<and> dns_inv (insert d W) (insert dr R) (insert (dns_timer d) E) T w' L')"

lemma lookup_prepared_same [simp]:
  fixes w :: "'a dns_mem_scheme"
  shows "lheap (lookup_prepared d t cb w) = lheap w" "watchers (lookup_prepared d t cb w) = watchers w" "st (lookup_prepared d t cb w) = st w"
    "elem_tick (lookup_prepared d t cb w) = elem_tick w" "trace (lookup_prepared d t cb w) = trace w" "bufs (lookup_prepared d t cb w) = bufs w"
    "dns_log (lookup_prepared d t cb w) = dns_log w" "dns_cb (dnss (lookup_prepared d t cb w) d) = cb"
    "elem_cb (lookup_prepared d t cb w) (dns_timer d) = Io_dns_timeout_callback"
    "sd (nets (lookup_prepared d t cb w) n) = sd (nets w n)" "net_cb (nets (lookup_prepared d t cb w) n) = net_cb (nets w n)"
    "net_driver (nets (lookup_prepared d t cb w) n) = net_driver (nets w n)"
  by (simp_all add: lookup_prepared_def io_net_set_rx_buf_def put_net_def put_dns_def)

lemma not_armed_idle: "heap_lists h L \<Longrightarrow> L e = Some [] \<Longrightarrow> \<not> armed w L e"
  using lists_elem_not_head[of h L] by (fastforce simp: armed_def queued_def)

text \<open>The query in the buffer.\<close>

lemma query_in_buffer:
  fixes bs :: bytes
  assumes "int (length bs) = IO_DNS_RX_BUF_SIZE"
  defines "u \<equiv> dns_util_reset bs IO_DNS_RX_BUF_SIZE"
  shows "if length (query_bytes target) \<le> 256
    then \<exists>u'. dns_util_build_A_query u target = Some (int (length (query_bytes target)), u')
      \<and> length (query_bytes target) \<le> length (du_buf u') \<and> take (length (query_bytes target)) (du_buf u') = query_bytes target
    else \<exists>u'. dns_util_build_A_query u target = Some (-1, u')"
proof -
  have ok: "writer_ok u" "room u = 256" using assms by (simp_all add: writer_ok_def room_def dns_util_reset_def IO_DNS_RX_BUF_SIZE_def INT_MAX_def)
  have w: "write_ndx u = 0" by (simp add: u_def dns_util_reset_def)
  show ?thesis using build_A_query_eq[OF ok(1), of target] unfolding ok(2) w
    by (auto simp: append_bytes_def w)
qed

text \<open>The two ends of \<open>io_dns_lookup_ipv4\<close>, from the state \<open>w\<close> in which the query is built.\<close>

lemma lookup_too_long:
  fixes w :: "'a dns_mem_scheme"
  assumes i: "dns_inv W (insert dr R) E T w L" and d: "d \<in> W" "net_driver (nets w d) = dr" "event_listening (watchers w d) = IO_DRIVER_EVENT_RX"
    and dR: "dr \<notin> R" and e: "dns_timer d \<in> E" "L (dns_timer d) = Some []"
  shows "\<exists>w' L'. io_net_close os d w = Some w' \<and> dns_inv W (insert dr R) E T w' L' \<and> event_listening (watchers w' d) = 0
    \<and> \<not> armed w' L' (dns_timer d) \<and> open_fds (trace w') = open_fds (trace w) - {sd (nets w d)} \<and> dns_log w' = dns_log w"
proof -
  obtain w' L' where c: "io_net_close os d w = Some w'" "dns_inv W (insert dr R) E T w' L'"
    "event_listening (watchers w' d) = 0" "open_fds (trace w') = open_fds (trace w) - {sd (nets w d)}" "dns_log w' = dns_log w"
    "\<forall>c\<in>E \<union> set (buckets (st w)) \<union> T. L' c = L c" using dns_close[OF i d dR, of os] by blast
  have "L' (dns_timer d) = Some []" using c(6) e by simp
  moreover have "heap_lists (lheap w') L'" using c(2) by (simp add: dns_inv_def driver_inv_def)
  ultimately show ?thesis using c(1-5) not_armed_idle by blast
qed

lemma lookup_sends:
  fixes w :: "'a dns_mem_scheme"
  assumes i: "dns_inv W D E T w L" and e: "e \<in> E" "L e = Some []" and ms: "0 \<le> s" "s * 1000 \<le> INT_MAX"
    and bs: "n \<le> length (bufs w b)" "take n (bufs w b) = q"
  shows "\<exists>ret w1 w' L' a. io_net_udp_tx os d to b (int n) w = Some (ret, w1) \<and> c_mul s 1000 = Some (s * 1000) \<and> io_timer_start e (s * 1000) w1 = Some w'
    \<and> dns_inv W D E T w' L' \<and> armed w' L' e \<and> elem_tick w' e = tick (st w) + ticks_of (tick_rate (st w)) (s * 1000)
    \<and> trace w' = trace w @ [(Sys_sendto (sd (nets w d)) to q, a)] \<and> watchers w' = watchers w \<and> nets w' = nets w \<and> dnss w' = dnss w
    \<and> elem_cb w' = elem_cb w \<and> dns_log w' = dns_log w"
proof -
  let ?c = "Sys_sendto (sd (nets w d)) to q"
  obtain a where a: "sys os ?c w = (os_ret a, w\<lparr>trace := trace w @ [(?c, a)], errno := os_errno a\<rparr>)" using sys_state by blast
  define w1 where "w1 = w\<lparr>trace := trace w @ [(?c, a)], errno := os_errno a\<rparr>"
  have "bytes_at b (int n) w = Some q" using bs by (simp add: bytes_at_def)
  then have tx: "io_net_udp_tx os d to b (int n) w = Some (if os_ret a = int n then 0 else -1, w1)"
    using a by (simp add: io_net_udp_tx_def w1_def)
  have i1: "dns_inv W D E T w1 L" by (rule dns_inv_frame[OF i]) (simp_all add: w1_def)
  then have t1: "timer_inv E T w1 L" by (simp add: dns_inv_def)
  have r: "int_range (s * 1000)" using ms by (simp add: int_range_def INT_MIN_def)
  obtain h xs where ad: "L (buckets (st w1) ! slot (tick (st w1) + ticks_of (tick_rate (st w1)) (s * 1000))) = Some xs"
    "soft_timer_add e (s * 1000) w1 = Some (w1\<lparr>lheap := h, elem_tick := (elem_tick w1)(e := tick (st w1) + ticks_of (tick_rate (st w1)) (s * 1000))\<rparr>)"
    "timer_inv E T (w1\<lparr>lheap := h, elem_tick := (elem_tick w1)(e := tick (st w1) + ticks_of (tick_rate (st w1)) (s * 1000))\<rparr>)
      (L(e := None, buckets (st w1) ! slot (tick (st w1) + ticks_of (tick_rate (st w1)) (s * 1000)) \<mapsto> xs @ [e]))"
    using soft_timer_add_idle[OF t1 e r] by blast
  define w2 where "w2 = w1\<lparr>lheap := h, elem_tick := (elem_tick w1)(e := tick (st w1) + ticks_of (tick_rate (st w1)) (s * 1000))\<rparr>"
  let ?b = "buckets (st w1) ! slot (tick (st w1) + ticks_of (tick_rate (st w1)) (s * 1000))"
  let ?L2 = "L(e := None, ?b \<mapsto> xs @ [e])"
  have bin: "?b \<in> set (buckets (st w1))" using wheel_bucket(1)[OF timer_invD(4)[OF t1] slot_less] by blast
  have t2: "timer_inv E T w2 ?L2" using ad(3) unfolding w2_def .
  have out: "e \<notin> W \<union> D" "?b \<notin> W \<union> D" using i1 e(1) bin by (auto simp: dns_inv_def)
  have "driver_ok W D (watchers w1) ?L2"
    by (rule driver_ok_frame[of W D _ L]) (use i1 out in \<open>auto simp: dns_inv_def driver_inv_def\<close>)
  then have "dns_inv W D E T w2 ?L2" using i1 t2 timer_invD(1)[OF t2] unfolding dns_inv_def driver_inv_def by (simp add: w2_def)
  moreover have "armed w2 ?L2 e" unfolding armed_def by (rule bexI[of _ ?b]) (use bin in \<open>simp_all add: queued_def w2_def\<close>)
  moreover have "io_timer_start e (s * 1000) w1 = Some w2" using ad(2) by (simp add: io_timer_start_def w2_def)
  moreover have "c_mul s 1000 = Some (s * 1000)" using r by (simp add: c_mul_def)
  moreover have "elem_tick w2 e = tick (st w) + ticks_of (tick_rate (st w)) (s * 1000)" "trace w2 = trace w @ [(?c, a)]"
    "watchers w2 = watchers w" "nets w2 = nets w" "dnss w2 = dnss w" "elem_cb w2 = elem_cb w" "dns_log w2 = dns_log w"
    by (simp_all add: w2_def w1_def)
  ultimately show ?thesis using tx by blast
qed

lemma io_dns_lookup_ok:
  fixes w :: "'a dns_mem_scheme"
  assumes os: "os_ok os" and i: "dns_inv W (insert dr R) E T w L" and b: "blank W (insert dr R) d w L"
    and dd: "d \<notin> E \<union> set (buckets (st w)) \<union> T" and bt: "blank_timer (W \<union> insert dr R) E T (dns_timer d) w L" and dR: "dr \<notin> R"
    and buf: "int (length (bufs w (dns_rx_buf d))) = IO_DNS_RX_BUF_SIZE"
    and ms: "0 \<le> dns_timeout cfg" "dns_timeout cfg * 1000 \<le> INT_MAX"
  shows "\<exists>r w' L'. io_dns_lookup_ipv4 os dr t d cfg target cb w = Some (r, w')
    \<and> (if r = 0 then length (query_bytes target) \<le> 256 \<and> lookup_started W dr R E T d cfg target cb w w' L'
       else r = -1 \<and> lookup_failed W dr R E T d w L w' L')"
proof -
  have v: "driver_inv W (insert dr R) w L" using i by (simp add: dns_inv_def)
  let ?tm = "dns_timer d" and ?E = "insert (dns_timer d) E" and ?W = "insert d W"
  obtain r w1 L1 where u: "io_net_udp os dr d 0 Io_dns_rx_callback w = Some (r, w1)"
    "opened W dr R d Io_net_udp_callback IO_DRIVER_EVENT_RX w L r w1 L1"
    "r = 0 \<longrightarrow> nets w1 d = (nets w d)\<lparr>sd := sd (nets w1 d), net_cb := Io_dns_rx_callback, net_driver := dr\<rparr>"
    using io_net_udp_ok[OF os v b dR] by blast
  note m = net_more_dns[OF io_net_udp_more[OF u(1)]]
  have bf: "bufs w1 = bufs w" using u(2) by (simp add: opened_def)
  show ?thesis
  proof (cases "r = 0")
    case False
    have o: "L1 = L" "io_effect W dr R {} w L w1 L" "watchers w1 = watchers w" "open_fds (trace w1) = open_fds (trace w)"
      using u(2) False by (simp_all add: opened_def)
    have "lookup_failed W dr R E T d w L w1 L1"
      using o dns_inv_io_effect[OF i o(2)] m(2) by (simp add: lookup_failed_def)
    moreover have "io_dns_lookup_ipv4 os dr t d cfg target cb w = Some (-1, w1)"
      using u(1) False by (simp add: io_dns_lookup_ipv4_def)
    ultimately show ?thesis by (intro exI[of _ "-1"] exI[of _ w1] exI[of _ L1]) simp
  next
    case True
    have o: "io_effect ?W dr R {d} w (L(d \<mapsto> [])) w1 L1"
      "watchers w1 d = \<lparr>wfd = sd (nets w1 d), event_listening = IO_DRIVER_EVENT_RX, callback = Io_net_udp_callback\<rparr>"
      "sd (nets w1 d) \<notin> open_fds (trace w)" "open_fds (trace w1) = insert (sd (nets w1 d)) (open_fds (trace w))"
      using u(2) True by (simp_all add: opened_def)
    have n: "net_cb (nets w1 d) = Io_dns_rx_callback" "net_driver (nets w1 d) = dr" by (subst mp[OF u(3) True], simp)+
    have s1: "st w1 = st w" using o(1) by (simp add: io_effect_def)
    have ne: "?tm \<noteq> d" by (simp add: dns_timer_def)
    have i1: "dns_inv ?W (insert dr R) E T w1 L1" by (rule dns_inv_opened(1)[OF i o(1) dd])
    have b1: "blank_timer (?W \<union> insert dr R) E T ?tm w1 L1" by (rule blank_timer_opened[OF bt ne i o(1) dd])
    obtain h where h: "soft_timer_init_elem ?tm w1 = Some (w1\<lparr>lheap := h\<rparr>)" "dns_inv ?W (insert dr R) ?E T (w1\<lparr>lheap := h\<rparr>) (L1(?tm \<mapsto> []))"
      using dns_init_timer[OF i1 b1] by blast
    let ?L = "L1(?tm \<mapsto> [])"
    define w2 where "w2 = lookup_prepared d t cb (w1\<lparr>lheap := h\<rparr>)"
    have i2: "dns_inv ?W (insert dr R) ?E T w2 ?L" by (rule dns_inv_frame[OF h(2)]) (simp_all add: w2_def)
    have f2: "watchers w2 = watchers w1" "st w2 = st w1" "trace w2 = trace w1" "bufs w2 = bufs w1" "dns_log w2 = dns_log w1"
      "dns_cb (dnss w2 d) = cb" "elem_cb w2 ?tm = Io_dns_timeout_callback" "sd (nets w2 d) = sd (nets w1 d)"
      "net_cb (nets w2 d) = net_cb (nets w1 d)" "net_driver (nets w2 d) = net_driver (nets w1 d)"
      by (simp_all add: w2_def)
    have q: "if length (query_bytes target) \<le> 256
      then \<exists>u'. dns_util_build_A_query (dns_util_reset (bufs w2 (dns_rx_buf d)) IO_DNS_RX_BUF_SIZE) target = Some (int (length (query_bytes target)), u')
        \<and> length (query_bytes target) \<le> length (du_buf u') \<and> take (length (query_bytes target)) (du_buf u') = query_bytes target
      else \<exists>u'. dns_util_build_A_query (dns_util_reset (bufs w2 (dns_rx_buf d)) IO_DNS_RX_BUF_SIZE) target = Some (-1, u')"
      by (rule query_in_buffer) (use buf bf f2(4) in simp)
    define built where "built = (\<lambda>u. (put_dns d ((dnss w2 d)\<lparr>du := u\<rparr>) w2)\<lparr>bufs := (bufs (put_dns d ((dnss w2 d)\<lparr>du := u\<rparr>) w2))(dns_rx_buf d := du_buf u)\<rparr>)"
    have bl: "watchers (built u) = watchers w2" "nets (built u) = nets w2" "trace (built u) = trace w2" "dns_log (built u) = dns_log w2"
      "dns_cb (dnss (built u) d) = cb" "elem_cb (built u) = elem_cb w2" "st (built u) = st w2" "bufs (built u) (dns_rx_buf d) = du_buf u"
      "dns_inv ?W (insert dr R) ?E T (built u) ?L" for u
      by (simp_all add: built_def put_dns_def f2 dns_inv_frame[OF i2])
    have run: "io_dns_lookup_ipv4 os dr t d cfg target cb w = do {
       (req_len, u) \<leftarrow> dns_util_build_A_query (dns_util_reset (bufs w2 (dns_rx_buf d)) IO_DNS_RX_BUF_SIZE) target;
       if req_len < 0 then do {
         w \<leftarrow> io_net_close os d (built u);
         Some (-1, w)
       } else do {
         let w = put_dns d ((dnss (built u) d)\<lparr>qlen := req_len\<rparr>) (built u);
         (_, w) \<leftarrow> io_net_udp_tx os d (server cfg, word_of_int (dns_port cfg)) (dns_rx_buf d) req_len w;
         ms \<leftarrow> c_mul (dns_timeout cfg) 1000;
         w \<leftarrow> io_timer_start ?tm ms w;
         Some (0, w)
       } }"
      using u(1) True unfolding io_dns_lookup_ipv4_def Let_def built_def by (simp add: h(1) w2_def cong: if_cong)
    show ?thesis
    proof (cases "length (query_bytes target) \<le> 256")
      case False
      then obtain u where bu: "dns_util_build_A_query (dns_util_reset (bufs w2 (dns_rx_buf d)) IO_DNS_RX_BUF_SIZE) target = Some (-1, u)"
        using q by auto
      have dv: "d \<in> ?W" "net_driver (nets (built u) d) = dr" "event_listening (watchers (built u) d) = IO_DRIVER_EVENT_RX"
        using n o(2) by (simp_all add: bl f2)
      have te: "?tm \<in> ?E" "?L ?tm = Some []" by simp_all
      obtain w' L' where c: "io_net_close os d (built u) = Some w'" "dns_inv ?W (insert dr R) ?E T w' L'" "event_listening (watchers w' d) = 0"
        "\<not> armed w' L' ?tm" "open_fds (trace w') = open_fds (trace (built u)) - {sd (nets (built u) d)}" "dns_log w' = dns_log (built u)"
        using lookup_too_long[OF bl(9) dv dR te, of os] by blast
      have "open_fds (trace w') = open_fds (trace w)" unfolding c(5) bl f2 o(4) using o(3) by simp
      then have "lookup_failed W dr R E T d w L w' L'" using c m(2) by (simp add: lookup_failed_def bl f2)
      moreover have "io_dns_lookup_ipv4 os dr t d cfg target cb w = Some (-1, w')" unfolding run using bu c(1) by simp
      ultimately show ?thesis by (intro exI[of _ "-1"] exI[of _ w'] exI[of _ L']) simp
    next
      case fits: True
      let ?n = "length (query_bytes target)"
      obtain u where bu: "dns_util_build_A_query (dns_util_reset (bufs w2 (dns_rx_buf d)) IO_DNS_RX_BUF_SIZE) target = Some (int ?n, u)"
        "?n \<le> length (du_buf u)" "take ?n (du_buf u) = query_bytes target" using q fits by auto
      define w4 where "w4 = put_dns d ((dnss (built u) d)\<lparr>qlen := int ?n\<rparr>) (built u)"
      have f4: "watchers w4 = watchers w1" "nets w4 = nets w2" "trace w4 = trace w1" "dns_log w4 = dns_log w1" "dns_cb (dnss w4 d) = cb"
        "qlen (dnss w4 d) = int ?n" "elem_cb w4 = elem_cb w2" "st w4 = st w" "bufs w4 (dns_rx_buf d) = du_buf u"
        "dns_inv ?W (insert dr R) ?E T w4 ?L"
        by (simp_all add: w4_def put_dns_def bl f2 s1 dns_inv_frame[OF bl(9)])
      have te: "?tm \<in> ?E" "?L ?tm = Some []" by simp_all
      have bs: "?n \<le> length (bufs w4 (dns_rx_buf d))" "take ?n (bufs w4 (dns_rx_buf d)) = query_bytes target" using bu(2,3) f4(9) by simp_all
      obtain ret w5 w' L' a where z: "io_net_udp_tx os d (server cfg, word_of_int (dns_port cfg)) (dns_rx_buf d) (int ?n) w4 = Some (ret, w5)"
        "c_mul (dns_timeout cfg) 1000 = Some (dns_timeout cfg * 1000)" "io_timer_start ?tm (dns_timeout cfg * 1000) w5 = Some w'"
        "dns_inv ?W (insert dr R) ?E T w' L'" "armed w' L' ?tm"
        "elem_tick w' ?tm = tick (st w4) + ticks_of (tick_rate (st w4)) (dns_timeout cfg * 1000)"
        "trace w' = trace w4 @ [(Sys_sendto (sd (nets w4 d)) (server cfg, word_of_int (dns_port cfg)) (query_bytes target), a)]"
        "watchers w' = watchers w4" "nets w' = nets w4" "dnss w' = dnss w4" "elem_cb w' = elem_cb w4" "dns_log w' = dns_log w4"
        using lookup_sends[OF f4(10) te ms bs, of os d "(server cfg, word_of_int (dns_port cfg))"] by blast
      have "lookup_started W dr R E T d cfg target cb w w' L'"
        unfolding lookup_started_def using z(4,5,6) n o(2,3,4) m(2) by (simp add: z(7-12) f4 f2)
      moreover have "io_dns_lookup_ipv4 os dr t d cfg target cb w = Some (0, w')"
        unfolding run using bu(1) z(1,2,3) by (simp add: w4_def[symmetric])
      ultimately show ?thesis using fits by (intro exI[of _ 0] exI[of _ w'] exI[of _ L']) simp
    qed
  qed
qed

section \<open>Properties\<close>

text \<open>C13: \<open>io_dns_lookup_ipv4\<close> either starts a lookup or fails without a trace. With 0, one new socket is open and
  watched for input with the callback of the resolver, the last call of the system has sent exactly the encoded query for
  the name to the configured server, and the timer of the lookup is running for the configured time; with -1, the only other value, no
  descriptor stays open, nothing is watched and no timer runs. The query fits its buffer or the lookup fails. The lists
  of the driver and of the timers are well formed in all cases, and the user is not called.\<close>

theorem io_dns_lookup_all_or_nothing:
  fixes w :: "'a dns_mem_scheme"
  assumes "os_ok os" "dns_inv W (insert dr R) E T w L" "blank W (insert dr R) d w L"
    and "d \<notin> E \<union> set (buckets (st w)) \<union> T" "blank_timer (W \<union> insert dr R) E T (dns_timer d) w L" "dr \<notin> R"
    and "int (length (bufs w (dns_rx_buf d))) = IO_DNS_RX_BUF_SIZE" "0 \<le> dns_timeout cfg" "dns_timeout cfg * 1000 \<le> INT_MAX"
  shows "\<exists>r w' L'. io_dns_lookup_ipv4 os dr t d cfg target cb w = Some (r, w')
    \<and> (if r = 0 then length (query_bytes target) \<le> 256 \<and> lookup_started W dr R E T d cfg target cb w w' L'
       else r = -1 \<and> lookup_failed W dr R E T d w L w' L')"
  using assms by (rule io_dns_lookup_ok)

text \<open>C12: A lookup ends with exactly one event for its user. When a response arrives, the user gets its addresses, at most
  four, or an error if it cannot be parsed; when the time is over, the user is told so. In both cases the socket is already closed
  and no longer watched and the timer is not running when the user is called, so that the other callback cannot follow, and
  the user may start the next lookup on the same object. No other watcher, timer or buffer is touched.\<close>

theorem io_dns_lookup_ends_once:
  fixes w :: "'a dns_mem_scheme"
  assumes "dns_inv W (insert dr R) E T w L" "d \<in> W" "net_driver (nets w d) = dr"
    and "event_listening (watchers w d) = IO_DRIVER_EVENT_RX" "dr \<notin> R" "dns_timer d \<in> E"
    and "ev_u e = Ev_r b len" "0 \<le> sint len" "sint len \<le> int (length (bufs w b))" "int (length (bufs w b)) \<le> INT_MAX"
    and "host_addrs_ok junk"
  shows "(\<exists>w1 L1 dev. io_dns_rx_callback os cb junk d e w = map_option (\<lambda>w. (io_net_return_continue, e, w)) (call_dns_cb cb d dev w1)
      \<and> lookup_over W (insert dr R) E T d w L w1 L1 \<and> response_event (bufs w b) (sint len) (qlen (dnss w d)) junk dev)
    \<and> (L (dns_timer d) = Some [] \<longrightarrow> (\<exists>w1 L1. io_dns_timeout_callback os cb (dns_timer d) w
        = call_dns_cb cb d \<lparr>evt_type = io_dns_event_timedout, ev_addrs = None\<rparr> w1 \<and> lookup_over W (insert dr R) E T d w L w1 L1))"
  using io_dns_rx_callback_ok[OF assms, of os cb] io_dns_timeout_callback_ok[OF assms(1-6), of os cb] by blast

section \<open>A concrete instance\<close>

text \<open>A driver at 20, a timer wheel with the buckets 1 to 8, and a lookup at 30, whose timer is at 78 and whose buffer is 118.\<close>

definition demo_dns :: dns_mem where
  "demo_dns = \<lparr>lheap = idle_heap (set [1..<9] \<union> {20, 30, 78}), st = \<lparr>tick_rate = 10, tick = 5, buckets = [1..<9]\<rparr>,
     elem_tick = (\<lambda>_. 0), fired = [], watchers = (\<lambda>_. \<lparr>wfd = 3, event_listening = 0, callback = Other_callback 0\<rparr>),
     calls = [], trace = [], errno = 0, bufs = (\<lambda>_. replicate 256 0), it_driver = 20, timerfd = 4,
     nets = (\<lambda>_. \<lparr>sd = 3, net_cb = User_net_callback 0, net_driver = 20, net_ssl = NULL, net_rx_buf = 0, net_rx_size = 4\<rparr>),
     ssls = (\<lambda>_. \<lparr>mbed_fd = -1, handshaking = False, ssl_n = NULL\<rparr>), net_log = [],
     dnss = (\<lambda>_. \<lparr>dns_cb = 0, dns_t = 40, qlen = 20, du = dns_util_reset [] 0\<rparr>), elem_cb = (\<lambda>_. User_timer_callback 0), dns_log = []\<rparr>"

definition demo_dns_lists :: family where
  "demo_dns_lists = idle_lists (set [1..<9] \<union> {20, 30, 78})"

lemma demo_dns_list: "demo_dns_lists c = (if c \<in> set [1..<9] \<union> {20, 30, 78} then Some [] else None)"
  by (simp add: demo_dns_lists_def idle_lists_def del: set_upt)

lemma demo_dns_inv: "dns_inv {30} (insert 20 {}) {78} {} demo_dns demo_dns_lists"
proof -
  have "lheap demo_dns = idle_heap (set [1..<9] \<union> {20, 30, 78})" by (simp add: demo_dns_def del: set_upt)
  then have h: "heap_lists (lheap demo_dns) demo_dns_lists" unfolding demo_dns_lists_def
    by (simp only:) (rule idle_heap_lists, simp add: NULL_def)
  moreover have "driver_ok {30} (insert 20 {}) (watchers demo_dns) demo_dns_lists"
    by (simp add: driver_ok_def demo_dns_list demo_dns_def FD_SETSIZE_def)
  moreover have "wheel {78} {} (buckets (st demo_dns)) (elem_tick demo_dns) demo_dns_lists"
    by (auto simp: wheel_def demo_dns_list demo_dns_def simp del: upt_rec_numeral)
  ultimately show ?thesis
    by (simp add: dns_inv_def driver_inv_def timer_inv_def) (simp add: demo_dns_def int_range_def INT_MIN_def INT_MAX_def)
qed

theorem io_dns_lookup_all_or_nothing_witness:
  "\<exists>r w'. io_dns_lookup_ipv4 demo_os 20 40 30 \<lparr>server = 8, dns_port = 53, dns_timeout = 5\<rparr> [97, 46, 98] 1 demo_dns = Some (r, w')
    \<and> (r = 0 \<or> r = -1)"
proof -
  have "blank {30} (insert 20 {}) 30 demo_dns demo_dns_lists" by (rule blank_idle) (simp_all add: demo_dns_def)
  moreover have "(30 :: addr) \<notin> {78} \<union> set (buckets (st demo_dns)) \<union> {}" by (simp add: demo_dns_def)
  moreover have "blank_timer ({30} \<union> insert 20 {}) {78} {} (dns_timer 30) demo_dns demo_dns_lists"
    by (simp add: blank_timer_def dns_timer_def demo_dns_list) (simp add: demo_dns_def)
  moreover have "int (length (bufs demo_dns (dns_rx_buf 30))) = IO_DNS_RX_BUF_SIZE" by (simp add: demo_dns_def IO_DNS_RX_BUF_SIZE_def)
  ultimately show ?thesis
    using io_dns_lookup_all_or_nothing[OF demo_os_ok demo_dns_inv, of 30 "\<lparr>server = 8, dns_port = 53, dns_timeout = 5\<rparr>" 40 "[97, 46, 98]" 1]
    by (auto simp: INT_MAX_def split: if_splits)
qed

theorem io_dns_lookup_ends_once_witness:
  "\<exists>w w1 dev. event_listening (watchers w 30) = IO_DRIVER_EVENT_RX
    \<and> io_dns_rx_callback demo_os (\<lambda>c d ev w. Some w) \<lparr>n_addrs = 0, addrs = [0, 0, 0, 0]\<rparr> 30
        \<lparr>ev_enum = io_net_event_enum_rx, ev_u = Ev_r 118 14, ev_from = None\<rparr> (w :: dns_mem)
      = map_option (\<lambda>w. (io_net_return_continue, \<lparr>ev_enum = io_net_event_enum_rx, ev_u = Ev_r 118 14, ev_from = None\<rparr>, w))
          (call_dns_cb (\<lambda>c d ev w. Some w) 30 dev w1)
    \<and> event_listening (watchers w1 30) = 0"
proof -
  have v: "driver_inv {30} (insert 20 {}) demo_dns demo_dns_lists" using demo_dns_inv by (simp add: dns_inv_def)
  have n: "(30 :: addr) \<in> {30}" "(20 :: addr) \<notin> {}" by simp_all
  let ?ws = "(watchers demo_dns)(30 := (watchers demo_dns 30)\<lparr>event_listening := event_listening (watchers demo_dns 30) OR IO_DRIVER_EVENT_RX\<rparr>)"
  obtain h L' where h: "io_effect {30} 20 {} {30} demo_dns demo_dns_lists (demo_dns\<lparr>lheap := h, watchers := ?ws\<rparr>) L'"
    using os_watch[OF v n, of IO_DRIVER_EVENT_RX] by blast
  define w where "w = demo_dns\<lparr>lheap := h, watchers := ?ws\<rparr>"
  have i: "dns_inv {30} (insert 20 {}) {78} {} w L'" unfolding w_def by (rule dns_inv_io_effect[OF demo_dns_inv h])
  have l: "event_listening (watchers w 30) = IO_DRIVER_EVENT_RX" "net_driver (nets w 30) = 20" "bufs w = bufs demo_dns"
    by (simp_all add: w_def demo_dns_def)
  have "host_addrs_ok \<lparr>n_addrs = 0, addrs = [0, 0, 0, 0]\<rparr>" by (simp add: host_addrs_ok_def DNS_UTIL_MAX_HOST_ADDRESSES_def)
  moreover have "dns_timer 30 \<in> {78}" by (simp add: dns_timer_def)
  moreover have "0 \<le> sint (14 :: u32)" "sint (14 :: u32) \<le> int (length (bufs w 118))" "int (length (bufs w 118)) \<le> INT_MAX"
    by (simp_all add: l(3) demo_dns_def INT_MAX_def)
  ultimately show ?thesis
    using io_dns_lookup_ends_once[OF i n(1) l(2,1) n(2), of "\<lparr>ev_enum = io_net_event_enum_rx, ev_u = Ev_r 118 14, ev_from = None\<rparr>" 118 14
        "\<lparr>n_addrs = 0, addrs = [0, 0, 0, 0]\<rparr>" demo_os "\<lambda>c d ev w. Some w"] l(1)
    unfolding lookup_over_def by (simp only: io_net_event.simps) blast
qed

end
