(* ===== verification/Io_Ssl.thy ===== *)
theory Io_Ssl
  imports Io_Net
begin

text \<open>
  The older TLS service of \<open>src/src/io_ssl.h\<close> and \<open>src/src/io_ssl.c\<close>, which is kept for reference: its code was moved into
  \<open>io_net.c\<close>, where a connection is an \<open>io_net_t\<close> with an \<open>io_ssl_t\<close>; here one \<open>io_ssl_t\<close> is both. The static functions have the
  same names in the two files, so those of this file have the suffix \<open>_ref\<close>.

  \<open>net_of\<close> reads an object of this service as the two objects of the network service, at the same address. The theorems say
  where the integrated code does the same and where it does not.
\<close>

section \<open>State\<close>

unbundle bit_operations_syntax

datatype io_ssl_event_u = Sev_unset | Sev_n addr | Sev_r addr u32

record io_ssl_event =
  sev_enum :: io_net_event_enum
  sev_u :: io_ssl_event_u
  sev_from :: "sockaddr option"

record io_ssl_ref =
  s_sd :: int
  s_cb :: net_callback
  s_driver :: addr
  s_mbed_fd :: int
  s_handshaking :: bool
  s_rx_buf :: addr
  s_rx_size :: int

record ssl_mem = io_timer_mem +
  io_ssls :: "addr \<Rightarrow> io_ssl_ref"
  ssl_log :: "(addr \<times> io_ssl_event) list"

type_synonym 'w ssl_client = "net_callback \<Rightarrow> addr \<Rightarrow> io_ssl_event \<Rightarrow> 'w \<Rightarrow> (io_net_return \<times> io_ssl_event \<times> 'w) option"

definition put_ref :: "addr \<Rightarrow> io_ssl_ref \<Rightarrow> 'a ssl_mem_scheme \<Rightarrow> 'a ssl_mem_scheme" where
  "put_ref s v w = w\<lparr>io_ssls := (io_ssls w)(s := v)\<rparr>"

definition call_ssl_cb ::
  "'a ssl_mem_scheme ssl_client \<Rightarrow> addr \<Rightarrow> io_ssl_event \<Rightarrow> 'a ssl_mem_scheme \<Rightarrow> (io_net_return \<times> io_ssl_event \<times> 'a ssl_mem_scheme) option" where
  "call_ssl_cb cb s ev w = cb (s_cb (io_ssls w s)) s ev (w\<lparr>ssl_log := ssl_log w @ [(s, ev)]\<rparr>)"

definition plain_ssl_event :: "io_net_event_enum \<Rightarrow> io_ssl_event" where
  "plain_ssl_event e = \<lparr>sev_enum = e, sev_u = Sev_unset, sev_from = None\<rparr>"

section \<open>The contexts of mbedtls\<close>

definition tls_contexts_init_ref :: "os \<Rightarrow> addr \<Rightarrow> 'a ssl_mem_scheme \<Rightarrow> 'a ssl_mem_scheme" where
  "tls_contexts_init_ref os s w =
     (let (r, w) = os_do os (Tls Tls_net_init s) w;
          w = put_ref s ((io_ssls w s)\<lparr>s_mbed_fd := os_val r\<rparr>) w
      in sys_all os (List.map (\<lambda>c. Tls c s)
           [Tls_ssl_init, Tls_config_init, Tls_entropy_init, Tls_pk_init, Tls_crt_init, Tls_ctr_drbg_init]) w)"

definition io_ssl_mbedtls_init_server_ref :: "os \<Rightarrow> addr \<Rightarrow> 'a ssl_mem_scheme \<Rightarrow> int \<times> 'a ssl_mem_scheme" where
  "io_ssl_mbedtls_init_server_ref os s w =
     (let w = tls_contexts_init_ref os s w;
          (ret, w) = sys_try os (List.map (\<lambda>c. Tls c s)
            [Tls_ctr_drbg_seed, Tls_crt_parse_srv, Tls_crt_parse_cas, Tls_pk_parse_srv_key, Tls_config_defaults True]) w
      in if ret \<noteq> 0 then (-1, w)
      else let w = sys_all os [Tls Tls_conf_rng s, Tls Tls_conf_ca_chain_next s] w;
               (ret, w) = sys_try os [Tls Tls_conf_own_cert s, Tls (Tls_ssl_setup s) s] w
           in if ret \<noteq> 0 then (-1, w) else (0, put_ref s ((io_ssls w s)\<lparr>s_handshaking := False\<rparr>) w))"

definition io_ssl_mbedtls_init_client_ref :: "os \<Rightarrow> addr \<Rightarrow> 'a ssl_mem_scheme \<Rightarrow> int \<times> 'a ssl_mem_scheme" where
  "io_ssl_mbedtls_init_client_ref os s w =
     (let w = tls_contexts_init_ref os s w;
          (ret, w) = sys_try os (List.map (\<lambda>c. Tls c s)
            [Tls_ctr_drbg_seed, Tls_crt_parse_cas, Tls_config_defaults False]) w
      in if ret \<noteq> 0 then (-1, w)
      else let w = sys_all os [Tls Tls_conf_authmode_none s, Tls Tls_conf_ca_chain s, Tls Tls_conf_rng s] w;
               (ret, w) = sys_try os [Tls (Tls_ssl_setup s) s] w
           in if ret \<noteq> 0 then (-1, w)
           else let w = sys_all os [Tls Tls_set_bio s] w
                in (0, put_ref s ((io_ssls w s)\<lparr>s_handshaking := False\<rparr>) w))"

definition io_ssl_mbedtls_init_accepted_ref :: "os \<Rightarrow> addr \<Rightarrow> addr \<Rightarrow> 'a ssl_mem_scheme \<Rightarrow> int \<times> 'a ssl_mem_scheme" where
  "io_ssl_mbedtls_init_accepted_ref os l s w =
     (let w = tls_contexts_init_ref os s w;
          w = put_ref s ((io_ssls w s)\<lparr>s_mbed_fd := s_sd (io_ssls w s)\<rparr>) w;
          (ret, w) = sys_try os [Tls Tls_ctr_drbg_seed s, Tls (Tls_ssl_setup l) s] w
      in if ret \<noteq> 0 then (-1, w)
      else let w = sys_all os [Tls Tls_set_bio s] w
           in (0, put_ref s ((io_ssls w s)\<lparr>s_handshaking := False\<rparr>) w))"

definition io_ssl_mbedtls_deinit_ref :: "os \<Rightarrow> addr \<Rightarrow> 'a ssl_mem_scheme \<Rightarrow> 'a ssl_mem_scheme" where
  "io_ssl_mbedtls_deinit_ref os s w =
     (let (r, w) = os_do os (Tls (Tls_net_free (s_mbed_fd (io_ssls w s))) s) w;
          w = put_ref s ((io_ssls w s)\<lparr>s_mbed_fd := os_val r\<rparr>) w
      in sys_all os (List.map (\<lambda>c. Tls c s)
           [Tls_crt_free, Tls_pk_free, Tls_ssl_free, Tls_config_free, Tls_ctr_drbg_free, Tls_entropy_free]) w)"

section \<open>Public operations\<close>

definition io_ssl_set_rx_buf :: "addr \<Rightarrow> addr \<Rightarrow> int \<Rightarrow> 'a ssl_mem_scheme \<Rightarrow> 'a ssl_mem_scheme" where
  "io_ssl_set_rx_buf s rx_buf rx_size w = put_ref s ((io_ssls w s)\<lparr>s_rx_buf := rx_buf, s_rx_size := rx_size\<rparr>) w"

definition io_ssl_bind ::
  "os \<Rightarrow> addr \<Rightarrow> addr \<Rightarrow> int \<Rightarrow> net_callback \<Rightarrow> 'a ssl_mem_scheme \<Rightarrow> (int \<times> 'a ssl_mem_scheme) option" where
  "io_ssl_bind os driver s port cb w =
     (let (ret, w) = io_ssl_mbedtls_init_server_ref os s w in
      if ret \<noteq> 0 then Some (-1, w)
      else let (fd, w) = sys os (Sys_socket True) w in
      if fd < 0 then Some (-1, io_ssl_mbedtls_deinit_ref os s w)
      else let w = sock_util_put_nonblock os fd w;
               w = sys_all os [Sys_setsockopt_reuseaddr fd] w;
               (ret, w) = sys os (Sys_bind fd (INADDR_ANY, word_of_int port)) w in
      if ret \<noteq> 0 then Some (-1, io_ssl_mbedtls_deinit_ref os s (sys_all os [Sys_close fd] w))
      else do {
        let w = sys_all os [Sys_listen fd 5] w;
        let w = put_ref s ((io_ssls w s)\<lparr>s_sd := fd, s_cb := cb, s_driver := driver\<rparr>) w;
        w \<leftarrow> io_driver_watcher_init s fd Io_ssl_accept_callback w;
        w \<leftarrow> io_driver_watch driver s IO_DRIVER_EVENT_RX w;
        Some (0, w)
      })"

definition io_ssl_connect ::
  "os \<Rightarrow> addr \<Rightarrow> addr \<Rightarrow> u32 \<Rightarrow> int \<Rightarrow> net_callback \<Rightarrow> 'a ssl_mem_scheme \<Rightarrow> (int \<times> 'a ssl_mem_scheme) option" where
  "io_ssl_connect os driver s to port cb w =
     (let (ret, w) = io_ssl_mbedtls_init_client_ref os s w in
      if ret \<noteq> 0 then Some (-1, w)
      else let (fd, w) = sys os (Sys_socket True) w in
      if fd < 0 then Some (-1, io_ssl_mbedtls_deinit_ref os s w)
      else do {
        let w = sock_util_put_nonblock os fd w;
        let w = put_ref s ((io_ssls w s)\<lparr>s_sd := fd, s_cb := cb, s_driver := driver\<rparr>) w;
        w \<leftarrow> io_driver_watcher_init s fd Io_ssl_connect_callback w;
        w \<leftarrow> io_driver_watch driver s IO_DRIVER_EVENT_TX w;
        let w = put_ref s ((io_ssls w s)\<lparr>s_mbed_fd := s_sd (io_ssls w s)\<rparr>) w;
        Some (0, sys_all os [Sys_connect fd (to, word_of_int port)] w)
      })"

definition io_ssl_tx :: "os \<Rightarrow> tls_codes \<Rightarrow> addr \<Rightarrow> addr \<Rightarrow> int \<Rightarrow> 'a ssl_mem_scheme \<Rightarrow> (int \<times> 'a ssl_mem_scheme) option" where
  "io_ssl_tx os tc s buf len w =
     (if s_handshaking (io_ssls w s) then Some (-1, w)
      else do {
        bs \<leftarrow> bytes_at buf len w;
        let (ret, w) = sys os (Tls (Tls_write bs) s) w;
        if ret \<le> 0 then
          if ret \<noteq> WANT_WRITE tc then Some (-1, w)
          else do {
            w \<leftarrow> io_driver_watch (s_driver (io_ssls w s)) s IO_DRIVER_EVENT_TX w;
            Some (ret, w)
          }
        else Some (ret, w)
      })"

definition io_ssl_close :: "os \<Rightarrow> addr \<Rightarrow> 'a ssl_mem_scheme \<Rightarrow> 'a ssl_mem_scheme option" where
  "io_ssl_close os s w = do {
     let w = io_ssl_mbedtls_deinit_ref os s w;
     w \<leftarrow> io_driver_no_watch (s_driver (io_ssls w s)) s (IO_DRIVER_EVENT_RX OR IO_DRIVER_EVENT_TX OR IO_DRIVER_EVENT_EX) w;
     Some (sys_all os [Sys_close (s_sd (io_ssls w s))] w)
   }"

section \<open>Callbacks of the event loop\<close>

definition ssl_tx_event ::
  "'a ssl_mem_scheme ssl_client \<Rightarrow> addr \<Rightarrow> u8 \<Rightarrow> 'a ssl_mem_scheme \<Rightarrow> 'a ssl_mem_scheme option" where
  "ssl_tx_event cb s e w =
     (if e AND IO_DRIVER_EVENT_TX \<noteq> 0 then do {
        w \<leftarrow> io_driver_no_watch (s_driver (io_ssls w s)) s IO_DRIVER_EVENT_TX w;
        (_, _, w) \<leftarrow> call_ssl_cb cb s (plain_ssl_event io_net_event_enum_tx) w;
        Some w
      } else Some w)"

definition io_ssl_generic_callback_ref ::
  "os \<Rightarrow> tls_codes \<Rightarrow> 'a ssl_mem_scheme ssl_client \<Rightarrow> addr \<Rightarrow> u8 \<Rightarrow> 'a ssl_mem_scheme \<Rightarrow> 'a ssl_mem_scheme option" where
  "io_ssl_generic_callback_ref os tc cb s e w =
     (if e AND IO_DRIVER_EVENT_RX \<noteq> 0 then do {
        let buf = s_rx_buf (io_ssls w s);
        (r, w) \<leftarrow> sys_into os (Tls (Tls_read (s_rx_size (io_ssls w s))) s) buf w;
        if os_ret r \<le> 0 then
          if os_ret r = WANT_READ tc then ssl_tx_event cb s e w
          else if os_ret r = WANT_WRITE tc then io_driver_watch (s_driver (io_ssls w s)) s IO_DRIVER_EVENT_TX w
          else do {
            (_, _, w) \<leftarrow> call_ssl_cb cb s (plain_ssl_event io_net_event_enum_closed) w;
            Some w
          }
        else do {
          (ret, _, w) \<leftarrow> call_ssl_cb cb s ((plain_ssl_event io_net_event_enum_rx)\<lparr>sev_u := Sev_r buf (word_of_int (os_ret r))\<rparr>) w;
          if ret = io_net_return_stop then Some w else ssl_tx_event cb s e w
        }
      } else ssl_tx_event cb s e w)"

definition io_ssl_handshake_callback_ref ::
  "os \<Rightarrow> tls_codes \<Rightarrow> 'a ssl_mem_scheme ssl_client \<Rightarrow> addr \<Rightarrow> u8 \<Rightarrow> 'a ssl_mem_scheme \<Rightarrow> 'a ssl_mem_scheme option" where
  "io_ssl_handshake_callback_ref os tc cb s e w = do {
     w \<leftarrow> io_driver_no_watch (s_driver (io_ssls w s)) s IO_DRIVER_EVENT_TX w;
     let (ret, w) = sys os (Tls Tls_handshake s) w;
     if ret = 0 then do {
       let w = put_ref s ((io_ssls w s)\<lparr>s_handshaking := False\<rparr>) w;
       let w = io_driver_watcher_set_cb s Io_ssl_generic_callback w;
       (ret, _, w) \<leftarrow> call_ssl_cb cb s (plain_ssl_event io_net_event_enum_handshaken) w;
       if ret \<noteq> io_net_return_stop then io_ssl_generic_callback_ref os tc cb s e w else Some w
     }
     else if ret = WANT_READ tc then Some w
     else if ret = WANT_WRITE tc then io_driver_watch (s_driver (io_ssls w s)) s IO_DRIVER_EVENT_TX w
     else do {
       (_, _, w) \<leftarrow> call_ssl_cb cb s (plain_ssl_event io_net_event_enum_closed) w;
       Some w
     }
   }"

definition io_ssl_accept_callback_ref ::
  "os \<Rightarrow> 'a ssl_mem_scheme ssl_client \<Rightarrow> addr \<Rightarrow> u8 \<Rightarrow> 'a ssl_mem_scheme \<Rightarrow> 'a ssl_mem_scheme option" where
  "io_ssl_accept_callback_ref os cb l e w =
     (if e \<noteq> IO_DRIVER_EVENT_RX then Some w
      else let (r, w) = os_do os (Sys_accept (s_sd (io_ssls w l))) w; newsd = os_ret r in
      if newsd < 0 then Some w
      else do {
        (ret, ev, w) \<leftarrow> call_ssl_cb cb l \<lparr>sev_enum = io_net_event_enum_alloc_connection, sev_u = Sev_n NULL, sev_from = Some (os_addr r)\<rparr> w;
        if ret = io_net_return_stop then Some (sys_all os [Sys_close newsd] w)
        else do {
          let w = sock_util_put_nonblock os newsd w;
          n \<leftarrow> (case sev_u ev of Sev_n n \<Rightarrow> if n = NULL then None else Some n | _ \<Rightarrow> None);
          let w = put_ref n ((io_ssls w n)\<lparr>s_sd := newsd, s_cb := s_cb (io_ssls w l), s_driver := s_driver (io_ssls w l)\<rparr>) w;
          let (_, w) = io_ssl_mbedtls_init_accepted_ref os l n w;
          let w = put_ref n ((io_ssls w n)\<lparr>s_handshaking := True\<rparr>) w;
          w \<leftarrow> io_driver_watcher_init n newsd Io_ssl_handshake_callback w;
          w \<leftarrow> io_driver_watch (s_driver (io_ssls w n)) n IO_DRIVER_EVENT_RX w;
          (_, _, w) \<leftarrow> call_ssl_cb cb n
             (ev\<lparr>sev_enum := io_net_event_enum_connected, sev_u := Sev_n NULL, sev_from := Some (os_addr r)\<rparr>) w;
          Some w
        }
      })"

definition io_ssl_connect_callback_ref ::
  "os \<Rightarrow> tls_codes \<Rightarrow> 'a ssl_mem_scheme ssl_client \<Rightarrow> addr \<Rightarrow> u8 \<Rightarrow> 'a ssl_mem_scheme \<Rightarrow> 'a ssl_mem_scheme option" where
  "io_ssl_connect_callback_ref os tc cb n e w =
     (if e \<noteq> IO_DRIVER_EVENT_TX then Some w
      else do {
        let (r, w) = os_do os (Sys_getsockopt_error (s_sd (io_ssls w n))) w;
        (ev, w) \<leftarrow> (if os_val r \<noteq> 0 then Some (plain_ssl_event io_net_event_enum_closed, w)
          else do {
            let w = io_driver_watcher_set_cb n Io_ssl_generic_callback w;
            let ev = plain_ssl_event io_net_event_enum_connected;
            w \<leftarrow> io_driver_no_watch (s_driver (io_ssls w n)) n IO_DRIVER_EVENT_TX w;
            w \<leftarrow> io_driver_watch (s_driver (io_ssls w n)) n IO_DRIVER_EVENT_RX w;
            Some (ev, w)
          });
        let w = put_ref n ((io_ssls w n)\<lparr>s_handshaking := True\<rparr>) w;
        let w = io_driver_watcher_set_cb n Io_ssl_handshake_callback w;
        let ev = ev\<lparr>sev_u := Sev_n n\<rparr>;
        (_, _, w) \<leftarrow> call_ssl_cb cb n ev w;
        io_ssl_handshake_callback_ref os tc cb n 0 w
      })"

section \<open>As objects of the network service\<close>

fun as_event_u :: "io_ssl_event_u \<Rightarrow> io_net_event_u" where
  "as_event_u Sev_unset = Ev_unset"
| "as_event_u (Sev_n a) = Ev_c a a"
| "as_event_u (Sev_r b n) = Ev_r b n"

definition as_event :: "io_ssl_event \<Rightarrow> io_net_event" where
  "as_event e = \<lparr>ev_enum = sev_enum e, ev_u = as_event_u (sev_u e), ev_from = sev_from e\<rparr>"

definition as_conn :: "addr \<Rightarrow> io_ssl_ref \<Rightarrow> io_net" where
  "as_conn a s = \<lparr>sd = s_sd s, net_cb = s_cb s, net_driver = s_driver s, net_ssl = a, net_rx_buf = s_rx_buf s, net_rx_size = s_rx_size s\<rparr>"

text \<open>
  \<open>net_of w t e S\<close> is the state of the network service in which the object at each address is the one of \<open>w\<close>; \<open>t\<close> are the calls
  made so far, \<open>e\<close> is \<open>errno\<close> and \<open>S\<close> are the TLS halves of the objects.
\<close>

definition net_of :: "ssl_mem \<Rightarrow> os_trace \<Rightarrow> int \<Rightarrow> (addr \<Rightarrow> io_ssl) \<Rightarrow> net_mem" where
  "net_of w t e S = io_timer_mem.extend (io_timer_mem.truncate w\<lparr>trace := t, errno := e\<rparr>)
     (net_mem.fields (\<lambda>a. as_conn a (io_ssls w a)) S (List.map (\<lambda>(a, ev). (a, as_event ev)) (ssl_log w)))"

lemma net_of_fields [simp]:
  "lheap (net_of w t e S) = lheap w" "watchers (net_of w t e S) = watchers w" "calls (net_of w t e S) = calls w"
  "trace (net_of w t e S) = t" "errno (net_of w t e S) = e" "bufs (net_of w t e S) = bufs w"
  "nets (net_of w t e S) = (\<lambda>a. as_conn a (io_ssls w a))" "ssls (net_of w t e S) = S"
  "net_log (net_of w t e S) = List.map (\<lambda>(a, ev). (a, as_event ev)) (ssl_log w)"
  by (simp_all add: net_of_def net_mem.defs io_timer_mem.defs)

lemma net_of_updates [simp]:
  "(net_of w t e S)\<lparr>lheap := h\<rparr> = net_of (w\<lparr>lheap := h\<rparr>) t e S" "(net_of w t e S)\<lparr>watchers := x\<rparr> = net_of (w\<lparr>watchers := x\<rparr>) t e S"
  "(net_of w t e S)\<lparr>bufs := b\<rparr> = net_of (w\<lparr>bufs := b\<rparr>) t e S"
  "(net_of w t e S)\<lparr>trace := t'\<rparr> = net_of w t' e S" "(net_of w t e S)\<lparr>errno := e'\<rparr> = net_of w t e' S" "(net_of w t e S)\<lparr>ssls := S'\<rparr> = net_of w t e S'"
  "(net_of w t e S)\<lparr>net_log := List.map (\<lambda>(a, ev). (a, as_event ev)) l\<rparr> = net_of (w\<lparr>ssl_log := l\<rparr>) t e S"
  by (simp_all add: net_of_def net_mem.defs io_timer_mem.defs)

lemma net_of_same [simp]:
  "net_of (w\<lparr>trace := x\<rparr>) t e S = net_of w t e S" "net_of (w\<lparr>errno := y\<rparr>) t e S = net_of w t e S"
  by (simp_all add: net_of_def net_mem.defs io_timer_mem.defs)

text \<open>The network service also marks its descriptors with \<open>FD_CLOEXEC\<close>; \<open>heard\<close> are the other calls. \<open>deaf\<close>: that mark does not
  change what the system answers.\<close>

definition is_mark :: "os_call \<Rightarrow> bool" where
  "is_mark c = (case c of Sys_fcntl_setfd _ \<Rightarrow> True | _ \<Rightarrow> False)"

definition heard :: "os_trace \<Rightarrow> os_trace" where
  "heard tr = filter (\<lambda>x. \<not> is_mark (fst x)) tr"

definition deaf :: "os \<Rightarrow> bool" where
  "deaf os \<longleftrightarrow> (\<forall>c tr tr'. heard tr = heard tr' \<longrightarrow> os c tr = os c tr')"

text \<open>
  \<open>mirrors B w v\<close>: the objects of the two services are the same, the calls made are the same up to that mark, and so are the
  descriptors that the contexts of the TLS library hold, except for those of the objects in \<open>B\<close>. These are the listening ones, for which
  only the network service stores the descriptor in the context.
\<close>

definition mirrors :: "addr set \<Rightarrow> ssl_mem \<Rightarrow> net_mem \<Rightarrow> bool" where
  "mirrors B w v \<longleftrightarrow> v = net_of w (trace v) (errno v) (ssls v) \<and> heard (trace v) = heard (trace w)
     \<and> (\<forall>a. handshaking (ssls v a) = s_handshaking (io_ssls w a))
     \<and> (\<forall>a. a \<notin> B \<longrightarrow> mbed_fd (ssls v a) = s_mbed_fd (io_ssls w a))"

lemma mirrorsE:
  assumes "mirrors B w v"
  obtains t e S where "v = net_of w t e S" "heard t = heard (trace w)" "\<forall>a. handshaking (S a) = s_handshaking (io_ssls w a)"
    "\<forall>a. a \<notin> B \<longrightarrow> mbed_fd (S a) = s_mbed_fd (io_ssls w a)"
  using assms unfolding mirrors_def by blast

lemma mirrors_net_of [simp]:
  "mirrors B w (net_of w' t e S) \<longleftrightarrow> net_of w' t e S = net_of w t e S \<and> heard t = heard (trace w)
     \<and> (\<forall>a. handshaking (S a) = s_handshaking (io_ssls w a)) \<and> (\<forall>a. a \<notin> B \<longrightarrow> mbed_fd (S a) = s_mbed_fd (io_ssls w a))"
  by (simp add: mirrors_def)

lemma mirrors_mono: "mirrors B w v \<Longrightarrow> B \<subseteq> C \<Longrightarrow> mirrors C w v"
  unfolding mirrors_def by blast

lemma mirrorsD:
  assumes "mirrors B w v"
  shows "nets v a = as_conn a (io_ssls w a)" "watchers v = watchers w" "lheap v = lheap w" "bufs v = bufs w"
    "handshaking (ssls v a) = s_handshaking (io_ssls w a)" "a \<notin> B \<Longrightarrow> mbed_fd (ssls v a) = s_mbed_fd (io_ssls w a)"
  using assms by (auto elim!: mirrorsE)

lemma as_conn_fields [simp]:
  "sd (as_conn a s) = s_sd s" "net_cb (as_conn a s) = s_cb s" "net_driver (as_conn a s) = s_driver s" "net_ssl (as_conn a s) = a"
  "net_rx_buf (as_conn a s) = s_rx_buf s" "net_rx_size (as_conn a s) = s_rx_size s"
  by (simp_all add: as_conn_def)

section \<open>The integrated code does the same\<close>

text \<open>\<open>same\<close> relates what a function of either service returns: the same value, and states that mirror each other.\<close>

definition same :: "addr set \<Rightarrow> ('r \<times> ssl_mem) option \<Rightarrow> ('r \<times> net_mem) option \<Rightarrow> bool" where
  "same B x y \<longleftrightarrow> rel_option (rel_prod (=) (mirrors B)) x y"

definition same_state :: "addr set \<Rightarrow> ssl_mem option \<Rightarrow> net_mem option \<Rightarrow> bool" where
  "same_state B x y \<longleftrightarrow> rel_option (mirrors B) x y"

lemma sim_bind:
  "rel_option P x y \<Longrightarrow> (\<And>a b. P a b \<Longrightarrow> rel_option Q (f a) (g b)) \<Longrightarrow> rel_option Q (x \<bind> f) (y \<bind> g)"
  by (cases x; cases y) auto

lemma same_intros [simp]: "same B (Some (r, w)) (Some (r', v)) \<longleftrightarrow> r = r' \<and> mirrors B w v" "same_state B (Some w) (Some v) \<longleftrightarrow> mirrors B w v"
  "same B None None" "same_state B None None"
  by (simp_all add: same_def same_state_def)

text \<open>After a step that is the same in both, the rest has to be the same.\<close>

lemma then_same: "same_state B x y \<Longrightarrow> (\<And>w v. mirrors B w v \<Longrightarrow> same B (f w) (g v)) \<Longrightarrow> same B (x \<bind> f) (y \<bind> g)"
  and then_same_state: "same_state B x y \<Longrightarrow> (\<And>w v. mirrors B w v \<Longrightarrow> same_state B (p w) (q v)) \<Longrightarrow> same_state B (x \<bind> p) (y \<bind> q)"
  by (auto simp: same_def same_state_def intro: sim_bind)

lemma then_result:
  assumes "same B x y" "\<And>r w v. mirrors B w v \<Longrightarrow> same_state B (p (r, w)) (q (r, v))"
  shows "same_state B (x \<bind> p) (y \<bind> q)"
  using assms unfolding same_def same_state_def by (auto intro!: sim_bind)

lemma os_do_mirrors:
  assumes "deaf os" "mirrors B w v"
  obtains r w' v' where "os_do os c w = (r, w')" "os_do os c v = (r, v')" "mirrors B w' v'"
proof -
  obtain t e S where v: "v = net_of w t e S" "heard t = heard (trace w)" "\<forall>a. handshaking (S a) = s_handshaking (io_ssls w a)"
    "\<forall>a. a \<notin> B \<longrightarrow> mbed_fd (S a) = s_mbed_fd (io_ssls w a)"
    using assms(2) by (rule mirrorsE)
  have "os c t = os c (trace w)" using assms(1) v(2) unfolding deaf_def by blast
  then show ?thesis using v
    by (intro that[of "os c (trace w)" "snd (os_do os c w)" "snd (os_do os c v)"]) (simp_all add: os_do_def Let_def heard_def)
qed

lemma sys_mirrors:
  assumes "deaf os" "mirrors B w v"
  obtains r w' v' where "sys os c w = (r, w')" "sys os c v = (r, v')" "mirrors B w' v'"
proof -
  obtain r w' v' where "os_do os c w = (r, w')" "os_do os c v = (r, v')" "mirrors B w' v'" using os_do_mirrors[OF assms] by blast
  then show ?thesis by (intro that[of "os_ret r" w' v']) (simp_all add: sys_def)
qed

lemma sys_all_mirrors:
  assumes "deaf os" "mirrors B w v"
  shows "mirrors B (sys_all os cs w) (sys_all os cs v)"
  using assms(2)
proof (induction cs arbitrary: w v)
  case (Cons c cs)
  obtain r w' v' where "sys os c w = (r, w')" "sys os c v = (r, v')" "mirrors B w' v'"
    using sys_mirrors[OF assms(1) Cons.prems] by blast
  then show ?case using Cons.IH by (simp add: sys_all.simps)
qed simp

lemma sys_try_mirrors:
  assumes "deaf os" "mirrors B w v"
  obtains r w' v' where "sys_try os cs w = (r, w')" "sys_try os cs v = (r, v')" "mirrors B w' v'"
proof -
  have "fst (sys_try os cs w) = fst (sys_try os cs v) \<and> mirrors B (snd (sys_try os cs w)) (snd (sys_try os cs v))"
    using assms(2)
  proof (induction cs arbitrary: w v)
    case (Cons c cs)
    obtain r w' v' where "sys os c w = (r, w')" "sys os c v = (r, v')" "mirrors B w' v'"
      using sys_mirrors[OF assms(1) Cons.prems] by blast
    then show ?case using Cons.IH by (simp add: sys_try.simps)
  qed simp
  then show ?thesis using that by (metis prod.collapse)
qed

text \<open>The mark of a descriptor.\<close>

lemma mark_mirrors: "mirrors B w v \<Longrightarrow> mirrors B w (sys_all os [Sys_fcntl_setfd fd] v)"
  by (elim mirrorsE) (simp add: sys_all.simps sys_def os_do_def Let_def heard_def is_mark_def)

lemma sys_into_mirrors:
  assumes "deaf os" "mirrors B w v"
  shows "same B (sys_into os c buf w) (sys_into os c buf v)"
proof -
  obtain r w' v' where d: "os_do os c w = (r, w')" "os_do os c v = (r, v')" "mirrors B w' v'" using os_do_mirrors[OF assms] by blast
  then show ?thesis by (elim mirrorsE) (simp add: sys_into_def)
qed

lemma watch_mirrors: "mirrors B w v \<Longrightarrow> same_state B (io_driver_watch d p x w) (io_driver_watch d p x v)"
  and no_watch_mirrors: "mirrors B w v \<Longrightarrow> same_state B (io_driver_no_watch d p x w) (io_driver_no_watch d p x v)"
  and watcher_init_mirrors: "mirrors B w v \<Longrightarrow> same_state B (io_driver_watcher_init p fd c w) (io_driver_watcher_init p fd c v)"
  and set_cb_mirrors: "mirrors B w v \<Longrightarrow> mirrors B (io_driver_watcher_set_cb p c w) (io_driver_watcher_set_cb p c v)"
  by (auto elim!: mirrorsE simp: io_driver_watch_def io_driver_no_watch_def io_driver_watcher_init_def io_driver_watcher_set_cb_def
      on_heap_def put_watcher_def Let_def split: bind_splits)

lemma net_of_put_ref: "net_of (put_ref s x w) t e S = put_net s (as_conn s x) (net_of w t e S)"
  by (auto simp: put_ref_def put_net_def net_of_def io_timer_mem.defs net_mem.defs fun_eq_iff)

lemma put_conn_mirrors:
  assumes "mirrors B w v" "s_handshaking x = s_handshaking (io_ssls w s)" "s_mbed_fd x = s_mbed_fd (io_ssls w s)" "y = as_conn s x"
  shows "mirrors B (put_ref s x w) (put_net s y v)"
  using assms by (auto elim!: mirrorsE simp: net_of_put_ref[symmetric] put_ref_def)

lemma put_tls_mirrors:
  assumes "mirrors (insert s B) w v" "as_conn s x = as_conn s (io_ssls w s)" "handshaking y = s_handshaking x"
    and "s \<notin> B \<Longrightarrow> mbed_fd y = s_mbed_fd x"
  shows "mirrors B (put_ref s x w) (put_ssl s y v)"
proof -
  have "net_of (put_ref s x w) t e S = net_of w t e S" for t e S
    using assms(2) by (simp add: net_of_put_ref put_net_def)
      (simp add: net_of_def io_timer_mem.defs net_mem.defs fun_upd_idem)
  then show ?thesis using assms by (auto elim!: mirrorsE simp: put_ref_def put_ssl_def)
qed

lemma put_ssl_mirrors:
  "mirrors B w v \<Longrightarrow> handshaking y = handshaking (ssls v s) \<Longrightarrow> s \<in> B \<or> mbed_fd y = mbed_fd (ssls v s) \<Longrightarrow> mirrors B w (put_ssl s y v)"
  by (auto elim!: mirrorsE simp: put_ssl_def)


text \<open>Initialising the contexts of an object makes them the same, whatever they were.\<close>

lemma contexts_init_mirrors:
  assumes "deaf os" "mirrors (insert s B) w v"
  shows "mirrors B (tls_contexts_init_ref os s w) (tls_contexts_init os s v)"
proof -
  obtain r w' v' where d: "os_do os (Tls Tls_net_init s) w = (r, w')" "os_do os (Tls Tls_net_init s) v = (r, v')" "mirrors (insert s B) w' v'"
    using os_do_mirrors[OF assms] by blast
  have "mirrors B (put_ref s ((io_ssls w' s)\<lparr>s_mbed_fd := os_val r\<rparr>) w') (put_ssl s ((ssls v' s)\<lparr>mbed_fd := os_val r\<rparr>) v')"
    by (rule put_tls_mirrors[OF d(3)]) (simp_all add: as_conn_def mirrorsD[OF d(3)])
  then show ?thesis using d by (simp add: tls_contexts_init_ref_def tls_contexts_init_def sys_all_mirrors[OF assms(1)])
qed

lemma not_handshaking_mirrors:
  "mirrors B w v \<Longrightarrow> mirrors B (put_ref s ((io_ssls w s)\<lparr>s_handshaking := b\<rparr>) w) (put_ssl s ((ssls v s)\<lparr>handshaking := b\<rparr>) v)"
  by (rule put_tls_mirrors[OF mirrors_mono]) (auto simp: as_conn_def mirrorsD)

lemma init_server_mirrors:
  assumes "deaf os" "mirrors (insert s B) w v"
  obtains r w' v' where "io_ssl_mbedtls_init_server_ref os s w = (r, w')" "io_ssl_mbedtls_init_server os s v = (r, v')" "mirrors B w' v'"
proof -
  let ?cs = "List.map (\<lambda>c. Tls c s) [Tls_ctr_drbg_seed, Tls_crt_parse_srv, Tls_crt_parse_cas, Tls_pk_parse_srv_key, Tls_config_defaults True]"
    and ?ds = "[Tls Tls_conf_rng s, Tls Tls_conf_ca_chain_next s]" and ?es = "[Tls Tls_conf_own_cert s, Tls (Tls_ssl_setup s) s]"
  obtain r1 w1 v1 where 1: "sys_try os ?cs (tls_contexts_init_ref os s w) = (r1, w1)" "sys_try os ?cs (tls_contexts_init os s v) = (r1, v1)" "mirrors B w1 v1"
    using sys_try_mirrors[OF assms(1) contexts_init_mirrors[OF assms]] by blast
  obtain r2 w2 v2 where 2: "sys_try os ?es (sys_all os ?ds w1) = (r2, w2)" "sys_try os ?es (sys_all os ?ds v1) = (r2, v2)" "mirrors B w2 v2"
    using sys_try_mirrors[OF assms(1) sys_all_mirrors[OF assms(1) 1(3)]] by blast
  show ?thesis
    using 1 2 not_handshaking_mirrors[OF 2(3)] that by (cases "r1 = 0"; cases "r2 = 0")
      (simp_all add: io_ssl_mbedtls_init_server_ref_def io_ssl_mbedtls_init_server_def Let_def)
qed

lemma init_client_mirrors:
  assumes "deaf os" "mirrors (insert s B) w v"
  obtains r w' v' where "io_ssl_mbedtls_init_client_ref os s w = (r, w')" "io_ssl_mbedtls_init_client os s v = (r, v')" "mirrors B w' v'"
proof -
  let ?cs = "List.map (\<lambda>c. Tls c s) [Tls_ctr_drbg_seed, Tls_crt_parse_cas, Tls_config_defaults False]"
    and ?ds = "[Tls Tls_conf_authmode_none s, Tls Tls_conf_ca_chain s, Tls Tls_conf_rng s]" and ?es = "[Tls (Tls_ssl_setup s) s]"
  obtain r1 w1 v1 where 1: "sys_try os ?cs (tls_contexts_init_ref os s w) = (r1, w1)" "sys_try os ?cs (tls_contexts_init os s v) = (r1, v1)" "mirrors B w1 v1"
    using sys_try_mirrors[OF assms(1) contexts_init_mirrors[OF assms]] by blast
  obtain r2 w2 v2 where 2: "sys_try os ?es (sys_all os ?ds w1) = (r2, w2)" "sys_try os ?es (sys_all os ?ds v1) = (r2, v2)" "mirrors B w2 v2"
    using sys_try_mirrors[OF assms(1) sys_all_mirrors[OF assms(1) 1(3)]] by blast
  have 3: "mirrors B (sys_all os [Tls Tls_set_bio s] w2) (sys_all os [Tls Tls_set_bio s] v2)" by (rule sys_all_mirrors[OF assms(1) 2(3)])
  show ?thesis
    using 1 2 not_handshaking_mirrors[OF 3] that by (cases "r1 = 0"; cases "r2 = 0")
      (simp_all add: io_ssl_mbedtls_init_client_ref_def io_ssl_mbedtls_init_client_def Let_def)
qed

lemma contexts_init_ssl_n:
  fixes v :: net_mem
  shows "ssl_n (ssls (tls_contexts_init os s v) s) = ssl_n (ssls v s)"
proof -
  have "ssls (sys_all os cs v) = ssls v" for cs and v :: net_mem
    by (induction cs arbitrary: v) (simp_all add: sys_all.simps sys_def os_do_def Let_def)
  then show ?thesis by (simp add: tls_contexts_init_def os_do_def put_ssl_def Let_def)
qed

lemma init_accepted_mirrors:
  assumes "deaf os" "mirrors (insert s B) w v" "ssl_n (ssls v s) = s"
  obtains r w' v' where "io_ssl_mbedtls_init_accepted_ref os l s w = (r, w')" "io_ssl_mbedtls_init_accepted os l s v = (r, v')" "mirrors B w' v'"
proof -
  let ?cs = "[Tls Tls_ctr_drbg_seed s, Tls (Tls_ssl_setup l) s]"
  let ?w = "tls_contexts_init_ref os s w" and ?v = "tls_contexts_init os s v"
  note m = contexts_init_mirrors[OF assms(1,2)]
  have n: "ssl_n (ssls ?v s) = s" using assms(3) by (simp add: contexts_init_ssl_n)
  have f: "mirrors B (put_ref s ((io_ssls ?w s)\<lparr>s_mbed_fd := s_sd (io_ssls ?w s)\<rparr>) ?w)
      (put_ssl s ((ssls ?v s)\<lparr>mbed_fd := sd (nets ?v (ssl_n (ssls ?v s)))\<rparr>) ?v)"
    by (rule put_tls_mirrors[OF mirrors_mono[OF m]]) (auto simp: as_conn_def mirrorsD[OF m] n)
  obtain r1 w1 v1 where 1: "sys_try os ?cs (put_ref s ((io_ssls ?w s)\<lparr>s_mbed_fd := s_sd (io_ssls ?w s)\<rparr>) ?w) = (r1, w1)"
      "sys_try os ?cs (put_ssl s ((ssls ?v s)\<lparr>mbed_fd := sd (nets ?v (ssl_n (ssls ?v s)))\<rparr>) ?v) = (r1, v1)" "mirrors B w1 v1"
    using sys_try_mirrors[OF assms(1) f] by blast
  have 3: "mirrors B (sys_all os [Tls Tls_set_bio s] w1) (sys_all os [Tls Tls_set_bio s] v1)" by (rule sys_all_mirrors[OF assms(1) 1(3)])
  show ?thesis
    using 1 not_handshaking_mirrors[OF 3] that by (cases "r1 = 0")
      (simp_all add: io_ssl_mbedtls_init_accepted_ref_def io_ssl_mbedtls_init_accepted_def Let_def)
qed

lemma deinit_mirrors:
  assumes os: "deaf os" and m: "mirrors B w v" and s: "s \<notin> B"
  shows "mirrors B (io_ssl_mbedtls_deinit_ref os s w) (io_ssl_mbedtls_deinit os s v)"
proof -
  let ?c = "Tls (Tls_net_free (s_mbed_fd (io_ssls w s))) s"
  obtain r w' v' where d: "os_do os ?c w = (r, w')" "os_do os ?c v = (r, v')" "mirrors B w' v'" using os_do_mirrors[OF os m] by blast
  have "mirrors B (put_ref s ((io_ssls w' s)\<lparr>s_mbed_fd := os_val r\<rparr>) w') (put_ssl s ((ssls v' s)\<lparr>mbed_fd := os_val r\<rparr>) v')"
    by (rule put_tls_mirrors[OF mirrors_mono[OF d(3)]]) (auto simp: as_conn_def mirrorsD[OF d(3)])
  then show ?thesis using d mirrorsD(6)[OF m s]
    by (simp add: io_ssl_mbedtls_deinit_ref_def io_ssl_mbedtls_deinit_def sys_all_mirrors[OF os])
qed

lemma nonblock_mirrors: "deaf os \<Longrightarrow> mirrors B w v \<Longrightarrow> mirrors B (sock_util_put_nonblock os fd w) (sock_util_put_nonblock os fd v)"
  by (simp add: sock_util_put_nonblock_def sys_all_mirrors)


text \<open>\<open>io_ssl_close\<close> and \<open>io_net_close\<close> free the contexts and unwatch the descriptor in different orders.\<close>

lemma sys_frame:
  "snd (sys os c (w\<lparr>lheap := h\<rparr>)) = (snd (sys os c w))\<lparr>lheap := h\<rparr>" "snd (sys os c (w\<lparr>watchers := x\<rparr>)) = (snd (sys os c w))\<lparr>watchers := x\<rparr>"
  "watchers (snd (sys os c w)) = watchers w" "lheap (snd (sys os c w)) = lheap w"
  by (simp_all add: sys_def os_do_def Let_def)

lemma sys_all_frame:
  "sys_all os cs (w\<lparr>lheap := h\<rparr>) = (sys_all os cs w)\<lparr>lheap := h\<rparr>" "sys_all os cs (w\<lparr>watchers := x\<rparr>) = (sys_all os cs w)\<lparr>watchers := x\<rparr>"
  "watchers (sys_all os cs w) = watchers w" "lheap (sys_all os cs w) = lheap w"
  by (induction cs arbitrary: w) (simp_all add: sys_all.simps sys_frame)

lemma deinit_ref_frame:
  "io_ssl_mbedtls_deinit_ref os s (w\<lparr>lheap := h\<rparr>) = (io_ssl_mbedtls_deinit_ref os s w)\<lparr>lheap := h\<rparr>"
  "io_ssl_mbedtls_deinit_ref os s (w\<lparr>watchers := x\<rparr>) = (io_ssl_mbedtls_deinit_ref os s w)\<lparr>watchers := x\<rparr>"
  "watchers (io_ssl_mbedtls_deinit_ref os s w) = watchers w" "lheap (io_ssl_mbedtls_deinit_ref os s w) = lheap w"
  by (simp_all add: io_ssl_mbedtls_deinit_ref_def os_do_def put_ref_def Let_def sys_all_frame(3,4) flip: sys_all_frame(1,2))
    (rule arg_cong2[where f = "sys_all os"], simp_all)+

lemma no_watch_after_deinit:
  "io_driver_no_watch d p x (io_ssl_mbedtls_deinit_ref os s w) = map_option (io_ssl_mbedtls_deinit_ref os s) (io_driver_no_watch d p x w)"
  by (simp add: io_driver_no_watch_def on_heap_def put_watcher_def Let_def deinit_ref_frame split: bind_splits)

lemma deinit_ref_conn:
  fixes w :: ssl_mem
  shows "as_conn a (io_ssls (io_ssl_mbedtls_deinit_ref os s w) a) = as_conn a (io_ssls w a)"
proof -
  have "io_ssls (sys_all os cs w) = io_ssls w" for cs and w :: ssl_mem
    by (induction cs arbitrary: w) (simp_all add: sys_all.simps sys_def os_do_def Let_def)
  then show ?thesis by (simp add: io_ssl_mbedtls_deinit_ref_def os_do_def put_ref_def as_conn_def Let_def)
qed

lemma io_ssl_tx_same:
  assumes os: "deaf os" and m: "mirrors B w v" and s: "s \<noteq> NULL"
  shows "same B (io_ssl_tx os tc s buf len w) (io_net_tx os tc s buf len v)"
proof -
  note d = mirrorsD[OF m]
  have b: "bytes_at buf len v = bytes_at buf len w" by (simp add: bytes_at_def d)
  have "same B (let (ret, w) = sys os (Tls (Tls_write bs) s) w in if ret \<le> 0 then if ret \<noteq> WANT_WRITE tc then Some (-1, w)
        else do { w \<leftarrow> io_driver_watch (s_driver (io_ssls w s)) s IO_DRIVER_EVENT_TX w; Some (ret, w) } else Some (ret, w))
      (let (ret, v) = sys os (Tls (Tls_write bs) s) v in if ret \<le> 0 then if ret \<noteq> WANT_WRITE tc then Some (-1, v)
        else do { v \<leftarrow> io_driver_watch (net_driver (nets v s)) s IO_DRIVER_EVENT_TX v; Some (ret, v) } else Some (ret, v))" for bs
  proof -
    obtain r w' v' where t: "sys os (Tls (Tls_write bs) s) w = (r, w')" "sys os (Tls (Tls_write bs) s) v = (r, v')" "mirrors B w' v'"
      using sys_mirrors[OF os m] by blast
    show ?thesis using watch_mirrors[OF t(3)] by (simp add: t mirrorsD[OF t(3)] then_same)
  qed
  then show ?thesis using s m by (cases "bytes_at buf len w") (simp_all add: io_ssl_tx_def io_net_tx_def d b Let_def)
qed


lemma io_ssl_close_same:
  assumes os: "deaf os" and m: "mirrors B w v" and s: "s \<noteq> NULL" "s \<notin> B"
  shows "same_state B (io_ssl_close os s w) (io_net_close os s v)"
proof -
  have f: "s_sd (io_ssls (io_ssl_mbedtls_deinit_ref os s w) s) = s_sd (io_ssls w s)"
    "s_driver (io_ssls (io_ssl_mbedtls_deinit_ref os s w) s) = s_driver (io_ssls w s)" for w :: ssl_mem
    using deinit_ref_conn[of s os s w] by (simp_all add: as_conn_def)
  let ?x = "IO_DRIVER_EVENT_RX OR IO_DRIVER_EVENT_TX OR IO_DRIVER_EVENT_EX"
  have "same_state B (io_driver_no_watch (s_driver (io_ssls w s)) s ?x w \<bind> (\<lambda>w. Some (let w = io_ssl_mbedtls_deinit_ref os s w in sys_all os [Sys_close (s_sd (io_ssls w s))] w)))
      (io_net_close os s v)"
    unfolding io_net_close_def mirrorsD(1)[OF m] as_conn_fields
  proof (rule then_same_state[OF no_watch_mirrors[OF m]])
    fix w v
    assume m1: "mirrors B w v"
    note m2 = deinit_mirrors[OF os m1 s(2)]
    show "same_state B (Some (let w = io_ssl_mbedtls_deinit_ref os s w in sys_all os [Sys_close (s_sd (io_ssls w s))] w))
        (let w = if net_ssl (nets v s) \<noteq> NULL then io_ssl_mbedtls_deinit os (net_ssl (nets v s)) v else v
         in Some (sys_all os [Sys_close (sd (nets w s))] w))"
      using s by (simp add: Let_def mirrorsD(1)[OF m1] mirrorsD(1)[OF m2] sys_all_mirrors[OF os m2])
  qed
  then show ?thesis
    by (simp add: io_ssl_close_def no_watch_after_deinit f Let_def bind_map_option comp_def)
qed

lemma io_ssl_set_rx_buf_same: "mirrors B w v \<Longrightarrow> mirrors B (io_ssl_set_rx_buf s b n w) (io_net_set_rx_buf s b n v)"
  unfolding io_ssl_set_rx_buf_def io_net_set_rx_buf_def by (rule put_conn_mirrors) (simp_all add: as_conn_def mirrorsD)

lemma io_ssl_bind_same:
  assumes os: "deaf os" and m: "mirrors B w v" and s: "s \<noteq> NULL" "s \<in> B"
  shows "same B (io_ssl_bind os driver s port cb w) (io_net_bind os driver s s port cb v)"
proof -
  let ?B = "B - {s}"
  have m0: "mirrors (insert s ?B) w v" by (rule mirrors_mono[OF m]) blast
  have B: "mirrors B x y" if "mirrors ?B x y" for x y by (rule mirrors_mono[OF that]) blast
  obtain r w1 v1 where 1: "io_ssl_mbedtls_init_server_ref os s w = (r, w1)" "io_ssl_mbedtls_init_server os s v = (r, v1)" "mirrors ?B w1 v1"
    using init_server_mirrors[OF os m0] by blast
  obtain fd w2 v2 where 2: "sys os (Sys_socket True) w1 = (fd, w2)" "sys os (Sys_socket True) v1 = (fd, v2)" "mirrors ?B w2 v2"
    using sys_mirrors[OF os 1(3)] by blast
  let ?w3 = "sys_all os [Sys_setsockopt_reuseaddr fd] (sock_util_put_nonblock os fd w2)"
    and ?v3 = "sys_all os [Sys_setsockopt_reuseaddr fd] (sock_util_put_nonblock os fd (sys_all os [Sys_fcntl_setfd fd] v2))"
  have 3: "mirrors ?B ?w3 ?v3" by (rule sys_all_mirrors[OF os nonblock_mirrors[OF os mark_mirrors[OF 2(3)]]])
  obtain b w4 v4 where 4: "sys os (Sys_bind fd (INADDR_ANY, word_of_int port)) ?w3 = (b, w4)"
      "sys os (Sys_bind fd (INADDR_ANY, word_of_int port)) ?v3 = (b, v4)" "mirrors ?B w4 v4"
    using sys_mirrors[OF os 3] by blast
  let ?w5 = "sys_all os [Sys_listen fd 5] w4" and ?v5 = "sys_all os [Sys_listen fd 5] v4"
  note m5 = sys_all_mirrors[OF os 4(3), of "[Sys_listen fd 5]"]
  have 6: "mirrors ?B (put_ref s ((io_ssls ?w5 s)\<lparr>s_sd := fd, s_cb := cb, s_driver := driver\<rparr>) ?w5)
      (put_net s ((nets ?v5 s)\<lparr>sd := fd, net_cb := cb, net_driver := driver, net_ssl := s\<rparr>) ?v5)"
    by (rule put_conn_mirrors[OF m5]) (simp_all add: mirrorsD(1)[OF m5] as_conn_def)
  have 7: "same B (do { w \<leftarrow> io_driver_watcher_init s fd Io_ssl_accept_callback w; w \<leftarrow> io_driver_watch driver s IO_DRIVER_EVENT_RX w; Some (0 :: int, w) })
      (do { v \<leftarrow> io_driver_watcher_init s fd Io_ssl_accept_callback v; v \<leftarrow> io_driver_watch driver s IO_DRIVER_EVENT_RX v;
            Some (0, put_ssl s ((ssls v s)\<lparr>mbed_fd := sd (nets v s), ssl_n := s\<rparr>) v) })" if "mirrors B w v" for w v
    by (intro then_same[OF watcher_init_mirrors[OF that]] then_same[OF watch_mirrors]) (auto simp: put_ssl_mirrors s)
  show ?thesis
    using s 1 2 4 7[OF B[OF 6]] B[OF 1(3)] B[OF deinit_mirrors[OF os 2(3), of s]] B[OF deinit_mirrors[OF os sys_all_mirrors[OF os 4(3)], of s "[Sys_close fd]"]]
    by (simp add: io_ssl_bind_def io_net_bind_def socket_failed_def Let_def)
qed


lemma io_ssl_connect_same:
  assumes os: "deaf os" and m: "mirrors B w v" and s: "s \<noteq> NULL" "s \<notin> B"
  shows "same B (io_ssl_connect os driver s to port cb w) (io_net_connect os driver s s to port cb v)"
proof -
  obtain r w1 v1 where 1: "io_ssl_mbedtls_init_client_ref os s w = (r, w1)" "io_ssl_mbedtls_init_client os s v = (r, v1)" "mirrors B w1 v1"
    using init_client_mirrors[OF os mirrors_mono[OF m subset_insertI]] by blast
  obtain fd w2 v2 where 2: "sys os (Sys_socket True) w1 = (fd, w2)" "sys os (Sys_socket True) v1 = (fd, v2)" "mirrors B w2 v2"
    using sys_mirrors[OF os 1(3)] by blast
  let ?w3 = "sock_util_put_nonblock os fd w2" and ?v3 = "sock_util_put_nonblock os fd (sys_all os [Sys_fcntl_setfd fd] v2)"
  note m3 = nonblock_mirrors[OF os mark_mirrors[OF 2(3), of os fd], of fd]
  have 4: "mirrors B (put_ref s ((io_ssls ?w3 s)\<lparr>s_sd := fd, s_cb := cb, s_driver := driver\<rparr>) ?w3)
      (put_net s ((nets ?v3 s)\<lparr>sd := fd, net_cb := cb, net_driver := driver, net_ssl := s\<rparr>) ?v3)"
    by (rule put_conn_mirrors[OF m3]) (simp_all add: mirrorsD(1)[OF m3] as_conn_def)
  have 5: "mirrors B (put_ref s ((io_ssls w s)\<lparr>s_mbed_fd := s_sd (io_ssls w s)\<rparr>) w) (put_ssl s ((ssls v s)\<lparr>ssl_n := s, mbed_fd := sd (nets v s)\<rparr>) v)"
    if "mirrors B w v" for w v
    by (rule put_tls_mirrors[OF mirrors_mono[OF that subset_insertI]]) (simp_all add: as_conn_def mirrorsD[OF that])
  have 6: "same B (do { w \<leftarrow> io_driver_watcher_init s fd Io_ssl_connect_callback w; w \<leftarrow> io_driver_watch driver s IO_DRIVER_EVENT_TX w;
         Some (0 :: int, sys_all os [Sys_connect fd (to, word_of_int port)] (put_ref s ((io_ssls w s)\<lparr>s_mbed_fd := s_sd (io_ssls w s)\<rparr>) w)) })
      (do { v \<leftarrow> io_driver_watcher_init s fd Io_ssl_connect_callback v; v \<leftarrow> io_driver_watch driver s IO_DRIVER_EVENT_TX v;
         Some (0, sys_all os [Sys_connect fd (to, word_of_int port)] (put_ssl s ((ssls v s)\<lparr>ssl_n := s, mbed_fd := sd (nets v s)\<rparr>) v)) })"
    if "mirrors B w v" for w v
    by (intro then_same[OF watcher_init_mirrors[OF that]] then_same[OF watch_mirrors])
      (auto intro: sys_all_mirrors[OF os 5])
  show ?thesis
    using s 1 2 6[OF 4] deinit_mirrors[OF os 2(3) s(2)]
    by (simp add: io_ssl_connect_def io_net_connect_def socket_failed_def Let_def)
qed

subsection \<open>Clients\<close>

text \<open>What a client returns, and clients that do the same in both services.\<close>

definition same_reply ::
  "addr set \<Rightarrow> (io_net_return \<times> io_ssl_event \<times> ssl_mem) option \<Rightarrow> (io_net_return \<times> io_net_event \<times> net_mem) option \<Rightarrow> bool" where
  "same_reply B x y \<longleftrightarrow> rel_option (\<lambda>(r, e, w) (r', e', v). r' = r \<and> e' = as_event e \<and> mirrors B w v) x y"

definition same_client :: "addr set \<Rightarrow> ssl_mem ssl_client \<Rightarrow> net_mem net_client \<Rightarrow> bool" where
  "same_client B cb cb' \<longleftrightarrow> (\<forall>c s e w v. mirrors B w v \<longrightarrow> same_reply B (cb c s e w) (cb' c s (as_event e) v))"

lemma call_same:
  assumes "same_client B cb cb'" "mirrors B w v" "e' = as_event e"
  shows "same_reply B (call_ssl_cb cb s e w) (call_net_cb cb' s e' v)"
proof -
  have "mirrors B (w\<lparr>ssl_log := ssl_log w @ [(s, e)]\<rparr>) (v\<lparr>net_log := net_log v @ [(s, as_event e)]\<rparr>)"
    using assms(2) by (elim mirrorsE) (use net_of_updates(7)[where l = "ssl_log w @ [(s, e)]"] in simp)
  then show ?thesis using assms unfolding same_client_def by (simp add: call_ssl_cb_def call_net_cb_def mirrorsD)
qed

lemma then_reply:
  assumes "same_reply B x y" "\<And>r e w v. mirrors B w v \<Longrightarrow> same_state B (p (r, e, w)) (q (r, as_event e, v))"
  shows "same_state B (x \<bind> p) (y \<bind> q)"
  using assms unfolding same_reply_def same_state_def by (auto intro!: sim_bind)

lemma as_plain_event: "as_event (plain_ssl_event k) = plain_event k"
  "as_event ((plain_ssl_event k)\<lparr>sev_u := Sev_r b n\<rparr>) = (plain_event k)\<lparr>ev_u := Ev_r b n\<rparr>"
  by (simp_all add: as_event_def plain_ssl_event_def plain_event_def)

lemma ssl_tx_event_same:
  assumes c: "same_client B cb cb'" and m: "mirrors B w v"
  shows "same_state B (ssl_tx_event cb s e w) (net_tx_event cb' s e v)"
proof -
  have "same_state B (do { w \<leftarrow> io_driver_no_watch (s_driver (io_ssls w s)) s IO_DRIVER_EVENT_TX w;
        (_, _, w) \<leftarrow> call_ssl_cb cb s (plain_ssl_event io_net_event_enum_tx) w; Some w })
      (do { v \<leftarrow> io_driver_no_watch (net_driver (nets v s)) s IO_DRIVER_EVENT_TX v;
        (_, _, v) \<leftarrow> call_net_cb cb' s (plain_event io_net_event_enum_tx) v; Some v })"
    unfolding mirrorsD(1)[OF m] as_conn_fields
    by (intro then_same_state[OF no_watch_mirrors[OF m]] then_reply[OF call_same[OF c]]) (simp_all add: as_plain_event)
  then show ?thesis using m by (simp add: ssl_tx_event_def net_tx_event_def)
qed


lemma io_ssl_generic_callback_same:
  assumes os: "deaf os" and c: "same_client B cb cb'" and m: "mirrors B w v" and s: "s \<noteq> NULL"
  shows "same_state B (io_ssl_generic_callback_ref os tc cb s e w) (io_ssl_generic_callback os tc cb' s e v)"
proof -
  let ?c = "Tls (Tls_read (s_rx_size (io_ssls w s))) s"
  let ?p = "\<lambda>buf r w. if os_ret r \<le> 0 then
          if os_ret r = WANT_READ tc then ssl_tx_event cb s e w
          else if os_ret r = WANT_WRITE tc then io_driver_watch (s_driver (io_ssls w s)) s IO_DRIVER_EVENT_TX w
          else do { (_, _, w) \<leftarrow> call_ssl_cb cb s (plain_ssl_event io_net_event_enum_closed) w; Some w }
        else do {
          (ret, _, w) \<leftarrow> call_ssl_cb cb s ((plain_ssl_event io_net_event_enum_rx)\<lparr>sev_u := Sev_r buf (word_of_int (os_ret r))\<rparr>) w;
          if ret = io_net_return_stop then Some w else ssl_tx_event cb s e w
        }"
  let ?q = "\<lambda>buf r v. if os_ret r \<le> 0 then
          if os_ret r = WANT_READ tc then net_tx_event cb' s e v
          else if os_ret r = WANT_WRITE tc then io_driver_watch (net_driver (nets v s)) s IO_DRIVER_EVENT_TX v
          else do { (_, _, v) \<leftarrow> call_net_cb cb' s (plain_event io_net_event_enum_closed) v; Some v }
        else do {
          (ret, _, v) \<leftarrow> call_net_cb cb' s ((plain_event io_net_event_enum_rx)\<lparr>ev_u := Ev_r buf (word_of_int (os_ret r))\<rparr>) v;
          if ret = io_net_return_stop then Some v else net_tx_event cb' s e v
        }"
  have body: "same_state B (?p buf r w) (?q buf r v)" if m: "mirrors B w v" for buf r w v
    using ssl_tx_event_same[OF c] watch_mirrors[OF m] m
    by (auto simp: mirrorsD(1)[OF m] intro!: then_reply[OF call_same[OF c m]] simp: as_plain_event)
  have "same_state B (sys_into os ?c buf w \<bind> (\<lambda>(r, w). ?p buf r w)) (sys_into os ?c buf v \<bind> (\<lambda>(r, v). ?q buf r v))" for buf
    by (rule then_result[OF sys_into_mirrors[OF os m]]) (simp only: prod.case body)
  from this[of "s_rx_buf (io_ssls w s)"] show ?thesis
    using s ssl_tx_event_same[OF c m]
    by (simp add: io_ssl_generic_callback_ref_def io_ssl_generic_callback_def mirrorsD(1)[OF m] deref_def Let_def)
qed

lemma io_ssl_handshake_callback_same:
  assumes os: "deaf os" and c: "same_client B cb cb'" and m: "mirrors B w v" and s: "s \<noteq> NULL"
  shows "same_state B (io_ssl_handshake_callback_ref os tc cb s e w) (io_ssl_handshake_callback os tc cb' s e v)"
proof -
  have body: "same_state B
     (let (ret, w) = sys os (Tls Tls_handshake s) w in
      if ret = 0 then do {
       let w = put_ref s ((io_ssls w s)\<lparr>s_handshaking := False\<rparr>) w;
       let w = io_driver_watcher_set_cb s Io_ssl_generic_callback w;
       (ret, _, w) \<leftarrow> call_ssl_cb cb s (plain_ssl_event io_net_event_enum_handshaken) w;
       if ret \<noteq> io_net_return_stop then io_ssl_generic_callback_ref os tc cb s e w else Some w }
     else if ret = WANT_READ tc then Some w
     else if ret = WANT_WRITE tc then io_driver_watch (s_driver (io_ssls w s)) s IO_DRIVER_EVENT_TX w
     else do { (_, _, w) \<leftarrow> call_ssl_cb cb s (plain_ssl_event io_net_event_enum_closed) w; Some w })
     (let (ret, v) = sys os (Tls Tls_handshake s) v in
      if ret = 0 then do {
       let v = put_ssl s ((ssls v s)\<lparr>handshaking := False\<rparr>) v;
       let v = io_driver_watcher_set_cb s Io_ssl_generic_callback v;
       (ret, _, v) \<leftarrow> call_net_cb cb' s (plain_event io_net_event_enum_handshaken) v;
       if ret \<noteq> io_net_return_stop then io_ssl_generic_callback os tc cb' s e v else Some v }
     else if ret = WANT_READ tc then Some v
     else if ret = WANT_WRITE tc then io_driver_watch (net_driver (nets v s)) s IO_DRIVER_EVENT_TX v
     else do { (_, _, v) \<leftarrow> call_net_cb cb' s (plain_event io_net_event_enum_closed) v; Some v })" if m: "mirrors B w v" for w v
  proof -
    obtain r w1 v1 where t: "sys os (Tls Tls_handshake s) w = (r, w1)" "sys os (Tls Tls_handshake s) v = (r, v1)" "mirrors B w1 v1"
      using sys_mirrors[OF os m] by blast
    note m2 = set_cb_mirrors[OF not_handshaking_mirrors[OF t(3), of s False], of s Io_ssl_generic_callback]
    show ?thesis
      using t(3) watch_mirrors[OF t(3)] io_ssl_generic_callback_same[OF os c _ s]
      by (auto simp: t mirrorsD(1)[OF t(3)] as_plain_event Let_def intro!: then_reply[OF call_same[OF c m2]] then_reply[OF call_same[OF c t(3)]])
  qed
  show ?thesis
    unfolding io_ssl_handshake_callback_ref_def io_ssl_handshake_callback_def mirrorsD(1)[OF m] as_conn_fields Let_def[of s]
    by (rule then_same_state[OF no_watch_mirrors[OF m]]) (use s body in \<open>simp add: deref_def\<close>)
qed


lemma as_new_event:
  "as_event \<lparr>sev_enum = io_net_event_enum_alloc_connection, sev_u = Sev_n NULL, sev_from = x\<rparr> = zero_event\<lparr>ev_from := x\<rparr>"
  "as_event \<lparr>sev_enum = k, sev_u = Sev_n NULL, sev_from = x\<rparr> = zero_event\<lparr>ev_enum := k, ev_from := x\<rparr>"
  by (simp_all add: as_event_def zero_event_def)

lemma new_conn_mirrors:
  assumes "mirrors B w v"
  shows "mirrors B (put_ref n ((io_ssls w n)\<lparr>s_sd := fd, s_cb := s_cb (io_ssls w l), s_driver := s_driver (io_ssls w l)\<rparr>) w)
    (let v = put_net n ((nets v n)\<lparr>sd := fd, net_cb := net_cb (nets v l), net_driver := net_driver (nets v l), net_ssl := n\<rparr>) v
     in put_ssl n ((ssls v n)\<lparr>ssl_n := n\<rparr>) v)"
  unfolding Let_def by (intro put_ssl_mirrors put_conn_mirrors[OF assms]) (simp_all add: mirrorsD(1)[OF assms] as_conn_def put_net_def)

lemma new_conn_ssl_n: "ssl_n (ssls (let v = put_net n x v in put_ssl n ((ssls v n)\<lparr>ssl_n := n\<rparr>) v) n) = n"
  by (simp add: put_ssl_def Let_def)

lemma io_ssl_accept_callback_same:
  assumes os: "deaf os" and c: "same_client B cb cb'" and m: "mirrors B w v" and s: "s \<noteq> NULL"
  shows "same_state B (io_ssl_accept_callback_ref os cb s e w) (io_ssl_accept_callback os cb' s e v)"
proof -
  obtain r w1 v1 where t: "os_do os (Sys_accept (s_sd (io_ssls w s))) w = (r, w1)" "os_do os (Sys_accept (s_sd (io_ssls w s))) v = (r, v1)"
      "mirrors B w1 v1"
    using os_do_mirrors[OF os m] by blast
  let ?fd = "os_ret r"
  note m2 = mark_mirrors[OF t(3), of os ?fd]
  have rest: "same_state B
      (do { let (_, w) = io_ssl_mbedtls_init_accepted_ref os s n w;
          let w = put_ref n ((io_ssls w n)\<lparr>s_handshaking := True\<rparr>) w;
          w \<leftarrow> io_driver_watcher_init n ?fd Io_ssl_handshake_callback w;
          w \<leftarrow> io_driver_watch (s_driver (io_ssls w n)) n IO_DRIVER_EVENT_RX w;
          (_, _, w) \<leftarrow> call_ssl_cb cb n \<lparr>sev_enum = io_net_event_enum_connected, sev_u = Sev_n NULL, sev_from = Some (os_addr r)\<rparr> w;
          Some w })
      (do { let (_, v) = io_ssl_mbedtls_init_accepted os s n v;
          let v = put_ssl n ((ssls v n)\<lparr>handshaking := True\<rparr>) v;
          v \<leftarrow> io_driver_watcher_init n ?fd Io_ssl_handshake_callback v;
          v \<leftarrow> io_driver_watch (net_driver (nets v n)) n IO_DRIVER_EVENT_RX v;
          (_, _, v) \<leftarrow> call_net_cb cb' n (zero_event\<lparr>ev_enum := io_net_event_enum_connected, ev_from := Some (os_addr r)\<rparr>) v;
          Some v })" if m: "mirrors B w v" and n: "ssl_n (ssls v n) = n" for n w v
  proof -
    obtain q w1 v1 where i: "io_ssl_mbedtls_init_accepted_ref os s n w = (q, w1)" "io_ssl_mbedtls_init_accepted os s n v = (q, v1)" "mirrors B w1 v1"
      using init_accepted_mirrors[OF os mirrors_mono[OF m subset_insertI] n] by blast
    have "same_state B
      (do { w \<leftarrow> io_driver_watch (s_driver (io_ssls w n)) n IO_DRIVER_EVENT_RX w;
          (_, _, w) \<leftarrow> call_ssl_cb cb n \<lparr>sev_enum = io_net_event_enum_connected, sev_u = Sev_n NULL, sev_from = Some (os_addr r)\<rparr> w;
          Some w })
      (do { v \<leftarrow> io_driver_watch (net_driver (nets v n)) n IO_DRIVER_EVENT_RX v;
          (_, _, v) \<leftarrow> call_net_cb cb' n (zero_event\<lparr>ev_enum := io_net_event_enum_connected, ev_from := Some (os_addr r)\<rparr>) v;
          Some v })" if m: "mirrors B w v" for w v
      unfolding mirrorsD(1)[OF m] as_conn_fields
      by (intro then_same_state[OF watch_mirrors[OF m]] then_reply[OF call_same[OF c]]) (simp_all add: as_new_event)
    then show ?thesis
      by (simp add: i then_same_state[OF watcher_init_mirrors[OF not_handshaking_mirrors[OF i(3)]]])
  qed
  show ?thesis
  proof (cases "e \<noteq> IO_DRIVER_EVENT_RX \<or> ?fd < 0")
    case True
    then show ?thesis using t m by (auto simp: io_ssl_accept_callback_ref_def io_ssl_accept_callback_def mirrorsD(1)[OF m])
  next
    case False
    let ?p = "\<lambda>(ret, ev, w). if ret = io_net_return_stop then Some (sys_all os [Sys_close ?fd] w)
        else do {
          let w = sock_util_put_nonblock os ?fd w;
          n \<leftarrow> (case sev_u ev of Sev_n n \<Rightarrow> if n = NULL then None else Some n | _ \<Rightarrow> None);
          let w = put_ref n ((io_ssls w n)\<lparr>s_sd := ?fd, s_cb := s_cb (io_ssls w s), s_driver := s_driver (io_ssls w s)\<rparr>) w;
          let (_, w) = io_ssl_mbedtls_init_accepted_ref os s n w;
          let w = put_ref n ((io_ssls w n)\<lparr>s_handshaking := True\<rparr>) w;
          w \<leftarrow> io_driver_watcher_init n ?fd Io_ssl_handshake_callback w;
          w \<leftarrow> io_driver_watch (s_driver (io_ssls w n)) n IO_DRIVER_EVENT_RX w;
          (_, _, w) \<leftarrow> call_ssl_cb cb n (ev\<lparr>sev_enum := io_net_event_enum_connected, sev_u := Sev_n NULL, sev_from := Some (os_addr r)\<rparr>) w;
          Some w }"
    let ?q = "\<lambda>(ret, ev, w). if ret = io_net_return_stop then Some (sys_all os [Sys_close ?fd] w)
        else do {
          let w = sock_util_put_nonblock os ?fd w;
          (n, s') \<leftarrow> (case ev_u ev of Ev_c n s \<Rightarrow> if n = NULL \<or> s = NULL then None else Some (n, s) | _ \<Rightarrow> None);
          let w = put_net n ((nets w n)\<lparr>sd := ?fd, net_cb := net_cb (nets w s), net_driver := net_driver (nets w s), net_ssl := s'\<rparr>) w;
          let w = put_ssl s' ((ssls w s')\<lparr>ssl_n := n\<rparr>) w;
          let (_, w) = io_ssl_mbedtls_init_accepted os s s' w;
          let w = put_ssl s' ((ssls w s')\<lparr>handshaking := True\<rparr>) w;
          w \<leftarrow> io_driver_watcher_init n ?fd Io_ssl_handshake_callback w;
          w \<leftarrow> io_driver_watch (net_driver (nets w n)) n IO_DRIVER_EVENT_RX w;
          (_, _, w) \<leftarrow> call_net_cb cb' n (zero_event\<lparr>ev_enum := io_net_event_enum_connected, ev_from := Some (os_addr r)\<rparr>) w;
          Some w }"
    have step: "same_state B (?p (ret, ev, w)) (?q (ret, as_event ev, v))" if m: "mirrors B w v" for ret ev w v
    proof -
      note m3 = nonblock_mirrors[OF os m, of ?fd]
      show ?thesis
        using rest[OF new_conn_mirrors[OF m3, where fd = "?fd" and l = s] new_conn_ssl_n] sys_all_mirrors[OF os m]
        by (cases ev; cases "sev_u ev") (simp_all add: as_event_def Let_def)
    qed
    have "io_ssl_accept_callback_ref os cb s e w
        = call_ssl_cb cb s \<lparr>sev_enum = io_net_event_enum_alloc_connection, sev_u = Sev_n NULL, sev_from = Some (os_addr r)\<rparr> w1 \<bind> ?p"
      using False t(1) by (simp add: io_ssl_accept_callback_ref_def Let_def)
    moreover have "io_ssl_accept_callback os cb' s e v
        = call_net_cb cb' s (zero_event\<lparr>ev_from := Some (os_addr r)\<rparr>) (sys_all os [Sys_fcntl_setfd ?fd] v1) \<bind> ?q"
      using False t(2) s by (simp add: io_ssl_accept_callback_def mirrorsD(1)[OF m] deref_def Let_def cong: if_cong)
    moreover have "same_state B (call_ssl_cb cb s \<lparr>sev_enum = io_net_event_enum_alloc_connection, sev_u = Sev_n NULL, sev_from = Some (os_addr r)\<rparr> w1 \<bind> ?p)
        (call_net_cb cb' s (zero_event\<lparr>ev_from := Some (os_addr r)\<rparr>) (sys_all os [Sys_fcntl_setfd ?fd] v1) \<bind> ?q)"
      by (rule then_reply[OF call_same[OF c m2 as_new_event(1)[symmetric]]]) (rule step)
    ultimately show ?thesis by simp
  qed
qed


section \<open>What the move into the network service kept and what it lost\<close>

text \<open>Where the two services differ: which descriptor the context of a listening object holds, and with that what closing it frees.\<close>

lemma ref_frame:
  fixes w :: ssl_mem
  shows "io_ssls (snd (sys os c w)) = io_ssls w" "io_ssls (sys_all os cs w) = io_ssls w" "io_ssls (snd (sys_try os cs w)) = io_ssls w"
    "io_ssls (sock_util_put_nonblock os fd w) = io_ssls w"
    "io_driver_watcher_init p fd cb w = Some w' \<Longrightarrow> io_ssls w' = io_ssls w" "io_driver_watch d p x w = Some w' \<Longrightarrow> io_ssls w' = io_ssls w"
proof -
  show 1: "io_ssls (snd (sys os c w)) = io_ssls w" for c and w :: ssl_mem by (simp add: sys_def os_do_def Let_def)
  show 2: "io_ssls (sys_all os cs w) = io_ssls w" for cs by (induction cs arbitrary: w) (simp_all add: sys_all.simps 1)
  show "io_ssls (snd (sys_try os cs w)) = io_ssls w"
    by (induction cs arbitrary: w) (simp_all add: sys_try.simps 1 case_prod_unfold Let_def)
  show "io_ssls (sock_util_put_nonblock os fd w) = io_ssls w" by (simp add: sock_util_put_nonblock_def 2)
  show "io_driver_watcher_init p fd cb w = Some w' \<Longrightarrow> io_ssls w' = io_ssls w" "io_driver_watch d p x w = Some w' \<Longrightarrow> io_ssls w' = io_ssls w"
    by (auto simp: io_driver_watcher_init_def io_driver_watch_def on_heap_def put_watcher_def Let_def bind_eq_Some_conv split: if_splits)
qed

lemma listener_contexts:
  fixes w :: ssl_mem
  assumes "io_ssl_bind os driver s port cb w = Some (0, w')"
  shows "s_mbed_fd (io_ssls w' s) = os_val (os (Tls Tls_net_init s) (trace w))"
  using assms by (auto simp: io_ssl_bind_def io_ssl_mbedtls_init_server_ref_def tls_contexts_init_ref_def os_do_def put_ref_def Let_def
      case_prod_unfold ref_frame bind_eq_Some_conv split: if_splits)

lemma net_listener_contexts:
  assumes "io_net_bind os driver n s port cb v = Some (0, v')" "s \<noteq> NULL"
  shows "mbed_fd (ssls v' s) = sd (nets v' n)"
  using assms by (auto simp: io_net_bind_def socket_failed_def put_ssl_def Let_def case_prod_unfold bind_eq_Some_conv split: if_splits)

lemma ref_close_calls:
  fixes w :: ssl_mem
  assumes "io_ssl_close os s w = Some w'"
  shows "\<exists>tr. trace w' = trace w @ tr \<and> map fst tr = closing_calls (s_mbed_fd (io_ssls w s)) s (s_sd (io_ssls w s))"
proof -
  let ?c = "Tls (Tls_net_free (s_mbed_fd (io_ssls w s))) s"
    and ?cs = "List.map (\<lambda>c. Tls c s) [Tls_crt_free, Tls_pk_free, Tls_ssl_free, Tls_config_free, Tls_ctr_drbg_free, Tls_entropy_free]"
  let ?u = "io_ssl_mbedtls_deinit_ref os s w"
  obtain r w1 where 1: "os_do os ?c w = (r, w1)" "trace w1 = trace w @ [(?c, r)]" by (simp add: os_do_def Let_def)
  obtain tr e where 2: "sys_all os ?cs (put_ref s ((io_ssls w1 s)\<lparr>s_mbed_fd := os_val r\<rparr>) w1)
      = (put_ref s ((io_ssls w1 s)\<lparr>s_mbed_fd := os_val r\<rparr>) w1)\<lparr>trace := trace w1 @ tr, errno := e\<rparr>" "map fst tr = ?cs"
    using sys_all_state[of os ?cs "put_ref s ((io_ssls w1 s)\<lparr>s_mbed_fd := os_val r\<rparr>) w1"] by (auto simp: put_ref_def)
  then have u: "trace ?u = trace w @ (?c, r) # tr" using 1 by (simp add: io_ssl_mbedtls_deinit_ref_def)
  have sd: "s_sd (io_ssls ?u s) = s_sd (io_ssls w s)" using deinit_ref_conn[of s os s w] by (simp add: as_conn_def)
  obtain u' where u': "io_driver_no_watch (s_driver (io_ssls ?u s)) s (IO_DRIVER_EVENT_RX OR IO_DRIVER_EVENT_TX OR IO_DRIVER_EVENT_EX) ?u = Some u'"
    "w' = sys_all os [Sys_close (s_sd (io_ssls u' s))] u'"
    using assms by (auto simp: io_ssl_close_def Let_def bind_eq_Some_conv)
  have f: "trace u' = trace ?u" "io_ssls u' = io_ssls ?u"
    using u'(1) by (auto simp: io_driver_no_watch_def on_heap_def put_watcher_def Let_def bind_eq_Some_conv split: if_splits)
  obtain tr' e' where 3: "sys_all os [Sys_close (s_sd (io_ssls u' s))] u' = u'\<lparr>trace := trace u' @ tr', errno := e'\<rparr>"
    "map fst tr' = [Sys_close (s_sd (io_ssls u' s))]" using sys_all_state by blast
  show ?thesis using u f sd 2(2) 3 u'(2) by (intro exI[of _ "((?c, r) # tr) @ tr'"]) (simp add: closing_calls_def)
qed


text \<open>C26: The connect callback is the exception. Up to the event and after it the two do the same; but the older one tells the client
  whether the connection was made, and the integrated one clears the event first and sends \<open>alloc_connection\<close> in both cases.\<close>

theorem io_ssl_connect_callbacks_differ:
  assumes os: "deaf os" and m: "mirrors B w v" and s: "s \<noteq> NULL"
  defines "failed \<equiv> os_val (os (Sys_getsockopt_error (s_sd (io_ssls w s))) (trace w)) \<noteq> 0"
  shows "\<exists>x y. same_state B x y
    \<and> io_ssl_connect_callback_ref os tc cb s IO_DRIVER_EVENT_TX w = do {
        w \<leftarrow> x;
        (_, _, w) \<leftarrow> call_ssl_cb cb s \<lparr>sev_enum = if failed then io_net_event_enum_closed else io_net_event_enum_connected,
           sev_u = Sev_n s, sev_from = None\<rparr> w;
        io_ssl_handshake_callback_ref os tc cb s 0 w }
    \<and> io_ssl_connect_callback os tc cb' s IO_DRIVER_EVENT_TX v = do {
        v \<leftarrow> y;
        (_, _, v) \<leftarrow> call_net_cb cb' s \<lparr>ev_enum = io_net_event_enum_alloc_connection, ev_u = Ev_c s NULL, ev_from = None\<rparr> v;
        io_ssl_handshake_callback os tc cb' s 0 v }"
proof -
  obtain r w1 v1 where t: "os_do os (Sys_getsockopt_error (s_sd (io_ssls w s))) w = (r, w1)"
      "os_do os (Sys_getsockopt_error (s_sd (io_ssls w s))) v = (r, v1)" "mirrors B w1 v1"
    using os_do_mirrors[OF os m] by blast
  have f: "failed \<longleftrightarrow> os_val r \<noteq> 0" using t(1) by (auto simp: failed_def os_do_def Let_def)
  let ?x1 = "if os_val r \<noteq> 0 then Some w1 else do {
      let w = io_driver_watcher_set_cb s Io_ssl_generic_callback w1;
      w \<leftarrow> io_driver_no_watch (s_driver (io_ssls w s)) s IO_DRIVER_EVENT_TX w;
      io_driver_watch (s_driver (io_ssls w s)) s IO_DRIVER_EVENT_RX w }"
    and ?y1 = "if os_val r \<noteq> 0 then Some v1 else do {
      let v = io_driver_watcher_set_cb s Io_ssl_generic_callback v1;
      v \<leftarrow> io_driver_no_watch (net_driver (nets v s)) s IO_DRIVER_EVENT_TX v;
      io_driver_watch (net_driver (nets v s)) s IO_DRIVER_EVENT_RX v }"
  let ?x = "?x1 \<bind> (\<lambda>w. Some (io_driver_watcher_set_cb s Io_ssl_handshake_callback (put_ref s ((io_ssls w s)\<lparr>s_handshaking := True\<rparr>) w)))"
    and ?y = "?y1 \<bind> (\<lambda>v. Some (io_driver_watcher_set_cb s Io_ssl_handshake_callback (put_ssl s ((ssls v s)\<lparr>handshaking := True\<rparr>) v)))"
  note m1 = set_cb_mirrors[OF t(3), of s Io_ssl_generic_callback]
  have "same_state B ?x1 ?y1"
    using t(3) by (auto simp: Let_def mirrorsD(1)[OF m1] mirrorsD(1) intro!: then_same_state[OF no_watch_mirrors[OF m1]] watch_mirrors)
  then have "same_state B ?x ?y"
    by (rule then_same_state) (simp add: set_cb_mirrors not_handshaking_mirrors)
  moreover have "io_ssl_connect_callback_ref os tc cb s IO_DRIVER_EVENT_TX w = do {
        w \<leftarrow> ?x;
        (_, _, w) \<leftarrow> call_ssl_cb cb s \<lparr>sev_enum = if failed then io_net_event_enum_closed else io_net_event_enum_connected,
           sev_u = Sev_n s, sev_from = None\<rparr> w;
        io_ssl_handshake_callback_ref os tc cb s 0 w }"
    by (simp add: io_ssl_connect_callback_ref_def t(1) f plain_ssl_event_def Let_def)
  moreover have "io_ssl_connect_callback os tc cb' s IO_DRIVER_EVENT_TX v = do {
        v \<leftarrow> ?y;
        (_, _, v) \<leftarrow> call_net_cb cb' s \<lparr>ev_enum = io_net_event_enum_alloc_connection, ev_u = Ev_c s NULL, ev_from = None\<rparr> v;
        io_ssl_handshake_callback os tc cb' s 0 v }"
    using s by (simp add: io_ssl_connect_callback_def mirrorsD(1)[OF m] t(2) zero_event_def deref_def Let_def)
  ultimately show ?thesis by blast
qed

section \<open>A concrete instance\<close>

text \<open>A client that closes its connection when it ends, in both services.\<close>

definition closing_client :: "addr set \<Rightarrow> os \<Rightarrow> ssl_mem ssl_client" where
  "closing_client B os c s e w =
     (if sev_enum e = io_net_event_enum_closed \<and> s \<noteq> NULL \<and> s \<notin> B then do { w \<leftarrow> io_ssl_close os s w; Some (io_net_return_stop, e, w) }
      else Some (io_net_return_continue, e, w))"

definition closing_net_client :: "addr set \<Rightarrow> os \<Rightarrow> net_mem net_client" where
  "closing_net_client B os c s e v =
     (if ev_enum e = io_net_event_enum_closed \<and> s \<noteq> NULL \<and> s \<notin> B then do { v \<leftarrow> io_net_close os s v; Some (io_net_return_stop, e, v) }
      else Some (io_net_return_continue, e, v))"

lemma closing_clients_same: "deaf os \<Longrightarrow> same_client B (closing_client B os) (closing_net_client B os)"
proof -
  assume os: "deaf os"
  have e: "ev_enum (as_event e) = sev_enum e" for e by (simp add: as_event_def)
  show "same_client B (closing_client B os) (closing_net_client B os)"
    unfolding same_client_def
  proof (intro allI impI)
    fix c s e w v
    assume m: "mirrors B w v"
    show "same_reply B (closing_client B os c s e w) (closing_net_client B os c s (as_event e) v)"
    proof (cases "s \<noteq> NULL \<and> s \<notin> B")
      case True
      then show ?thesis
        using io_ssl_close_same[OF os m, of s] m unfolding same_state_def
        by (cases "io_ssl_close os s w"; cases "io_net_close os s v")
          (auto simp: same_reply_def closing_client_def closing_net_client_def e)
    next
      case False
      then show ?thesis using m by (auto simp: same_reply_def closing_client_def closing_net_client_def e)
    qed
  qed
qed

definition demo_ref :: ssl_mem where
  "demo_ref = io_timer_mem.extend (io_timer_mem.truncate demo_net)
     (ssl_mem.fields (\<lambda>_. \<lparr>s_sd = 3, s_cb = User_net_callback 0, s_driver = 20, s_mbed_fd = -1, s_handshaking = False, s_rx_buf = 0, s_rx_size = 4\<rparr>) [])"

definition demo_mirror :: net_mem where
  "demo_mirror = net_of demo_ref [] 0 (\<lambda>_. \<lparr>mbed_fd = -1, handshaking = False, ssl_n = NULL\<rparr>)"

lemma demo_mirrors: "mirrors B demo_ref demo_mirror"
  by (simp add: demo_mirror_def demo_ref_def io_timer_mem.defs ssl_mem.defs demo_net_def heard_def)

text \<open>A system that hands out descriptor 5 first.\<close>

definition deaf_os :: os where
  "deaf_os c tr = answer (if Sys_socket True \<in> set (List.map fst (heard tr)) then 0 else if c = Sys_socket True then 5 else 0)"

lemma deaf_demo: "deaf deaf_os"
  by (simp add: deaf_def deaf_os_def)


theorem io_ssl_connect_callbacks_differ_witness:
  "\<exists>x y. same_state {} x y
    \<and> io_ssl_connect_callback_ref deaf_os demo_codes (closing_client {} deaf_os) 30 IO_DRIVER_EVENT_TX demo_ref = do {
        w \<leftarrow> x;
        (_, _, w) \<leftarrow> call_ssl_cb (closing_client {} deaf_os) 30 \<lparr>sev_enum = io_net_event_enum_connected, sev_u = Sev_n 30, sev_from = None\<rparr> w;
        io_ssl_handshake_callback_ref deaf_os demo_codes (closing_client {} deaf_os) 30 0 w }"
proof -
  have r: "os_val (deaf_os (Sys_getsockopt_error (s_sd (io_ssls demo_ref 30))) (trace demo_ref)) = 0" by (simp add: deaf_os_def answer_def)
  show ?thesis
    using io_ssl_connect_callbacks_differ[OF deaf_demo demo_mirrors[of "{}"], of 30 demo_codes "closing_client {} deaf_os" "closing_net_client {} deaf_os"]
    unfolding r by (auto simp: NULL_def)
qed

end
