(* ===== verification/List_Traversals.thy ===== *)
theory List_Traversals
  imports List_Loops
begin

text \<open>
  The other traversal macros of \<open>src/src/generic_list.h\<close>: backwards, from the middle of a list, and their variants that are
  safe against removal. The library itself uses two of the macros only (\<open>List_Loops\<close>); its users may use all.

  A backward traversal is a forward traversal of the mirrored heap, in which every cell has its two links exchanged: \<open>back_is_forward\<close>
  and \<open>safe_back_is_forward\<close> say so of the loops, and what is known of the forward loops carries over.
\<close>

section \<open>The macros\<close>

text \<open>\<open>list_for_each\<close> is on the nodes themselves; its name is taken by the loop that it shares with \<open>list_for_each_entry\<close>.\<close>

definition list_for_each_node :: "('s \<Rightarrow> list_heap) \<Rightarrow> addr \<Rightarrow> (addr \<Rightarrow> 's \<Rightarrow> 's option) \<Rightarrow> 's \<Rightarrow> 's option" where
  "list_for_each_node hp head body s = do {
     pos \<leftarrow> read_next head (hp s);
     list_for_each hp body head pos s
   }"

partial_function (option) no_prefetch ::
  "('s \<Rightarrow> list_heap) \<Rightarrow> (addr \<Rightarrow> 's \<Rightarrow> 's option) \<Rightarrow> addr \<Rightarrow> addr \<Rightarrow> 's \<Rightarrow> 's option" where
  "no_prefetch hp body head pos s =
     (if pos = head then Some s
      else do {
        s \<leftarrow> body pos s;
        pos \<leftarrow> read_next pos (hp s);
        no_prefetch hp body head pos s
      })"

definition internal_list_for_each :: "('s \<Rightarrow> list_heap) \<Rightarrow> addr \<Rightarrow> (addr \<Rightarrow> 's \<Rightarrow> 's option) \<Rightarrow> 's \<Rightarrow> 's option" where
  "internal_list_for_each hp head body s = do {
     pos \<leftarrow> read_next head (hp s);
     no_prefetch hp body head pos s
   }"

partial_function (option) back_loop ::
  "('s \<Rightarrow> list_heap) \<Rightarrow> (addr \<Rightarrow> 's \<Rightarrow> 's option) \<Rightarrow> addr \<Rightarrow> addr \<Rightarrow> 's \<Rightarrow> 's option" where
  "back_loop hp body head pos s = do {
     prefetched \<leftarrow> read_prev pos (hp s);
     if pos = head then Some s
     else do {
       s \<leftarrow> body pos s;
       pos \<leftarrow> read_prev pos (hp s);
       back_loop hp body head pos s
     }
   }"

definition list_for_each_prev :: "('s \<Rightarrow> list_heap) \<Rightarrow> addr \<Rightarrow> (addr \<Rightarrow> 's \<Rightarrow> 's option) \<Rightarrow> 's \<Rightarrow> 's option" where
  "list_for_each_prev hp head body s = do {
     pos \<leftarrow> read_prev head (hp s);
     back_loop hp body head pos s
   }"

definition list_for_each_entry_reverse :: "('s \<Rightarrow> list_heap) \<Rightarrow> addr \<Rightarrow> (addr \<Rightarrow> 's \<Rightarrow> 's option) \<Rightarrow> 's \<Rightarrow> 's option" where
  "list_for_each_entry_reverse hp head body s = do {
     pos \<leftarrow> read_prev head (hp s);
     back_loop hp body head pos s
   }"

definition list_prepare_entry :: "addr \<Rightarrow> addr \<Rightarrow> addr" where
  "list_prepare_entry pos head = (if pos \<noteq> NULL then pos else head)"

definition list_for_each_entry_continue :: "('s \<Rightarrow> list_heap) \<Rightarrow> addr \<Rightarrow> (addr \<Rightarrow> 's \<Rightarrow> 's option) \<Rightarrow> addr \<Rightarrow> 's \<Rightarrow> 's option" where
  "list_for_each_entry_continue hp head body pos s = do {
     pos \<leftarrow> read_next pos (hp s);
     list_for_each hp body head pos s
   }"

definition list_for_each_entry_continue_reverse ::
  "('s \<Rightarrow> list_heap) \<Rightarrow> addr \<Rightarrow> (addr \<Rightarrow> 's \<Rightarrow> 's option) \<Rightarrow> addr \<Rightarrow> 's \<Rightarrow> 's option" where
  "list_for_each_entry_continue_reverse hp head body pos s = do {
     pos \<leftarrow> read_prev pos (hp s);
     back_loop hp body head pos s
   }"

definition list_for_each_entry_from :: "('s \<Rightarrow> list_heap) \<Rightarrow> addr \<Rightarrow> (addr \<Rightarrow> 's \<Rightarrow> 's option) \<Rightarrow> addr \<Rightarrow> 's \<Rightarrow> 's option" where
  "list_for_each_entry_from hp head body pos s = list_for_each hp body head pos s"

text \<open>Safe against removal: \<open>n\<close> is read before the body runs.\<close>

definition list_for_each_node_safe :: "('s \<Rightarrow> list_heap) \<Rightarrow> addr \<Rightarrow> (addr \<Rightarrow> 's \<Rightarrow> 's option) \<Rightarrow> 's \<Rightarrow> 's option" where
  "list_for_each_node_safe hp head body s = do {
     pos \<leftarrow> read_next head (hp s);
     n \<leftarrow> read_next pos (hp s);
     list_for_each_safe hp body head pos n s
   }"

partial_function (option) safe_back_prefetch ::
  "('s \<Rightarrow> list_heap) \<Rightarrow> (addr \<Rightarrow> 's \<Rightarrow> 's option) \<Rightarrow> addr \<Rightarrow> addr \<Rightarrow> addr \<Rightarrow> 's \<Rightarrow> 's option" where
  "safe_back_prefetch hp body head pos n s = do {
     prefetched \<leftarrow> read_prev pos (hp s);
     if pos = head then Some s
     else do {
       s \<leftarrow> body pos s;
       n' \<leftarrow> read_prev n (hp s);
       safe_back_prefetch hp body head n n' s
     }
   }"

definition list_for_each_prev_safe :: "('s \<Rightarrow> list_heap) \<Rightarrow> addr \<Rightarrow> (addr \<Rightarrow> 's \<Rightarrow> 's option) \<Rightarrow> 's \<Rightarrow> 's option" where
  "list_for_each_prev_safe hp head body s = do {
     pos \<leftarrow> read_prev head (hp s);
     n \<leftarrow> read_prev pos (hp s);
     safe_back_prefetch hp body head pos n s
   }"

partial_function (option) safe_back_loop ::
  "('s \<Rightarrow> list_heap) \<Rightarrow> (addr \<Rightarrow> 's \<Rightarrow> 's option) \<Rightarrow> addr \<Rightarrow> addr \<Rightarrow> addr \<Rightarrow> 's \<Rightarrow> 's option" where
  "safe_back_loop hp body head pos n s =
     (if pos = head then Some s
      else do {
        s \<leftarrow> body pos s;
        n' \<leftarrow> read_prev n (hp s);
        safe_back_loop hp body head n n' s
      })"

definition list_for_each_entry_safe_reverse :: "('s \<Rightarrow> list_heap) \<Rightarrow> addr \<Rightarrow> (addr \<Rightarrow> 's \<Rightarrow> 's option) \<Rightarrow> 's \<Rightarrow> 's option" where
  "list_for_each_entry_safe_reverse hp head body s = do {
     pos \<leftarrow> read_prev head (hp s);
     n \<leftarrow> read_prev pos (hp s);
     safe_back_loop hp body head pos n s
   }"

definition list_for_each_entry_safe_continue ::
  "('s \<Rightarrow> list_heap) \<Rightarrow> addr \<Rightarrow> (addr \<Rightarrow> 's \<Rightarrow> 's option) \<Rightarrow> addr \<Rightarrow> 's \<Rightarrow> 's option" where
  "list_for_each_entry_safe_continue hp head body pos s = do {
     pos \<leftarrow> read_next pos (hp s);
     n \<leftarrow> read_next pos (hp s);
     list_for_each_safe hp body head pos n s
   }"

definition list_for_each_entry_safe_from ::
  "('s \<Rightarrow> list_heap) \<Rightarrow> addr \<Rightarrow> (addr \<Rightarrow> 's \<Rightarrow> 's option) \<Rightarrow> addr \<Rightarrow> 's \<Rightarrow> 's option" where
  "list_for_each_entry_safe_from hp head body pos s = do {
     n \<leftarrow> read_next pos (hp s);
     list_for_each_safe hp body head pos n s
   }"

text \<open>The new value of \<open>n\<close>.\<close>

definition list_safe_reset_next :: "addr \<Rightarrow> list_heap \<Rightarrow> addr option" where
  "list_safe_reset_next pos h = read_next pos h"

section \<open>The mirrored heap\<close>

definition mirror :: "list_heap \<Rightarrow> list_heap" where
  "mirror h = (\<lambda>a. map_option (\<lambda>c. \<lparr>le_next = le_prev c, le_prev = le_next c\<rparr>) (h a))"

lemma mirror_simps [simp]:
  "read_next a (mirror h) = read_prev a h" "read_prev a (mirror h) = read_next a h"
  "nxt (mirror h) = prv h" "prv (mirror h) = nxt h" "dom (mirror h) = dom h" "mirror h a = None \<longleftrightarrow> h a = None"
  by (auto simp: mirror_def read_next_def read_prev_def nxt_def prv_def fun_eq_iff option.map_comp comp_def split: option.splits)

lemma chain_rev: "chain p n (rev xs) \<longleftrightarrow> chain n p xs"
proof (induction xs)
  case (Cons x xs)
  show ?case
  proof (cases xs)
    case (Cons y ys)
    then show ?thesis using Cons.IH chain_append[of p n "rev ys" y "[x]"] by auto
  qed simp
qed simp

lemma ring_mirror: "ring (mirror h) c (rev xs) \<longleftrightarrow> ring h c xs"
proof -
  have "c # rev xs @ [c] = rev (c # xs @ [c])" by simp
  then show ?thesis unfolding ring_def mirror_simps by (simp only: chain_rev) simp
qed

lemma lists_mirror: "heap_lists h L \<Longrightarrow> heap_lists (mirror h) (\<lambda>a. map_option rev (L a))"
  by (auto simp: heap_lists_def ring_mirror) blast

lemma back_forward:
  "list_for_each (\<lambda>s. mirror (hp s)) body head pos s = Some y \<Longrightarrow> back_loop hp body head pos s = Some y"
proof (rule list_for_each.raw_induct[where P = "\<lambda>hp' body head pos s y. \<forall>hp. hp' = (\<lambda>s. mirror (hp s)) \<longrightarrow> back_loop hp body head pos s = Some y",
      THEN spec, THEN mp, OF _ _ refl], goal_cases)
  case (1 f hp' body head pos s y)
  then show ?case
    by (subst back_loop.simps) (auto simp: bind_eq_Some_conv split: if_splits)
qed

lemma forward_back: "back_loop hp body head pos s = Some y \<Longrightarrow> list_for_each (\<lambda>s. mirror (hp s)) body head pos s = Some y"
proof (rule back_loop.raw_induct[where P = "\<lambda>hp body head pos s y. list_for_each (\<lambda>s. mirror (hp s)) body head pos s = Some y"], goal_cases)
  case (1 f hp body head pos s y)
  then show ?case
    by (subst list_for_each.simps) (auto simp: bind_eq_Some_conv split: if_splits)
qed

lemma back_is_forward: "back_loop hp body head pos s = list_for_each (\<lambda>s. mirror (hp s)) body head pos s"
  using back_forward forward_back by (metis option.exhaust)


lemma safe_back_forward:
  "list_for_each_safe (\<lambda>s. mirror (hp s)) body head pos n s = Some y \<Longrightarrow> safe_back_loop hp body head pos n s = Some y"
proof (rule list_for_each_safe.raw_induct[where P = "\<lambda>hp' body head pos n s y. \<forall>hp. hp' = (\<lambda>s. mirror (hp s)) \<longrightarrow> safe_back_loop hp body head pos n s = Some y",
      THEN spec, THEN mp, OF _ _ refl], goal_cases)
  case (1 f hp' body head pos n s y)
  then show ?case
    by (subst safe_back_loop.simps) (auto simp: bind_eq_Some_conv split: if_splits)
qed

lemma no_prefetch_is_enough: "list_for_each hp body head pos s = Some y \<Longrightarrow> no_prefetch hp body head pos s = Some y"
proof (rule list_for_each.raw_induct[where P = "\<lambda>hp body head pos s y. no_prefetch hp body head pos s = Some y"], goal_cases)
  case (1 f hp body head pos s y)
  then show ?case
    by (subst no_prefetch.simps) (auto simp: bind_eq_Some_conv split: if_splits)
qed

text \<open>The prefetch of \<open>list_for_each_prev_safe\<close> reads a cell that is still there, since only visited elements are taken out.\<close>

context safe_traversal
begin

lemma loop_prefetch:
  assumes hp: "hp = (\<lambda>s. mirror (hp0 s))"
  shows "inv done rest s \<Longrightarrow> read_next (hd (rest @ [head])) (hp s) = Some n \<Longrightarrow>
   \<exists>s'. list_for_each_safe hp body head (hd (rest @ [head])) n s = Some s'
     \<and> safe_back_prefetch hp0 body head (hd (rest @ [head])) n s = Some s'"
proof (induction rest arbitrary: "done" s n)
  case Nil
  then show ?case by (subst list_for_each_safe.simps, subst safe_back_prefetch.simps) (simp add: hp)
next
  case (Cons x rest)
  obtain s1 where s1: "body x s = Some s1" "inv (done @ [x]) rest s1" using step[OF Cons.prems(1)] by blast
  have n: "n = hd (rest @ [head])" using next_of[OF Cons.prems(1)] Cons.prems(2) by auto
  obtain n1 where "read_next n (hp s1) = Some n1" using next_of[OF s1(2) n] by blast
  with Cons.IH[OF s1(2), of n1] Cons.prems(2) n s1(1) not_head[OF Cons.prems(1)] show ?case
    by (subst list_for_each_safe.simps, subst safe_back_prefetch.simps) (simp add: hp)
qed

end

section \<open>From anywhere, in both directions\<close>

text \<open>\<open>m\<close> is the direction: the heap itself or its mirror.\<close>

definition direction :: "(list_heap \<Rightarrow> list_heap) \<Rightarrow> bool" where
  "direction m \<longleftrightarrow> m = (\<lambda>h. h) \<or> m = mirror"

lemma mirror_mirror [simp]: "mirror (mirror h) = h"
proof (rule ext)
  show "mirror (mirror h) a = h a" for a by (cases "h a") (simp_all add: mirror_def)
qed

lemma lists_unmirror: "heap_lists (mirror h) L \<Longrightarrow> heap_lists h (\<lambda>a. map_option rev (L a))"
  using lists_mirror[of "mirror h" L] by simp

lemma del_any_direction:
  assumes m: "direction m" and L: "heap_lists (m h) L" "L c = Some (us @ x # vs)"
  shows "\<exists>h'. list_del_init x h = Some h' \<and> heap_lists (m h') (L(c \<mapsto> us @ vs, x \<mapsto> [])) \<and> dom h' = dom h"
proof -
  have x: "x \<notin> set us" "x \<notin> set vs" "x \<noteq> c" using ring_distinct[OF listsD(2)[OF L]] by auto
  then have r: "remove1 x (us @ x # vs) = us @ vs" "remove1 x (rev (us @ x # vs)) = rev (us @ vs)"
    by (simp_all add: remove1_append)
  show ?thesis
  proof (cases "m = (\<lambda>h. h)")
    case True
    then show ?thesis using list_del_init_family[of h L c "us @ x # vs" x] L r by auto
  next
    case False
    then have m: "m = mirror" using assms(1) by (simp add: direction_def)
    obtain h' where h: "list_del_init x h = Some h'" "heap_lists h' ((\<lambda>a. map_option rev (L a))(c \<mapsto> rev (us @ vs), x \<mapsto> []))" "dom h' = dom h"
      using list_del_init_family[OF lists_unmirror[OF L(1)[unfolded m]], of c "rev (us @ x # vs)" x] L(2) r by auto
    have "(\<lambda>a. map_option rev (((\<lambda>a. map_option rev (L a))(c \<mapsto> rev (us @ vs), x \<mapsto> [])) a)) = L(c \<mapsto> us @ vs, x \<mapsto> [])"
      by (auto simp: fun_eq_iff option.map_comp comp_def option.map_ident)
    then show ?thesis using lists_mirror[OF h(2)] h(1,3) m by auto
  qed
qed

interpretation middle: plain_traversal "\<lambda>s. m (snd s)" c log_only
    "\<lambda>don rest s. \<exists>l. s = (l, h0) \<and> don = us @ l \<and> heap_lists (m h0) L0 \<and> L0 c = Some (don @ rest)" for m c h0 L0 us
  by unfold_locales (auto simp: log_only_def)

definition emptying_from :: "(list_heap \<Rightarrow> list_heap) \<Rightarrow> list_heap \<Rightarrow> family \<Rightarrow> addr \<Rightarrow> addr list \<Rightarrow> addr list \<Rightarrow> addr list \<Rightarrow> addr list \<times> list_heap \<Rightarrow> bool" where
  "emptying_from m h0 L0 c us don rest s \<longleftrightarrow> direction m \<and> fst s = don \<and> dom (snd s) = dom h0
     \<and> heap_lists (m (snd s)) (\<lambda>a. if a = c then Some (us @ rest) else if a \<in> set don then Some [] else L0 a)"

interpretation removing: safe_traversal "\<lambda>s. m (snd s)" c log_and_del "emptying_from m h0 L0 c us" for m c h0 L0 us
proof
  fix don x rest and s :: "addr list \<times> list_heap"
  let ?L = "\<lambda>d r a. if a = c then Some (us @ r) else if a \<in> set d then Some [] else L0 a"
  assume e: "emptying_from m h0 L0 c us don (x # rest) s"
  then have L: "heap_lists (m (snd s)) (?L don (x # rest))" and m: "direction m" by (simp_all add: emptying_from_def)
  have c: "?L don (x # rest) c = Some (us @ x # rest)" by simp
  have xc: "x \<noteq> c" using ring_distinct[OF listsD(2)[OF L c]] by auto
  obtain h where h: "list_del_init x (snd s) = Some h" "heap_lists (m h) ((?L don (x # rest))(c \<mapsto> us @ rest, x \<mapsto> []))"
    "dom h = dom (snd s)"
    using del_any_direction[OF m L c] by blast
  have "(?L don (x # rest))(c \<mapsto> us @ rest, x \<mapsto> []) = ?L (don @ [x]) rest"
    using xc by (intro ext) simp
  then have "emptying_from m h0 L0 c us (don @ [x]) rest (don @ [x], h)"
    using h e unfolding emptying_from_def by simp
  moreover have "log_and_del x s = Some (don @ [x], h)" using h(1) e by (simp add: log_and_del_def emptying_from_def)
  ultimately show "\<exists>s'. log_and_del x s = Some s' \<and> emptying_from m h0 L0 c us (don @ [x]) rest s'" by blast
next
  fix don rest and s :: "addr list \<times> list_heap"
  assume "emptying_from m h0 L0 c us don rest s"
  then show "\<exists>L us. heap_lists (m (snd s)) L \<and> L c = Some (us @ rest)"
    unfolding emptying_from_def by (intro exI[of _ "\<lambda>a. if a = c then Some (us @ rest) else if a \<in> set don then Some [] else L0 a"] exI[of _ us]) simp
qed


lemma visits_from:
  assumes "heap_lists (m h) L" "L c = Some (us @ rest)"
  shows "list_for_each (\<lambda>s. m (snd s)) log_only c (hd (rest @ [c])) ([], h) = Some (rest, h)"
proof -
  have i: "\<exists>l. ([] :: addr list, h) = (l, h) \<and> us = us @ l \<and> heap_lists (m h) L \<and> L c = Some (us @ rest)" using assms by simp
  from middle.loop[where m = m, OF i] show ?thesis by auto
qed

lemma removes_from:
  assumes m: "direction m" and L: "heap_lists (m h) L" "L c = Some (us @ rest)"
    and n: "read_next (hd (rest @ [c])) (m h) = Some n"
  shows "\<exists>h'. list_for_each_safe (\<lambda>s. m (snd s)) log_and_del c (hd (rest @ [c])) n ([], h) = Some (rest, h')
    \<and> dom h' = dom h \<and> heap_lists (m h') (\<lambda>a. if a = c then Some us else if a \<in> set rest then Some [] else L a)
    \<and> (m = mirror \<longrightarrow> safe_back_prefetch snd log_and_del c (hd (rest @ [c])) n ([], h) = Some (rest, h'))"
proof -
  have "(\<lambda>a. if a = c then Some (us @ rest) else if a \<in> set [] then Some [] else L a) = L" using L(2) by auto
  then have e: "emptying_from m h L c us [] rest ([], h)" using m L(1) by (simp add: emptying_from_def)
  obtain s where s: "list_for_each_safe (\<lambda>s. m (snd s)) log_and_del c (hd (rest @ [c])) n ([], h) = Some s" "emptying_from m h L c us rest [] s"
    using removing.loop[OF e] n by auto
  have "m = mirror \<longrightarrow> safe_back_prefetch snd log_and_del c (hd (rest @ [c])) n ([], h) = Some s"
    using removing.loop_prefetch[of m snd h L c us "[]" rest "([], h)" n] e n s(1) by auto
  then show ?thesis using s unfolding emptying_from_def append_Nil2 by (cases s) simp
qed

lemma hd_rev_end: "hd (rev xs @ [c]) = last (c # xs)"
  by (cases xs rule: rev_cases) simp_all

section \<open>Properties\<close>

text \<open>C10: Every macro that only reads visits the elements from its starting point to the end of its direction, once each and in that order:
  all of them, forwards or backwards, the rest after a given element, with or without it, or those before it, the nearest first; \<open>list_safe_reset_next\<close> gives the successor.\<close>

theorem list_traversals_visit_in_order:
  assumes L: "heap_lists h L" and c: "L c = Some (us @ x # vs)"
  shows "list_for_each_node snd c log_only ([], h) = Some (us @ x # vs, h)
    \<and> list_for_each_entry snd c log_only ([], h) = Some (us @ x # vs, h)
    \<and> internal_list_for_each snd c log_only ([], h) = Some (us @ x # vs, h)
    \<and> list_for_each_prev snd c log_only ([], h) = Some (rev (us @ x # vs), h)
    \<and> list_for_each_entry_reverse snd c log_only ([], h) = Some (rev (us @ x # vs), h)
    \<and> list_for_each_entry_from snd c log_only x ([], h) = Some (x # vs, h)
    \<and> list_for_each_entry_continue snd c log_only (list_prepare_entry x c) ([], h) = Some (vs, h)
    \<and> list_for_each_entry_continue snd c log_only (list_prepare_entry NULL c) ([], h) = Some (us @ x # vs, h)
    \<and> list_for_each_entry_continue_reverse snd c log_only x ([], h) = Some (rev us, h)
    \<and> list_safe_reset_next x h = Some (hd (vs @ [c]))"
proof -
  let ?xs = "us @ x # vs" and ?M = "\<lambda>a. map_option rev (L a)"
  have M: "heap_lists (mirror h) ?M" "?M c = Some (rev vs @ x # rev us)" using lists_mirror[OF L] c by simp_all
  have 1: "list_for_each snd log_only c (hd (?xs @ [c])) ([], h) = Some (?xs, h)"
    using visits_from[of "\<lambda>h. h" h L c "[]" ?xs] L c by simp
  have 2: "list_for_each snd log_only c x ([], h) = Some (x # vs, h)" "list_for_each snd log_only c (hd (vs @ [c])) ([], h) = Some (vs, h)"
    using visits_from[of "\<lambda>h. h" h L c us "x # vs"] visits_from[of "\<lambda>h. h" h L c "us @ [x]" vs] L c by simp_all
  have 3: "back_loop snd log_only c (last (c # ?xs)) ([], h) = Some (rev ?xs, h)" "back_loop snd log_only c (last (c # us)) ([], h) = Some (rev us, h)"
    using visits_from[of mirror h ?M c "[]" "rev ?xs"] visits_from[of mirror h ?M c "rev vs @ [x]" "rev us"] M
    unfolding back_is_forward hd_rev_end by simp_all
  have "x \<noteq> NULL" using lists_elem_dom[OF L c, of x] listsD(1)[OF L] by (auto simp: domIff)
  then show ?thesis
    using 1 2 3 no_prefetch_is_enough[OF 1] list_first_family[OF L c] list_last_family[OF L c] list_neighbours[OF L c]
    by (simp add: list_for_each_node_def list_for_each_entry_def internal_list_for_each_def list_for_each_prev_def list_for_each_entry_reverse_def
        list_for_each_entry_from_def list_for_each_entry_continue_def list_for_each_entry_continue_reverse_def list_prepare_entry_def list_safe_reset_next_def
        del: last.simps hd_append2)
qed


text \<open>The list at \<open>c\<close> holds \<open>ys\<close>, the elements \<open>ds\<close> are taken out, and the other lists are as before.\<close>

definition left_with :: "list_heap \<Rightarrow> family \<Rightarrow> addr \<Rightarrow> addr list \<Rightarrow> addr list \<Rightarrow> bool" where
  "left_with h L c ys ds \<longleftrightarrow> heap_lists h (\<lambda>a. if a = c then Some ys else if a \<in> set ds then Some [] else L a)"

text \<open>C9: The safe macros visit the same elements when the body deletes each element it is given, and take out exactly those.\<close>

theorem list_traversals_delete_in_order:
  assumes L: "heap_lists h L" and c: "L c = Some (us @ x # vs)"
  shows "(\<exists>h'. list_for_each_node_safe snd c log_and_del ([], h) = Some (us @ x # vs, h') \<and> left_with h' L c [] (us @ x # vs))
    \<and> (\<exists>h'. list_for_each_entry_safe snd c log_and_del ([], h) = Some (us @ x # vs, h') \<and> left_with h' L c [] (us @ x # vs))
    \<and> (\<exists>h'. list_for_each_prev_safe snd c log_and_del ([], h) = Some (rev (us @ x # vs), h') \<and> left_with h' L c [] (us @ x # vs))
    \<and> (\<exists>h'. list_for_each_entry_safe_reverse snd c log_and_del ([], h) = Some (rev (us @ x # vs), h') \<and> left_with h' L c [] (us @ x # vs))
    \<and> (\<exists>h'. list_for_each_entry_safe_from snd c log_and_del x ([], h) = Some (x # vs, h') \<and> left_with h' L c us (x # vs))
    \<and> (\<exists>h'. list_for_each_entry_safe_continue snd c log_and_del x ([], h) = Some (vs, h') \<and> left_with h' L c (us @ [x]) vs)"
proof (intro conjI)
  let ?xs = "us @ x # vs" and ?M = "\<lambda>a. map_option rev (L a)"
  have d: "direction (\<lambda>h. h)" "direction mirror" by (simp_all add: direction_def)
  have M: "heap_lists (mirror h) ?M" "?M c = Some ([] @ rev ?xs)" using lists_mirror[OF L] c by simp_all
  have nx: "\<exists>n. read_next (hd (r @ [c])) h = Some n" if "L c = Some (u @ r)" for u r
    using that list_first_family[OF L that] list_neighbours(2)[OF L, of c u "hd r" "tl r"] by (cases r) auto
  have fwd: "\<exists>n h'. read_next (hd (r @ [c])) h = Some n \<and> list_for_each_safe snd log_and_del c (hd (r @ [c])) n ([], h) = Some (r, h')
      \<and> left_with h' L c u r" if u: "L c = Some (u @ r)" for u r
    using nx[OF u] removes_from[OF d(1) L u] by (auto simp: left_with_def)
  obtain n h' where b: "read_prev (last (c # ?xs)) h = Some n"
      "safe_back_prefetch snd log_and_del c (last (c # ?xs)) n ([], h) = Some (rev ?xs, h')"
      "safe_back_loop snd log_and_del c (last (c # ?xs)) n ([], h) = Some (rev ?xs, h')" "left_with h' L c [] ?xs"
  proof -
    have "last (c # ?xs) \<in> dom h" using ring_dom[OF listsD(2)[OF L c], of "last (c # ?xs)"] last_in_set[of "c # ?xs"] by blast
    then obtain n where n: "read_prev (last (c # ?xs)) h = Some n" by (auto simp: read_prev_def)
    obtain h' where h: "list_for_each_safe (\<lambda>s. mirror (snd s)) log_and_del c (last (c # ?xs)) n ([], h) = Some (rev ?xs, h')"
        "heap_lists (mirror h') (\<lambda>a. if a = c then Some [] else if a \<in> set (rev ?xs) then Some [] else ?M a)"
        "safe_back_prefetch snd log_and_del c (last (c # ?xs)) n ([], h) = Some (rev ?xs, h')"
      using removes_from[OF d(2) M, of n] n unfolding hd_rev_end mirror_simps by blast
    have "(\<lambda>a. map_option rev (if a = c then Some [] else if a \<in> set (rev ?xs) then Some [] else ?M a))
        = (\<lambda>a. if a = c then Some [] else if a \<in> set ?xs then Some [] else L a)"
      by (auto simp: fun_eq_iff option.map_comp comp_def option.map_ident)
    then have "left_with h' L c [] ?xs" using lists_unmirror[OF h(2)] by (simp add: left_with_def)
    then show ?thesis using that[OF n h(3) safe_back_forward[OF h(1)]] by blast
  qed
  show "\<exists>h'. list_for_each_prev_safe snd c log_and_del ([], h) = Some (rev ?xs, h') \<and> left_with h' L c [] ?xs"
    "\<exists>h'. list_for_each_entry_safe_reverse snd c log_and_del ([], h) = Some (rev ?xs, h') \<and> left_with h' L c [] ?xs"
    using b list_last_family[OF L c] by (simp_all add: list_for_each_prev_safe_def list_for_each_entry_safe_reverse_def del: last.simps)
  show "\<exists>h'. list_for_each_node_safe snd c log_and_del ([], h) = Some (?xs, h') \<and> left_with h' L c [] ?xs"
    "\<exists>h'. list_for_each_entry_safe snd c log_and_del ([], h) = Some (?xs, h') \<and> left_with h' L c [] ?xs"
    using fwd[of "[]" ?xs] c list_first_family[OF L c]
    by (auto simp: list_for_each_node_safe_def list_for_each_entry_safe_def simp del: hd_append2)
  show "\<exists>h'. list_for_each_entry_safe_from snd c log_and_del x ([], h) = Some (x # vs, h') \<and> left_with h' L c us (x # vs)"
    using fwd[of us "x # vs"] c by (auto simp: list_for_each_entry_safe_from_def)
  show "\<exists>h'. list_for_each_entry_safe_continue snd c log_and_del x ([], h) = Some (vs, h') \<and> left_with h' L c (us @ [x]) vs"
    using fwd[of "us @ [x]" vs] c list_neighbours(2)[OF L c] by (auto simp: list_for_each_entry_safe_continue_def)
qed

theorem list_traversals_visit_in_order_witness:
  "do { h \<leftarrow> do_list_calls [L_add_tail 2 1, L_add_tail 3 1] three_cells; list_for_each_entry_reverse snd 1 log_only ([], h) }
   = do { h \<leftarrow> do_list_calls [L_add_tail 2 1, L_add_tail 3 1] three_cells; Some ([3, 2], h) }"
proof -
  obtain h L where h: "do_list_calls [L_add_tail 2 1, L_add_tail 3 1] three_cells = Some h" "heap_lists h L" "L 1 = Some [2, 3]"
    by (rule two_listed)
  then show ?thesis using list_traversals_visit_in_order[OF h(2), of 1 "[]" 2 "[3]"] by simp
qed

theorem list_traversals_delete_in_order_witness:
  "\<exists>h'. do { h \<leftarrow> do_list_calls [L_add_tail 2 1, L_add_tail 3 1] three_cells;
             list_for_each_entry_safe_continue snd 1 log_and_del 2 ([], h) } = Some ([3], h') \<and> list_empty 1 h' = Some False"
proof -
  obtain h L where h: "do_list_calls [L_add_tail 2 1, L_add_tail 3 1] three_cells = Some h" "heap_lists h L" "L 1 = Some [2, 3]"
    by (rule two_listed)
  obtain h' where d: "list_for_each_entry_safe_continue snd 1 log_and_del 2 ([], h) = Some ([3], h')" "left_with h' L 1 [2] [3]"
    using list_traversals_delete_in_order[OF h(2), of 1 "[]" 2 "[3]"] h(3) by auto
  have "list_empty 1 h' = Some ([2 :: addr] = [])" using d(2) unfolding left_with_def by (rule list_empty_family) simp
  then show ?thesis using h(1) d(1) by simp
qed

end
